(* ===== verification/Prelude.thy ===== *)
theory Prelude
  imports Main "HOL-Library.Word" "HOL-Library.Monad_Syntax"
begin

unbundle bit_operations_syntax

text \<open>
  Shared vocabulary of the development: the machine types of the C sources, byte buffers with
  bounds-checked access, big- and little-endian encodings, and the generic lemmas and fact
  collections the component theories use.

  C memory is a byte list of fixed length. Every read or write of the source that could leave its
  buffer goes through \<open>rd\<close>, \<open>rd_range\<close> or \<open>wr_range\<close>, whose result
  \<open>None\<close> is undefined behaviour. A definition of type \<open>\<dots> option\<close> that is built from
  them returns \<open>None\<close> exactly when the C code would touch memory outside an object, and the
  memory-safety theorems say that it never does.
\<close>

section \<open>Machine types\<close>

type_synonym u8 = "8 word"
type_synonym u16 = "16 word"
type_synonym u32 = "32 word"
type_synonym u64 = "64 word"
type_synonym bytes = "u8 list"

named_theorems buf_simps "length and access facts of byte buffers"
named_theorems code_defs "definitions of status words, sizes and result codes"
named_theorems mask_defs "definitions of bit masks and security levels"
named_theorems pool_simps "facts about the statically allocated pools"
named_theorems safe_simps "well-definedness facts: results that are never undefined behaviour"

text \<open>\<open>size_t\<close> subtraction wraps at the 64-bit width of the target.\<close>

definition size_sub :: "nat \<Rightarrow> nat \<Rightarrow> nat" where
  "size_sub a b = (2 ^ 64 + a - b) mod 2 ^ 64"

lemma size_sub_le:
  assumes "b \<le> a" and "a < 2 ^ 64"
  shows "size_sub a b = a - b"
proof -
  have "2 ^ 64 + a - b = (a - b) + 2 ^ 64" using assms(1) by simp
  then have "size_sub a b = ((a - b) + 2 ^ 64) mod 2 ^ 64" by (simp only: size_sub_def)
  also have "\<dots> = (a - b) mod 2 ^ 64" by (rule mod_add_self2)
  finally show ?thesis using assms(2) by simp
qed

section \<open>Buffers\<close>

definition rd :: "'a list \<Rightarrow> nat \<Rightarrow> 'a option" where
  "rd b i = (if i < length b then Some (b ! i) else None)"

definition rd_range :: "'a list \<Rightarrow> nat \<Rightarrow> nat \<Rightarrow> 'a list option" where
  "rd_range b off n = (if off + n \<le> length b then Some (take n (drop off b)) else None)"

definition wr_range :: "'a list \<Rightarrow> nat \<Rightarrow> 'a list \<Rightarrow> 'a list option" where
  "wr_range b off d =
     (if off + length d \<le> length b then Some (take off b @ d @ drop (off + length d) b) else None)"

lemma rd_Some [buf_simps, simp]: "i < length b \<Longrightarrow> rd b i = Some (b ! i)"
  by (simp add: rd_def)

lemma rd_None [buf_simps, simp]: "length b \<le> i \<Longrightarrow> rd b i = None"
  by (simp add: rd_def)

lemma rd_range_Some [buf_simps, simp]: "off + n \<le> length b \<Longrightarrow> rd_range b off n = Some (take n (drop off b))"
  by (simp add: rd_range_def)

lemma rd_range_eq_Some: "rd_range b off n = Some d \<longleftrightarrow> off + n \<le> length b \<and> d = take n (drop off b)"
  by (auto simp: rd_range_def)

lemma rd_range_length: "rd_range b off n = Some d \<Longrightarrow> length d = n"
  by (auto simp: rd_range_def split: if_splits)

lemma wr_range_Some [buf_simps]:
  "off + length d \<le> length b \<Longrightarrow> wr_range b off d = Some (take off b @ d @ drop (off + length d) b)"
  by (simp add: wr_range_def)

lemma wr_range_length: "wr_range b off d = Some b' \<Longrightarrow> length b' = length b"
  by (auto simp: wr_range_def split: if_splits)

lemma wr_range_def_iff: "(\<exists>b'. wr_range b off d = Some b') \<longleftrightarrow> off + length d \<le> length b"
  by (auto simp: wr_range_def)

text \<open>What is written is what is read back, and the bytes outside the written range stay.\<close>

lemma rd_range_wr_same:
  "wr_range b off d = Some b' \<Longrightarrow> rd_range b' off (length d) = Some d"
  by (auto simp: wr_range_def rd_range_def split: if_splits)

lemma wr_range_nth_outside:
  assumes "wr_range b off d = Some b'" and "i < off \<or> off + length d \<le> i" and "i < length b"
  shows "b' ! i = b ! i"
  using assms by (auto simp: wr_range_def nth_append split: if_splits)

lemma wr_range_nth_inside:
  assumes "wr_range b off d = Some b'" and "off \<le> i" and "i < off + length d"
  shows "b' ! i = d ! (i - off)"
  using assms by (auto simp: wr_range_def nth_append split: if_splits)

lemma wr_range_take:
  assumes "wr_range b off d = Some b'" and "n = off + length d"
  shows "take n b' = take off b @ d"
proof -
  from assms(1) have "off + length d \<le> length b"
    and "b' = (take off b @ d) @ drop (off + length d) b"
    by (auto simp: wr_range_def split: if_splits)
  with assms(2) show ?thesis by simp
qed

lemma wr_range_prefix:
  "length d \<le> length b \<Longrightarrow> wr_range b 0 d = Some (d @ drop (length d) b)"
  by (simp add: wr_range_def)

section \<open>Option as the undefined-behaviour monad\<close>

lemma bind_eq_SomeE:
  assumes "Option.bind m f = Some y"
  obtains x where "m = Some x" and "f x = Some y"
  using assms by (cases m) auto

lemma bind_Some_iff: "Option.bind m f = Some y \<longleftrightarrow> (\<exists>x. m = Some x \<and> f x = Some y)"
  by (cases m) auto

section \<open>Scanning an array for the first match\<close>

text \<open>
  The loops of the form \<^verbatim>\<open>for (i = 0; i < N; i++) if (P(a[i])) return i;\<close> over the static pools.
\<close>

primrec find_first :: "('a \<Rightarrow> bool) \<Rightarrow> 'a list \<Rightarrow> nat option" where
  "find_first P [] = None"
| "find_first P (x # xs) = (if P x then Some 0 else map_option Suc (find_first P xs))"

lemma find_first_None [pool_simps]: "find_first P xs = None \<longleftrightarrow> (\<forall>x \<in> set xs. \<not> P x)"
  by (induction xs) auto

lemma find_first_Some:
  "find_first P xs = Some i \<longleftrightarrow> i < length xs \<and> P (xs ! i) \<and> (\<forall>j < i. \<not> P (xs ! j))"
proof (induction xs arbitrary: i)
  case Nil
  then show ?case by simp
next
  case (Cons x xs)
  show ?case
  proof (cases i)
    case 0
    then show ?thesis by auto
  next
    case (Suc k)
    then show ?thesis using Cons.IH [of k] by (auto simp: All_less_Suc2)
  qed
qed

lemma find_first_SomeD:
  assumes "find_first P xs = Some i"
  shows "i < length xs" and "P (xs ! i)" and "\<And>j. j < i \<Longrightarrow> \<not> P (xs ! j)"
  using assms by (auto simp: find_first_Some)

lemma find_first_exists: "x \<in> set xs \<Longrightarrow> P x \<Longrightarrow> \<exists>i. find_first P xs = Some i"
  by (metis find_first_None not_Some_eq)

section \<open>Generic list lemmas\<close>

lemma take_Suc_nth: "n < length xs \<Longrightarrow> take (Suc n) xs = take n xs @ [xs ! n]"
  by (rule take_Suc_conv_app_nth)

lemma list_update_idle: "i < length xs \<Longrightarrow> xs ! i = x \<Longrightarrow> xs[i := x] = xs"
  by auto

lemma list4: "length xs = 4 \<Longrightarrow> xs = [xs ! 0, xs ! 1, xs ! 2, xs ! 3]"
  by (auto simp: numeral_eq_Suc length_Suc_conv)

lemma list2: "length xs = 2 \<Longrightarrow> xs = [xs ! 0, xs ! 1]"
  by (auto simp: numeral_eq_Suc length_Suc_conv)

lemma list8:
  "length xs = 8 \<Longrightarrow>
   xs = [xs ! 0, xs ! 1, xs ! 2, xs ! 3, xs ! 4, xs ! 5, xs ! 6, xs ! 7]"
  by (auto simp: numeral_eq_Suc length_Suc_conv)

lemma map2_xor_cancel:
  fixes xs ks :: "'a::len word list"
  assumes "length xs \<le> length ks"
  shows "map2 (XOR) ks (map2 (XOR) ks xs) = xs"
  using assms
proof (induction xs arbitrary: ks)
  case Nil
  then show ?case by simp
next
  case (Cons x xs)
  then obtain k ks' where "ks = k # ks'" by (cases ks) auto
  with Cons show ?case by (simp flip: xor.assoc)
qed

end
