(* ===== verification/Endian.thy ===== *)
theory Endian
  imports Prelude
begin

unbundle bit_operations_syntax

text \<open>
  Multi-byte integers on the wire. The big-endian writers are the \<open>put_u16\<close>, \<open>put_u32\<close>
  and \<open>put_u64\<close> helpers of the handlers (src/src/asyd/handlers), the big-endian readers the
  shift-and-or expressions of the handlers and of asyd.c. The interface \<open>byte_codec\<close> states
  what a fixed-width encoding promises; each pair of reader and writer is an interpretation.
\<close>

section \<open>The interface of a fixed-width encoding\<close>

locale byte_codec =
  fixes width :: nat
    and enc :: "'a \<Rightarrow> bytes"
    and dec :: "bytes \<Rightarrow> 'a"
  assumes enc_length: "length (enc x) = width"
    and dec_enc: "dec (enc x) = x"
    and enc_dec: "length bs = width \<Longrightarrow> enc (dec bs) = bs"
begin

lemma enc_inject: "enc x = enc y \<longleftrightarrow> x = y"
  by (metis dec_enc)

lemma dec_inject: "length as = width \<Longrightarrow> length bs = width \<Longrightarrow> dec as = dec bs \<longleftrightarrow> as = bs"
  by (metis enc_dec)

lemma dec_take_enc: "dec (take width (enc x @ rest)) = x"
  by (simp add: enc_length dec_enc)

lemma dec_at_wr:
  assumes "wr_range b off (enc x) = Some b'"
  shows "dec (take width (drop off b')) = x"
proof -
  have "rd_range b' off (length (enc x)) = Some (enc x)"
    using assms by (rule rd_range_wr_same)
  then have "take width (drop off b') = enc x" by (simp add: rd_range_eq_Some enc_length)
  then show ?thesis by (simp add: dec_enc)
qed

end

section \<open>Big-endian integers\<close>

definition put_u16 :: "u16 \<Rightarrow> bytes" where
  "put_u16 v = [ucast (drop_bit 8 v), ucast (v AND 0xFF)]"

definition put_u32 :: "u32 \<Rightarrow> bytes" where
  "put_u32 v = [ucast (drop_bit 24 v), ucast (drop_bit 16 v), ucast (drop_bit 8 v), ucast (v AND 0xFF)]"

definition put_u64 :: "u64 \<Rightarrow> bytes" where
  "put_u64 v =
     [ucast (drop_bit 56 v), ucast (drop_bit 48 v), ucast (drop_bit 40 v), ucast (drop_bit 32 v),
      ucast (drop_bit 24 v), ucast (drop_bit 16 v), ucast (drop_bit 8 v), ucast (v AND 0xFF)]"

definition be16 :: "u8 \<Rightarrow> u8 \<Rightarrow> u16" where
  "be16 a b = push_bit 8 (ucast a) OR ucast b"

definition be32 :: "u8 \<Rightarrow> u8 \<Rightarrow> u8 \<Rightarrow> u8 \<Rightarrow> u32" where
  "be32 a b c d = push_bit 24 (ucast a) OR push_bit 16 (ucast b) OR push_bit 8 (ucast c) OR ucast d"

definition get_u16 :: "bytes \<Rightarrow> u16" where
  "get_u16 bs = be16 (bs ! 0) (bs ! 1)"

definition get_u32 :: "bytes \<Rightarrow> u32" where
  "get_u32 bs = be32 (bs ! 0) (bs ! 1) (bs ! 2) (bs ! 3)"

definition get_u64 :: "bytes \<Rightarrow> u64" where
  "get_u64 bs = push_bit 32 (ucast (get_u32 (take 4 bs))) OR ucast (get_u32 (drop 4 bs))"

lemma and_0xFF: "(v :: 'a::len word) AND 0xFF = take_bit 8 v"
  by (simp add: take_bit_eq_mask mask_eq_exp_minus_1)

lemma put_u16_length [buf_simps, simp]: "length (put_u16 v) = 2"
  by (simp add: put_u16_def)

lemma put_u32_length [buf_simps, simp]: "length (put_u32 v) = 4"
  by (simp add: put_u32_def)

lemma put_u64_length [buf_simps, simp]: "length (put_u64 v) = 8"
  by (simp add: put_u64_def)

lemma be16_parts: "be16 (ucast (drop_bit 8 v)) (ucast (v AND 0xFF)) = v"
  unfolding be16_def and_0xFF
  by (rule bit_word_eqI) (auto simp: bit_simps)

lemma be32_parts:
  "be32 (ucast (drop_bit 24 v)) (ucast (drop_bit 16 v)) (ucast (drop_bit 8 v)) (ucast (v AND 0xFF)) = v"
  unfolding be32_def and_0xFF
proof (rule bit_word_eqI)
  fix n assume "n < LENGTH(32)"
  then consider "n < 8" | "8 \<le> n" "n < 16" | "16 \<le> n" "n < 24" | "24 \<le> n" "n < 32"
    by (simp, linarith)
  then show "bit (push_bit 24 (ucast (ucast (drop_bit 24 v) :: u8)) OR
      push_bit 16 (ucast (ucast (drop_bit 16 v) :: u8)) OR
      push_bit 8 (ucast (ucast (drop_bit 8 v) :: u8)) OR
      ucast (ucast (take_bit 8 v) :: u8) :: u32) n = bit v n"
    by cases (auto simp: bit_simps)
qed

lemma be16_high [simp]: "ucast (drop_bit 8 (be16 a b)) = a"
  unfolding be16_def by (rule bit_word_eqI) (auto simp: bit_simps dest: bit_imp_le_length)

lemma be16_low [simp]: "ucast (be16 a b AND 0xFF) = b"
  unfolding be16_def and_0xFF by (rule bit_word_eqI) (auto simp: bit_simps dest: bit_imp_le_length)

lemma be32_byte0 [simp]: "ucast (drop_bit 24 (be32 a b c d)) = a"
  unfolding be32_def by (rule bit_word_eqI) (auto simp: bit_simps dest: bit_imp_le_length)

lemma be32_byte1 [simp]: "ucast (drop_bit 16 (be32 a b c d)) = b"
  unfolding be32_def by (rule bit_word_eqI) (auto simp: bit_simps dest: bit_imp_le_length)

lemma be32_byte2 [simp]: "ucast (drop_bit 8 (be32 a b c d)) = c"
  unfolding be32_def by (rule bit_word_eqI) (auto simp: bit_simps dest: bit_imp_le_length)

lemma be32_byte3 [simp]: "ucast (be32 a b c d AND 0xFF) = d"
  unfolding be32_def and_0xFF by (rule bit_word_eqI) (auto simp: bit_simps dest: bit_imp_le_length)

lemma get_put_u16: "get_u16 (put_u16 v) = v"
  by (simp add: get_u16_def put_u16_def be16_parts)

lemma get_put_u32: "get_u32 (put_u32 v) = v"
  by (simp add: get_u32_def put_u32_def be32_parts)

lemma put_get_u16: "length bs = 2 \<Longrightarrow> put_u16 (get_u16 bs) = bs"
  by (simp add: get_u16_def put_u16_def) (use list2 [of bs] in simp)

lemma put_get_u32: "length bs = 4 \<Longrightarrow> put_u32 (get_u32 bs) = bs"
  by (simp add: get_u32_def put_u32_def) (use list4 [of bs] in simp)

text \<open>The 64-bit writer is two 32-bit writers, high half first.\<close>

lemma put_u64_split:
  "put_u64 v = put_u32 (ucast (drop_bit 32 v)) @ put_u32 (ucast v)"
  unfolding put_u64_def put_u32_def and_0xFF
  by (auto simp: bit_eq_iff bit_simps)

lemma u64_halves: "push_bit 32 (ucast (ucast (drop_bit 32 v) :: u32)) OR ucast (ucast v :: u32) = v"
  for v :: u64
proof (rule bit_word_eqI)
  fix n assume "n < LENGTH(64)"
  then consider "n < 32" | "32 \<le> n" "n < 64" by (simp, linarith)
  then show "bit (push_bit 32 (ucast (ucast (drop_bit 32 v) :: u32)) OR ucast (ucast v :: u32) :: u64) n = bit v n"
    by cases (auto simp: bit_simps)
qed

lemma u64_high: "ucast (drop_bit 32 (push_bit 32 (ucast (a :: u32)) OR ucast (b :: u32) :: u64)) = a"
  by (rule bit_word_eqI) (auto simp: bit_simps dest: bit_imp_le_length)

lemma u64_low: "ucast (push_bit 32 (ucast (a :: u32)) OR ucast (b :: u32) :: u64) = b"
  by (rule bit_word_eqI) (auto simp: bit_simps dest: bit_imp_le_length)

lemma get_put_u64: "get_u64 (put_u64 v) = v"
  by (simp add: get_u64_def put_u64_split get_put_u32 u64_halves)

lemma put_get_u64: "length bs = 8 \<Longrightarrow> put_u64 (get_u64 bs) = bs"
  unfolding get_u64_def put_u64_split u64_high u64_low by (simp add: put_get_u32)

interpretation be16: byte_codec 2 put_u16 get_u16
  by unfold_locales (simp_all add: get_put_u16 put_get_u16)

interpretation be32: byte_codec 4 put_u32 get_u32
  by unfold_locales (simp_all add: get_put_u32 put_get_u32)

interpretation be64: byte_codec 8 put_u64 get_u64
  by unfold_locales (simp_all add: get_put_u64 put_get_u64)

end
