(* ===== verification/MonoUtil.thy ===== *)
theory MonoUtil
  imports Endian
begin

unbundle bit_operations_syntax

text \<open>
  The utilities of the vendored crypto library (src/src/asyd/core/monocypher.c, section
  "Utilities"): little-endian loads and stores, rotations, the constant-time comparisons and the
  secure wipe. Arrays are byte lists of the length the C declarations give.
\<close>

definition gap :: "nat \<Rightarrow> nat \<Rightarrow> nat" where
  "gap x pow_2 = unat ((NOT (of_nat x :: u64) + 1) AND (of_nat pow_2 - 1))"

definition load32_le :: "bytes \<Rightarrow> u32" where
  "load32_le s = ucast (s ! 0) OR push_bit 8 (ucast (s ! 1)) OR push_bit 16 (ucast (s ! 2)) OR
     push_bit 24 (ucast (s ! 3))"

definition load64_le :: "bytes \<Rightarrow> u64" where
  "load64_le s = ucast (load32_le s) OR push_bit 32 (ucast (load32_le (drop 4 s)))"

definition store32_le :: "u32 \<Rightarrow> bytes" where
  "store32_le v = [ucast (v AND 0xff), ucast (drop_bit 8 v AND 0xff), ucast (drop_bit 16 v AND 0xff),
     ucast (drop_bit 24 v AND 0xff)]"

definition store64_le :: "u64 \<Rightarrow> bytes" where
  "store64_le v = store32_le (ucast v) @ store32_le (ucast (drop_bit 32 v))"

definition load32_le_buf :: "bytes \<Rightarrow> nat \<Rightarrow> u32 list" where
  "load32_le_buf src n = map (\<lambda>i. load32_le (drop (i * 4) src)) [0..<n]"

definition load64_le_buf :: "bytes \<Rightarrow> nat \<Rightarrow> u64 list" where
  "load64_le_buf src n = map (\<lambda>i. load64_le (drop (i * 8) src)) [0..<n]"

definition store32_le_buf :: "u32 list \<Rightarrow> nat \<Rightarrow> bytes" where
  "store32_le_buf src n = concat (map (\<lambda>i. store32_le (src ! i)) [0..<n])"

definition store64_le_buf :: "u64 list \<Rightarrow> nat \<Rightarrow> bytes" where
  "store64_le_buf src n = concat (map (\<lambda>i. store64_le (src ! i)) [0..<n])"

definition rotr64 :: "u64 \<Rightarrow> nat \<Rightarrow> u64" where
  "rotr64 x n = drop_bit n x XOR push_bit (64 - n) x"

definition rotl32 :: "u32 \<Rightarrow> nat \<Rightarrow> u32" where
  "rotl32 x n = push_bit n x XOR drop_bit (32 - n) x"

definition neq0 :: "u64 \<Rightarrow> 32 word" where
  "neq0 diff =
     (let half = drop_bit 32 diff OR ucast (ucast diff :: u32)
      in ucast ((1 AND drop_bit 32 (half - 1)) - 1))"

definition x16 :: "bytes \<Rightarrow> bytes \<Rightarrow> u64" where
  "x16 a b = (load64_le a XOR load64_le b) OR (load64_le (drop 8 a) XOR load64_le (drop 8 b))"

definition x32 :: "bytes \<Rightarrow> bytes \<Rightarrow> u64" where
  "x32 a b = x16 a b OR x16 (drop 16 a) (drop 16 b)"

definition x64 :: "bytes \<Rightarrow> bytes \<Rightarrow> u64" where
  "x64 a b = x32 a b OR x32 (drop 32 a) (drop 32 b)"

text \<open>The comparisons return an \<open>int\<close>: 0 on equality, -1 otherwise.\<close>

definition crypto_verify16 :: "bytes \<Rightarrow> bytes \<Rightarrow> int" where
  "crypto_verify16 a b = sint (neq0 (x16 a b))"

definition crypto_verify32 :: "bytes \<Rightarrow> bytes \<Rightarrow> int" where
  "crypto_verify32 a b = sint (neq0 (x32 a b))"

definition crypto_verify64 :: "bytes \<Rightarrow> bytes \<Rightarrow> int" where
  "crypto_verify64 a b = sint (neq0 (x64 a b))"

definition crypto_wipe :: "bytes \<Rightarrow> nat \<Rightarrow> bytes" where
  "crypto_wipe secret n = replicate n 0 @ drop n secret"

text \<open>The number a little-endian byte string stands for.\<close>

primrec le_num :: "bytes \<Rightarrow> nat" where
  "le_num [] = 0"
| "le_num (b # bs) = unat b + 256 * le_num bs"

section \<open>Alignment\<close>

lemma gap_eq: "gap x (2 ^ k) = (2 ^ k - x mod 2 ^ k) mod 2 ^ k" if "k < 64"
proof -
  have m: "(of_nat (2 ^ k) - 1 :: u64) = mask k" by (simp add: mask_eq_exp_minus_1)
  have "NOT (of_nat x :: u64) + 1 = - of_nat x" by (simp add: minus_eq_not_plus_1)
  then have "gap x (2 ^ k) = unat (take_bit k (- of_nat x :: u64))"
    by (simp add: gap_def take_bit_eq_mask mask_eq_exp_minus_1)
  also have "\<dots> = nat (take_bit k (uint (- of_nat x :: u64)))"
    by (simp add: unsigned_take_bit_eq flip: nat_uint_eq)
  also have "\<dots> = nat (take_bit k (take_bit 64 (- int x)))"
    using uint_word_of_int_eq [of "- int x", where 'a = 64] by simp
  also have "\<dots> = nat ((- int x) mod 2 ^ k)"
    using that by (simp only: take_bit_eq_mod mod_mod_cancel le_imp_power_dvd less_imp_le)
  also have "\<dots> = (2 ^ k - x mod 2 ^ k) mod 2 ^ k"
  proof -
    have "(- int x) mod 2 ^ k = (2 ^ k - int x mod 2 ^ k) mod 2 ^ k"
      by (metis diff_0 diff_self mod_diff_left_eq mod_diff_right_eq mod_self)
    also have "\<dots> = int ((2 ^ k - x mod 2 ^ k) mod 2 ^ k)"
      by (simp add: zmod_int of_nat_diff less_imp_le)
    finally show ?thesis by simp
  qed
  finally show ?thesis .
qed

lemma gap16: "gap x 16 = (16 - x mod 16) mod 16"
  using gap_eq [of 4 x] by simp

lemma gap8: "gap x 8 = (8 - x mod 8) mod 8"
  using gap_eq [of 3 x] by simp

lemma gap128: "gap x 128 = (128 - x mod 128) mod 128"
  using gap_eq [of 7 x] by simp

section \<open>Little-endian codecs\<close>

lemma store32_le_length [buf_simps, simp]: "length (store32_le v) = 4"
  by (simp add: store32_le_def)

lemma store64_le_length [buf_simps, simp]: "length (store64_le v) = 8"
  by (simp add: store64_le_def)

lemma load32_be: "load32_le s = be32 (s ! 3) (s ! 2) (s ! 1) (s ! 0)"
  by (simp add: load32_le_def be32_def ac_simps)

lemma store32_be: "store32_le v = rev (put_u32 v)"
  unfolding store32_le_def put_u32_def and_0xFF by (auto simp: bit_eq_iff bit_simps)

lemma load_store32 [simp]: "load32_le (store32_le v) = v"
proof -
  have "load32_le (rev (put_u32 v)) = get_u32 (put_u32 v)"
    by (simp add: load32_be get_u32_def put_u32_def)
  then show ?thesis by (simp add: store32_be get_put_u32)
qed

lemma store_load32: "length s = 4 \<Longrightarrow> store32_le (load32_le s) = s"
proof -
  assume "length s = 4"
  then obtain a b c d where "s = [a, b, c, d]" using list4 by blast
  then show ?thesis by (simp add: store32_be load32_be put_u32_def)
qed

lemma load32_append: "4 \<le> length s \<Longrightarrow> load32_le (s @ t) = load32_le s"
  by (auto simp: load32_le_def nth_append)

lemma load32_take: "4 \<le> n \<Longrightarrow> load32_le (take n s) = load32_le s"
  by (simp add: load32_le_def)

lemma store32_inject: "store32_le a = store32_le b \<longleftrightarrow> a = b"
  by (metis load_store32)

lemma u64_low' [simp]: "ucast (ucast (a :: u32) OR push_bit 32 (ucast (b :: u32)) :: u64) = a"
  by (rule bit_word_eqI) (auto simp: bit_simps dest: bit_imp_le_length)

lemma u64_high' [simp]: "ucast (drop_bit 32 (ucast (a :: u32) OR push_bit 32 (ucast (b :: u32)) :: u64)) = b"
  by (rule bit_word_eqI) (auto simp: bit_simps dest: bit_imp_le_length)

lemma u64_halves': "ucast (ucast v :: u32) OR push_bit 32 (ucast (ucast (drop_bit 32 v) :: u32)) = v"
  for v :: u64
  using u64_halves [of v] by (simp only: or.commute)

lemma load_store64 [simp]: "load64_le (store64_le v) = v"
  by (simp add: load64_le_def store64_le_def load32_append u64_halves' del: unsigned_ucast_eq)

lemma store_load64: "length s = 8 \<Longrightarrow> store64_le (load64_le s) = s"
proof -
  assume s: "length s = 8"
  then have "store64_le (load64_le s) = store32_le (load32_le (take 4 s)) @ store32_le (load32_le (drop 4 s))"
    by (simp only: load64_le_def store64_le_def u64_low' u64_high' load32_take order_refl)
  also have "\<dots> = s" using s by (simp add: store_load32)
  finally show ?thesis .
qed

interpretation le32: byte_codec 4 store32_le load32_le
  by unfold_locales (simp_all add: store_load32)

interpretation le64: byte_codec 8 store64_le load64_le
  by unfold_locales (simp_all add: store_load64)

lemma load64_take: "8 \<le> n \<Longrightarrow> load64_le (take n s) = load64_le s"
  by (simp add: load64_le_def load32_take drop_take)

lemma load32_le_buf_length [buf_simps, simp]: "length (load32_le_buf s n) = n"
  by (simp add: load32_le_buf_def)

lemma load64_le_buf_length [buf_simps, simp]: "length (load64_le_buf s n) = n"
  by (simp add: load64_le_buf_def)

lemma store32_le_buf_length [buf_simps, simp]: "length (store32_le_buf s n) = 4 * n"
  by (simp add: store32_le_buf_def length_concat comp_def sum_list_triv)

lemma store64_le_buf_length [buf_simps, simp]: "length (store64_le_buf s n) = 8 * n"
  by (simp add: store64_le_buf_def length_concat comp_def sum_list_triv)

lemma load32_le_buf_nth [simp]: "i < n \<Longrightarrow> load32_le_buf s n ! i = load32_le (drop (i * 4) s)"
  by (simp add: load32_le_buf_def)

lemma load64_le_buf_nth [simp]: "i < n \<Longrightarrow> load64_le_buf s n ! i = load64_le (drop (i * 8) s)"
  by (simp add: load64_le_buf_def)

section \<open>Constant-time comparison\<close>

lemma word_or_zero: "a OR b = 0 \<longleftrightarrow> a = 0 \<and> b = 0" for a b :: "'a::len word"
  by (auto simp: bit_eq_iff bit_simps)

lemma word_xor_zero: "a XOR b = 0 \<longleftrightarrow> a = b" for a b :: "'a::len word"
  by (auto simp: bit_eq_iff bit_simps)

lemma halves_zero_iff: "drop_bit 32 d OR ucast (ucast d :: u32) = 0 \<longleftrightarrow> d = 0" for d :: u64
proof
  assume *: "drop_bit 32 d OR ucast (ucast d :: u32) = 0"
  show "d = 0"
  proof (rule bit_word_eqI)
    fix n assume n: "n < LENGTH(64)"
    have "bit (drop_bit 32 d OR ucast (ucast d :: u32)) (n - 32) = False"
      and "bit (drop_bit 32 d OR ucast (ucast d :: u32)) n = False" using * by simp_all
    then show "bit d n = bit 0 n" using n by (cases "n < 32") (auto simp: bit_simps)
  qed
qed simp

lemma half_bound: "unat (drop_bit 32 d OR ucast (ucast d :: u32)) < 2 ^ 32" for d :: u64
proof -
  let ?h = "drop_bit 32 d OR ucast (ucast d :: u32)"
  have "take_bit 32 ?h = ?h"
    by (rule bit_word_eqI) (auto simp: bit_simps dest: bit_imp_le_length)
  moreover have "unat (take_bit 32 ?h) = take_bit 32 (unat ?h)" by (rule unsigned_take_bit_eq)
  ultimately show ?thesis using take_bit_nat_less_exp [of 32 "unat ?h"] by simp
qed

lemma drop32_zero: "unat w < 2 ^ 32 \<Longrightarrow> drop_bit 32 w = 0" for w :: u64
proof -
  assume "unat w < 2 ^ 32"
  then have "drop_bit 32 (unat w) = 0" by (simp only: drop_bit_eq_div div_less)
  then show "drop_bit 32 w = 0" by (simp only: unat_drop_bit_eq flip: unat_eq_zero)
qed

lemma neq0_eq: "neq0 d = (if d = 0 then 0 else - 1)"
proof (cases "d = 0")
  case True
  moreover have "neq0 0 = 0" by code_simp
  ultimately show ?thesis by simp
next
  case False
  let ?h = "drop_bit 32 d OR ucast (ucast d :: u32)"
  have "?h \<noteq> 0" using False halves_zero_iff by blast
  then have "unat (?h - 1) = unat ?h - 1" by (simp add: unat_minus_one)
  also have "\<dots> < 2 ^ 32" using half_bound [of d] by linarith
  finally have "drop_bit 32 (?h - 1) = 0" by (rule drop32_zero)
  moreover have "ucast (- 1 :: u64) = (- 1 :: 32 word)" by code_simp
  ultimately show ?thesis using False by (simp add: neq0_def)
qed

lemma x16_zero_iff: "length a = 16 \<Longrightarrow> length b = 16 \<Longrightarrow> x16 a b = 0 \<longleftrightarrow> a = b"
proof -
  assume l: "length a = 16" "length b = 16"
  have "x16 a b = 0 \<longleftrightarrow> load64_le (take 8 a) = load64_le (take 8 b) \<and> load64_le (drop 8 a) = load64_le (drop 8 b)"
    by (simp add: x16_def load64_take word_or_zero word_xor_zero)
  also have "\<dots> \<longleftrightarrow> take 8 a = take 8 b \<and> drop 8 a = drop 8 b"
    using l by (simp add: le64.dec_inject)
  also have "\<dots> \<longleftrightarrow> a = b" by (metis append_take_drop_id)
  finally show ?thesis .
qed

lemma x16_take: "x16 (take 16 a) (take 16 b) = x16 a b"
  by (simp add: x16_def load64_take drop_take)

lemma x32_zero_iff: "length a = 32 \<Longrightarrow> length b = 32 \<Longrightarrow> x32 a b = 0 \<longleftrightarrow> a = b"
proof -
  assume l: "length a = 32" "length b = 32"
  have "x32 a b = 0 \<longleftrightarrow> x16 (take 16 a) (take 16 b) = 0 \<and> x16 (drop 16 a) (drop 16 b) = 0"
    by (simp add: x32_def x16_take word_or_zero)
  also have "\<dots> \<longleftrightarrow> take 16 a = take 16 b \<and> drop 16 a = drop 16 b"
    using l by (simp add: x16_zero_iff)
  also have "\<dots> \<longleftrightarrow> a = b" by (metis append_take_drop_id)
  finally show ?thesis .
qed

lemma x32_take: "x32 (take 32 a) (take 32 b) = x32 a b"
  using x16_take [of a b] x16_take [of "take 16 (drop 16 a)" "take 16 (drop 16 b)"]
    x16_take [of "take 32 a" "take 32 b"] x16_take [of "drop 16 a" "drop 16 b"]
  by (simp add: x32_def drop_take)

lemma x64_zero_iff: "length a = 64 \<Longrightarrow> length b = 64 \<Longrightarrow> x64 a b = 0 \<longleftrightarrow> a = b"
proof -
  assume l: "length a = 64" "length b = 64"
  have "x64 a b = 0 \<longleftrightarrow> x32 (take 32 a) (take 32 b) = 0 \<and> x32 (drop 32 a) (drop 32 b) = 0"
    by (simp add: x64_def x32_take word_or_zero)
  also have "\<dots> \<longleftrightarrow> take 32 a = take 32 b \<and> drop 32 a = drop 32 b"
    using l by (simp add: x32_zero_iff)
  also have "\<dots> \<longleftrightarrow> a = b" by (metis append_take_drop_id)
  finally show ?thesis .
qed

lemma sint_neq0: "sint (neq0 d) = (if d = 0 then 0 else - 1)"
  by (simp add: neq0_eq)

lemma verify16: "length a = 16 \<Longrightarrow> length b = 16 \<Longrightarrow> crypto_verify16 a b = (if a = b then 0 else - 1)"
  by (simp add: crypto_verify16_def sint_neq0 x16_zero_iff)

lemma verify32: "length a = 32 \<Longrightarrow> length b = 32 \<Longrightarrow> crypto_verify32 a b = (if a = b then 0 else - 1)"
  by (simp add: crypto_verify32_def sint_neq0 x32_zero_iff)

lemma verify64: "length a = 64 \<Longrightarrow> length b = 64 \<Longrightarrow> crypto_verify64 a b = (if a = b then 0 else - 1)"
  by (simp add: crypto_verify64_def sint_neq0 x64_zero_iff)

text \<open>The branch-free comparisons that guard every secret decide equality: on arrays of their
  size they return 0 exactly when all bytes agree and -1 otherwise, whatever the bytes are.\<close>

theorem crypto_verify_decides:
  "(length a16 = 16 \<longrightarrow> length b16 = 16 \<longrightarrow> crypto_verify16 a16 b16 = (if a16 = b16 then 0 else - 1)) \<and>
   (length a32 = 32 \<longrightarrow> length b32 = 32 \<longrightarrow> crypto_verify32 a32 b32 = (if a32 = b32 then 0 else - 1)) \<and>
   (length a64 = 64 \<longrightarrow> length b64 = 64 \<longrightarrow> crypto_verify64 a64 b64 = (if a64 = b64 then 0 else - 1))"
  by (simp add: verify16 verify32 verify64)

theorem crypto_verify_decides_witness:
  "crypto_verify16 (replicate 15 7 @ [1]) (replicate 16 7) = - 1 \<and>
   crypto_verify32 (replicate 32 7) (replicate 32 7) = 0 \<and>
   crypto_verify64 (5 # replicate 63 7) (replicate 64 7) = - 1"
proof -
  have "replicate 15 7 @ [1] \<noteq> (replicate 16 7 :: bytes)" "5 # replicate 63 7 \<noteq> (replicate 64 7 :: bytes)"
    by code_simp+
  then show ?thesis
    using crypto_verify_decides [of "replicate 15 7 @ [1]" "replicate 16 7" "replicate 32 7" "replicate 32 7"
    "5 # replicate 63 7" "replicate 64 7"]
    by simp
qed

end
