(* ===== verification/Poly1305.thy ===== *)
theory Poly1305
  imports MonoUtil
begin

unbundle bit_operations_syntax

text \<open>
  The one-time authenticator of src/src/asyd/core/monocypher.c, section "Poly 1305": 32-bit limbs,
  64-bit products, delayed carries and a partial reduction, fed incrementally through a 16-byte
  chunk. The reference definition is the polynomial over the integers modulo 2^130 - 5, and the
  theorem is that the code computes it, for any way of cutting the message into updates.
\<close>

record poly1305_ctx =
  pc_c :: bytes
  pc_c_idx :: nat
  pc_r :: "u32 list"
  pc_pad :: "u32 list"
  pc_h :: "u32 list"

text \<open>
  One round of the loop of \<^verbatim>\<open>poly_blocks\<close>. A product of two \<^verbatim>\<open>u32\<close> is a \<^verbatim>\<open>u32\<close> (the terms with
  \<open>s4\<close>), the other products are 64 bits wide.
\<close>

definition poly_block :: "u32 list \<Rightarrow> u32 \<Rightarrow> u32 list \<Rightarrow> bytes \<Rightarrow> u32 list" where
  "poly_block r end_bit h inp =
     (let r0 = r ! 0; r1 = r ! 1; r2 = r ! 2; r3 = r ! 3;
          rr0 = drop_bit 2 r0 * 5; rr1 = drop_bit 2 r1 + r1; rr2 = drop_bit 2 r2 + r2;
          rr3 = drop_bit 2 r3 + r3; rr4 = r0 AND 3;
          s0 = (ucast (h ! 0) + ucast (load32_le inp) :: u64);
          s1 = (ucast (h ! 1) + ucast (load32_le (drop 4 inp)) :: u64);
          s2 = (ucast (h ! 2) + ucast (load32_le (drop 8 inp)) :: u64);
          s3 = (ucast (h ! 3) + ucast (load32_le (drop 12 inp)) :: u64);
          s4 = h ! 4 + end_bit;
          x0 = s0 * ucast r0 + s1 * ucast rr3 + s2 * ucast rr2 + s3 * ucast rr1 + ucast (s4 * rr0);
          x1 = s0 * ucast r1 + s1 * ucast r0 + s2 * ucast rr3 + s3 * ucast rr2 + ucast (s4 * rr1);
          x2 = s0 * ucast r2 + s1 * ucast r1 + s2 * ucast r0 + s3 * ucast rr3 + ucast (s4 * rr2);
          x3 = s0 * ucast r3 + s1 * ucast r2 + s2 * ucast r1 + s3 * ucast r0 + ucast (s4 * rr3);
          x4 = s4 * rr4;
          u5 = (ucast (ucast x4 + drop_bit 32 x3) :: u32);
          u0 = ucast (drop_bit 2 u5 * 5) + (x0 AND 0xffffffff);
          u1 = drop_bit 32 u0 + (x1 AND 0xffffffff) + drop_bit 32 x0;
          u2 = drop_bit 32 u1 + (x2 AND 0xffffffff) + drop_bit 32 x1;
          u3 = drop_bit 32 u2 + (x3 AND 0xffffffff) + drop_bit 32 x2;
          u4 = (ucast (drop_bit 32 u3 + ucast (u5 AND 3)) :: u32)
      in [ucast (u0 AND 0xffffffff), ucast (u1 AND 0xffffffff), ucast (u2 AND 0xffffffff),
          ucast (u3 AND 0xffffffff), u4])"

primrec poly_loop :: "u32 list \<Rightarrow> u32 \<Rightarrow> nat \<Rightarrow> u32 list \<Rightarrow> bytes \<Rightarrow> u32 list" where
  "poly_loop r end_bit 0 h inp = h"
| "poly_loop r end_bit (Suc n) h inp = poly_loop r end_bit n (poly_block r end_bit h inp) (drop 16 inp)"

definition poly_blocks :: "poly1305_ctx \<Rightarrow> bytes \<Rightarrow> nat \<Rightarrow> u32 \<Rightarrow> poly1305_ctx" where
  "poly_blocks ctx inp nb_blocks end_bit =
     ctx\<lparr>pc_h := poly_loop (pc_r ctx) end_bit nb_blocks (pc_h ctx) inp\<rparr>"

definition crypto_poly1305_init :: "bytes \<Rightarrow> poly1305_ctx" where
  "crypto_poly1305_init key =
     (let r = load32_le_buf key 4
      in \<lparr>pc_c = replicate 16 0, pc_c_idx = 0,
          pc_r = [r ! 0 AND 0x0fffffff, r ! 1 AND 0x0ffffffc, r ! 2 AND 0x0ffffffc, r ! 3 AND 0x0ffffffc],
          pc_pad = load32_le_buf (drop 16 key) 4,
          pc_h = replicate 5 0\<rparr>)"

text \<open>The byte loop \<^verbatim>\<open>c[c_idx] = message[i]; c_idx++\<close>.\<close>

definition poly_push :: "poly1305_ctx \<Rightarrow> u8 \<Rightarrow> poly1305_ctx" where
  "poly_push ctx b = ctx\<lparr>pc_c := (pc_c ctx)[pc_c_idx ctx := b], pc_c_idx := pc_c_idx ctx + 1\<rparr>"

definition crypto_poly1305_update :: "poly1305_ctx \<Rightarrow> bytes \<Rightarrow> nat \<Rightarrow> poly1305_ctx" where
  "crypto_poly1305_update ctx message message_size =
     (if message_size = 0 then ctx
      else
        let aligned = min (gap (pc_c_idx ctx) 16) message_size;
            ctx = foldl poly_push ctx (take aligned message);
            message = drop aligned message;
            message_size = message_size - aligned;
            ctx = (if pc_c_idx ctx = 16
                   then (poly_blocks ctx (pc_c ctx) 1 1)\<lparr>pc_c_idx := 0\<rparr>
                   else ctx);
            nb_blocks = message_size div 16;
            ctx = poly_blocks ctx message nb_blocks 1;
            message = drop (nb_blocks * 16) message;
            message_size = message_size mod 16
        in foldl poly_push ctx (take message_size message))"

primrec poly_mac :: "(u32 \<times> u32) list \<Rightarrow> u64 \<Rightarrow> bytes" where
  "poly_mac [] c = []"
| "poly_mac (hp # rest) c =
     (let c = c + (ucast (fst hp) + ucast (snd hp))
      in store32_le (ucast c) @ poly_mac rest (drop_bit 32 c))"

definition crypto_poly1305_final :: "poly1305_ctx \<Rightarrow> bytes" where
  "crypto_poly1305_final ctx =
     (let ctx = (if pc_c_idx ctx \<noteq> 0
                 then poly_blocks ctx
                   ((take (pc_c_idx ctx) (pc_c ctx) @ replicate (16 - pc_c_idx ctx) 0)[pc_c_idx ctx := 1]) 1 0
                 else ctx);
          c = foldl (\<lambda>c i. drop_bit 32 (c + ucast (pc_h ctx ! i))) (5 :: u64) [0..<4];
          c = c + ucast (pc_h ctx ! 4);
          c = drop_bit 2 c * 5
      in poly_mac (zip (take 4 (pc_h ctx)) (pc_pad ctx)) c)"

definition crypto_poly1305 :: "bytes \<Rightarrow> nat \<Rightarrow> bytes \<Rightarrow> bytes" where
  "crypto_poly1305 message message_size key =
     crypto_poly1305_final (crypto_poly1305_update (crypto_poly1305_init key) message message_size)"

text \<open>The tag of the example of RFC 8439, section 2.5.2, by evaluation in the kernel.\<close>

lemma poly1305_rfc8439:
  "crypto_poly1305
     [0x43, 0x72, 0x79, 0x70, 0x74, 0x6f, 0x67, 0x72, 0x61, 0x70, 0x68, 0x69, 0x63, 0x20, 0x46, 0x6f, 0x72,
      0x75, 0x6d, 0x20, 0x52, 0x65, 0x73, 0x65, 0x61, 0x72, 0x63, 0x68, 0x20, 0x47, 0x72, 0x6f, 0x75, 0x70] 34
     [0x85, 0xd6, 0xbe, 0x78, 0x57, 0x55, 0x6d, 0x33, 0x7f, 0x44, 0x52, 0xfe, 0x42, 0xd5, 0x06, 0xa8,
      0x01, 0x03, 0x80, 0x8a, 0xfb, 0x0d, 0xb2, 0xfd, 0x4a, 0xbf, 0xf6, 0xaf, 0x41, 0x49, 0xf5, 0x1b] =
   [0xa8, 0x06, 0x1d, 0xc1, 0x30, 0x51, 0x36, 0xc6, 0xc2, 0x2b, 0x8b, 0xaf, 0x0c, 0x01, 0x27, 0xa9]"
  by code_simp

section \<open>The reference definition\<close>

definition poly_p :: nat where
  "poly_p = 2 ^ 130 - 5"

text \<open>Every block of at most 16 bytes is read little-endian with a 1 appended after its last byte.\<close>

function poly_acc :: "nat \<Rightarrow> nat \<Rightarrow> bytes \<Rightarrow> nat" where
  "poly_acc r a m =
     (if m = [] then a
      else poly_acc r ((a + le_num (take 16 m @ [1])) * r mod poly_p) (drop 16 m))"
  by pat_completeness auto
termination
  by (relation "measure (\<lambda>(r, a, m). length m)") auto

definition poly_clamp :: "bytes \<Rightarrow> nat" where
  "poly_clamp key = le_num (take 16 key) AND 0x0ffffffc0ffffffc0ffffffc0fffffff"

definition poly1305_spec :: "bytes \<Rightarrow> bytes \<Rightarrow> nat" where
  "poly1305_spec key m = (poly_acc (poly_clamp key) 0 m + le_num (take 16 (drop 16 key))) mod 2 ^ 128"

declare poly_acc.simps [simp del]

section \<open>Words that hold a known number\<close>

text \<open>\<open>fits w n b\<close>: the word holds the number \<open>n\<close>, which is at most \<open>b\<close>; so no operation wrapped.\<close>

definition fits :: "'a::len word \<Rightarrow> nat \<Rightarrow> nat \<Rightarrow> bool" where
  "fits w n b \<longleftrightarrow> unat w = n \<and> n \<le> b"

lemma fitsD: "fits w n b \<Longrightarrow> unat w = n" "fits w n b \<Longrightarrow> n \<le> b"
  by (simp_all add: fits_def)

lemma fits_weaken: "fits w n b' \<Longrightarrow> b' \<le> b \<Longrightarrow> fits w n b"
  by (simp add: fits_def)

lemma fits_add:
  fixes v w :: "'a::len word"
  assumes "fits v m a" and "fits w n b" and "a + b < 2 ^ LENGTH('a)"
  shows "fits (v + w) (m + n) (a + b)"
proof -
  have "unat v + unat w < 2 ^ LENGTH('a)" using assms by (simp add: fits_def)
  then have "unat (v + w) = unat v + unat w" by (simp add: unat_word_ariths(1))
  then show ?thesis using assms by (simp add: fits_def)
qed

lemma fits_mult:
  fixes v w :: "'a::len word"
  assumes "fits v m a" and "fits w n b" and "a * b < 2 ^ LENGTH('a)"
  shows "fits (v * w) (m * n) (a * b)"
proof -
  have le: "unat v * unat w \<le> a * b" using assms by (auto simp: fits_def intro: mult_le_mono)
  then have "unat v * unat w < 2 ^ LENGTH('a)" using assms(3) by simp
  then have "unat (v * w) = unat v * unat w" by (simp add: unat_word_ariths(2))
  then show ?thesis using assms le by (simp add: fits_def)
qed

lemma fits_ucast:
  fixes w :: "'a::len word"
  assumes "fits w n b" and "b < 2 ^ LENGTH('b)"
  shows "fits (ucast w :: 'b::len word) n b"
  using assms by (simp add: fits_def unsigned_ucast_eq take_bit_nat_eq_self)

lemma fits_drop: "fits w n b \<Longrightarrow> fits (drop_bit k w) (n div 2 ^ k) (b div 2 ^ k)"
proof -
  assume w: "fits w n b"
  have "unat (drop_bit k w) = unat w div 2 ^ k"
    by (rule trans [OF unat_drop_bit_eq drop_bit_eq_div])
  then show ?thesis using w by (simp add: fits_def div_le_mono)
qed

lemma fits_mask: "fits w n b \<Longrightarrow> fits (w AND mask k) (n mod 2 ^ k) (2 ^ k - 1)"
proof -
  assume w: "fits w n b"
  have "unat (take_bit k w) = unat w mod 2 ^ k"
    by (rule trans [OF unsigned_take_bit_eq take_bit_eq_mod])
  then have "unat (w AND mask k) = unat w mod 2 ^ k" by (simp only: take_bit_eq_mask)
  moreover have "unat w mod 2 ^ k \<le> 2 ^ k - 1"
    using mod_less_divisor [of "2 ^ k" "unat w"] by (simp add: less_eq_Suc_le)
  ultimately show ?thesis using w by (auto simp: fits_def)
qed

lemma fits_u32: "fits (w :: u32) (unat w) 0xffffffff"
  using unsigned_less [of w, where 'a = nat] by (simp add: fits_def)

lemma fits_five: "fits (5 :: u32) 5 5" "fits (5 :: u64) 5 5"
  by (simp_all add: fits_def)

lemma mask_lits: "(0xffffffff :: u64) = mask 32" "(3 :: u32) = mask 2"
  by (simp_all add: mask_eq_exp_minus_1)

section \<open>One block\<close>

primrec limbs :: "u32 list \<Rightarrow> nat" where
  "limbs [] = 0"
| "limbs (w # ws) = unat w + 2 ^ 32 * limbs ws"

text \<open>The products, with the high ones folded back by 2^130 = 5 modulo the prime.\<close>

lemma poly_products_nat:
  fixes s0 s1 s2 s3 s4 q0 t0 q1 q2 q3 :: nat
  defines "B \<equiv> 4294967296"
  assumes "r0 = 4 * q0 + t0" and "r1 = 4 * q1" and "r2 = 4 * q2" and "r3 = 4 * q3"
  shows "(s0 + B * s1 + B ^ 2 * s2 + B ^ 3 * s3 + B ^ 4 * s4) * (r0 + B * r1 + B ^ 2 * r2 + B ^ 3 * r3) =
    (s0 * r0 + s1 * (5 * q3) + s2 * (5 * q2) + s3 * (5 * q1) + s4 * (5 * q0)) +
    B * (s0 * r1 + s1 * r0 + s2 * (5 * q3) + s3 * (5 * q2) + s4 * (5 * q1)) +
    B ^ 2 * (s0 * r2 + s1 * r1 + s2 * r0 + s3 * (5 * q3) + s4 * (5 * q2)) +
    B ^ 3 * (s0 * r3 + s1 * r2 + s2 * r1 + s3 * r0 + s4 * (5 * q3)) +
    B ^ 4 * (s4 * t0) +
    poly_p * (s4 * q0 + s3 * q1 + s2 * q2 + s1 * q3 + B * (s4 * q1 + s3 * q2 + s2 * q3) +
      B ^ 2 * (s4 * q2 + s3 * q3) + B ^ 3 * (s4 * q3))"
  unfolding assms poly_p_def by (simp add: algebra_simps)

text \<open>The carries, with the part above 2^130 folded back.\<close>

lemma poly_carry_nat:
  fixes x0 x1 x2 x3 x4 :: nat
  defines "B \<equiv> 4294967296"
  assumes "u5 = x4 + x3 div B" and "u0 = u5 div 4 * 5 + x0 mod B"
    and "u1 = u0 div B + x1 mod B + x0 div B" and "u2 = u1 div B + x2 mod B + x1 div B"
    and "u3 = u2 div B + x3 mod B + x2 div B" and "u4 = u3 div B + u5 mod 4"
  shows "u0 mod B + B * (u1 mod B) + B ^ 2 * (u2 mod B) + B ^ 3 * (u3 mod B) + B ^ 4 * u4 +
      poly_p * (u5 div 4) = x0 + B * x1 + B ^ 2 * x2 + B ^ 3 * x3 + B ^ 4 * x4"
proof -
  define y0 y1 y2 y3 where "y0 = x0 div B" and "y1 = x1 div B" and "y2 = x2 div B" and "y3 = x3 div B"
  define a0 a1 a2 a3 where "a0 = x0 mod B" and "a1 = x1 mod B" and "a2 = x2 mod B" and "a3 = x3 mod B"
  define z0 z1 z2 z3 where "z0 = u0 div B" and "z1 = u1 div B" and "z2 = u2 div B" and "z3 = u3 div B"
  define c0 c1 c2 c3 where "c0 = u0 mod B" and "c1 = u1 mod B" and "c2 = u2 mod B" and "c3 = u3 mod B"
  define w t where "w = u5 div 4" and "t = u5 mod 4"
  note folds = y0_def [symmetric] y1_def [symmetric] y2_def [symmetric] y3_def [symmetric]
    a0_def [symmetric] a1_def [symmetric] a2_def [symmetric] a3_def [symmetric]
    z0_def [symmetric] z1_def [symmetric] z2_def [symmetric] z3_def [symmetric]
    c0_def [symmetric] c1_def [symmetric] c2_def [symmetric] c3_def [symmetric]
    w_def [symmetric] t_def [symmetric]
  have d: "a = a mod B + B * (a div B)" for a :: nat by simp
  have "t + 4 * w = x4 + y3" using assms(2) by (simp add: t_def w_def y3_def)
  moreover have "x0 = a0 + B * y0" "x1 = a1 + B * y1" "x2 = a2 + B * y2" "x3 = a3 + B * y3"
    using d [of x0] d [of x1] d [of x2] d [of x3] unfolding folds by blast+
  moreover have "c0 + B * z0 = w * 5 + a0" "c1 + B * z1 = z0 + a1 + y0" "c2 + B * z2 = z1 + a2 + y1"
    "c3 + B * z3 = z2 + a3 + y2"
    using d [of u0] d [of u1] d [of u2] d [of u3] assms(3-6) unfolding folds by simp_all
  ultimately show ?thesis
    unfolding assms(7) unfolding folds unfolding poly_p_def B_def by simp
qed

text \<open>The state a block starts from: a clamped multiplier and a partially reduced hash.\<close>

definition clamped :: "u32 list \<Rightarrow> bool" where
  "clamped r \<longleftrightarrow> length r = 4 \<and> unat (r ! 0) \<le> 0x0fffffff \<and>
     (\<forall>i \<in> {1, 2, 3}. unat (r ! i) \<le> 0x0ffffffc \<and> unat (r ! i) mod 4 = 0)"

definition reduced :: "u32 list \<Rightarrow> bool" where
  "reduced h \<longleftrightarrow> length h = 5 \<and> unat (h ! 4) \<le> 4"

definition block_num :: "bytes \<Rightarrow> nat" where
  "block_num inp = unat (load32_le inp) + 4294967296 * unat (load32_le (drop 4 inp)) +
     4294967296 ^ 2 * unat (load32_le (drop 8 inp)) + 4294967296 ^ 3 * unat (load32_le (drop 12 inp))"

lemma five_quarters:
  fixes r :: u32
  assumes "unat r mod 4 = 0" and "unat r \<le> 0x0ffffffc"
  shows "fits (drop_bit 2 r + r) (5 * (unat r div 4)) 0x13fffffb"
proof -
  have f: "fits r (unat r) 0x0ffffffc" using assms by (simp add: fits_def)
  have "fits (drop_bit 2 r + r) (unat r div 4 + unat r) (0x0ffffffc div 4 + 0x0ffffffc)"
    using fits_add [OF fits_drop [OF f, of 2] f] by simp
  moreover have "unat r div 4 + unat r = 5 * (unat r div 4)" using assms(1) by presburger
  ultimately show ?thesis by simp
qed

lemma product_row:
  assumes "fits s0 n0 0x1fffffffe" "fits s1 n1 0x1fffffffe" "fits s2 n2 0x1fffffffe" "fits s3 n3 0x1fffffffe"
    and "fits a0 m0 b0" "fits a1 m1 b1" "fits a2 m2 b2" "fits a3 m3 b3" "fits (t :: u64) m4 0x63ffffe7"
    and "b0 + b1 + b2 + b3 \<le> 0x4c000000"
  shows "fits (s0 * a0 + s1 * a1 + s2 * a2 + s3 * a3 + t :: u64)
    (n0 * m0 + n1 * m1 + n2 * m2 + n3 * m3 + m4) 0x9800000000000000"
proof (rule fits_weaken)
  have b: "0x1fffffffe * b0 + 0x1fffffffe * b1 + 0x1fffffffe * b2 + 0x1fffffffe * b3 + 0x63ffffe7
      \<le> (0x9800000000000000 :: nat)"
    using assms(10) by simp
  show "fits (s0 * a0 + s1 * a1 + s2 * a2 + s3 * a3 + t :: u64)
    (n0 * m0 + n1 * m1 + n2 * m2 + n3 * m3 + m4)
    (0x1fffffffe * b0 + 0x1fffffffe * b1 + 0x1fffffffe * b2 + 0x1fffffffe * b3 + 0x63ffffe7)"
    by (intro fits_add fits_mult assms) (use b in simp_all)
  show "0x1fffffffe * b0 + 0x1fffffffe * b1 + 0x1fffffffe * b2 + 0x1fffffffe * b3 + 0x63ffffe7
      \<le> (0x9800000000000000 :: nat)" by (rule b)
qed

text \<open>The second half of the loop body, on the five products.\<close>

lemma poly_carry_values:
  fixes v0 v1 v2 v3 :: u64 and v4 :: u32
  assumes x: "fits v0 x0 0x9800000000000000" "fits v1 x1 0x9800000000000000"
      "fits v2 x2 0x9800000000000000" "fits v3 x3 0x9800000000000000" "fits v4 x4 15"
    and n: "u5 = x4 + x3 div 4294967296" "u0 = u5 div 4 * 5 + x0 mod 4294967296"
      "u1 = u0 div 4294967296 + x1 mod 4294967296 + x0 div 4294967296"
      "u2 = u1 div 4294967296 + x2 mod 4294967296 + x1 div 4294967296"
      "u3 = u2 div 4294967296 + x3 mod 4294967296 + x2 div 4294967296"
      "u4 = u3 div 4294967296 + u5 mod 4"
  shows "map unat
      (let u5 = (ucast (ucast v4 + drop_bit 32 v3) :: u32);
           u0 = ucast (drop_bit 2 u5 * 5) + (v0 AND 0xffffffff);
           u1 = drop_bit 32 u0 + (v1 AND 0xffffffff) + drop_bit 32 v0;
           u2 = drop_bit 32 u1 + (v2 AND 0xffffffff) + drop_bit 32 v1;
           u3 = drop_bit 32 u2 + (v3 AND 0xffffffff) + drop_bit 32 v2;
           u4 = (ucast (drop_bit 32 u3 + ucast (u5 AND 3)) :: u32)
       in [ucast (u0 AND 0xffffffff), ucast (u1 AND 0xffffffff), ucast (u2 AND 0xffffffff),
           ucast (u3 AND 0xffffffff), u4]) =
      [u0 mod 4294967296, u1 mod 4294967296, u2 mod 4294967296, u3 mod 4294967296, u4]"
    and "u4 \<le> 4"
proof -
  define w5 where "w5 = (ucast (ucast v4 + drop_bit 32 v3) :: u32)"
  define w0 where "w0 = ucast (drop_bit 2 w5 * 5) + (v0 AND 0xffffffff)"
  define w1 where "w1 = drop_bit 32 w0 + (v1 AND 0xffffffff) + drop_bit 32 v0"
  define w2 where "w2 = drop_bit 32 w1 + (v2 AND 0xffffffff) + drop_bit 32 v1"
  define w3 where "w3 = drop_bit 32 w2 + (v3 AND 0xffffffff) + drop_bit 32 v2"
  define w4 where "w4 = (ucast (drop_bit 32 w3 + ucast (w5 AND 3)) :: u32)"
  have hi: "fits (drop_bit 32 v) (m div 4294967296) 0x98000000" if "fits v m 0x9800000000000000" for v :: u64 and m
    using fits_drop [OF that, of 32] by simp
  have lo: "fits (v AND 0xffffffff) (m mod 4294967296) 0xffffffff" if "fits v m b" for v :: u64 and m b
    using fits_mask [OF that, of 32] by (simp add: mask_lits)
  have f5: "fits w5 u5 0x9800000f"
    unfolding w5_def n using fits_ucast [OF fits_add [OF fits_ucast [OF x(5), where 'b = 64] hi [OF x(4)]], where 'b = 32]
    by simp
  have f0: "fits w0 u0 0x1be00000e"
    unfolding w0_def n(2)
    using fits_add [OF fits_ucast [OF fits_mult [OF fits_drop [OF f5, of 2] fits_five(1)], where 'b = 64] lo [OF x(1)]]
    by simp
  have f1: "fits w1 u1 0x198000000"
    unfolding w1_def n(3) using fits_add [OF fits_add [OF fits_drop [OF f0, of 32] lo [OF x(2)]] hi [OF x(1)]] by simp
  have f2: "fits w2 u2 0x198000000"
    unfolding w2_def n(4) using fits_add [OF fits_add [OF fits_drop [OF f1, of 32] lo [OF x(3)]] hi [OF x(2)]] by simp
  have f3: "fits w3 u3 0x198000000"
    unfolding w3_def n(5) using fits_add [OF fits_add [OF fits_drop [OF f2, of 32] lo [OF x(4)]] hi [OF x(3)]] by simp
  have "fits (w5 AND 3) (u5 mod 4) 3" using fits_mask [OF f5, of 2] by (simp add: mask_lits)
  note m = fits_ucast [OF this, where 'b = 64]
  have f4: "fits w4 u4 4"
    unfolding w4_def n(6)
    using fits_ucast [OF fits_add [OF fits_drop [OF f3, of 32] m], where 'b = 32] by simp
  have c: "unat (ucast (w AND 0xffffffff) :: u32) = m mod 4294967296" if "fits w m b" for w :: u64 and m b
    using fits_ucast [OF lo [OF that], where 'b = 32] by (simp add: fits_def)
  show "u4 \<le> 4" using f4 by (simp add: fits_def)
  show "map unat
      (let u5 = (ucast (ucast v4 + drop_bit 32 v3) :: u32);
           u0 = ucast (drop_bit 2 u5 * 5) + (v0 AND 0xffffffff);
           u1 = drop_bit 32 u0 + (v1 AND 0xffffffff) + drop_bit 32 v0;
           u2 = drop_bit 32 u1 + (v2 AND 0xffffffff) + drop_bit 32 v1;
           u3 = drop_bit 32 u2 + (v3 AND 0xffffffff) + drop_bit 32 v2;
           u4 = (ucast (drop_bit 32 u3 + ucast (u5 AND 3)) :: u32)
       in [ucast (u0 AND 0xffffffff), ucast (u1 AND 0xffffffff), ucast (u2 AND 0xffffffff),
           ucast (u3 AND 0xffffffff), u4]) =
      [u0 mod 4294967296, u1 mod 4294967296, u2 mod 4294967296, u3 mod 4294967296, u4]"
    unfolding Let_def w5_def [symmetric] w0_def [symmetric] w1_def [symmetric] w2_def [symmetric]
      w3_def [symmetric] w4_def [symmetric]
    using c [OF f0] c [OF f1] c [OF f2] c [OF f3] fitsD(1) [OF f4] by simp
qed

text \<open>The numbers in the variables of the loop body: nothing in it wraps.\<close>

lemma poly_block_values:
  fixes r h :: "u32 list" and e :: u32 and inp :: bytes
  assumes cl: "clamped r" and h: "reduced h" and e: "unat e \<le> 1"
  defines "q \<equiv> \<lambda>i. unat (r ! i) div 4" and "n \<equiv> \<lambda>i. unat (r ! i)"
    and "s \<equiv> \<lambda>i. unat (h ! i) + unat (load32_le (drop (4 * i) inp))"
    and "s4 \<equiv> unat (h ! 4) + unat e" and "B \<equiv> 4294967296"
  assumes "x0 = s 0 * n 0 + s 1 * (5 * q 3) + s 2 * (5 * q 2) + s 3 * (5 * q 1) + s4 * (5 * q 0)"
    and "x1 = s 0 * n 1 + s 1 * n 0 + s 2 * (5 * q 3) + s 3 * (5 * q 2) + s4 * (5 * q 1)"
    and "x2 = s 0 * n 2 + s 1 * n 1 + s 2 * n 0 + s 3 * (5 * q 3) + s4 * (5 * q 2)"
    and "x3 = s 0 * n 3 + s 1 * n 2 + s 2 * n 1 + s 3 * n 0 + s4 * (5 * q 3)"
    and "x4 = s4 * (n 0 mod 4)"
    and "u5 = x4 + x3 div B" and "u0 = u5 div 4 * 5 + x0 mod B"
    and "u1 = u0 div B + x1 mod B + x0 div B" and "u2 = u1 div B + x2 mod B + x1 div B"
    and "u3 = u2 div B + x3 mod B + x2 div B" and "u4 = u3 div B + u5 mod 4"
  shows "map unat (poly_block r e h inp) = [u0 mod B, u1 mod B, u2 mod B, u3 mod B, u4]" and "u4 \<le> 4"
proof -
  have rr: "fits (drop_bit 2 (r ! i) + r ! i) (5 * q i) 0x13fffffb" if "i \<in> {1, 2, 3}" for i
    unfolding q_def by (rule five_quarters) (use cl that in \<open>auto simp only: clamped_def\<close>)
  have r0: "fits (r ! 0) (n 0) 0x0fffffff" using cl by (simp add: clamped_def fits_def n_def)
  have ri: "fits (r ! i) (n i) 0x0fffffff" if "i \<in> {1, 2, 3}" for i
    using cl that by (auto simp: clamped_def fits_def n_def)
  have rr0: "fits (drop_bit 2 (r ! 0) * 5) (5 * q 0) 0x13fffffb"
    using fits_mult [OF fits_drop [OF r0, of 2] fits_five(1)] by (simp add: q_def n_def mult.commute)
  have rr4: "fits (r ! 0 AND 3) (n 0 mod 4) 3"
    using fits_mask [OF r0, of 2] by (simp add: mask_lits)
  have fs: "fits (ucast a + ucast b :: u64) (unat a + unat b) 0x1fffffffe" for a b :: u32
    using fits_add [OF fits_ucast [OF fits_u32 [of a], where 'b = 64] fits_ucast [OF fits_u32 [of b], where 'b = 64]]
    by simp
  have f0: "fits (ucast (h ! 0) + ucast (load32_le inp) :: u64) (s 0) 0x1fffffffe"
    using fs [of "h ! 0" "load32_le inp"] by (simp add: s_def)
  have f1: "fits (ucast (h ! 1) + ucast (load32_le (drop 4 inp)) :: u64) (s 1) 0x1fffffffe"
    using fs [of "h ! 1" "load32_le (drop 4 inp)"] by (simp add: s_def)
  have f2: "fits (ucast (h ! 2) + ucast (load32_le (drop 8 inp)) :: u64) (s 2) 0x1fffffffe"
    using fs [of "h ! 2" "load32_le (drop 8 inp)"] by (simp add: s_def)
  have f3: "fits (ucast (h ! 3) + ucast (load32_le (drop 12 inp)) :: u64) (s 3) 0x1fffffffe"
    using fs [of "h ! 3" "load32_le (drop 12 inp)"] by (simp add: s_def)
  have f4: "fits (h ! 4 + e) s4 5"
    using fits_add [of "h ! 4" "unat (h ! 4)" 4 e "unat e" 1] h e by (simp add: fits_def reduced_def s4_def)
  have t: "fits (ucast ((h ! 4 + e) * w) :: u64) (s4 * m) 0x63ffffe7" if "fits w m 0x13fffffb" for w m
    using fits_ucast [OF fits_mult [OF f4 that], where 'b = 64] by simp
  have w0: "fits (ucast (r ! 0) :: u64) (n 0) 0x0fffffff"
    by (rule fits_ucast [OF r0]) simp
  have wi: "fits (ucast (r ! i) :: u64) (n i) 0x0fffffff" if "i \<in> {1, 2, 3}" for i
    by (rule fits_ucast [OF ri [OF that]]) simp
  have wr: "fits (ucast (drop_bit 2 (r ! i) + r ! i) :: u64) (5 * q i) 0x13fffffb" if "i \<in> {1, 2, 3}" for i
    by (rule fits_ucast [OF rr [OF that]]) simp
  have x0: "fits ((ucast (h ! 0) + ucast (load32_le inp)) * ucast (r ! 0) +
      (ucast (h ! 1) + ucast (load32_le (drop 4 inp))) * ucast (drop_bit 2 (r ! 3) + r ! 3) +
      (ucast (h ! 2) + ucast (load32_le (drop 8 inp))) * ucast (drop_bit 2 (r ! 2) + r ! 2) +
      (ucast (h ! 3) + ucast (load32_le (drop 12 inp))) * ucast (drop_bit 2 (r ! 1) + r ! 1) +
      ucast ((h ! 4 + e) * (drop_bit 2 (r ! 0) * 5)) :: u64) x0 0x9800000000000000"
    unfolding assms(9) by (rule product_row [OF f0 f1 f2 f3 w0 wr wr wr t [OF rr0]]) simp_all
  have x1: "fits ((ucast (h ! 0) + ucast (load32_le inp)) * ucast (r ! 1) +
      (ucast (h ! 1) + ucast (load32_le (drop 4 inp))) * ucast (r ! 0) +
      (ucast (h ! 2) + ucast (load32_le (drop 8 inp))) * ucast (drop_bit 2 (r ! 3) + r ! 3) +
      (ucast (h ! 3) + ucast (load32_le (drop 12 inp))) * ucast (drop_bit 2 (r ! 2) + r ! 2) +
      ucast ((h ! 4 + e) * (drop_bit 2 (r ! 1) + r ! 1)) :: u64) x1 0x9800000000000000"
    unfolding assms(10) by (rule product_row [OF f0 f1 f2 f3 wi w0 wr wr t [OF rr]]) simp_all
  have x2: "fits ((ucast (h ! 0) + ucast (load32_le inp)) * ucast (r ! 2) +
      (ucast (h ! 1) + ucast (load32_le (drop 4 inp))) * ucast (r ! 1) +
      (ucast (h ! 2) + ucast (load32_le (drop 8 inp))) * ucast (r ! 0) +
      (ucast (h ! 3) + ucast (load32_le (drop 12 inp))) * ucast (drop_bit 2 (r ! 3) + r ! 3) +
      ucast ((h ! 4 + e) * (drop_bit 2 (r ! 2) + r ! 2)) :: u64) x2 0x9800000000000000"
    unfolding assms(11) by (rule product_row [OF f0 f1 f2 f3 wi wi w0 wr t [OF rr]]) simp_all
  have x3: "fits ((ucast (h ! 0) + ucast (load32_le inp)) * ucast (r ! 3) +
      (ucast (h ! 1) + ucast (load32_le (drop 4 inp))) * ucast (r ! 2) +
      (ucast (h ! 2) + ucast (load32_le (drop 8 inp))) * ucast (r ! 1) +
      (ucast (h ! 3) + ucast (load32_le (drop 12 inp))) * ucast (r ! 0) +
      ucast ((h ! 4 + e) * (drop_bit 2 (r ! 3) + r ! 3)) :: u64) x3 0x9800000000000000"
    unfolding assms(12) by (rule product_row [OF f0 f1 f2 f3 wi wi wi w0 t [OF rr]]) simp_all
  have x4: "fits ((h ! 4 + e) * (r ! 0 AND 3)) x4 15"
    unfolding assms(13) using fits_mult [OF f4 rr4] by simp
  note carry = poly_carry_values [OF x0 x1 x2 x3 x4 assms(14-19) [unfolded B_def]]
  show "map unat (poly_block r e h inp) = [u0 mod B, u1 mod B, u2 mod B, u3 mod B, u4]"
    unfolding poly_block_def Let_def B_def using carry(1) unfolding Let_def .
  show "u4 \<le> 4" by (rule carry(2))
qed

lemma poly_block_length [simp]: "length (poly_block r e h inp) = 5"
  by (simp add: poly_block_def Let_def)

lemma limbs_eq: "limbs ws = foldr (\<lambda>n acc. n + 2 ^ 32 * acc) (map unat ws) 0"
  by (induction ws) simp_all

lemma list5: "length xs = 5 \<Longrightarrow> xs = [xs ! 0, xs ! 1, xs ! 2, xs ! 3, xs ! 4]"
  by (auto simp: numeral_eq_Suc length_Suc_conv)

lemma limbs4:
  assumes "length r = 4"
  shows "limbs r = unat (r ! 0) + 4294967296 * unat (r ! 1) + 4294967296 ^ 2 * unat (r ! 2) +
    4294967296 ^ 3 * unat (r ! 3)"
  by (subst list4 [OF assms]) simp

lemma limbs5:
  assumes "length h = 5"
  shows "limbs h = unat (h ! 0) + 4294967296 * unat (h ! 1) + 4294967296 ^ 2 * unat (h ! 2) +
    4294967296 ^ 3 * unat (h ! 3) + 4294967296 ^ 4 * unat (h ! 4)"
  by (subst list5 [OF assms]) simp

lemma poly_block_correct:
  assumes cl: "clamped r" and h: "reduced h" and e: "unat e \<le> 1"
  shows "reduced (poly_block r e h inp) \<and>
    limbs (poly_block r e h inp) mod poly_p =
      (limbs h + block_num inp + 2 ^ 128 * unat e) * limbs r mod poly_p"
proof -
  define B :: nat where "B = 4294967296"
  define q n where "q i = unat (r ! i) div 4" and "n i = unat (r ! i)" for i
  define s where "s i = unat (h ! i) + unat (load32_le (drop (4 * i) inp))" for i
  define s4 where "s4 = unat (h ! 4) + unat e"
  define x0 where "x0 = s 0 * n 0 + s 1 * (5 * q 3) + s 2 * (5 * q 2) + s 3 * (5 * q 1) + s4 * (5 * q 0)"
  define x1 where "x1 = s 0 * n 1 + s 1 * n 0 + s 2 * (5 * q 3) + s 3 * (5 * q 2) + s4 * (5 * q 1)"
  define x2 where "x2 = s 0 * n 2 + s 1 * n 1 + s 2 * n 0 + s 3 * (5 * q 3) + s4 * (5 * q 2)"
  define x3 where "x3 = s 0 * n 3 + s 1 * n 2 + s 2 * n 1 + s 3 * n 0 + s4 * (5 * q 3)"
  define x4 where "x4 = s4 * (n 0 mod 4)"
  define u5 where "u5 = x4 + x3 div B"
  define u0 where "u0 = u5 div 4 * 5 + x0 mod B"
  define u1 where "u1 = u0 div B + x1 mod B + x0 div B"
  define u2 where "u2 = u1 div B + x2 mod B + x1 div B"
  define u3 where "u3 = u2 div B + x3 mod B + x2 div B"
  define u4 where "u4 = u3 div B + u5 mod 4"
  note defs = x0_def x1_def x2_def x3_def x4_def u5_def u0_def u1_def u2_def u3_def u4_def
  have vals: "map unat (poly_block r e h inp) = [u0 mod B, u1 mod B, u2 mod B, u3 mod B, u4]" "u4 \<le> 4"
    by (rule poly_block_values [OF cl h e defs [unfolded q_def n_def s_def s4_def B_def], folded B_def])+
  have red: "reduced (poly_block r e h inp)"
    using arg_cong [OF vals(1), of "\<lambda>xs. xs ! 4"] vals(2) by (simp add: reduced_def)
  have lh: "limbs (poly_block r e h inp) =
      u0 mod B + B * (u1 mod B) + B ^ 2 * (u2 mod B) + B ^ 3 * (u3 mod B) + B ^ 4 * u4"
    unfolding limbs_eq vals(1) by (simp add: B_def)
  have lr: "limbs r = n 0 + B * n 1 + B ^ 2 * n 2 + B ^ 3 * n 3"
    using cl by (simp add: limbs4 clamped_def n_def B_def)
  have lm: "limbs h + block_num inp + 2 ^ 128 * unat e = s 0 + B * s 1 + B ^ 2 * s 2 + B ^ 3 * s 3 + B ^ 4 * s4"
    using h by (simp add: limbs5 reduced_def block_num_def s_def s4_def B_def algebra_simps)
  have nq: "n 0 = 4 * q 0 + n 0 mod 4" "n 1 = 4 * q 1" "n 2 = 4 * q 2" "n 3 = 4 * q 3"
    using cl by (auto simp: q_def n_def clamped_def)
  define K where "K = s4 * q 0 + s 3 * q 1 + s 2 * q 2 + s 1 * q 3 + B * (s4 * q 1 + s 3 * q 2 + s 2 * q 3) +
      B ^ 2 * (s4 * q 2 + s 3 * q 3) + B ^ 3 * (s4 * q 3)"
  have "(s 0 + B * s 1 + B ^ 2 * s 2 + B ^ 3 * s 3 + B ^ 4 * s4) * (n 0 + B * n 1 + B ^ 2 * n 2 + B ^ 3 * n 3) =
      x0 + B * x1 + B ^ 2 * x2 + B ^ 3 * x3 + B ^ 4 * x4 + poly_p * K"
    unfolding x0_def x1_def x2_def x3_def x4_def K_def B_def
    by (rule poly_products_nat [OF nq])
  also have "x0 + B * x1 + B ^ 2 * x2 + B ^ 3 * x3 + B ^ 4 * x4 =
      limbs (poly_block r e h inp) + poly_p * (u5 div 4)"
    unfolding lh by (rule poly_carry_nat [OF defs(6-11) [unfolded B_def], folded B_def, symmetric])
  finally have "(limbs h + block_num inp + 2 ^ 128 * unat e) * limbs r =
      limbs (poly_block r e h inp) + poly_p * (u5 div 4 + K)"
    unfolding lm lr by (simp only: add.assoc distrib_left [of poly_p])
  then show ?thesis using red by simp
qed

section \<open>Bytes, limbs and numbers\<close>

lemma fits_u8: "fits (w :: u8) (unat w) 0xff"
  using unsigned_less [of w, where 'a = nat] by (simp add: fits_def)

lemma fits_push: "fits w n b \<Longrightarrow> b * 2 ^ k < 2 ^ LENGTH('a) \<Longrightarrow> fits (push_bit k w) (n * 2 ^ k) (b * 2 ^ k)"
  for w :: "'a::len word"
proof -
  assume w: "fits w n b" and b: "b * 2 ^ k < 2 ^ LENGTH('a)"
  have "unat w * 2 ^ k < 2 ^ LENGTH('a)"
    using w le_less_trans [OF mult_le_mono1 [of "unat w" b "2 ^ k"] b] by (simp add: fits_def)
  moreover have "unat (push_bit k w) = take_bit LENGTH('a) (unat w * 2 ^ k)"
    by (rule trans [OF unsigned_push_bit_eq]) (rule arg_cong [OF push_bit_eq_mult])
  ultimately show ?thesis using w by (auto simp: fits_def take_bit_nat_eq_self)
qed

lemma or_add:
  "a AND b = 0 \<Longrightarrow> a OR b = a + b" for a b :: "'a::len word"
  by (simp add: disjunctive_add_eq_or)

lemma load32_sum:
  "load32_le s = ucast (s ! 0) + (push_bit 8 (ucast (s ! 1)) + (push_bit 16 (ucast (s ! 2)) + push_bit 24 (ucast (s ! 3))))"
proof -
  have "push_bit 16 (ucast (s ! 2)) OR push_bit 24 (ucast (s ! 3)) =
      (push_bit 16 (ucast (s ! 2)) + push_bit 24 (ucast (s ! 3)) :: u32)"
    by (rule or_add, rule bit_word_eqI) (auto simp: bit_simps dest: bit_imp_le_length)
  moreover have "push_bit 8 (ucast (s ! 1)) OR (push_bit 16 (ucast (s ! 2)) OR push_bit 24 (ucast (s ! 3))) =
      (push_bit 8 (ucast (s ! 1)) + (push_bit 16 (ucast (s ! 2)) OR push_bit 24 (ucast (s ! 3))) :: u32)"
    by (rule or_add, rule bit_word_eqI) (auto simp: bit_simps dest: bit_imp_le_length)
  moreover have "ucast (s ! 0) OR (push_bit 8 (ucast (s ! 1)) OR (push_bit 16 (ucast (s ! 2)) OR push_bit 24 (ucast (s ! 3)))) =
      (ucast (s ! 0) + (push_bit 8 (ucast (s ! 1)) OR (push_bit 16 (ucast (s ! 2)) OR push_bit 24 (ucast (s ! 3)))) :: u32)"
    by (rule or_add, rule bit_word_eqI) (auto simp: bit_simps dest: bit_imp_le_length)
  ultimately show ?thesis unfolding load32_le_def by (simp only: or.assoc)
qed

lemma load32_num: "4 \<le> length s \<Longrightarrow> unat (load32_le s) = le_num (take 4 s)"
proof -
  assume len: "4 \<le> length s"
  have f: "fits (ucast (s ! i) :: u32) (unat (s ! i)) 0xff" for i
    using fits_ucast [OF fits_u8 [of "s ! i"], where 'b = 32] by simp
  have "fits (load32_le s) (unat (s ! 0) + (unat (s ! 1) * 2 ^ 8 + (unat (s ! 2) * 2 ^ 16 + unat (s ! 3) * 2 ^ 24)))
      (0xff + (0xff * 2 ^ 8 + (0xff * 2 ^ 16 + 0xff * 2 ^ 24)))"
    unfolding load32_sum by (intro fits_add fits_push f) simp_all
  then have "unat (load32_le s) = unat (s ! 0) + (unat (s ! 1) * 2 ^ 8 + (unat (s ! 2) * 2 ^ 16 + unat (s ! 3) * 2 ^ 24))"
    by (rule fitsD)
  also have "\<dots> = le_num [s ! 0, s ! 1, s ! 2, s ! 3]" by simp
  also have "[s ! 0, s ! 1, s ! 2, s ! 3] = take 4 s"
    using list4 [of "take 4 s"] len by simp
  finally show ?thesis .
qed

lemma le_num_append: "le_num (xs @ ys) = le_num xs + 256 ^ length xs * le_num ys"
  by (induction xs) (simp_all add: algebra_simps)

lemma le_num_zeros [simp]: "le_num (replicate n 0) = 0"
  by (induction n) simp_all

lemma le_num_bound: "le_num xs < 256 ^ length xs"
proof (induction xs)
  case (Cons x xs)
  have "unat x < 256" using unsigned_less [of x, where 'a = nat] by simp
  then show ?case using Cons by simp
qed simp

lemma take_drop4: "take (4 + n) xs = take 4 xs @ take n (drop 4 xs)"
  by (rule take_add)

lemma block_num_le: "16 \<le> length s \<Longrightarrow> block_num s = le_num (take 16 s)"
proof -
  assume len: "16 \<le> length s"
  have "take 16 s = take 4 s @ take 4 (drop 4 s) @ take 4 (drop 8 s) @ take 4 (drop 12 s)"
    using take_drop4 [of 12 s] take_drop4 [of 8 "drop 4 s"] take_drop4 [of 4 "drop 8 s"] by simp
  then have "le_num (take 16 s) = le_num (take 4 s) + 256 ^ 4 * (le_num (take 4 (drop 4 s)) +
      256 ^ 4 * (le_num (take 4 (drop 8 s)) + 256 ^ 4 * le_num (take 4 (drop 12 s))))"
    using len by (simp add: le_num_append)
  then show ?thesis using len by (simp add: block_num_def load32_num algebra_simps)
qed

section \<open>The incremental interface\<close>

text \<open>
  The context after some input: the blocks \<open>bl\<close> already multiplied in, and the bytes
  \<open>pd\<close> waiting in the chunk.
\<close>

definition poly_inv :: "poly1305_ctx \<Rightarrow> u32 list \<Rightarrow> u32 list \<Rightarrow> bytes \<Rightarrow> bytes \<Rightarrow> bool" where
  "poly_inv ctx r pad bl pd \<longleftrightarrow>
     pc_r ctx = r \<and> pc_pad ctx = pad \<and> clamped r \<and> reduced (pc_h ctx) \<and>
     length (pc_c ctx) = 16 \<and> pc_c_idx ctx = length pd \<and> length pd \<le> 16 \<and>
     take (length pd) (pc_c ctx) = pd \<and> length bl mod 16 = 0 \<and>
     limbs (pc_h ctx) mod poly_p = poly_acc (limbs r) 0 bl mod poly_p"

lemma poly_acc_Nil [simp]: "poly_acc r a [] = a"
  by (subst poly_acc.simps) simp

lemma poly_acc_step: "m \<noteq> [] \<Longrightarrow>
   poly_acc r a m = poly_acc r ((a + le_num (take 16 m @ [1])) * r mod poly_p) (drop 16 m)"
  by (subst poly_acc.simps) simp

lemma poly_acc_short: "m \<noteq> [] \<Longrightarrow> length m \<le> 16 \<Longrightarrow>
   poly_acc r a m = (a + le_num (m @ [1])) * r mod poly_p"
  by (subst poly_acc_step) simp_all

lemma poly_acc_append:
  "length bl mod 16 = 0 \<Longrightarrow> poly_acc r a (bl @ m) = poly_acc r (poly_acc r a bl) m"
proof (induction r a bl rule: poly_acc.induct)
  case (1 r a bl)
  show ?case
  proof (cases "bl = []")
    case True
    then show ?thesis by simp
  next
    case False
    then have len: "16 \<le> length bl" using 1(2) by (metis length_0_conv mod_less not_le_imp_less)
    then have "length (drop 16 bl) mod 16 = 0" using 1(2) by (simp add: le_mod_geq)
    from 1(1) [OF False this] show ?thesis using False len
      by (simp add: poly_acc_step [of bl] poly_acc_step [of "bl @ m"])
  qed
qed

lemma poly_inv_push:
  "poly_inv ctx r pad bl pd \<Longrightarrow> length pd < 16 \<Longrightarrow> poly_inv (poly_push ctx b) r pad bl (pd @ [b])"
  by (auto simp: poly_inv_def poly_push_def take_Suc_conv_app_nth list_update_append
      intro: nth_equalityI)

lemma poly_inv_pushes:
  "poly_inv ctx r pad bl pd \<Longrightarrow> length pd + length bs \<le> 16 \<Longrightarrow>
   poly_inv (foldl poly_push ctx bs) r pad bl (pd @ bs)"
proof (induction bs arbitrary: ctx pd)
  case (Cons b bs)
  then show ?case using Cons.IH [OF poly_inv_push [OF Cons.prems(1)], of b] by simp
qed simp

lemma acc_step_mod:
  assumes "h mod poly_p = a mod poly_p" and "h' mod poly_p = (h + n) * r mod poly_p"
  shows "h' mod poly_p = (a + n) * r mod poly_p mod poly_p"
proof -
  have "(h + n) mod poly_p = (a + n) mod poly_p" using assms(1) by (metis mod_add_cong)
  then show ?thesis using assms(2) by (metis mod_mod_trivial mod_mult_cong)
qed

lemma poly_block_full:
  assumes "clamped r" and "reduced h" and "16 \<le> length inp"
    and "limbs h mod poly_p = a mod poly_p"
  shows "reduced (poly_block r 1 h inp)"
    and "limbs (poly_block r 1 h inp) mod poly_p = (a + le_num (take 16 inp @ [1])) * limbs r mod poly_p mod poly_p"
proof -
  have e: "unat (1 :: u32) \<le> 1" by simp
  note c = poly_block_correct [OF assms(1,2) e, of inp]
  show "reduced (poly_block r 1 h inp)" using c by blast
  have n: "le_num (take 16 inp @ [1]) = block_num inp + 2 ^ 128 * unat (1 :: u32)"
    using assms(3) by (simp add: le_num_append block_num_le)
  show "limbs (poly_block r 1 h inp) mod poly_p = (a + le_num (take 16 inp @ [1])) * limbs r mod poly_p mod poly_p"
    unfolding n by (rule acc_step_mod [OF assms(4)]) (use c in \<open>simp only: add.assoc\<close>)
qed

lemma poly_loop_full:
  "clamped r \<Longrightarrow> reduced h \<Longrightarrow> 16 * nb \<le> length inp \<Longrightarrow> limbs h mod poly_p = a mod poly_p \<Longrightarrow>
   reduced (poly_loop r 1 nb h inp) \<and>
   limbs (poly_loop r 1 nb h inp) mod poly_p = poly_acc (limbs r) a (take (16 * nb) inp) mod poly_p"
proof (induction nb arbitrary: h inp a)
  case (Suc nb)
  have len: "16 \<le> length inp" using Suc.prems(3) by simp
  note b = poly_block_full [OF Suc.prems(1,2) len Suc.prems(4)]
  have "take (16 * Suc nb) inp \<noteq> []" using len by auto
  then have "poly_acc (limbs r) a (take (16 * Suc nb) inp) =
      poly_acc (limbs r) ((a + le_num (take 16 inp @ [1])) * limbs r mod poly_p) (take (16 * nb) (drop 16 inp))"
    by (simp add: poly_acc_step drop_take)
  moreover have "16 * nb \<le> length (drop 16 inp)" using Suc.prems(3) by simp
  note Suc.IH [OF Suc.prems(1) b(1) this b(2)]
  ultimately show ?case by simp
qed simp

lemma poly_inv_flush:
  assumes "poly_inv ctx r pad bl pd" and "length pd = 16"
  shows "poly_inv ((poly_blocks ctx (pc_c ctx) 1 1)\<lparr>pc_c_idx := 0\<rparr>) r pad (bl @ pd) []"
proof -
  have i: "pc_r ctx = r" "clamped r" "reduced (pc_h ctx)" "pc_c ctx = pd" "length bl mod 16 = 0"
    "limbs (pc_h ctx) mod poly_p = poly_acc (limbs r) 0 bl mod poly_p"
    using assms by (auto simp: poly_inv_def)
  have "16 * 1 \<le> length pd" using assms(2) by simp
  from poly_loop_full [OF i(2,3) this i(6)] show ?thesis
    using assms i by (auto simp: poly_inv_def poly_blocks_def poly_acc_append)
qed

lemma poly_inv_blocks:
  assumes "poly_inv ctx r pad bl []" and "16 * nb \<le> length inp"
  shows "poly_inv (poly_blocks ctx inp nb 1) r pad (bl @ take (16 * nb) inp) []"
proof -
  have i: "pc_r ctx = r" "clamped r" "reduced (pc_h ctx)" "length bl mod 16 = 0"
    "limbs (pc_h ctx) mod poly_p = poly_acc (limbs r) 0 bl mod poly_p"
    using assms by (auto simp: poly_inv_def)
  from poly_loop_full [OF i(2,3) assms(2) i(5)] show ?thesis
    using assms i by (auto simp: poly_inv_def poly_blocks_def poly_acc_append)
qed

lemma poly_blocks_none [simp]: "poly_blocks ctx inp 0 e = ctx"
  by (simp add: poly_blocks_def)

lemma poly_update_inv:
  assumes inv: "poly_inv ctx r pad bl pd" and pd: "length pd < 16" and n: "n = length m"
  shows "\<exists>bl' pd'. poly_inv (crypto_poly1305_update ctx m n) r pad bl' pd' \<and> length pd' < 16 \<and>
    bl' @ pd' = bl @ pd @ m"
proof (cases "m = []")
  case True
  then show ?thesis using assms by (intro exI [of _ bl] exI [of _ pd]) (simp add: crypto_poly1305_update_def)
next
  case False
  have idx: "pc_c_idx ctx = length pd" using inv by (simp add: poly_inv_def)
  define al where "al = min (gap (pc_c_idx ctx) 16) n"
  define c1 where "c1 = foldl poly_push ctx (take al m)"
  define c2 where "c2 = (if pc_c_idx c1 = 16 then (poly_blocks c1 (pc_c c1) 1 1)\<lparr>pc_c_idx := 0\<rparr> else c1)"
  define rest where "rest = drop al m"
  define nb where "nb = (n - al) div 16"
  have up: "crypto_poly1305_update ctx m n =
      foldl poly_push (poly_blocks c2 rest nb 1) (take ((n - al) mod 16) (drop (nb * 16) rest))"
    using False n by (simp add: crypto_poly1305_update_def Let_def al_def c1_def c2_def rest_def nb_def)
  have g: "gap (pc_c_idx ctx) 16 = (16 - length pd) mod 16" using pd by (simp add: gap16 idx)
  have al: "al \<le> n" "length pd + al \<le> 16" using pd by (auto simp: al_def g)
  have lr: "length rest = n - al" using n by (simp add: rest_def)
  have i1: "poly_inv c1 r pad bl (pd @ take al m)"
    unfolding c1_def by (rule poly_inv_pushes [OF inv]) (use al n in simp)
  show ?thesis
  proof (cases "length (pd @ take al m) = 16 \<or> pd @ take al m = []")
    case True
    have "poly_inv c2 r pad (bl @ pd @ take al m) []"
      using True poly_inv_flush [OF i1] i1 by (auto simp: c2_def poly_inv_def)
    from poly_inv_blocks [OF this, of nb rest]
    have i3: "poly_inv (poly_blocks c2 rest nb 1) r pad (bl @ pd @ take al m @ take (16 * nb) rest) []"
      by (simp add: lr nb_def)
    let ?tail = "take ((n - al) mod 16) (drop (nb * 16) rest)"
    have "length ?tail < 16" by simp
    with poly_inv_pushes [OF i3, of ?tail] have
      "poly_inv (crypto_poly1305_update ctx m n) r pad (bl @ pd @ take al m @ take (16 * nb) rest) ?tail"
      by (simp add: up)
    moreover have "take (16 * nb) rest @ ?tail = rest"
    proof -
      have "length (drop (nb * 16) rest) = (n - al) mod 16"
        by (simp add: lr nb_def mult.commute minus_mult_div_eq_mod)
      then have "?tail = drop (16 * nb) rest" by (simp add: mult.commute)
      then show ?thesis by simp
    qed
    ultimately show ?thesis
      by (intro exI [of _ "bl @ pd @ take al m @ take (16 * nb) rest"] exI [of _ ?tail])
         (simp add: rest_def)
  next
    case short: False
    have "al = n"
    proof (rule ccontr)
      assume "al \<noteq> n"
      then have "al = (16 - length pd) mod 16" by (auto simp: al_def g)
      then show False using short pd n al by (cases "length pd = 0") (auto simp: al_def)
    qed
    then have "crypto_poly1305_update ctx m n = c2" unfolding up by (simp add: nb_def)
    moreover have "take al m = m" using \<open>al = n\<close> n by simp
    moreover have "pc_c_idx c1 \<noteq> 16" using i1 short by (simp add: poly_inv_def)
    ultimately show ?thesis
      using i1 short al n by (intro exI [of _ bl] exI [of _ "pd @ m"]) (auto simp: c2_def poly_inv_def)
  qed
qed

section \<open>Key set-up\<close>

lemma and_split_nat:
  fixes a b c d :: nat
  assumes "a < 2 ^ n" and "c < 2 ^ n"
  shows "(a + 2 ^ n * b) AND (c + 2 ^ n * d) = (a AND c) + 2 ^ n * (b AND d)"
proof -
  let ?x = "a + 2 ^ n * b" and ?y = "c + 2 ^ n * d"
  have t: "take_bit n ?x = a" "take_bit n ?y = c" using assms by (simp_all add: take_bit_eq_mod)
  have d: "drop_bit n ?x = b" "drop_bit n ?y = d" using assms by (simp_all add: drop_bit_eq_div)
  have "?x AND ?y = push_bit n (drop_bit n (?x AND ?y)) + take_bit n (?x AND ?y)"
    by (simp only: bits_ident)
  also have "\<dots> = push_bit n (drop_bit n ?x AND drop_bit n ?y) + (take_bit n ?x AND take_bit n ?y)"
    by (simp only: drop_bit_and take_bit_and)
  also have "\<dots> = (a AND c) + 2 ^ n * (b AND d)" unfolding t d by (simp add: push_bit_eq_mult mult.commute)
  finally show ?thesis .
qed

lemma unat_and: "unat (a AND b) = unat a AND unat b" for a b :: "'a::len word"
  by (rule unsigned_and_eq)

lemma and_bound_nat: "(n :: nat) AND m \<le> m"
  by (simp add: and_nat_def AND_upper2 nat_le_iff)

lemma and_fc_mod4: "(n AND 0x0ffffffc) mod 4 = (0 :: nat)"
proof -
  have "take_bit 2 (n AND 0x0ffffffc) = take_bit 2 n AND take_bit 2 (0x0ffffffc :: nat)" by (rule take_bit_and)
  also have "take_bit 2 (0x0ffffffc :: nat) = 0" by (simp add: take_bit_eq_mod)
  finally show ?thesis by (simp add: take_bit_eq_mod)
qed

lemma limbs_load:
  "16 \<le> length k \<Longrightarrow> limbs (load32_le_buf k 4) = le_num (take 16 k)"
  by (simp add: limbs4 flip: block_num_le) (simp add: block_num_def)

lemma load32_le_buf4: "load32_le_buf k 4 = [load32_le k, load32_le (drop 4 k), load32_le (drop 8 k), load32_le (drop 12 k)]"
  by (subst list4) simp_all

lemma limbs_zeros [simp]: "limbs (replicate n 0) = 0"
  by (induction n) simp_all

lemma poly_init_inv:
  assumes "length key = 32"
  shows "poly_inv (crypto_poly1305_init key) (pc_r (crypto_poly1305_init key)) (load32_le_buf (drop 16 key) 4) [] []"
    and "limbs (pc_r (crypto_poly1305_init key)) = poly_clamp key"
proof -
  define l where "l i = unat (load32_le_buf key 4 ! i)" for i
  have lb: "l i < 2 ^ 32" for i
    using unsigned_less [of "load32_le_buf key 4 ! i", where 'a = nat] by (simp add: l_def)
  have r: "pc_r (crypto_poly1305_init key) =
     [load32_le_buf key 4 ! 0 AND 0x0fffffff, load32_le_buf key 4 ! 1 AND 0x0ffffffc,
      load32_le_buf key 4 ! 2 AND 0x0ffffffc, load32_le_buf key 4 ! 3 AND 0x0ffffffc]"
    by (simp add: crypto_poly1305_init_def Let_def)
  have ru: "map unat (pc_r (crypto_poly1305_init key)) =
      [l 0 AND 0x0fffffff, l 1 AND 0x0ffffffc, l 2 AND 0x0ffffffc, l 3 AND 0x0ffffffc]"
    unfolding r by (simp add: unat_and l_def del: load32_le_buf_nth)
  have len: "length (pc_r (crypto_poly1305_init key)) = 4" using r by simp
  have rn: "unat (pc_r (crypto_poly1305_init key) ! i) =
      [l 0 AND 0x0fffffff, l 1 AND 0x0ffffffc, l 2 AND 0x0ffffffc, l 3 AND 0x0ffffffc] ! i" if "i < 4" for i
    using nth_map [of i "pc_r (crypto_poly1305_init key)" unat] that len unfolding ru by (simp only:)
  have "clamped (pc_r (crypto_poly1305_init key))"
    unfolding clamped_def using len by (simp add: rn and_bound_nat and_fc_mod4)
  then show "poly_inv (crypto_poly1305_init key) (pc_r (crypto_poly1305_init key)) (load32_le_buf (drop 16 key) 4) [] []"
    by (simp add: poly_inv_def reduced_def) (simp add: crypto_poly1305_init_def Let_def)
  have c: "268435452 < (2 :: nat) ^ 32" "268435455 < (2 :: nat) ^ 32" by simp_all
  have "limbs (pc_r (crypto_poly1305_init key)) =
     (l 0 AND 0x0fffffff) + 2 ^ 32 * ((l 1 AND 0x0ffffffc) + 2 ^ 32 * ((l 2 AND 0x0ffffffc) + 2 ^ 32 * (l 3 AND 0x0ffffffc)))"
    unfolding limbs_eq ru by simp
  also have "\<dots> = (l 0 + 2 ^ 32 * (l 1 + 2 ^ 32 * (l 2 + 2 ^ 32 * l 3))) AND
      (0x0fffffff + 2 ^ 32 * (0x0ffffffc + 2 ^ 32 * (0x0ffffffc + 2 ^ 32 * 0x0ffffffc)))"
    by (simp only: and_split_nat [OF lb c(1)] and_split_nat [OF lb c(2)])
  also have "l 0 + 2 ^ 32 * (l 1 + 2 ^ 32 * (l 2 + 2 ^ 32 * l 3)) = le_num (take 16 key)"
    using limbs_load [of key] assms by (simp add: load32_le_buf4 l_def)
  finally show "limbs (pc_r (crypto_poly1305_init key)) = poly_clamp key"
    by (simp add: poly_clamp_def)
qed

section \<open>The final reduction\<close>

lemma poly_mac_num:
  "unat c < 2 ^ 33 \<Longrightarrow>
   le_num (poly_mac hps c) = (unat c + limbs (map fst hps) + limbs (map snd hps)) mod 2 ^ (32 * length hps) \<and>
   length (poly_mac hps c) = 4 * length hps"
proof (induction hps arbitrary: c)
  case Nil
  then show ?case by simp
next
  case (Cons hp hps)
  obtain a b where hp: "hp = (a, b)" by fastforce
  let ?c = "c + (ucast a + ucast b)"
  have f: "fits c (unat c) (2 ^ 33 - 1)" using Cons.prems by (simp add: fits_def)
  have "fits ?c (unat c + (unat a + unat b)) (2 ^ 33 - 1 + (0xffffffff + 0xffffffff))"
    by (intro fits_add f fits_ucast fits_u32) simp_all
  then have u: "unat ?c = unat c + (unat a + unat b)" "unat ?c \<le> 2 ^ 33 - 1 + (0xffffffff + 0xffffffff)"
    by (simp_all only: fits_def)
  have d: "unat (drop_bit 32 ?c) = unat ?c div 2 ^ 32" by (rule trans [OF unat_drop_bit_eq drop_bit_eq_div])
  have "unat (drop_bit 32 ?c) < 2 ^ 33"
    unfolding d using u(2) by (simp add: less_mult_imp_div_less)
  note IH = Cons.IH [OF this]
  have lo: "le_num (store32_le (ucast ?c)) = unat ?c mod 2 ^ 32"
  proof -
    have "le_num (store32_le v) = unat v" for v
      using load32_num [of "store32_le v"] by simp
    then show ?thesis by (simp add: unsigned_ucast_eq take_bit_eq_mod)
  qed
  let ?L = "limbs (map fst hps) + limbs (map snd hps)"
  have "le_num (poly_mac (hp # hps) c) =
      unat ?c mod 2 ^ 32 + 2 ^ 32 * ((unat ?c div 2 ^ 32 + ?L) mod 2 ^ (32 * length hps))"
    using IH d by (simp add: hp Let_def le_num_append lo add.assoc)
  also have "\<dots> = (unat ?c + 2 ^ 32 * ?L) mod 2 ^ (32 * length (hp # hps))"
  proof -
    have "(unat ?c + 2 ^ 32 * ?L) mod 2 ^ 32 = unat ?c mod 2 ^ 32" by (rule mod_mult_self2)
    moreover have "(unat ?c + 2 ^ 32 * ?L) div 2 ^ 32 = unat ?c div 2 ^ 32 + ?L"
      by (subst div_mult_self2) simp_all
    moreover have "(2 :: nat) ^ (32 * length (hp # hps)) = 2 ^ 32 * 2 ^ (32 * length hps)"
      by (simp add: power_add)
    ultimately show ?thesis by (simp only: mod_mult2_eq) 
  qed
  finally show ?case using IH u(1) by (simp add: hp Let_def algebra_simps)
qed

lemma div_carry:
  fixes x y m B :: nat
  assumes "0 < m"
  shows "x div m + y = (x + m * y) div m" and "(x div m + y) div B = (x + m * y) div (m * B)"
  using assms by (simp_all add: div_mult2_eq add.commute)

lemma carry_chain_nat:
  fixes h0 h1 h2 h3 h4 :: nat
  shows "((((((5 + h0) div 4294967296 + h1) div 4294967296 + h2) div 4294967296 + h3) div 4294967296 + h4) div 4) =
    (5 + (h0 + 4294967296 * h1 + 4294967296 ^ 2 * h2 + 4294967296 ^ 3 * h3 + 4294967296 ^ 4 * h4)) div 2 ^ 130"
proof -
  have "((5 + h0) div 4294967296 + h1) div 4294967296 = (5 + h0 + 4294967296 * h1) div 18446744073709551616"
    by (subst div_carry(2)) simp_all
  then have "(((5 + h0) div 4294967296 + h1) div 4294967296 + h2) div 4294967296 =
      (5 + h0 + 4294967296 * h1 + 18446744073709551616 * h2) div 79228162514264337593543950336"
    by (simp only:; subst div_carry(2); simp)
  then have "((((5 + h0) div 4294967296 + h1) div 4294967296 + h2) div 4294967296 + h3) div 4294967296 =
      (5 + h0 + 4294967296 * h1 + 18446744073709551616 * h2 + 79228162514264337593543950336 * h3)
        div 340282366920938463463374607431768211456"
    by (simp only:; subst div_carry(2); simp)
  then have "(((((5 + h0) div 4294967296 + h1) div 4294967296 + h2) div 4294967296 + h3) div 4294967296 + h4) div 4 =
      (5 + h0 + 4294967296 * h1 + 18446744073709551616 * h2 + 79228162514264337593543950336 * h3 +
        340282366920938463463374607431768211456 * h4) div (340282366920938463463374607431768211456 * 4)"
    by (simp only:; subst div_carry(2); simp)
  then show ?thesis by (simp add: add.assoc)
qed

lemma poly_final_carry:
  assumes "reduced h"
  defines "c \<equiv> foldl (\<lambda>c i. drop_bit 32 (c + ucast (h ! i))) (5 :: u64) [0..<4] + ucast (h ! 4)"
  shows "unat (drop_bit 2 c * 5) = (5 + limbs h) div 2 ^ 130 * 5 \<and> unat (drop_bit 2 c * 5) < 2 ^ 33"
proof -
  have l: "length h = 5" "unat (h ! 4) \<le> 4" using assms(1) by (simp_all add: reduced_def)
  have f4: "fits (ucast (h ! 4) :: u64) (unat (h ! 4)) 4"
    by (rule fits_ucast) (use l in \<open>simp_all add: fits_def\<close>)
  have st: "fits (drop_bit 32 (v + ucast w)) ((n + unat w) div 4294967296) 5" if "fits v n 5"
    for v :: u64 and w :: u32 and n
  proof -
    have "fits (v + ucast w) (n + unat w) (5 + 0xffffffff)"
      by (intro fits_add that fits_ucast fits_u32) simp_all
    from fits_drop [OF this, of 32] show ?thesis by (simp add: fits_def)
  qed
  have u: "[0..<4] = [0, 1, 2, 3 :: nat]" by (simp add: upt_rec)
  have "fits c ((((((5 + unat (h ! 0)) div 4294967296 + unat (h ! 1)) div 4294967296 + unat (h ! 2)) div 4294967296 +
      unat (h ! 3)) div 4294967296) + unat (h ! 4)) (5 + 4)"
    unfolding c_def u foldl.simps
    by (intro fits_add f4 st) (simp_all add: fits_def)
  note d = fits_mult [OF fits_drop [OF this, of 2] fits_five(2)]
  have "fits (drop_bit 2 c * 5) ((5 + limbs h) div 2 ^ 130 * 5) 10"
    unfolding limbs5 [OF l(1)] carry_chain_nat [symmetric] using d by simp
  then show ?thesis by (simp add: fits_def)
qed

lemma mod_p_carry:
  assumes "h < 5 * 2 ^ 128"
  shows "(h + (5 + h) div 2 ^ 130 * 5 + s) mod 2 ^ 128 = (h mod poly_p + s) mod 2 ^ 128"
proof (cases "h < poly_p")
  case True
  then have "(5 + h) div 2 ^ 130 = 0" by (simp add: poly_p_def)
  then show ?thesis using True by (simp only: mod_less) simp
next
  case False
  then have k: "(5 + h) div 2 ^ 130 = 1" using assms by (intro div_nat_eqI) (simp_all add: poly_p_def)
  have m: "h mod poly_p = h - poly_p" using False assms by (subst le_mod_geq) (simp_all add: poly_p_def)
  have "h + 1 * 5 + s = (h - poly_p + s) + 4 * 2 ^ 128" using False by (simp add: poly_p_def)
  then show ?thesis unfolding k m by (metis mod_mult_self1)
qed

lemma poly_last_block:
  assumes inv: "poly_inv ctx r pad bl pd" and pd: "length pd < 16"
  defines "ctx' \<equiv> (if pc_c_idx ctx \<noteq> 0
                 then poly_blocks ctx
                   ((take (pc_c_idx ctx) (pc_c ctx) @ replicate (16 - pc_c_idx ctx) 0)[pc_c_idx ctx := 1]) 1 0
                 else ctx)"
  shows "reduced (pc_h ctx')"
    and "limbs (pc_h ctx') mod poly_p = poly_acc (limbs r) 0 (bl @ pd) mod poly_p"
    and "pc_pad ctx' = pad"
proof -
  have i: "pc_r ctx = r" "pc_pad ctx = pad" "clamped r" "reduced (pc_h ctx)" "pc_c_idx ctx = length pd"
    "take (length pd) (pc_c ctx) = pd" "length bl mod 16 = 0"
    "limbs (pc_h ctx) mod poly_p = poly_acc (limbs r) 0 bl mod poly_p"
    using inv by (simp_all add: poly_inv_def)
  show "pc_pad ctx' = pad" using i by (simp add: ctx'_def poly_blocks_def)
  have "reduced (pc_h ctx') \<and> limbs (pc_h ctx') mod poly_p = poly_acc (limbs r) 0 (bl @ pd) mod poly_p"
  proof (cases "pd = []")
    case True
    then show ?thesis using i by (simp add: ctx'_def)
  next
    case False
    let ?b = "(pd @ replicate (16 - length pd) 0)[length pd := 1]"
    have "16 - length pd = Suc (15 - length pd)" using pd by simp
    then have b: "?b = (pd @ [1]) @ replicate (15 - length pd) 0"
      by (simp only: replicate_Suc list_update_length) simp
    then have len: "16 \<le> length ?b" using pd by simp
    have e: "unat (0 :: u32) \<le> 1" by simp
    have "block_num ?b = le_num (pd @ [1])"
      using len pd by (subst block_num_le) (simp_all add: b le_num_append)
    then have "limbs (poly_block r 0 (pc_h ctx) ?b) mod poly_p =
        (limbs (pc_h ctx) + le_num (pd @ [1])) * limbs r mod poly_p"
      and "reduced (poly_block r 0 (pc_h ctx) ?b)"
      using poly_block_correct [OF i(3,4) e, of ?b] by simp_all
    moreover have "pc_h ctx' = poly_block r 0 (pc_h ctx) ?b"
      using False i by (simp add: ctx'_def poly_blocks_def)
    ultimately show ?thesis
      using acc_step_mod [OF i(8), of _ "le_num (pd @ [1])" "limbs r"] False pd i(7)
      by (simp add: poly_acc_append poly_acc_short)
  qed
  then show "reduced (pc_h ctx')"
    and "limbs (pc_h ctx') mod poly_p = poly_acc (limbs r) 0 (bl @ pd) mod poly_p" by simp_all
qed

lemma limbs_bound: "limbs ws < 2 ^ (32 * length ws)"
proof (induction ws)
  case (Cons w ws)
  have "unat w < 2 ^ 32" using unsigned_less [of w, where 'a = nat] by simp
  then show ?case using Cons by (simp add: power_add)
qed simp

lemma poly_final_value:
  assumes inv: "poly_inv ctx r pad bl pd" and pd: "length pd < 16" and len: "length pad = 4"
  shows "le_num (crypto_poly1305_final ctx) = (poly_acc (limbs r) 0 (bl @ pd) mod poly_p + limbs pad) mod 2 ^ 128"
    and "length (crypto_poly1305_final ctx) = 16"
proof -
  define ctx' where "ctx' = (if pc_c_idx ctx \<noteq> 0
                 then poly_blocks ctx
                   ((take (pc_c_idx ctx) (pc_c ctx) @ replicate (16 - pc_c_idx ctx) 0)[pc_c_idx ctx := 1]) 1 0
                 else ctx)"
  let ?h = "pc_h ctx'"
  have red: "reduced ?h" and hv: "limbs ?h mod poly_p = poly_acc (limbs r) 0 (bl @ pd) mod poly_p"
    and pad: "pc_pad ctx' = pad"
    using poly_last_block [OF inv pd] by (simp_all add: ctx'_def)
  define c where "c = drop_bit 2 (foldl (\<lambda>c i. drop_bit 32 (c + ucast (?h ! i))) (5 :: u64) [0..<4] + ucast (?h ! 4)) * 5"
  have fin: "crypto_poly1305_final ctx = poly_mac (zip (take 4 ?h) pad) c"
    using pad by (simp add: crypto_poly1305_final_def Let_def ctx'_def c_def)
  note cv = poly_final_carry [OF red, folded c_def]
  have zl: "map fst (zip (take 4 ?h) pad) = take 4 ?h" "map snd (zip (take 4 ?h) pad) = pad"
    "length (zip (take 4 ?h) pad) = 4"
    using red len by (simp_all add: reduced_def)
  note mac = poly_mac_num [OF cv [THEN conjunct2], of "zip (take 4 ?h) pad", unfolded zl, folded fin]
  show "length (crypto_poly1305_final ctx) = 16" using mac by simp
  have l5: "length ?h = 5" "unat (?h ! 4) \<le> 4" using red by (simp_all add: reduced_def)
  have "limbs ?h = limbs (take 4 ?h) + 2 ^ 128 * unat (?h ! 4)"
    using l5 by (simp add: limbs5 limbs4)
  moreover have "limbs (take 4 ?h) < 2 ^ 128" using limbs_bound [of "take 4 ?h"] l5 by simp
  ultimately have lt: "limbs ?h < 5 * 2 ^ 128" and split: "limbs ?h = limbs (take 4 ?h) + 2 ^ 128 * unat (?h ! 4)"
    using l5(2) by simp_all
  have "le_num (crypto_poly1305_final ctx) = (unat c + limbs (take 4 ?h) + limbs pad) mod 2 ^ 128"
    using mac by simp
  also have "\<dots> = ((unat c + limbs (take 4 ?h) + limbs pad) + 2 ^ 128 * unat (?h ! 4)) mod 2 ^ 128"
    by (rule mod_mult_self2 [symmetric])
  also have "(unat c + limbs (take 4 ?h) + limbs pad) + 2 ^ 128 * unat (?h ! 4) = limbs ?h + unat c + limbs pad"
    unfolding split by simp
  also have "\<dots> mod 2 ^ 128 = (limbs ?h + (5 + limbs ?h) div 2 ^ 130 * 5 + limbs pad) mod 2 ^ 128"
    using cv by (simp only:)
  also have "\<dots> = (limbs ?h mod poly_p + limbs pad) mod 2 ^ 128" by (rule mod_p_carry [OF lt])
  finally show "le_num (crypto_poly1305_final ctx) =
      (poly_acc (limbs r) 0 (bl @ pd) mod poly_p + limbs pad) mod 2 ^ 128"
    by (simp only: hv)
qed

section \<open>The authenticator\<close>

text \<open>The message parts a context has absorbed, whatever the cut.\<close>

definition poly_absorbed :: "poly1305_ctx \<Rightarrow> bytes \<Rightarrow> bytes \<Rightarrow> bool" where
  "poly_absorbed ctx key m \<longleftrightarrow>
     (\<exists>bl pd. poly_inv ctx (pc_r (crypto_poly1305_init key)) (load32_le_buf (drop 16 key) 4) bl pd \<and>
              length pd < 16 \<and> bl @ pd = m)"

lemma poly_absorbed_init: "length key = 32 \<Longrightarrow> poly_absorbed (crypto_poly1305_init key) key []"
  using poly_init_inv(1) by (auto simp: poly_absorbed_def)

lemma poly_absorbed_update:
  "poly_absorbed ctx key m \<Longrightarrow> n = length m' \<Longrightarrow> poly_absorbed (crypto_poly1305_update ctx m' n) key (m @ m')"
  unfolding poly_absorbed_def using poly_update_inv by (metis append.assoc)

lemma poly_absorbed_final:
  assumes "poly_absorbed ctx key m" and "length key = 32"
  shows "le_num (crypto_poly1305_final ctx) = poly1305_spec key m" and "length (crypto_poly1305_final ctx) = 16"
proof -
  let ?r = "pc_r (crypto_poly1305_init key)" and ?pad = "load32_le_buf (drop 16 key) 4"
  obtain bl pd where inv: "poly_inv ctx ?r ?pad bl pd" and pd: "length pd < 16" and m: "m = bl @ pd"
    using assms(1) by (auto simp: poly_absorbed_def)
  note v = poly_final_value [OF inv pd load32_le_buf_length]
  have "poly_acc r 0 x mod poly_p = poly_acc r 0 x" for r x
  proof -
    have "a < poly_p \<Longrightarrow> poly_acc r a x < poly_p" for a
    proof (induction r a x rule: poly_acc.induct)
      case (1 r a m)
      have "0 < poly_p" by (simp add: poly_p_def)
      then show ?case using 1 by (cases "m = []") (simp_all add: poly_acc_step [of m])
    qed
    then show ?thesis by (simp add: poly_p_def)
  qed
  then show "le_num (crypto_poly1305_final ctx) = poly1305_spec key m"
    using v(1) assms(2) by (simp add: m poly1305_spec_def poly_init_inv(2) limbs_load)
  show "length (crypto_poly1305_final ctx) = 16" by (rule v(2))
qed

lemma le_num_inject: "length xs = length ys \<Longrightarrow> le_num xs = le_num ys \<Longrightarrow> xs = ys"
proof (induction xs ys rule: list_induct2)
  case (Cons x xs y ys)
  have b: "unat x < 256" "unat y < 256"
    using unsigned_less [of x, where 'a = nat] unsigned_less [of y, where 'a = nat] by simp_all
  have e: "unat x + 256 * le_num xs = unat y + 256 * le_num ys" using Cons.prems by simp
  have "(unat x + 256 * le_num xs) mod 256 = unat x" "(unat y + 256 * le_num ys) mod 256 = unat y"
    using b by simp_all
  then have "unat x = unat y" using e by (simp only:)
  moreover from this e have "le_num xs = le_num ys" by simp
  ultimately show ?case using Cons.IH by (simp add: word_unat_eq_iff)
qed simp

text \<open>C22. The limb arithmetic computes the Poly1305 polynomial: for every 32-byte key and every way of
  cutting a message into updates, the 16 bytes of the tag are the little-endian number ((c1 r^n + ... + cn r)
  mod 2^130 - 5 + s) mod 2^128, where the ci are the 16-byte blocks with a 1 appended, r the clamped first
  half of the key and s the second half. No intermediate product or carry overflows its 32 or 64 bits.\<close>

theorem poly1305_correct:
  assumes "length key = 32"
  shows "le_num (crypto_poly1305_final
      (foldl (\<lambda>ctx m. crypto_poly1305_update ctx m (length m)) (crypto_poly1305_init key) parts)) =
    poly1305_spec key (concat parts) \<and>
    length (crypto_poly1305_final
      (foldl (\<lambda>ctx m. crypto_poly1305_update ctx m (length m)) (crypto_poly1305_init key) parts)) = 16"
proof -
  have "poly_absorbed ctx key m \<Longrightarrow>
      poly_absorbed (foldl (\<lambda>ctx m. crypto_poly1305_update ctx m (length m)) ctx parts) key (m @ concat parts)"
    for ctx m
  proof (induction parts arbitrary: ctx m)
    case (Cons p parts)
    show ?case using Cons.IH [OF poly_absorbed_update [OF Cons.prems refl, of p]] by simp
  qed simp
  from this [OF poly_absorbed_init [OF assms]] show ?thesis
    using poly_absorbed_final [OF _ assms] by simp
qed

theorem poly1305_correct_witness:
  "length (crypto_poly1305 [1, 2, 3] 3 (replicate 32 7)) = 16 \<and>
   le_num (crypto_poly1305 [1, 2, 3] 3 (replicate 32 7)) = poly1305_spec (replicate 32 7) [1, 2, 3]"
  using poly1305_correct [of "replicate 32 7" "[[1, 2, 3]]"] by (simp add: crypto_poly1305_def numeral_3_eq_3)

end
