(* ===== verification/Fe25519.thy ===== *)
theory Fe25519
  imports Poly1305
begin

unbundle bit_operations_syntax

text \<open>
  Arithmetic modulo 2^255 - 19 (src/src/asyd/core/monocypher.c): a field element is ten signed limbs of 26 and 25
  bits in turn. The arithmetic of the C code is signed, so an overflow of an int32_t or int64_t is undefined
  behaviour: every operation that could overflow is checked (\<open>i32\<close>, \<open>i64\<close>) and the result is
  \<open>None\<close> when it does. A right shift of a negative number rounds down, as the source states that it
  supposes. The lemmas show that no operation overflows within the bounds the comments of the source give
  (\<open>tight\<close> and \<open>loose\<close>), and that each computes its field operation.
\<close>

type_synonym fe = "int list"

definition i32 :: "int \<Rightarrow> int option" where
  "i32 x = (if - (2 ^ 31) \<le> x \<and> x < 2 ^ 31 then Some x else None)"

definition i64 :: "int \<Rightarrow> int option" where
  "i64 x = (if - (2 ^ 63) \<le> x \<and> x < 2 ^ 63 then Some x else None)"

section \<open>The operations\<close>

definition load24_le :: "bytes \<Rightarrow> u32" where
  "load24_le s = ucast (s ! 0) OR push_bit 8 (ucast (s ! 1)) OR push_bit 16 (ucast (s ! 2))"

definition fe_0 :: fe where
  "fe_0 = replicate 10 0"

definition fe_1 :: fe where
  "fe_1 = 1 # replicate 9 0"

definition sqrtm1 :: fe where
  "sqrtm1 = [- 32595792, - 7943725, 9377950, 3500415, 12389472,
     - 272473, - 25146209, - 2005654, 326686, 11406482]"

definition fe_copy :: "fe \<Rightarrow> fe" where
  "fe_copy f = map (\<lambda>i. f ! i) [0..<10]"

definition fe_neg :: "fe \<Rightarrow> fe option" where
  "fe_neg f = those (map (\<lambda>a. i32 (- a)) f)"

definition fe_add :: "fe \<Rightarrow> fe \<Rightarrow> fe option" where
  "fe_add f g = those (map2 (\<lambda>a b. i32 (a + b)) f g)"

definition fe_sub :: "fe \<Rightarrow> fe \<Rightarrow> fe option" where
  "fe_sub f g = those (map2 (\<lambda>a b. i32 (a - b)) f g)"

definition fe_cswap :: "fe \<Rightarrow> fe \<Rightarrow> int \<Rightarrow> fe \<times> fe" where
  "fe_cswap f g b =
     (let mask = - b
      in (map2 (\<lambda>x y. x XOR ((x XOR y) AND mask)) f g, map2 (\<lambda>x y. y XOR ((x XOR y) AND mask)) f g))"

definition fe_ccopy :: "fe \<Rightarrow> fe \<Rightarrow> int \<Rightarrow> fe" where
  "fe_ccopy f g b = (let mask = - b in map2 (\<lambda>x y. x XOR ((x XOR y) AND mask)) f g)"

text \<open>One step of FE_CARRY: the carry of \<open>t\<close> at \<open>n\<close> bits moves to \<open>u\<close>, \<open>m\<close> times.\<close>

definition carry :: "nat \<Rightarrow> int \<Rightarrow> int \<Rightarrow> int \<Rightarrow> (int \<times> int) option" where
  "carry n m t u =
     do {s \<leftarrow> i64 (t + 2 ^ (n - 1));
         let c = s div 2 ^ n;
         cn \<leftarrow> i64 (c * 2 ^ n);
         t \<leftarrow> i64 (t - cn);
         cm \<leftarrow> i64 (c * m);
         u \<leftarrow> i64 (u + cm);
         Some (t, u)}"

definition fe_carry :: "int \<Rightarrow> int \<Rightarrow> int \<Rightarrow> int \<Rightarrow> int \<Rightarrow> int \<Rightarrow> int \<Rightarrow> int \<Rightarrow> int \<Rightarrow> int \<Rightarrow> fe option" where
  "fe_carry t0 t1 t2 t3 t4 t5 t6 t7 t8 t9 = do {
     (t0, t1) \<leftarrow> carry 26 1 t0 t1;
     (t4, t5) \<leftarrow> carry 26 1 t4 t5;
     (t1, t2) \<leftarrow> carry 25 1 t1 t2;
     (t5, t6) \<leftarrow> carry 25 1 t5 t6;
     (t2, t3) \<leftarrow> carry 26 1 t2 t3;
     (t6, t7) \<leftarrow> carry 26 1 t6 t7;
     (t3, t4) \<leftarrow> carry 25 1 t3 t4;
     (t7, t8) \<leftarrow> carry 25 1 t7 t8;
     (t4, t5) \<leftarrow> carry 26 1 t4 t5;
     (t8, t9) \<leftarrow> carry 26 1 t8 t9;
     (t9, t0) \<leftarrow> carry 25 19 t9 t0;
     (t0, t1) \<leftarrow> carry 26 1 t0 t1;
     those (map i32 [t0, t1, t2, t3, t4, t5, t6, t7, t8, t9])}"

definition fe_frombytes_mask :: "bytes \<Rightarrow> nat \<Rightarrow> fe option" where
  "fe_frombytes_mask s nb_mask =
     (let mask = drop_bit nb_mask 0xffffff;
          t0 = uint (load32_le s);
          t1 = uint (push_bit 6 (load24_le (drop 4 s)));
          t2 = uint (push_bit 5 (load24_le (drop 7 s)));
          t3 = uint (push_bit 3 (load24_le (drop 10 s)));
          t4 = uint (push_bit 2 (load24_le (drop 13 s)));
          t5 = uint (load32_le (drop 16 s));
          t6 = uint (push_bit 7 (load24_le (drop 20 s)));
          t7 = uint (push_bit 5 (load24_le (drop 23 s)));
          t8 = uint (push_bit 4 (load24_le (drop 26 s)));
          t9 = uint (push_bit 2 (load24_le (drop 29 s) AND mask))
      in fe_carry t0 t1 t2 t3 t4 t5 t6 t7 t8 t9)"

definition fe_frombytes :: "bytes \<Rightarrow> fe option" where
  "fe_frombytes s = fe_frombytes_mask s 1"

text \<open>The two loops of \<open>fe_tobytes\<close>: the sign of the number, and the carry through the limbs.\<close>

fun fe_sign :: "int \<Rightarrow> fe \<Rightarrow> int option" where
  "fe_sign q (a # b # t) =
     do {q \<leftarrow> i32 (q + a); let q = q div 2 ^ 26;
         q \<leftarrow> i32 (q + b); let q = q div 2 ^ 25;
         fe_sign q t}"
| "fe_sign q t = Some q"

fun fe_wrap :: "int \<Rightarrow> fe \<Rightarrow> fe option" where
  "fe_wrap q (a # b # t) =
     do {a \<leftarrow> i32 (a + q); let q = a div 2 ^ 26; qa \<leftarrow> i32 (q * 2 ^ 26); a \<leftarrow> i32 (a - qa);
         b \<leftarrow> i32 (b + q); let q = b div 2 ^ 25; qb \<leftarrow> i32 (q * 2 ^ 25); b \<leftarrow> i32 (b - qb);
         t \<leftarrow> fe_wrap q t;
         Some (a # b # t)}"
| "fe_wrap q t = Some t"

definition fe_tobytes :: "fe \<Rightarrow> bytes option" where
  "fe_tobytes h =
     do {m \<leftarrow> i32 (19 * h ! 9);
         q \<leftarrow> i32 (m + 2 ^ 24);
         q \<leftarrow> fe_sign (q div 2 ^ 25) h;
         q \<leftarrow> i32 (q * 19);
         t \<leftarrow> fe_wrap q h;
         let u = (map word_of_int t :: u32 list);
         Some
           (store32_le (drop_bit 0 (u ! 0) OR push_bit 26 (u ! 1)) @
            store32_le (drop_bit 6 (u ! 1) OR push_bit 19 (u ! 2)) @
            store32_le (drop_bit 13 (u ! 2) OR push_bit 13 (u ! 3)) @
            store32_le (drop_bit 19 (u ! 3) OR push_bit 6 (u ! 4)) @
            store32_le (drop_bit 0 (u ! 5) OR push_bit 25 (u ! 6)) @
            store32_le (drop_bit 7 (u ! 6) OR push_bit 19 (u ! 7)) @
            store32_le (drop_bit 13 (u ! 7) OR push_bit 12 (u ! 8)) @
            store32_le (drop_bit 20 (u ! 8) OR push_bit 6 (u ! 9)))}"

text \<open>A sum of products of 64 bits, added from the left.\<close>

primrec dot_from :: "int \<Rightarrow> (int \<times> int) list \<Rightarrow> int option" where
  "dot_from acc [] = Some acc"
| "dot_from acc (p # ps) = do {ab \<leftarrow> i64 (fst p * snd p); acc \<leftarrow> i64 (acc + ab); dot_from acc ps}"

definition dot :: "(int \<times> int) list \<Rightarrow> int option" where
  "dot ps = dot_from 0 ps"

definition fe_mul_small :: "fe \<Rightarrow> int \<Rightarrow> fe option" where
  "fe_mul_small f g = do {
     t0 \<leftarrow> i64 (f ! 0 * g);
     t1 \<leftarrow> i64 (f ! 1 * g);
     t2 \<leftarrow> i64 (f ! 2 * g);
     t3 \<leftarrow> i64 (f ! 3 * g);
     t4 \<leftarrow> i64 (f ! 4 * g);
     t5 \<leftarrow> i64 (f ! 5 * g);
     t6 \<leftarrow> i64 (f ! 6 * g);
     t7 \<leftarrow> i64 (f ! 7 * g);
     t8 \<leftarrow> i64 (f ! 8 * g);
     t9 \<leftarrow> i64 (f ! 9 * g);
     fe_carry t0 t1 t2 t3 t4 t5 t6 t7 t8 t9}"

definition fe_mul :: "fe \<Rightarrow> fe \<Rightarrow> fe option" where
  "fe_mul f g = do {
     let f0 = f ! 0; let f1 = f ! 1; let f2 = f ! 2; let f3 = f ! 3; let f4 = f ! 4;
     let f5 = f ! 5; let f6 = f ! 6; let f7 = f ! 7; let f8 = f ! 8; let f9 = f ! 9;
     let g0 = g ! 0; let g1 = g ! 1; let g2 = g ! 2; let g3 = g ! 3; let g4 = g ! 4;
     let g5 = g ! 5; let g6 = g ! 6; let g7 = g ! 7; let g8 = g ! 8; let g9 = g ! 9;
     F1 \<leftarrow> i32 (f1 * 2); F3 \<leftarrow> i32 (f3 * 2); F5 \<leftarrow> i32 (f5 * 2); F7 \<leftarrow> i32 (f7 * 2); F9 \<leftarrow> i32 (f9 * 2);
     G1 \<leftarrow> i32 (g1 * 19); G2 \<leftarrow> i32 (g2 * 19); G3 \<leftarrow> i32 (g3 * 19);
     G4 \<leftarrow> i32 (g4 * 19); G5 \<leftarrow> i32 (g5 * 19); G6 \<leftarrow> i32 (g6 * 19);
     G7 \<leftarrow> i32 (g7 * 19); G8 \<leftarrow> i32 (g8 * 19); G9 \<leftarrow> i32 (g9 * 19);
     t0 \<leftarrow> dot [(f0, g0), (F1, G9), (f2, G8), (F3, G7), (f4, G6), (F5, G5), (f6, G4), (F7, G3), (f8, G2), (F9, G1)];
     t1 \<leftarrow> dot [(f0, g1), (f1, g0), (f2, G9), (f3, G8), (f4, G7), (f5, G6), (f6, G5), (f7, G4), (f8, G3), (f9, G2)];
     t2 \<leftarrow> dot [(f0, g2), (F1, g1), (f2, g0), (F3, G9), (f4, G8), (F5, G7), (f6, G6), (F7, G5), (f8, G4), (F9, G3)];
     t3 \<leftarrow> dot [(f0, g3), (f1, g2), (f2, g1), (f3, g0), (f4, G9), (f5, G8), (f6, G7), (f7, G6), (f8, G5), (f9, G4)];
     t4 \<leftarrow> dot [(f0, g4), (F1, g3), (f2, g2), (F3, g1), (f4, g0), (F5, G9), (f6, G8), (F7, G7), (f8, G6), (F9, G5)];
     t5 \<leftarrow> dot [(f0, g5), (f1, g4), (f2, g3), (f3, g2), (f4, g1), (f5, g0), (f6, G9), (f7, G8), (f8, G7), (f9, G6)];
     t6 \<leftarrow> dot [(f0, g6), (F1, g5), (f2, g4), (F3, g3), (f4, g2), (F5, g1), (f6, g0), (F7, G9), (f8, G8), (F9, G7)];
     t7 \<leftarrow> dot [(f0, g7), (f1, g6), (f2, g5), (f3, g4), (f4, g3), (f5, g2), (f6, g1), (f7, g0), (f8, G9), (f9, G8)];
     t8 \<leftarrow> dot [(f0, g8), (F1, g7), (f2, g6), (F3, g5), (f4, g4), (F5, g3), (f6, g2), (F7, g1), (f8, g0), (F9, G9)];
     t9 \<leftarrow> dot [(f0, g9), (f1, g8), (f2, g7), (f3, g6), (f4, g5), (f5, g4), (f6, g3), (f7, g2), (f8, g1), (f9, g0)];
     fe_carry t0 t1 t2 t3 t4 t5 t6 t7 t8 t9}"

definition fe_sq :: "fe \<Rightarrow> fe option" where
  "fe_sq f = do {
     let f0 = f ! 0; let f1 = f ! 1; let f2 = f ! 2; let f3 = f ! 3; let f4 = f ! 4;
     let f5 = f ! 5; let f6 = f ! 6; let f7 = f ! 7; let f8 = f ! 8; let f9 = f ! 9;
     f0_2 \<leftarrow> i32 (f0 * 2); f1_2 \<leftarrow> i32 (f1 * 2); f2_2 \<leftarrow> i32 (f2 * 2); f3_2 \<leftarrow> i32 (f3 * 2);
     f4_2 \<leftarrow> i32 (f4 * 2); f5_2 \<leftarrow> i32 (f5 * 2); f6_2 \<leftarrow> i32 (f6 * 2); f7_2 \<leftarrow> i32 (f7 * 2);
     f5_38 \<leftarrow> i32 (f5 * 38); f6_19 \<leftarrow> i32 (f6 * 19); f7_38 \<leftarrow> i32 (f7 * 38);
     f8_19 \<leftarrow> i32 (f8 * 19); f9_38 \<leftarrow> i32 (f9 * 38);
     t0 \<leftarrow> dot [(f0, f0), (f1_2, f9_38), (f2_2, f8_19), (f3_2, f7_38), (f4_2, f6_19), (f5, f5_38)];
     t1 \<leftarrow> dot [(f0_2, f1), (f2, f9_38), (f3_2, f8_19), (f4, f7_38), (f5_2, f6_19)];
     t2 \<leftarrow> dot [(f0_2, f2), (f1_2, f1), (f3_2, f9_38), (f4_2, f8_19), (f5_2, f7_38), (f6, f6_19)];
     t3 \<leftarrow> dot [(f0_2, f3), (f1_2, f2), (f4, f9_38), (f5_2, f8_19), (f6, f7_38)];
     t4 \<leftarrow> dot [(f0_2, f4), (f1_2, f3_2), (f2, f2), (f5_2, f9_38), (f6_2, f8_19), (f7, f7_38)];
     t5 \<leftarrow> dot [(f0_2, f5), (f1_2, f4), (f2_2, f3), (f6, f9_38), (f7_2, f8_19)];
     t6 \<leftarrow> dot [(f0_2, f6), (f1_2, f5_2), (f2_2, f4), (f3_2, f3), (f7_2, f9_38), (f8, f8_19)];
     t7 \<leftarrow> dot [(f0_2, f7), (f1_2, f6), (f2_2, f5), (f3_2, f4), (f8, f9_38)];
     t8 \<leftarrow> dot [(f0_2, f8), (f1_2, f7_2), (f2_2, f6), (f3_2, f5_2), (f4, f4), (f9, f9_38)];
     t9 \<leftarrow> dot [(f0_2, f9), (f1_2, f8), (f2_2, f7), (f3_2, f6), (f4, f5_2)];
     fe_carry t0 t1 t2 t3 t4 t5 t6 t7 t8 t9}"

section \<open>Sizes and values\<close>

definition p25519 :: int where
  "p25519 = 2 ^ 255 - 19"

definition fe_sum :: "int \<Rightarrow> int \<Rightarrow> int \<Rightarrow> int \<Rightarrow> int \<Rightarrow> int \<Rightarrow> int \<Rightarrow> int \<Rightarrow> int \<Rightarrow> int \<Rightarrow> int" where
  "fe_sum t0 t1 t2 t3 t4 t5 t6 t7 t8 t9 =
     t0 + 2 ^ 26 * (t1 + 2 ^ 25 * (t2 + 2 ^ 26 * (t3 + 2 ^ 25 * (t4 + 2 ^ 26 * (t5 + 2 ^ 25 * (t6 + 2 ^ 26 *
       (t7 + 2 ^ 25 * (t8 + 2 ^ 26 * t9))))))))"

definition fe_val :: "fe \<Rightarrow> int" where
  "fe_val h = fe_sum (h ! 0) (h ! 1) (h ! 2) (h ! 3) (h ! 4) (h ! 5) (h ! 6) (h ! 7) (h ! 8) (h ! 9)"

text \<open>The bounds of the comments: 1.1 and 1.65 times 2^25 and 2^24, and 2^26 and 2^25.\<close>

fun within :: "int \<Rightarrow> int \<Rightarrow> fe \<Rightarrow> bool" where
  "within m n (a # b # t) \<longleftrightarrow> \<bar>a\<bar> \<le> m \<and> \<bar>b\<bar> \<le> n \<and> within m n t"
| "within m n _ \<longleftrightarrow> True"

definition tight :: "fe \<Rightarrow> bool" where
  "tight h \<longleftrightarrow> length h = 10 \<and> within (11 * 2 ^ 25 div 10) (11 * 2 ^ 24 div 10) h"

definition loose :: "fe \<Rightarrow> bool" where
  "loose h \<longleftrightarrow> length h = 10 \<and> within (165 * 2 ^ 26 div 100) (165 * 2 ^ 25 div 100) h"

lemma list10:
  assumes "length h = 10"
  obtains h0 h1 h2 h3 h4 h5 h6 h7 h8 h9 where "h = [h0, h1, h2, h3, h4, h5, h6, h7, h8, h9]"
  using assms that by (auto simp: length_Suc_conv eval_nat_numeral)

lemma loose_list: "loose [f0, f1, f2, f3, f4, f5, f6, f7, f8, f9] \<longleftrightarrow> \<bar>f0\<bar> \<le> 110729625 \<and> \<bar>f1\<bar> \<le> 55364812 \<and> \<bar>f2\<bar> \<le> 110729625 \<and>
      \<bar>f3\<bar> \<le> 55364812 \<and> \<bar>f4\<bar> \<le> 110729625 \<and> \<bar>f5\<bar> \<le> 55364812 \<and> \<bar>f6\<bar> \<le> 110729625 \<and> \<bar>f7\<bar> \<le> 55364812 \<and> \<bar>f8\<bar> \<le> 110729625 \<and>
          \<bar>f9\<bar> \<le> 55364812"
  by (simp add: loose_def)

lemma tight_list: "tight [f0, f1, f2, f3, f4, f5, f6, f7, f8, f9] \<longleftrightarrow> \<bar>f0\<bar> \<le> 36909875 \<and> \<bar>f1\<bar> \<le> 18454937 \<and> \<bar>f2\<bar> \<le> 36909875 \<and>
      \<bar>f3\<bar> \<le> 18454937 \<and> \<bar>f4\<bar> \<le> 36909875 \<and> \<bar>f5\<bar> \<le> 18454937 \<and> \<bar>f6\<bar> \<le> 36909875 \<and> \<bar>f7\<bar> \<le> 18454937 \<and> \<bar>f8\<bar> \<le> 36909875 \<and>
          \<bar>f9\<bar> \<le> 18454937"
  by (simp add: tight_def)

lemma i32_Some: "- 2147483648 \<le> x \<Longrightarrow> x < 2147483648 \<Longrightarrow> i32 x = Some x"
  by (simp add: i32_def)

lemma i64_Some: "\<bar>x\<bar> \<le> 9223372036854775807 \<Longrightarrow> i64 x = Some x"
  by (auto simp: i64_def abs_le_iff)

lemma abs_mult_le:
  assumes "\<bar>a\<bar> \<le> (A :: int)" and "0 \<le> c" and "A * c \<le> B"
  shows "\<bar>a * c\<bar> \<le> B"
proof -
  have "\<bar>a * c\<bar> = \<bar>a\<bar> * c" using assms(2) by (simp add: abs_mult)
  also have "\<dots> \<le> A * c" using assms(1,2) by (rule mult_right_mono)
  finally show ?thesis using assms(3) by linarith
qed

lemma i32_mult: "\<bar>a\<bar> \<le> A \<Longrightarrow> 0 \<le> c \<Longrightarrow> A * c \<le> 2147483647 \<Longrightarrow> i32 (a * c) = Some (a * c)"
  using abs_mult_le [of a A c 2147483647] by (intro i32_Some) (auto simp: abs_le_iff)

section \<open>Carry\<close>

lemma carry_ok:
  assumes n: "0 < n" and t: "\<bar>t\<bar> \<le> K * 2 ^ n" and K: "K * 2 ^ n + 2 ^ n \<le> 9223372036854775807"
    and m: "0 \<le> m" and u: "\<bar>u\<bar> + K * m \<le> 9223372036854775807"
  shows "\<exists>c. carry n m t u = Some (t - c * 2 ^ n, u + c * m) \<and> \<bar>c\<bar> \<le> K \<and> \<bar>t - c * 2 ^ n\<bar> \<le> 2 ^ (n - 1)"
proof -
  define h :: int where "h = 2 ^ (n - 1)"
  have e: "2 ^ n = 2 * h" using n by (simp add: h_def flip: power_Suc)
  have hp: "0 < h" by (simp add: h_def)
  let ?c = "(t + h) div (2 * h)"
  have d: "t + h = ?c * (2 * h) + (t + h) mod (2 * h)" by (rule div_mult_mod_eq [symmetric])
  have r: "0 \<le> (t + h) mod (2 * h)" "(t + h) mod (2 * h) < 2 * h" using hp by simp_all
  have ct: "\<bar>t - ?c * (2 * h)\<bar> \<le> h" using d r by (simp add: abs_le_iff)
  have cK: "\<bar>?c\<bar> \<le> K"
  proof -
    have "?c \<le> (K * (2 * h) + h) div (2 * h)" using t hp unfolding e by (intro zdiv_mono1) (auto simp: abs_le_iff)
    also have "\<dots> = K" using hp by simp
    finally have up: "?c \<le> K" .
    have "- K = (h + - K * (2 * h)) div (2 * h)" using hp by (subst div_mult_self1) simp_all
    also have "\<dots> \<le> ?c" using t hp unfolding e by (intro zdiv_mono1) (auto simp: abs_le_iff)
    finally show ?thesis using up by simp
  qed
  have cb: "\<bar>?c * (2 * h)\<bar> \<le> K * (2 * h)" using cK hp by (simp add: abs_mult mult_right_mono)
  have cm: "\<bar>?c * m\<bar> \<le> K * m" using cK m by (simp add: abs_mult mult_right_mono)
  have i: "i64 (t + h) = Some (t + h)" "i64 (?c * (2 * h)) = Some (?c * (2 * h))"
      "i64 (t - ?c * (2 * h)) = Some (t - ?c * (2 * h))" "i64 (?c * m) = Some (?c * m)"
      "i64 (u + ?c * m) = Some (u + ?c * m)"
    using t K u ct cb cm hp unfolding e by (intro i64_Some; linarith)+
  show ?thesis
    using ct cK by (intro exI [of _ ?c]) (simp add: carry_def e h_def [symmetric] i Let_def del: One_nat_def)
qed

lemma carry26:
  assumes "\<bar>t\<bar> \<le> T" and "\<bar>u\<bar> \<le> U" and "T \<le> K * 67108864 \<and> K \<le> 68719480832 \<and> U + K = V \<and> V \<le> 9223372036854775807"
  shows "\<exists>c r s. carry 26 1 t u = Some (r, s) \<and> r = t - 67108864 * c \<and> s = u + c \<and> \<bar>r\<bar> \<le> 33554432 \<and> \<bar>s\<bar> \<le> V"
proof -
  obtain c where c: "carry 26 1 t u = Some (t - c * 2 ^ 26, u + c * 1)" "\<bar>c\<bar> \<le> K" "\<bar>t - c * 2 ^ 26\<bar> \<le> 2 ^ (26 - 1)"
    using carry_ok [of 26 t K 1 u] assms by fastforce
  then have "\<bar>u + c\<bar> \<le> V" using assms by linarith
  then show ?thesis using c by (intro exI [of _ c] exI conjI) (auto simp: mult.commute)
qed

lemma carry25:
  assumes "\<bar>t\<bar> \<le> T" and "\<bar>u\<bar> \<le> U"
    and "T \<le> K * 33554432 \<and> K \<le> 137438957568 \<and> 0 \<le> m \<and> U + K * m = V \<and> V \<le> 9223372036854775807"
  shows "\<exists>c r s. carry 25 m t u = Some (r, s) \<and> r = t - 33554432 * c \<and> s = u + m * c \<and> \<bar>r\<bar> \<le> 16777216 \<and> \<bar>s\<bar> \<le> V"
proof -
  obtain c where c: "carry 25 m t u = Some (t - c * 2 ^ 25, u + c * m)" "\<bar>c\<bar> \<le> K" "\<bar>t - c * 2 ^ 25\<bar> \<le> 2 ^ (25 - 1)"
    using carry_ok [of 25 t K m u] assms by fastforce
  have "\<bar>c * m\<bar> \<le> K * m" using c(2) assms(3) by (simp add: abs_mult mult_right_mono)
  then have "\<bar>u + c * m\<bar> \<le> V" using assms by linarith
  then show ?thesis using c by (intro exI [of _ c] exI conjI) (auto simp: mult.commute)
qed

lemma fe_carry_ok:
  assumes b: "\<bar>t0\<bar> \<le> 4611686018427387904" "\<bar>t1\<bar> \<le> 4611686018427387904" "\<bar>t2\<bar> \<le> 4611686018427387904"
    "\<bar>t3\<bar> \<le> 4611686018427387904" "\<bar>t4\<bar> \<le> 4611686018427387904"
    "\<bar>t5\<bar> \<le> 4611686018427387904" "\<bar>t6\<bar> \<le> 4611686018427387904" "\<bar>t7\<bar> \<le> 4611686018427387904" "\<bar>t8\<bar> \<le> 4611686018427387904"
    "\<bar>t9\<bar> \<le> 4611686018427387904"
  shows "\<exists>h. fe_carry t0 t1 t2 t3 t4 t5 t6 t7 t8 t9 = Some h \<and> tight h \<and>
    fe_val h mod p25519 = fe_sum t0 t1 t2 t3 t4 t5 t6 t7 t8 t9 mod p25519"
proof -
  obtain c0 r0 s0 where a0: "carry 26 1 t0 t1 = Some (r0, s0)"
    and e0: "r0 = t0 - 67108864 * c0" "s0 = t1 + c0" and r0: "\<bar>r0\<bar> \<le> 33554432" and s0: "\<bar>s0\<bar> \<le> 4611686087146864640"
    using carry26 [OF b(1) b(2), of 68719476736 4611686087146864640] by (simp only: arith_simps rel_simps mult_1_right simp_thms) blast
  obtain c1 r1 s1 where a1: "carry 26 1 t4 t5 = Some (r1, s1)"
    and e1: "r1 = t4 - 67108864 * c1" "s1 = t5 + c1" and r1: "\<bar>r1\<bar> \<le> 33554432" and s1: "\<bar>s1\<bar> \<le> 4611686087146864640"
    using carry26 [OF b(5) b(6), of 68719476736 4611686087146864640] by (simp only: arith_simps rel_simps mult_1_right simp_thms) blast
  obtain c2 r2 s2 where a2: "carry 25 1 s0 t2 = Some (r2, s2)"
    and e2: "r2 = s0 - 33554432 * c2" "s2 = t2 + 1 * c2" and r2: "\<bar>r2\<bar> \<le> 16777216" and s2: "\<bar>s2\<bar> \<le> 4611686155866343424"
    using carry25 [OF s0 b(3), of 137438955520 1 4611686155866343424] by (simp only: arith_simps rel_simps mult_1_right simp_thms) blast
  obtain c3 r3 s3 where a3: "carry 25 1 s1 t6 = Some (r3, s3)"
    and e3: "r3 = s1 - 33554432 * c3" "s3 = t6 + 1 * c3" and r3: "\<bar>r3\<bar> \<le> 16777216" and s3: "\<bar>s3\<bar> \<le> 4611686155866343424"
    using carry25 [OF s1 b(7), of 137438955520 1 4611686155866343424] by (simp only: arith_simps rel_simps mult_1_right simp_thms) blast
  obtain c4 r4 s4 where a4: "carry 26 1 s2 t3 = Some (r4, s4)"
    and e4: "r4 = s2 - 67108864 * c4" "s4 = t3 + c4" and r4: "\<bar>r4\<bar> \<le> 33554432" and s4: "\<bar>s4\<bar> \<le> 4611686087146868736"
    using carry26 [OF s2 b(4), of 68719480832 4611686087146868736] by (simp only: arith_simps rel_simps mult_1_right simp_thms) blast
  obtain c5 r5 s5 where a5: "carry 26 1 s3 t7 = Some (r5, s5)"
    and e5: "r5 = s3 - 67108864 * c5" "s5 = t7 + c5" and r5: "\<bar>r5\<bar> \<le> 33554432" and s5: "\<bar>s5\<bar> \<le> 4611686087146868736"
    using carry26 [OF s3 b(8), of 68719480832 4611686087146868736] by (simp only: arith_simps rel_simps mult_1_right simp_thms) blast
  obtain c6 r6 s6 where a6: "carry 25 1 s4 r1 = Some (r6, s6)"
    and e6: "r6 = s4 - 33554432 * c6" "s6 = r1 + 1 * c6" and r6: "\<bar>r6\<bar> \<le> 16777216" and s6: "\<bar>s6\<bar> \<le> 137472512000"
    using carry25 [OF s4 r1, of 137438957568 1 137472512000] by (simp only: arith_simps rel_simps mult_1_right simp_thms) blast
  obtain c7 r7 s7 where a7: "carry 25 1 s5 t8 = Some (r7, s7)"
    and e7: "r7 = s5 - 33554432 * c7" "s7 = t8 + 1 * c7" and r7: "\<bar>r7\<bar> \<le> 16777216" and s7: "\<bar>s7\<bar> \<le> 4611686155866345472"
    using carry25 [OF s5 b(9), of 137438957568 1 4611686155866345472] by (simp only: arith_simps rel_simps mult_1_right simp_thms) blast
  obtain c8 r8 s8 where a8: "carry 26 1 s6 r3 = Some (r8, s8)"
    and e8: "r8 = s6 - 67108864 * c8" "s8 = r3 + c8" and r8: "\<bar>r8\<bar> \<le> 33554432" and s8: "\<bar>s8\<bar> \<le> 16781312"
    using carry26 [OF s6 r3, of 4096 16781312] by (simp only: arith_simps rel_simps mult_1_right simp_thms) blast
  obtain c9 r9 s9 where a9: "carry 26 1 s7 t9 = Some (r9, s9)"
    and e9: "r9 = s7 - 67108864 * c9" "s9 = t9 + c9" and r9: "\<bar>r9\<bar> \<le> 33554432" and s9: "\<bar>s9\<bar> \<le> 4611686087146868736"
    using carry26 [OF s7 b(10), of 68719480832 4611686087146868736] by (simp only: arith_simps rel_simps mult_1_right simp_thms) blast
  obtain c10 r10 s10 where a10: "carry 25 19 s9 r0 = Some (r10, s10)"
    and e10: "r10 = s9 - 33554432 * c10" "s10 = r0 + 19 * c10" and r10: "\<bar>r10\<bar> \<le> 16777216" and s10: "\<bar>s10\<bar> \<le> 2611373748224"
    using carry25 [OF s9 r0, of 137438957568 19 2611373748224] by (simp only: arith_simps rel_simps mult_1_right simp_thms) blast
  obtain c11 r11 s11 where a11: "carry 26 1 s10 r2 = Some (r11, s11)"
    and e11: "r11 = s10 - 67108864 * c11" "s11 = r2 + c11" and r11: "\<bar>r11\<bar> \<le> 33554432" and s11: "\<bar>s11\<bar> \<le> 16842752"
    using carry26 [OF s10 r2, of 65536 16842752] by (simp only: arith_simps rel_simps mult_1_right simp_thms) blast
  let ?h = "[r11, s11, r4, r6, r8, s8, r5, r7, r9, r10]"
  have i: "i32 r11 = Some r11" "i32 s11 = Some s11" "i32 r4 = Some r4" "i32 r6 = Some r6" "i32 r8 = Some r8"
    "i32 s8 = Some s8" "i32 r5 = Some r5" "i32 r7 = Some r7" "i32 r9 = Some r9" "i32 r10 = Some r10"
    using r11 s11 r4 r6 r8 s8 r5 r7 r9 r10 by (simp_all add: i32_Some abs_le_iff)
  have c: "fe_carry t0 t1 t2 t3 t4 t5 t6 t7 t8 t9 = Some ?h"
    by (simp add: fe_carry_def a0 a1 a2 a3 a4 a5 a6 a7 a8 a9 a10 a11 i)
  have t: "tight ?h"
    using r11 s11 r4 r6 r8 s8 r5 r7 r9 r10 by (simp add: tight_def)
  have v: "fe_val ?h = fe_sum t0 t1 t2 t3 t4 t5 t6 t7 t8 t9 + p25519 * (- c10)"
    unfolding e11 e10 e9 e8 e7 e6 e5 e4 e3 e2 e1 e0 fe_val_def fe_sum_def p25519_def by simp
  show ?thesis
    by (intro exI [of _ ?h] conjI c t) (simp only: v mod_mult_self2)
qed

section \<open>Products\<close>

definition dot_sum :: "(int \<times> int) list \<Rightarrow> int" where
  "dot_sum ps = (\<Sum>(a, b)\<leftarrow>ps. a * b)"

lemma dot_from_ok:
  assumes "\<forall>p\<in>set ps. \<bar>fst p * snd p\<bar> \<le> M" and "\<bar>acc\<bar> + int (length ps) * M \<le> 9223372036854775807"
  shows "dot_from acc ps = Some (acc + dot_sum ps)"
  using assms
proof (induction ps arbitrary: acc)
  case (Cons p ps)
  have p: "\<bar>fst p * snd p\<bar> \<le> M" using Cons.prems(1) by simp
  moreover from p have "0 \<le> M" by linarith
  moreover from this have "0 \<le> int (length ps) * M" by simp
  moreover have l: "int (length (p # ps)) * M = M + int (length ps) * M" by (simp add: algebra_simps)
  ultimately have "i64 (fst p * snd p) = Some (fst p * snd p)" "i64 (acc + fst p * snd p) = Some (acc + fst p * snd p)"
      "\<bar>acc + fst p * snd p\<bar> + int (length ps) * M \<le> 9223372036854775807"
    using Cons.prems(2) unfolding l by - ((intro i64_Some; linarith)+, linarith)
  then show ?case using Cons.IH [of "acc + fst p * snd p"] Cons.prems(1) by (simp add: dot_sum_def split_beta)
qed (simp add: dot_sum_def)

lemma dot_sum_le:
  "\<forall>p\<in>set ps. \<bar>fst p * snd p\<bar> \<le> M \<Longrightarrow> \<bar>dot_sum ps\<bar> \<le> int (length ps) * M"
proof (induction ps)
  case (Cons p ps)
  have "dot_sum (p # ps) = fst p * snd p + dot_sum ps" by (simp add: dot_sum_def split_beta)
  moreover have "\<bar>fst p * snd p\<bar> \<le> M" "\<bar>dot_sum ps\<bar> \<le> int (length ps) * M" using Cons by simp_all
  ultimately show ?case by (simp add: algebra_simps)
qed (simp add: dot_sum_def)

lemma dot_ok:
  assumes "\<forall>p\<in>set ps. \<bar>fst p\<bar> \<le> A \<and> \<bar>snd p\<bar> \<le> B" and "0 \<le> A" and "int (length ps) * (A * B) \<le> 4611686018427387904"
    and "dot_sum ps = s"
  shows "dot ps = Some s \<and> \<bar>s\<bar> \<le> 4611686018427387904"
proof -
  have m: "\<forall>p\<in>set ps. \<bar>fst p * snd p\<bar> \<le> A * B"
    using assms(1,2) by (auto simp: abs_mult intro!: mult_mono)
  show ?thesis
    using dot_from_ok [OF m, of 0] dot_sum_le [OF m] assms(3,4) by (auto simp: dot_def)
qed

text \<open>The rolled loop: limb \<open>k\<close> of a product, with 2^255 folded back to 19.\<close>

definition mul_limb :: "fe \<Rightarrow> fe \<Rightarrow> nat \<Rightarrow> int" where
  "mul_limb f g k =
     (\<Sum>i\<leftarrow>[0..<10]. let j = (k + 10 - i) mod 10
        in (if odd i \<and> odd j then 2 else 1) * (if i \<le> k then 1 else 19) * (f ! i * g ! j))"

definition limb_product :: "fe \<Rightarrow> fe \<Rightarrow> fe option" where
  "limb_product f g = (let t = mul_limb f g in fe_carry (t 0) (t 1) (t 2) (t 3) (t 4) (t 5) (t 6) (t 7) (t 8) (t 9))"

lemma upt10: "[0..<10] = [0, 1, 2, 3, 4, 5, 6, 7, 8, 9 :: nat]"
  by (simp add: upt_rec)

lemmas dot_simps = mul_limb_def dot_sum_def upt10 Let_def algebra_simps

lemma fe_mul_rolled:
  assumes "loose f" and "loose g"
  shows "fe_mul f g = limb_product f g" and "\<forall>k<10. \<bar>mul_limb f g k\<bar> \<le> 4611686018427387904"
proof -
  have l: "length f = 10" "length g = 10" using assms by (simp_all add: loose_def)
  obtain f0 f1 f2 f3 f4 f5 f6 f7 f8 f9 where f: "f = [f0, f1, f2, f3, f4, f5, f6, f7, f8, f9]"
    using l(1) by (rule list10)
  obtain g0 g1 g2 g3 g4 g5 g6 g7 g8 g9 where g: "g = [g0, g1, g2, g3, g4, g5, g6, g7, g8, g9]"
    using l(2) by (rule list10)
  have bf: "\<bar>f0\<bar> \<le> 110729625" "\<bar>f1\<bar> \<le> 55364812" "\<bar>f2\<bar> \<le> 110729625" "\<bar>f3\<bar> \<le> 55364812" "\<bar>f4\<bar> \<le> 110729625" "\<bar>f5\<bar> \<le> 55364812"
    "\<bar>f6\<bar> \<le> 110729625" "\<bar>f7\<bar> \<le> 55364812" "\<bar>f8\<bar> \<le> 110729625" "\<bar>f9\<bar> \<le> 55364812"
    using assms(1) unfolding f loose_list by - ((elim conjE)?, assumption)+
  have bg: "\<bar>g0\<bar> \<le> 110729625" "\<bar>g1\<bar> \<le> 55364812" "\<bar>g2\<bar> \<le> 110729625" "\<bar>g3\<bar> \<le> 55364812" "\<bar>g4\<bar> \<le> 110729625" "\<bar>g5\<bar> \<le> 55364812"
    "\<bar>g6\<bar> \<le> 110729625" "\<bar>g7\<bar> \<le> 55364812" "\<bar>g8\<bar> \<le> 110729625" "\<bar>g9\<bar> \<le> 55364812"
    using assms(2) unfolding g loose_list by - ((elim conjE)?, assumption)+
  note b = bf bg
  have i: "i32 (f1 * 2) = Some (f1 * 2)" "i32 (f3 * 2) = Some (f3 * 2)" "i32 (f5 * 2) = Some (f5 * 2)"
    "i32 (f7 * 2) = Some (f7 * 2)" "i32 (f9 * 2) = Some (f9 * 2)"
    "i32 (g1 * 19) = Some (g1 * 19)" "i32 (g2 * 19) = Some (g2 * 19)" "i32 (g3 * 19) = Some (g3 * 19)"
    "i32 (g4 * 19) = Some (g4 * 19)" "i32 (g5 * 19) = Some (g5 * 19)" "i32 (g6 * 19) = Some (g6 * 19)"
    "i32 (g7 * 19) = Some (g7 * 19)" "i32 (g8 * 19) = Some (g8 * 19)" "i32 (g9 * 19) = Some (g9 * 19)"
    by (rule i32_mult, rule b, simp, simp)+
  have a: "\<bar>f0\<bar> \<le> 134217728" "\<bar>f1\<bar> \<le> 134217728" "\<bar>f2\<bar> \<le> 134217728" "\<bar>f3\<bar> \<le> 134217728" "\<bar>f4\<bar> \<le> 134217728" "\<bar>f5\<bar> \<le> 134217728"
    "\<bar>f6\<bar> \<le> 134217728" "\<bar>f7\<bar> \<le> 134217728" "\<bar>f8\<bar> \<le> 134217728" "\<bar>f9\<bar> \<le> 134217728"
    "\<bar>f1 * 2\<bar> \<le> 134217728" "\<bar>f3 * 2\<bar> \<le> 134217728" "\<bar>f5 * 2\<bar> \<le> 134217728" "\<bar>f7 * 2\<bar> \<le> 134217728" "\<bar>f9 * 2\<bar> \<le> 134217728"
    "\<bar>g0\<bar> \<le> 2147483648" "\<bar>g1\<bar> \<le> 2147483648" "\<bar>g2\<bar> \<le> 2147483648" "\<bar>g3\<bar> \<le> 2147483648" "\<bar>g4\<bar> \<le> 2147483648" "\<bar>g5\<bar> \<le> 2147483648"
    "\<bar>g6\<bar> \<le> 2147483648" "\<bar>g7\<bar> \<le> 2147483648" "\<bar>g8\<bar> \<le> 2147483648" "\<bar>g9\<bar> \<le> 2147483648"
    "\<bar>g1 * 19\<bar> \<le> 2147483648" "\<bar>g2 * 19\<bar> \<le> 2147483648" "\<bar>g3 * 19\<bar> \<le> 2147483648" "\<bar>g4 * 19\<bar> \<le> 2147483648"
    "\<bar>g5 * 19\<bar> \<le> 2147483648" "\<bar>g6 * 19\<bar> \<le> 2147483648" "\<bar>g7 * 19\<bar> \<le> 2147483648" "\<bar>g8 * 19\<bar> \<le> 2147483648"
    "\<bar>g9 * 19\<bar> \<le> 2147483648"
    by (rule order_trans, rule b, simp | rule abs_mult_le, rule b, simp, simp)+
  have d0: "dot [(f0, g0), (f1 * 2, g9 * 19), (f2, g8 * 19), (f3 * 2, g7 * 19), (f4, g6 * 19), (f5 * 2, g5 * 19),
        (f6, g4 * 19), (f7 * 2, g3 * 19), (f8, g2 * 19), (f9 * 2, g1 * 19)] =
      Some (mul_limb f g 0) \<and> \<bar>mul_limb f g 0\<bar> \<le> 4611686018427387904"
    by (rule dot_ok [of _ 134217728 2147483648]) (simp add: a del: abs_mult, simp_all add: f g dot_simps)
  have d1: "dot [(f0, g1), (f1, g0), (f2, g9 * 19), (f3, g8 * 19), (f4, g7 * 19), (f5, g6 * 19), (f6, g5 * 19),
        (f7, g4 * 19), (f8, g3 * 19), (f9, g2 * 19)] =
      Some (mul_limb f g 1) \<and> \<bar>mul_limb f g 1\<bar> \<le> 4611686018427387904"
    by (rule dot_ok [of _ 134217728 2147483648]) (simp add: a del: abs_mult, simp_all add: f g dot_simps)
  have d2: "dot [(f0, g2), (f1 * 2, g1), (f2, g0), (f3 * 2, g9 * 19), (f4, g8 * 19), (f5 * 2, g7 * 19), (f6, g6 * 19),
        (f7 * 2, g5 * 19), (f8, g4 * 19), (f9 * 2, g3 * 19)] =
      Some (mul_limb f g 2) \<and> \<bar>mul_limb f g 2\<bar> \<le> 4611686018427387904"
    by (rule dot_ok [of _ 134217728 2147483648]) (simp add: a del: abs_mult, simp_all add: f g dot_simps)
  have d3: "dot [(f0, g3), (f1, g2), (f2, g1), (f3, g0), (f4, g9 * 19), (f5, g8 * 19), (f6, g7 * 19), (f7, g6 * 19),
        (f8, g5 * 19), (f9, g4 * 19)] =
      Some (mul_limb f g 3) \<and> \<bar>mul_limb f g 3\<bar> \<le> 4611686018427387904"
    by (rule dot_ok [of _ 134217728 2147483648]) (simp add: a del: abs_mult, simp_all add: f g dot_simps)
  have d4: "dot [(f0, g4), (f1 * 2, g3), (f2, g2), (f3 * 2, g1), (f4, g0), (f5 * 2, g9 * 19), (f6, g8 * 19),
        (f7 * 2, g7 * 19), (f8, g6 * 19), (f9 * 2, g5 * 19)] =
      Some (mul_limb f g 4) \<and> \<bar>mul_limb f g 4\<bar> \<le> 4611686018427387904"
    by (rule dot_ok [of _ 134217728 2147483648]) (simp add: a del: abs_mult, simp_all add: f g dot_simps)
  have d5: "dot [(f0, g5), (f1, g4), (f2, g3), (f3, g2), (f4, g1), (f5, g0), (f6, g9 * 19), (f7, g8 * 19), (f8, g7 * 19),
        (f9, g6 * 19)] =
      Some (mul_limb f g 5) \<and> \<bar>mul_limb f g 5\<bar> \<le> 4611686018427387904"
    by (rule dot_ok [of _ 134217728 2147483648]) (simp add: a del: abs_mult, simp_all add: f g dot_simps)
  have d6: "dot [(f0, g6), (f1 * 2, g5), (f2, g4), (f3 * 2, g3), (f4, g2), (f5 * 2, g1), (f6, g0), (f7 * 2, g9 * 19),
        (f8, g8 * 19), (f9 * 2, g7 * 19)] =
      Some (mul_limb f g 6) \<and> \<bar>mul_limb f g 6\<bar> \<le> 4611686018427387904"
    by (rule dot_ok [of _ 134217728 2147483648]) (simp add: a del: abs_mult, simp_all add: f g dot_simps)
  have d7: "dot [(f0, g7), (f1, g6), (f2, g5), (f3, g4), (f4, g3), (f5, g2), (f6, g1), (f7, g0), (f8, g9 * 19),
        (f9, g8 * 19)] =
      Some (mul_limb f g 7) \<and> \<bar>mul_limb f g 7\<bar> \<le> 4611686018427387904"
    by (rule dot_ok [of _ 134217728 2147483648]) (simp add: a del: abs_mult, simp_all add: f g dot_simps)
  have d8: "dot [(f0, g8), (f1 * 2, g7), (f2, g6), (f3 * 2, g5), (f4, g4), (f5 * 2, g3), (f6, g2), (f7 * 2, g1), (f8, g0),
        (f9 * 2, g9 * 19)] =
      Some (mul_limb f g 8) \<and> \<bar>mul_limb f g 8\<bar> \<le> 4611686018427387904"
    by (rule dot_ok [of _ 134217728 2147483648]) (simp add: a del: abs_mult, simp_all add: f g dot_simps)
  have d9: "dot [(f0, g9), (f1, g8), (f2, g7), (f3, g6), (f4, g5), (f5, g4), (f6, g3), (f7, g2), (f8, g1), (f9, g0)] =
      Some (mul_limb f g 9) \<and> \<bar>mul_limb f g 9\<bar> \<le> 4611686018427387904"
    by (rule dot_ok [of _ 134217728 2147483648]) (simp add: a del: abs_mult, simp_all add: f g dot_simps)
  show "fe_mul f g = limb_product f g"
    by (simp add: fe_mul_def limb_product_def f g i d0 [unfolded f g] d1 [unfolded f g] d2 [unfolded f g] d3 [unfolded f g] d4 [unfolded f g] d5 [unfolded f g] d6 [unfolded f g] d7 [unfolded f g] d8 [unfolded f g] d9 [unfolded f g] Let_def)
  show "\<forall>k<10. \<bar>mul_limb f g k\<bar> \<le> 4611686018427387904"
    using d0 d1 d2 d3 d4 d5 d6 d7 d8 d9 by (simp add: less_Suc_eq eval_nat_numeral)
qed

text \<open>The squares take fewer products; the limbs are the same.\<close>

lemma fe_sq_rolled:
  assumes "loose f"
  shows "fe_sq f = limb_product f f"
proof -
  have l: "length f = 10" using assms by (simp add: loose_def)
  obtain f0 f1 f2 f3 f4 f5 f6 f7 f8 f9 where f: "f = [f0, f1, f2, f3, f4, f5, f6, f7, f8, f9]"
    using l by (rule list10)
  have b: "\<bar>f0\<bar> \<le> 110729625" "\<bar>f1\<bar> \<le> 55364812" "\<bar>f2\<bar> \<le> 110729625" "\<bar>f3\<bar> \<le> 55364812" "\<bar>f4\<bar> \<le> 110729625" "\<bar>f5\<bar> \<le> 55364812"
    "\<bar>f6\<bar> \<le> 110729625" "\<bar>f7\<bar> \<le> 55364812" "\<bar>f8\<bar> \<le> 110729625" "\<bar>f9\<bar> \<le> 55364812"
    using assms unfolding f loose_list by - ((elim conjE)?, assumption)+
  have i: "i32 (f0 * 2) = Some (f0 * 2)" "i32 (f1 * 2) = Some (f1 * 2)" "i32 (f2 * 2) = Some (f2 * 2)"
    "i32 (f3 * 2) = Some (f3 * 2)" "i32 (f4 * 2) = Some (f4 * 2)" "i32 (f5 * 2) = Some (f5 * 2)"
    "i32 (f6 * 2) = Some (f6 * 2)" "i32 (f7 * 2) = Some (f7 * 2)" "i32 (f5 * 38) = Some (f5 * 38)"
    "i32 (f6 * 19) = Some (f6 * 19)" "i32 (f7 * 38) = Some (f7 * 38)" "i32 (f8 * 19) = Some (f8 * 19)"
    "i32 (f9 * 38) = Some (f9 * 38)"
    by (rule i32_mult, rule b, simp, simp)+
  have a: "\<bar>f0\<bar> \<le> 2147483648" "\<bar>f1\<bar> \<le> 2147483648" "\<bar>f2\<bar> \<le> 2147483648" "\<bar>f3\<bar> \<le> 2147483648" "\<bar>f4\<bar> \<le> 2147483648"
    "\<bar>f5\<bar> \<le> 2147483648" "\<bar>f6\<bar> \<le> 2147483648" "\<bar>f7\<bar> \<le> 2147483648" "\<bar>f8\<bar> \<le> 2147483648" "\<bar>f9\<bar> \<le> 2147483648"
    "\<bar>f1 * 2\<bar> \<le> 2147483648" "\<bar>f3 * 2\<bar> \<le> 2147483648" "\<bar>f5 * 2\<bar> \<le> 2147483648" "\<bar>f7 * 2\<bar> \<le> 2147483648" "\<bar>f5 * 38\<bar> \<le> 2147483648"
    "\<bar>f6 * 19\<bar> \<le> 2147483648" "\<bar>f7 * 38\<bar> \<le> 2147483648" "\<bar>f8 * 19\<bar> \<le> 2147483648" "\<bar>f9 * 38\<bar> \<le> 2147483648"
    "\<bar>f0\<bar> \<le> 268435456" "\<bar>f1\<bar> \<le> 268435456" "\<bar>f2\<bar> \<le> 268435456" "\<bar>f3\<bar> \<le> 268435456" "\<bar>f4\<bar> \<le> 268435456" "\<bar>f5\<bar> \<le> 268435456"
    "\<bar>f6\<bar> \<le> 268435456" "\<bar>f7\<bar> \<le> 268435456" "\<bar>f8\<bar> \<le> 268435456" "\<bar>f9\<bar> \<le> 268435456" "\<bar>f0 * 2\<bar> \<le> 268435456"
    "\<bar>f1 * 2\<bar> \<le> 268435456" "\<bar>f2 * 2\<bar> \<le> 268435456" "\<bar>f3 * 2\<bar> \<le> 268435456" "\<bar>f4 * 2\<bar> \<le> 268435456" "\<bar>f5 * 2\<bar> \<le> 268435456"
    "\<bar>f6 * 2\<bar> \<le> 268435456" "\<bar>f7 * 2\<bar> \<le> 268435456"
    by (rule order_trans, rule b, simp | rule abs_mult_le, rule b, simp, simp)+
  have d0: "dot [(f0, f0), (f1 * 2, f9 * 38), (f2 * 2, f8 * 19), (f3 * 2, f7 * 38), (f4 * 2, f6 * 19), (f5, f5 * 38)] =
      Some (mul_limb f f 0) \<and> \<bar>mul_limb f f 0\<bar> \<le> 4611686018427387904"
    by (rule dot_ok [of _ 268435456 2147483648]) (simp add: a del: abs_mult, simp_all add: f dot_simps)
  have d1: "dot [(f0 * 2, f1), (f2, f9 * 38), (f3 * 2, f8 * 19), (f4, f7 * 38), (f5 * 2, f6 * 19)] =
      Some (mul_limb f f 1) \<and> \<bar>mul_limb f f 1\<bar> \<le> 4611686018427387904"
    by (rule dot_ok [of _ 268435456 2147483648]) (simp add: a del: abs_mult, simp_all add: f dot_simps)
  have d2: "dot [(f0 * 2, f2), (f1 * 2, f1), (f3 * 2, f9 * 38), (f4 * 2, f8 * 19), (f5 * 2, f7 * 38), (f6, f6 * 19)] =
      Some (mul_limb f f 2) \<and> \<bar>mul_limb f f 2\<bar> \<le> 4611686018427387904"
    by (rule dot_ok [of _ 268435456 2147483648]) (simp add: a del: abs_mult, simp_all add: f dot_simps)
  have d3: "dot [(f0 * 2, f3), (f1 * 2, f2), (f4, f9 * 38), (f5 * 2, f8 * 19), (f6, f7 * 38)] =
      Some (mul_limb f f 3) \<and> \<bar>mul_limb f f 3\<bar> \<le> 4611686018427387904"
    by (rule dot_ok [of _ 268435456 2147483648]) (simp add: a del: abs_mult, simp_all add: f dot_simps)
  have d4: "dot [(f0 * 2, f4), (f1 * 2, f3 * 2), (f2, f2), (f5 * 2, f9 * 38), (f6 * 2, f8 * 19), (f7, f7 * 38)] =
      Some (mul_limb f f 4) \<and> \<bar>mul_limb f f 4\<bar> \<le> 4611686018427387904"
    by (rule dot_ok [of _ 268435456 2147483648]) (simp add: a del: abs_mult, simp_all add: f dot_simps)
  have d5: "dot [(f0 * 2, f5), (f1 * 2, f4), (f2 * 2, f3), (f6, f9 * 38), (f7 * 2, f8 * 19)] =
      Some (mul_limb f f 5) \<and> \<bar>mul_limb f f 5\<bar> \<le> 4611686018427387904"
    by (rule dot_ok [of _ 268435456 2147483648]) (simp add: a del: abs_mult, simp_all add: f dot_simps)
  have d6: "dot [(f0 * 2, f6), (f1 * 2, f5 * 2), (f2 * 2, f4), (f3 * 2, f3), (f7 * 2, f9 * 38), (f8, f8 * 19)] =
      Some (mul_limb f f 6) \<and> \<bar>mul_limb f f 6\<bar> \<le> 4611686018427387904"
    by (rule dot_ok [of _ 268435456 2147483648]) (simp add: a del: abs_mult, simp_all add: f dot_simps)
  have d7: "dot [(f0 * 2, f7), (f1 * 2, f6), (f2 * 2, f5), (f3 * 2, f4), (f8, f9 * 38)] =
      Some (mul_limb f f 7) \<and> \<bar>mul_limb f f 7\<bar> \<le> 4611686018427387904"
    by (rule dot_ok [of _ 268435456 2147483648]) (simp add: a del: abs_mult, simp_all add: f dot_simps)
  have d8: "dot [(f0 * 2, f8), (f1 * 2, f7 * 2), (f2 * 2, f6), (f3 * 2, f5 * 2), (f4, f4), (f9, f9 * 38)] =
      Some (mul_limb f f 8) \<and> \<bar>mul_limb f f 8\<bar> \<le> 4611686018427387904"
    by (rule dot_ok [of _ 268435456 2147483648]) (simp add: a del: abs_mult, simp_all add: f dot_simps)
  have d9: "dot [(f0 * 2, f9), (f1 * 2, f8), (f2 * 2, f7), (f3 * 2, f6), (f4, f5 * 2)] =
      Some (mul_limb f f 9) \<and> \<bar>mul_limb f f 9\<bar> \<le> 4611686018427387904"
    by (rule dot_ok [of _ 268435456 2147483648]) (simp add: a del: abs_mult, simp_all add: f dot_simps)
  show ?thesis
    by (simp add: fe_sq_def limb_product_def f i d0 [unfolded f] d1 [unfolded f] d2 [unfolded f] d3 [unfolded f] d4 [unfolded f] d5 [unfolded f] d6 [unfolded f] d7 [unfolded f] d8 [unfolded f] d9 [unfolded f] Let_def)
qed

lemma limbs_identity:
  "fe_sum f0 f1 f2 f3 f4 f5 f6 f7 f8 f9 * fe_sum g0 g1 g2 g3 g4 g5 g6 g7 g8 g9 =
   fe_sum (f0 * g0) (f0 * g1 + f1 * g0) (f0 * g2 + 2 * (f1 * g1) + f2 * g0) (f0 * g3 + f1 * g2 + f2 * g1 + f3 * g0) (f0 * g4 + 2 * (f1 * g3) + f2 * g2 + 2 * (f3 * g1) + f4 * g0) (f0 * g5 + f1 * g4 + f2 * g3 + f3 * g2 + f4 * g1 + f5 * g0) (f0 * g6 + 2 * (f1 * g5) + f2 * g4 + 2 * (f3 * g3) + f4 * g2 + 2 * (f5 * g1) + f6 * g0) (f0 * g7 + f1 * g6 + f2 * g5 + f3 * g4 + f4 * g3 + f5 * g2 + f6 * g1 + f7 * g0) (f0 * g8 + 2 * (f1 * g7) + f2 * g6 + 2 * (f3 * g5) + f4 * g4 + 2 * (f5 * g3) + f6 * g2 + 2 * (f7 * g1) + f8 * g0) (f0 * g9 + f1 * g8 + f2 * g7 + f3 * g6 + f4 * g5 + f5 * g4 + f6 * g3 + f7 * g2 + f8 * g1 + f9 * g0) +
   2 ^ 255 * fe_sum (2 * (f1 * g9) + f2 * g8 + 2 * (f3 * g7) + f4 * g6 + 2 * (f5 * g5) + f6 * g4 + 2 * (f7 * g3) + f8 * g2 + 2 * (f9 * g1)) (f2 * g9 + f3 * g8 + f4 * g7 + f5 * g6 + f6 * g5 + f7 * g4 + f8 * g3 + f9 * g2) (2 * (f3 * g9) + f4 * g8 + 2 * (f5 * g7) + f6 * g6 + 2 * (f7 * g5) + f8 * g4 + 2 * (f9 * g3)) (f4 * g9 + f5 * g8 + f6 * g7 + f7 * g6 + f8 * g5 + f9 * g4) (2 * (f5 * g9) + f6 * g8 + 2 * (f7 * g7) + f8 * g6 + 2 * (f9 * g5)) (f6 * g9 + f7 * g8 + f8 * g7 + f9 * g6) (2 * (f7 * g9) + f8 * g8 + 2 * (f9 * g7)) (f8 * g9 + f9 * g8) (2 * (f9 * g9)) (0)"
  unfolding fe_sum_def by algebra

lemma fe_sum_combine:
  "fe_sum (a0 + 19 * b0) (a1 + 19 * b1) (a2 + 19 * b2) (a3 + 19 * b3) (a4 + 19 * b4) (a5 + 19 * b5) (a6 + 19 * b6) (a7 + 19 * b7) (a8 + 19 * b8) (a9 + 19 * b9) =
   fe_sum a0 a1 a2 a3 a4 a5 a6 a7 a8 a9 + 19 * fe_sum b0 b1 b2 b3 b4 b5 b6 b7 b8 b9"
  unfolding fe_sum_def by algebra

lemma limb_product_value:
  assumes "length f = 10" and "length g = 10"
  shows "fe_sum (mul_limb f g 0) (mul_limb f g 1) (mul_limb f g 2) (mul_limb f g 3) (mul_limb f g 4) (mul_limb f g 5) (mul_limb f g 6) (mul_limb f g 7) (mul_limb f g 8) (mul_limb f g 9) mod p25519 = fe_val f * fe_val g mod p25519"
proof -
  obtain f0 f1 f2 f3 f4 f5 f6 f7 f8 f9 where f: "f = [f0, f1, f2, f3, f4, f5, f6, f7, f8, f9]"
    using assms(1) by (rule list10)
  obtain g0 g1 g2 g3 g4 g5 g6 g7 g8 g9 where g: "g = [g0, g1, g2, g3, g4, g5, g6, g7, g8, g9]"
    using assms(2) by (rule list10)
  have m: "mul_limb f g 0 = (f0 * g0) + 19 * (2 * (f1 * g9) + f2 * g8 + 2 * (f3 * g7) + f4 * g6 + 2 * (f5 * g5) + f6 * g4 + 2 * (f7 * g3) + f8 * g2 + 2 * (f9 * g1))" "mul_limb f g 1 = (f0 * g1 + f1 * g0) + 19 * (f2 * g9 + f3 * g8 + f4 * g7 + f5 * g6 + f6 * g5 + f7 * g4 + f8 * g3 + f9 * g2)" "mul_limb f g 2 = (f0 * g2 + 2 * (f1 * g1) + f2 * g0) + 19 * (2 * (f3 * g9) + f4 * g8 + 2 * (f5 * g7) + f6 * g6 + 2 * (f7 * g5) + f8 * g4 + 2 * (f9 * g3))" "mul_limb f g 3 = (f0 * g3 + f1 * g2 + f2 * g1 + f3 * g0) + 19 * (f4 * g9 + f5 * g8 + f6 * g7 + f7 * g6 + f8 * g5 + f9 * g4)" "mul_limb f g 4 = (f0 * g4 + 2 * (f1 * g3) + f2 * g2 + 2 * (f3 * g1) + f4 * g0) + 19 * (2 * (f5 * g9) + f6 * g8 + 2 * (f7 * g7) + f8 * g6 + 2 * (f9 * g5))" "mul_limb f g 5 = (f0 * g5 + f1 * g4 + f2 * g3 + f3 * g2 + f4 * g1 + f5 * g0) + 19 * (f6 * g9 + f7 * g8 + f8 * g7 + f9 * g6)" "mul_limb f g 6 = (f0 * g6 + 2 * (f1 * g5) + f2 * g4 + 2 * (f3 * g3) + f4 * g2 + 2 * (f5 * g1) + f6 * g0) + 19 * (2 * (f7 * g9) + f8 * g8 + 2 * (f9 * g7))" "mul_limb f g 7 = (f0 * g7 + f1 * g6 + f2 * g5 + f3 * g4 + f4 * g3 + f5 * g2 + f6 * g1 + f7 * g0) + 19 * (f8 * g9 + f9 * g8)" "mul_limb f g 8 = (f0 * g8 + 2 * (f1 * g7) + f2 * g6 + 2 * (f3 * g5) + f4 * g4 + 2 * (f5 * g3) + f6 * g2 + 2 * (f7 * g1) + f8 * g0) + 19 * (2 * (f9 * g9))" "mul_limb f g 9 = (f0 * g9 + f1 * g8 + f2 * g7 + f3 * g6 + f4 * g5 + f5 * g4 + f6 * g3 + f7 * g2 + f8 * g1 + f9 * g0) + 19 * (0)"
    by (simp_all add: f g dot_simps)
  have v: "fe_val f = fe_sum f0 f1 f2 f3 f4 f5 f6 f7 f8 f9" "fe_val g = fe_sum g0 g1 g2 g3 g4 g5 g6 g7 g8 g9"
    by (simp_all add: f g fe_val_def)
  show ?thesis
    unfolding m fe_sum_combine v limbs_identity p25519_def by (simp add: mod_eq_dvd_iff dvd_def)
qed

text \<open>The field operations: within the bounds, defined and correct.\<close>

definition computes :: "fe option \<Rightarrow> int \<Rightarrow> bool" where
  "computes r x \<longleftrightarrow> (\<exists>h. r = Some h \<and> tight h \<and> fe_val h mod p25519 = x mod p25519)"

lemma computesE:
  assumes "computes r x"
  obtains h where "r = Some h" and "tight h" and "fe_val h mod p25519 = x mod p25519"
  using assms by (auto simp: computes_def)

lemma tight_loose: "tight h \<Longrightarrow> loose h"
proof -
  assume t: "tight h"
  then have "length h = 10" by (simp add: tight_def)
  then obtain h0 h1 h2 h3 h4 h5 h6 h7 h8 h9 where "h = [h0, h1, h2, h3, h4, h5, h6, h7, h8, h9]" by (rule list10)
  then show ?thesis using t by (simp add: loose_list tight_list)
qed

lemma limb_product_ok:
  assumes "length f = 10" and "length g = 10" and "\<forall>k<10. \<bar>mul_limb f g k\<bar> \<le> 4611686018427387904"
  shows "computes (limb_product f g) (fe_val f * fe_val g)"
  using fe_carry_ok [of "mul_limb f g 0" "mul_limb f g 1" "mul_limb f g 2" "mul_limb f g 3" "mul_limb f g 4"
      "mul_limb f g 5" "mul_limb f g 6" "mul_limb f g 7" "mul_limb f g 8" "mul_limb f g 9"]
    limb_product_value [OF assms(1,2)] assms(3) by (simp add: limb_product_def computes_def Let_def)

lemma fe_mul_ok: "loose f \<Longrightarrow> loose g \<Longrightarrow> computes (fe_mul f g) (fe_val f * fe_val g)"
  using limb_product_ok [of f g] fe_mul_rolled [of f g] by (simp add: loose_def)

lemma fe_sq_mul: "loose f \<Longrightarrow> fe_sq f = fe_mul f f"
  by (simp add: fe_sq_rolled fe_mul_rolled)

lemma fe_sq_ok: "loose f \<Longrightarrow> computes (fe_sq f) (fe_val f * fe_val f)"
  by (simp add: fe_sq_mul fe_mul_ok)

lemma fe_mul_small_ok:
  assumes "loose f" and "\<bar>g\<bar> \<le> 2 ^ 31"
  shows "computes (fe_mul_small f g) (fe_val f * g)"
proof -
  have l: "length f = 10" using assms by (simp add: loose_def)
  obtain f0 f1 f2 f3 f4 f5 f6 f7 f8 f9 where f: "f = [f0, f1, f2, f3, f4, f5, f6, f7, f8, f9]"
    using l by (rule list10)
  have b: "\<bar>f0\<bar> \<le> 110729625" "\<bar>f1\<bar> \<le> 55364812" "\<bar>f2\<bar> \<le> 110729625" "\<bar>f3\<bar> \<le> 55364812" "\<bar>f4\<bar> \<le> 110729625"
      "\<bar>f5\<bar> \<le> 55364812" "\<bar>f6\<bar> \<le> 110729625" "\<bar>f7\<bar> \<le> 55364812" "\<bar>f8\<bar> \<le> 110729625" "\<bar>f9\<bar> \<le> 55364812"
    using assms(1) unfolding f loose_list by - ((elim conjE)?, assumption)+
  have g: "\<bar>x * g\<bar> \<le> 4611686018427387904" if "\<bar>x\<bar> \<le> A" and "A \<le> 2147483647" for x A
  proof -
    have "\<bar>x\<bar> * \<bar>g\<bar> \<le> 2147483647 * 2147483648" using that assms(2) by (intro mult_mono) simp_all
    then show ?thesis by (simp add: abs_mult)
  qed
  have a: "\<bar>f0 * g\<bar> \<le> 4611686018427387904" "\<bar>f1 * g\<bar> \<le> 4611686018427387904" "\<bar>f2 * g\<bar> \<le> 4611686018427387904"
      "\<bar>f3 * g\<bar> \<le> 4611686018427387904" "\<bar>f4 * g\<bar> \<le> 4611686018427387904" "\<bar>f5 * g\<bar> \<le> 4611686018427387904"
      "\<bar>f6 * g\<bar> \<le> 4611686018427387904" "\<bar>f7 * g\<bar> \<le> 4611686018427387904" "\<bar>f8 * g\<bar> \<le> 4611686018427387904"
      "\<bar>f9 * g\<bar> \<le> 4611686018427387904"
    by (rule g, rule b, simp)+
  have i: "\<bar>x\<bar> \<le> 4611686018427387904 \<Longrightarrow> i64 x = Some x" for x by (rule i64_Some) simp
  have v: "fe_sum (f0 * g) (f1 * g) (f2 * g) (f3 * g) (f4 * g) (f5 * g) (f6 * g) (f7 * g) (f8 * g) (f9 * g) = fe_val f * g"
    unfolding f fe_val_def fe_sum_def by (simp add: algebra_simps)
  show ?thesis
    using fe_carry_ok [OF a] unfolding v by (simp add: fe_mul_small_def f computes_def a [THEN i])
qed

section \<open>Sums, differences, swaps\<close>

lemma i32_abs: "\<bar>x\<bar> \<le> A \<Longrightarrow> A \<le> 2147483647 \<Longrightarrow> i32 x = Some x"
  by (rule i32_Some) (simp_all add: abs_le_iff)

lemma within_map2:
  assumes c: "\<And>a b. \<bar>c a b\<bar> \<le> \<bar>a\<bar> + \<bar>b :: int\<bar>"
  shows "m + m' \<le> 2147483647 \<Longrightarrow> n + n' \<le> 2147483647 \<Longrightarrow>
    length f = length g \<Longrightarrow> even (length f) \<Longrightarrow> within m n f \<Longrightarrow> within m' n' g \<Longrightarrow>
    those (map2 (\<lambda>a b. i32 (c a b)) f g) = Some (map2 c f g) \<and> within (m + m') (n + n') (map2 c f g)"
proof (induction m n f arbitrary: g rule: within.induct)
  case (1 m n a b t)
  obtain a' b' t' where g: "g = a' # b' # t'" using 1(4) by (metis length_Suc_conv length_Cons)
  have b: "\<bar>c a a'\<bar> \<le> m + m'" "\<bar>c b b'\<bar> \<le> n + n'"
    using 1(6,7) c [of a a'] c [of b b'] unfolding g by simp_all
  then have "i32 (c a a') = Some (c a a')" "i32 (c b b') = Some (c b b')"
    using 1(2,3) by (blast intro: i32_abs)+
  then show ?case using 1 b by (simp add: g)
qed (simp_all, metis odd_one One_nat_def)

lemma fe_sum_add:
  "fe_sum (a0 + b0) (a1 + b1) (a2 + b2) (a3 + b3) (a4 + b4) (a5 + b5) (a6 + b6) (a7 + b7) (a8 + b8) (a9 + b9) =
   fe_sum a0 a1 a2 a3 a4 a5 a6 a7 a8 a9 + fe_sum b0 b1 b2 b3 b4 b5 b6 b7 b8 b9"
  unfolding fe_sum_def by algebra

lemma fe_sum_diff:
  "fe_sum (a0 - b0) (a1 - b1) (a2 - b2) (a3 - b3) (a4 - b4) (a5 - b5) (a6 - b6) (a7 - b7) (a8 - b8) (a9 - b9) =
   fe_sum a0 a1 a2 a3 a4 a5 a6 a7 a8 a9 - fe_sum b0 b1 b2 b3 b4 b5 b6 b7 b8 b9"
  unfolding fe_sum_def by algebra

lemma within_mono: "within m n f \<Longrightarrow> m \<le> m' \<Longrightarrow> n \<le> n' \<Longrightarrow> within m' n' f"
  by (induction m n f rule: within.induct) auto

lemma fe_add_within:
  assumes "length f = 10" and "length g = 10" and "within m n f" and "within m' n' g"
    and "m + m' \<le> 2147483647" and "n + n' \<le> 2147483647"
  shows "\<exists>h. fe_add f g = Some h \<and> length h = 10 \<and> within (m + m') (n + n') h \<and> fe_val h = fe_val f + fe_val g"
proof -
  have "fe_add f g = Some (map2 (+) f g) \<and> within (m + m') (n + n') (map2 (+) f g)"
    using assms unfolding fe_add_def by (intro within_map2) simp_all
  moreover have "fe_val (map2 (+) f g) = fe_val f + fe_val g"
    using assms(1,2) by (simp add: fe_val_def fe_sum_add)
  ultimately show ?thesis using assms(1,2) by simp
qed

lemma fe_sub_within:
  assumes "length f = 10" and "length g = 10" and "within m n f" and "within m' n' g"
    and "m + m' \<le> 2147483647" and "n + n' \<le> 2147483647"
  shows "\<exists>h. fe_sub f g = Some h \<and> length h = 10 \<and> within (m + m') (n + n') h \<and> fe_val h = fe_val f - fe_val g"
proof -
  have "fe_sub f g = Some (map2 (-) f g) \<and> within (m + m') (n + n') (map2 (-) f g)"
    using assms unfolding fe_sub_def by (intro within_map2) simp_all
  moreover have "fe_val (map2 (-) f g) = fe_val f - fe_val g"
    using assms(1,2) by (simp add: fe_val_def fe_sum_diff)
  ultimately show ?thesis using assms(1,2) by simp
qed

lemma within_sum: "within 73819750 36909874 h \<Longrightarrow> within 110729625 55364812 h"
  by (erule within_mono) simp_all

lemma fe_add_ok: "tight f \<Longrightarrow> tight g \<Longrightarrow> \<exists>h. fe_add f g = Some h \<and> loose h \<and> fe_val h = fe_val f + fe_val g"
  using fe_add_within [of f g 36909875 18454937 36909875 18454937] by (auto simp: tight_def loose_def intro: within_sum)

lemma fe_sub_ok: "tight f \<Longrightarrow> tight g \<Longrightarrow> \<exists>h. fe_sub f g = Some h \<and> loose h \<and> fe_val h = fe_val f - fe_val g"
  using fe_sub_within [of f g 36909875 18454937 36909875 18454937] by (auto simp: tight_def loose_def intro: within_sum)

lemma fe_neg_ok:
  assumes "tight f"
  shows "\<exists>h. fe_neg f = Some h \<and> tight h \<and> fe_val h = - fe_val f"
proof -
  have l: "length f = 10" using assms by (simp add: tight_def)
  obtain f0 f1 f2 f3 f4 f5 f6 f7 f8 f9 where f: "f = [f0, f1, f2, f3, f4, f5, f6, f7, f8, f9]"
    using l by (rule list10)
  have b: "\<bar>f0\<bar> \<le> 36909875" "\<bar>f1\<bar> \<le> 18454937" "\<bar>f2\<bar> \<le> 36909875" "\<bar>f3\<bar> \<le> 18454937" "\<bar>f4\<bar> \<le> 36909875"
      "\<bar>f5\<bar> \<le> 18454937" "\<bar>f6\<bar> \<le> 36909875" "\<bar>f7\<bar> \<le> 18454937" "\<bar>f8\<bar> \<le> 36909875" "\<bar>f9\<bar> \<le> 18454937"
    using assms unfolding f tight_list by - ((elim conjE)?, assumption)+
  have i: "\<bar>x\<bar> \<le> A \<Longrightarrow> A \<le> 2147483647 \<Longrightarrow> i32 (- x) = Some (- x)" for x A
    by (rule i32_abs [of "- x" A]) simp_all
  have n: "fe_neg f = Some (map uminus f)" by (simp add: fe_neg_def f b [THEN i])
  have "tight (map uminus f)" using assms by (simp add: f tight_list)
  moreover have "fe_val (map uminus f) = - fe_val f"
    unfolding f fe_val_def fe_sum_def by (simp add: algebra_simps)
  ultimately show ?thesis using n by blast
qed

text \<open>A swap with the mask 0 or -1 is the choice it stands for.\<close>

lemma fe_cswap_ok:
  assumes "length f = length g" and "b = 0 \<or> b = 1"
  shows "fe_cswap f g b = (if b = 1 then (g, f) else (f, g))"
proof -
  have x: "x XOR (x XOR y) = y" "y XOR (x XOR y) = x" for x y :: int
    by (simp add: xor.assoc [symmetric]) (metis xor.assoc xor.commute xor_self_eq xor.left_neutral)
  show ?thesis
    using assms by (auto simp: fe_cswap_def Let_def x intro!: nth_equalityI)
qed

lemma fe_ccopy_ok:
  assumes "length f = length g" and "b = 0 \<or> b = 1"
  shows "fe_ccopy f g b = (if b = 1 then g else f)"
proof -
  have x: "x XOR (x XOR y) = y" for x y :: int by (simp add: xor.assoc [symmetric])
  show ?thesis
    using assms by (auto simp: fe_ccopy_def Let_def x intro!: nth_equalityI)
qed

section \<open>Decoding\<close>

lemma load24_num: "3 \<le> length s \<Longrightarrow> fits (load24_le s) (le_num (take 3 s)) (2 ^ 24 - 1)"
proof -
  assume len: "3 \<le> length s"
  have f: "fits (ucast (s ! i) :: u32) (unat (s ! i)) 0xff" for i
    using fits_ucast [OF fits_u8 [of "s ! i"], where 'b = 32] by simp
  have "push_bit 8 (ucast (s ! 1)) OR push_bit 16 (ucast (s ! 2)) =
      (push_bit 8 (ucast (s ! 1)) + push_bit 16 (ucast (s ! 2)) :: u32)"
    by (rule or_add, rule bit_word_eqI) (auto simp: bit_simps dest: bit_imp_le_length)
  moreover have "ucast (s ! 0) OR (push_bit 8 (ucast (s ! 1)) OR push_bit 16 (ucast (s ! 2))) =
      (ucast (s ! 0) + (push_bit 8 (ucast (s ! 1)) OR push_bit 16 (ucast (s ! 2))) :: u32)"
    by (rule or_add, rule bit_word_eqI) (auto simp: bit_simps dest: bit_imp_le_length)
  ultimately have e: "load24_le s = ucast (s ! 0) + (push_bit 8 (ucast (s ! 1)) + push_bit 16 (ucast (s ! 2)))"
    unfolding load24_le_def by (simp only: or.assoc)
  have "fits (load24_le s) (unat (s ! 0) + (unat (s ! 1) * 2 ^ 8 + unat (s ! 2) * 2 ^ 16)) (0xff + (0xff * 2 ^ 8 + 0xff * 2 ^ 16))"
    unfolding e by (intro fits_add fits_push f) simp_all
  moreover have "take 3 s = [s ! 0, s ! 1, s ! 2]"
    using len by (auto simp: list_eq_iff_nth_eq nth_Cons' less_Suc_eq numeral_eq_Suc)
  ultimately show ?thesis by (simp add: mult.commute)
qed

lemma le_num_split: "k \<le> length xs \<Longrightarrow> le_num xs = le_num (take k xs) + 256 ^ k * le_num (drop k xs)"
  using le_num_append [of "take k xs" "drop k xs"] by (simp add: min_absorb2)

lemma fe_frombytes_mask_ok:
  assumes len: "length s = 32" and nb: "nb_mask \<le> 24"
  shows "computes (fe_frombytes_mask s nb_mask) (int (le_num s mod 2 ^ (256 - nb_mask)))"
proof -
  let ?n = "\<lambda>k. le_num (take 3 (drop k s))"
  have m: "drop_bit nb_mask (0xffffff :: u32) = mask (24 - nb_mask)"
  proof -
    have "(0xffffff :: u32) = mask 24" by (simp add: mask_eq_exp_minus_1)
    then show ?thesis using nb by (auto simp: bit_eq_iff bit_simps)
  qed
  have u: "unat (load32_le s) = le_num (take 4 s)" "unat (load32_le (drop 16 s)) = le_num (take 4 (drop 16 s))"
    using load32_num [of s] load32_num [of "drop 16 s"] len by simp_all
  have p: "fits (push_bit j (load24_le (drop k s))) (?n k * 2 ^ j) ((2 ^ 24 - 1) * 2 ^ j)" if "k \<le> 29" and "j \<le> 7" for j k
  proof (rule fits_push)
    show "fits (load24_le (drop k s)) (?n k) (2 ^ 24 - 1)" using load24_num [of "drop k s"] len that by simp
    have "(2 ^ 24 - 1) * 2 ^ j \<le> (2 ^ 24 - 1) * (2 :: nat) ^ 7" using that by (intro mult_left_mono power_increasing) simp_all
    then show "(2 ^ 24 - 1) * 2 ^ j < (2 :: nat) ^ LENGTH(32)" by simp
  qed
  let ?m = "?n 29 mod 2 ^ (24 - nb_mask)"
  have f9: "fits (load24_le (drop 29 s) AND mask (24 - nb_mask)) ?m (2 ^ 24 - 1)"
  proof (rule fits_weaken)
    show "fits (load24_le (drop 29 s) AND mask (24 - nb_mask)) ?m (2 ^ (24 - nb_mask) - 1)"
      using fits_mask [OF load24_num [of "drop 29 s"]] len by simp
    show "2 ^ (24 - nb_mask) - 1 \<le> (2 :: nat) ^ 24 - 1" by (intro diff_le_mono power_increasing) simp_all
  qed
  have t9: "fits (push_bit 2 (load24_le (drop 29 s) AND mask (24 - nb_mask))) (?m * 2 ^ 2) ((2 ^ 24 - 1) * 2 ^ 2)"
    by (rule fits_push [OF f9]) simp
  have ui: "uint w = int n \<and>
        \<bar>int n\<bar> \<le> 4611686018427387904" if "fits w n b" and "b \<le> 4611686018427387904" for w :: u32 and n b
  proof
    show "uint w = int n" using fitsD(1) [OF that(1)] by (metis of_nat_unat)
    have "n \<le> 4611686018427387904" using fitsD(2) [OF that(1)] that(2) by (rule order_trans)
    then show "\<bar>int n\<bar> \<le> 4611686018427387904" by linarith
  qed
  have f32: "fits (load32_le s) (le_num (take 4 s)) 0xffffffff"
      "fits (load32_le (drop 16 s)) (le_num (take 4 (drop 16 s))) 0xffffffff"
    using fits_u32 [of "load32_le s"] fits_u32 [of "load32_le (drop 16 s)"] u by simp_all
  note us = ui [OF f32(1)] ui [OF p [of 4 6]] ui [OF p [of 7 5]] ui [OF p [of 10 3]] ui [OF p [of 13 2]]
    ui [OF f32(2)] ui [OF p [of 20 7]] ui [OF p [of 23 5]] ui [OF p [of 26 4]] ui [OF t9]
  have k: "le_num (drop k s) = ?n k + 16777216 * le_num (drop (k + 3) s)" if "k \<le> 29" for k
    using le_num_split [of 3 "drop k s"] that len by (simp add: add.commute)
  have s: "le_num s = le_num (take 4 s) + 4294967296 * le_num (drop 4 s)"
      "le_num (drop 16 s) = le_num (take 4 (drop 16 s)) + 4294967296 * le_num (drop 20 s)"
    using le_num_split [of 4 s] le_num_split [of 4 "drop 16 s"] len by simp_all
  have n29: "le_num (drop 29 s) = ?n 29" using len by simp
  note ks = k [of 4, simplified] k [of 7, simplified] k [of 10, simplified] k [of 13, simplified] k [of 20, simplified]
    k [of 23, simplified] k [of 26, simplified]
  have full: "le_num s = le_num (take 4 s) + 4294967296 * (?n 4 + 16777216 * (?n 7 + 16777216 * (?n 10 + 16777216 *
      (?n 13 + 16777216 * (le_num (take 4 (drop 16 s)) + 4294967296 * (?n 20 + 16777216 * (?n 23 + 16777216 *
      (?n 26 + 16777216 * ?n 29))))))))"
    by (simp only: s ks n29)
  have split29: "le_num s = le_num (take 29 s) + 2 ^ 232 * ?n 29"
    using le_num_split [of 29 s] len by (simp add: power_mult [of 2 8, symmetric])
  have val: "fe_sum (int (le_num (take 4 s))) (int (?n 4 * 2 ^ 6)) (int (?n 7 * 2 ^ 5)) (int (?n 10 * 2 ^ 3))
      (int (?n 13 * 2 ^ 2)) (int (le_num (take 4 (drop 16 s)))) (int (?n 20 * 2 ^ 7)) (int (?n 23 * 2 ^ 5))
      (int (?n 26 * 2 ^ 4)) (int (?m * 2 ^ 2)) = int (le_num s mod 2 ^ (256 - nb_mask))"
  proof -
    have A: "le_num (take 29 s) < 2 ^ 232" using le_num_bound [of "take 29 s"] len by (simp add: power_mult [of 2 8, symmetric])
    have "le_num s mod 2 ^ (256 - nb_mask) = 2 ^ 232 * ?m + le_num (take 29 s)"
    proof -
      have "(2 :: nat) ^ (256 - nb_mask) = 2 ^ 232 * 2 ^ (24 - nb_mask)"
      proof -
        have "256 - nb_mask = 232 + (24 - nb_mask)" using nb by simp
        then show ?thesis by (simp only: power_add)
      qed
      then show ?thesis using A split29 by (simp only: mod_mult2_eq) simp
    qed
    moreover have "le_num (take 29 s) = le_num (take 4 s) + 2 ^ 32 * (?n 4 + 2 ^ 24 * (?n 7 + 2 ^ 24 * (?n 10 + 2 ^ 24 *
        (?n 13 + 2 ^ 24 * (le_num (take 4 (drop 16 s)) + 2 ^ 32 * (?n 20 + 2 ^ 24 * (?n 23 + 2 ^ 24 * ?n 26)))))))"
      using trans [OF split29 [symmetric] full] by (simp add: distrib_left)
    ultimately show ?thesis by (simp add: fe_sum_def algebra_simps)
  qed
  show ?thesis
    using fe_carry_ok [of "int (le_num (take 4 s))" "int (?n 4 * 2 ^ 6)" "int (?n 7 * 2 ^ 5)" "int (?n 10 * 2 ^ 3)"
        "int (?n 13 * 2 ^ 2)" "int (le_num (take 4 (drop 16 s)))" "int (?n 20 * 2 ^ 7)" "int (?n 23 * 2 ^ 5)"
        "int (?n 26 * 2 ^ 4)" "int (?m * 2 ^ 2)"] us val
    by (simp add: fe_frombytes_mask_def computes_def m Let_def)
qed

section \<open>The products within their bounds\<close>

text \<open>C16. Products in the field. For all limbs within the preconditions of the source (1.65 times 2^26 and 2^25) no 32-bit
  or 64-bit operation of fe_mul, fe_sq and fe_mul_small overflows, the result is within the postcondition of FE_CARRY
  (1.1 times 2^25 and 2^24), so that sums and differences of two results may be multiplied again without a carry, and
  its value is the product modulo 2^255 - 19. The faster square equals the product of an element with itself limb by
  limb.\<close>

theorem field_products:
  assumes "loose f" and "loose g" and "\<bar>c\<bar> \<le> 2 ^ 31"
  shows "(\<exists>h. fe_mul f g = Some h \<and> tight h \<and> fe_val h mod p25519 = fe_val f * fe_val g mod p25519) \<and>
    fe_sq f = fe_mul f f \<and>
    (\<exists>h. fe_mul_small f c = Some h \<and> tight h \<and> fe_val h mod p25519 = fe_val f * c mod p25519) \<and>
    (\<forall>a b. tight a \<and> tight b \<longrightarrow> (\<exists>h k. fe_add a b = Some h \<and> fe_sub a b = Some k \<and> loose h \<and> loose k \<and>
      fe_val h = fe_val a + fe_val b \<and> fe_val k = fe_val a - fe_val b))"
  using fe_mul_ok [OF assms(1,2)] fe_mul_small_ok [OF assms(1,3)] fe_sq_mul [OF assms(1)] fe_add_ok fe_sub_ok
  unfolding computes_def by blast

text \<open>The largest limbs, with both signs, and the constant of the ladder.\<close>

theorem field_products_witness:
  "(\<exists>h. fe_mul (concat (replicate 5 [110729625, - 55364812])) (concat (replicate 5 [- 110729625, - 55364812])) = Some h \<and> tight h) \<and>
   (\<exists>h. fe_mul_small (concat (replicate 5 [110729625, - 55364812])) 121666 = Some h \<and> tight h) \<and>
   (\<exists>h k. fe_add (replicate 10 18454937) (replicate 10 (- 18454937)) = Some h \<and>
      fe_sub (replicate 10 18454937) (replicate 10 (- 18454937)) = Some k \<and> fe_val h = 0 \<and> loose k)"
proof -
  have l: "loose (concat (replicate 5 [110729625, - 55364812]))" "loose (concat (replicate 5 [- 110729625, - 55364812]))"
    "tight (replicate 10 18454937)" "tight (replicate 10 (- 18454937))"
    by (simp_all add: loose_def tight_def eval_nat_numeral)
  have v: "fe_val (replicate 10 18454937) + fe_val (replicate 10 (- 18454937)) = 0"
    by (simp add: fe_val_def fe_sum_def)
  show ?thesis
    using field_products [OF l(1,2), of 121666] l(3,4) v by fastforce
qed

end
