(* ===== verification/FeBytes.thy ===== *)
theory FeBytes
  imports Fe25519
begin

unbundle bit_operations_syntax

text \<open>
  Field elements and bytes: what \<open>fe_tobytes\<close> computes. The first loop finds the sign of the number, the second
  carries through the limbs; the bytes are the number modulo 2^255 - 19.
\<close>

section \<open>Encoding\<close>

fun limbs_val :: "fe \<Rightarrow> int" where
  "limbs_val (a # b # t) = a + 2 ^ 26 * (b + 2 ^ 25 * limbs_val t)"
| "limbs_val _ = 0"

fun digits :: "fe \<Rightarrow> bool" where
  "digits (a # b # t) \<longleftrightarrow> 0 \<le> a \<and> a < 2 ^ 26 \<and> 0 \<le> b \<and> b < 2 ^ 25 \<and> digits t"
| "digits _ \<longleftrightarrow> True"

lemma div_abs_le: "\<bar>x\<bar> \<le> 2 ^ 29 \<Longrightarrow> 25 \<le> n \<Longrightarrow> \<bar>x div 2 ^ n\<bar> \<le> (16 :: int)"
proof -
  assume x: "\<bar>x\<bar> \<le> 2 ^ 29" and n: "25 \<le> n"
  have p: "(2 :: int) ^ 25 \<le> 2 ^ n" using n by (rule power_increasing) simp
  have "x \<le> 16 * 2 ^ n" "- 16 * 2 ^ n \<le> x" using x p by (simp_all add: abs_le_iff)
  then have "x div 2 ^ n \<le> 16 * 2 ^ n div 2 ^ n" "- 16 * 2 ^ n div 2 ^ n \<le> x div 2 ^ n"
    using zdiv_mono1 [of x "16 * 2 ^ n" "2 ^ n"] zdiv_mono1 [of "- 16 * 2 ^ n" x "2 ^ n"] by simp_all
  moreover have "- 16 * 2 ^ n div 2 ^ n = (- 16 :: int)" "16 * 2 ^ n div 2 ^ n = (16 :: int)"
    by (rule nonzero_mult_div_cancel_right, simp)+
  ultimately show ?thesis by linarith
qed

lemma fe_sign_ok:
  "even (length t) \<Longrightarrow> within 36909875 18454937 t \<Longrightarrow> \<bar>q\<bar> \<le> 64 \<Longrightarrow>
   fe_sign q t = Some ((q + limbs_val t) div 2 ^ (51 * (length t div 2)))"
proof (induction t arbitrary: q rule: limbs_val.induct)
  case (1 a b t)
  let ?q = "(q + a) div 2 ^ 26"
  have a: "\<bar>q + a\<bar> \<le> 36909939" using 1(3,4) by auto
  have q: "\<bar>?q\<bar> \<le> 16" by (rule div_abs_le) (use a in simp_all)
  have b: "\<bar>?q + b\<bar> \<le> 18455001" using q 1(3) by auto
  have r: "\<bar>(?q + b) div 2 ^ 25\<bar> \<le> 16" by (rule div_abs_le) (use b in simp_all)
  have i: "i32 (q + a) = Some (q + a)" "i32 (?q + b) = Some (?q + b)"
    using i32_abs [OF a] i32_abs [OF b] by simp_all
  have IH: "fe_sign ((?q + b) div 2 ^ 25) t = Some (((?q + b) div 2 ^ 25 + limbs_val t) div 2 ^ (51 * (length t div 2)))"
    using 1(1) [of "(?q + b) div 2 ^ 25"] 1(2,3) r by simp
  have "(q + limbs_val (a # b # t)) div 2 ^ (51 * (length (a # b # t) div 2)) =
      (q + limbs_val (a # b # t)) div (2 ^ 26 * (2 ^ 25 * 2 ^ (51 * (length t div 2))))"
    by (simp add: power_add)
  also have "\<dots> = (q + limbs_val (a # b # t)) div 2 ^ 26 div 2 ^ 25 div 2 ^ (51 * (length t div 2))"
    by (subst zdiv_zmult2_eq, simp, subst zdiv_zmult2_eq, simp, rule refl)
  also have "(q + limbs_val (a # b # t)) div 2 ^ 26 = ?q + b + 2 ^ 25 * limbs_val t"
    by (simp add: add.assoc [symmetric])
  also have "(?q + b + 2 ^ 25 * limbs_val t) div 2 ^ 25 = (?q + b) div 2 ^ 25 + limbs_val t" by simp
  finally show ?case using IH i by (simp add: Let_def)
qed simp_all

lemma i32_digit: "0 \<le> x \<Longrightarrow> x < 2 ^ 26 \<Longrightarrow> i32 x = Some x" "0 \<le> x \<Longrightarrow> x < 2 ^ 25 \<Longrightarrow> i32 x = Some x"
  by (simp_all add: i32_Some)

lemma fe_wrap_ok:
  "even (length t) \<Longrightarrow> within 36909875 18454937 t \<Longrightarrow> \<bar>q\<bar> \<le> 64 \<Longrightarrow>
   \<exists>u. fe_wrap q t = Some u \<and> length u = length t \<and> digits u \<and> limbs_val u = (q + limbs_val t) mod 2 ^ (51 * (length t div 2))"
proof (induction t arbitrary: q rule: limbs_val.induct)
  case (1 a b t)
  let ?q = "(a + q) div 2 ^ 26" and ?M = "2 ^ (51 * (length t div 2)) :: int"
  let ?r = "(b + ?q) div 2 ^ 25"
  have a: "\<bar>a + q\<bar> \<le> 36909939" using 1(3,4) by auto
  have q: "\<bar>?q\<bar> \<le> 16" by (rule div_abs_le) (use a in simp_all)
  have b: "\<bar>b + ?q\<bar> \<le> 18455001" using q 1(3) by auto
  have r: "\<bar>?r\<bar> \<le> 16" by (rule div_abs_le) (use b in simp_all)
  have ma: "a + q - ?q * 2 ^ 26 = (a + q) mod 2 ^ 26" and mb: "b + ?q - ?r * 2 ^ 25 = (b + ?q) mod 2 ^ 25"
    by (simp_all add: minus_div_mult_eq_mod)
  have d: "0 \<le> (a + q) mod 2 ^ 26" "(a + q) mod 2 ^ 26 < 2 ^ 26" "0 \<le> (b + ?q) mod 2 ^ 25" "(b + ?q) mod 2 ^ 25 < 2 ^ 25"
    by simp_all
  have i: "i32 (a + q) = Some (a + q)" "i32 (?q * 2 ^ 26) = Some (?q * 2 ^ 26)"
    "i32 ((a + q) mod 2 ^ 26) = Some ((a + q) mod 2 ^ 26)"
      "i32 (b + ?q) = Some (b + ?q)" "i32 (?r * 2 ^ 25) = Some (?r * 2 ^ 25)"
      "i32 ((b + ?q) mod 2 ^ 25) = Some ((b + ?q) mod 2 ^ 25)"
    using i32_abs [OF a] i32_mult [OF q, of "2 ^ 26"] i32_abs [OF b] i32_mult [OF r, of "2 ^ 25"] d
      i32_digit(1) [OF d(1,2)] i32_digit(2) [OF d(3,4)] by simp_all
  obtain u where u: "fe_wrap ?r t = Some u" "length u = length t" "digits u" "limbs_val u = (?r + limbs_val t) mod ?M"
    using 1(1) [of ?r] 1(2,3) r by auto
  have "(q + limbs_val (a # b # t)) mod 2 ^ (51 * (length (a # b # t) div 2)) =
      (q + limbs_val (a # b # t)) mod (2 ^ 26 * (2 ^ 25 * ?M))"
    by (simp add: power_add)
  also have "\<dots> = 2 ^ 26 * (2 ^ 25 * ((?r + limbs_val t) mod ?M) + (b + ?q) mod 2 ^ 25) + (a + q) mod 2 ^ 26"
  proof -
    have e: "q + limbs_val (a # b # t) = (a + q) + 2 ^ 26 * (b + 2 ^ 25 * limbs_val t)" by simp
    have "(q + limbs_val (a # b # t)) div 2 ^ 26 = b + ?q + 2 ^ 25 * limbs_val t"
         "(q + limbs_val (a # b # t)) mod 2 ^ 26 = (a + q) mod 2 ^ 26"
      unfolding e by (simp_all only: div_mult_self2 mod_mult_self2) simp
    moreover have "(b + ?q + 2 ^ 25 * limbs_val t) div 2 ^ 25 = ?r + limbs_val t"
      "(b + ?q + 2 ^ 25 * limbs_val t) mod 2 ^ 25 = (b + ?q) mod 2 ^ 25" by simp_all
    moreover have "X mod (2 ^ 26 * (2 ^ 25 * ?M)) = 2 ^ 26 * (X div 2 ^ 26 mod (2 ^ 25 * ?M)) + X mod 2 ^ 26"
      "X mod (2 ^ 25 * ?M) = 2 ^ 25 * (X div 2 ^ 25 mod ?M) + X mod 2 ^ 25" for X :: int
      by (rule zmod_zmult2_eq, simp)+
    ultimately show ?thesis by (simp only:)
  qed
  finally have v: "(q + limbs_val (a # b # t)) mod 2 ^ (51 * (length (a # b # t) div 2)) =
      limbs_val ((a + q) mod 2 ^ 26 # (b + ?q) mod 2 ^ 25 # u)"
    by (simp only: u limbs_val.simps) (simp only: add.commute)
  have "fe_wrap q (a # b # t) = Some ((a + q) mod 2 ^ 26 # (b + ?q) mod 2 ^ 25 # u)"
    by (simp only: fe_wrap.simps Let_def i ma mb u(1) Option.bind.simps)
  then show ?case using v u(2,3) d by (intro exI conjI) (assumption, simp_all only: digits.simps length_Cons simp_thms)
qed simp_all

lemma limbs_val10: "length h = 10 \<Longrightarrow> limbs_val h = fe_val h"
proof -
  assume "length h = 10"
  then obtain h0 h1 h2 h3 h4 h5 h6 h7 h8 h9 where "h = [h0, h1, h2, h3, h4, h5, h6, h7, h8, h9]" by (rule list10)
  then show ?thesis by (simp add: fe_val_def fe_sum_def)
qed

text \<open>A tight element is less than the modulus, and its last limb has its sign.\<close>

lemma tight_val:
  assumes "tight h"
  shows "\<bar>fe_val h - 2 ^ 230 * h ! 9\<bar> < 2 ^ 230" and "\<bar>h ! 9\<bar> \<le> 18454937"
proof -
  have "length h = 10" using assms by (simp add: tight_def)
  then obtain h0 h1 h2 h3 h4 h5 h6 h7 h8 h9 where h: "h = [h0, h1, h2, h3, h4, h5, h6, h7, h8, h9]" by (rule list10)
  have b: "\<bar>h0\<bar> \<le> 36909875" "\<bar>h1\<bar> \<le> 18454937" "\<bar>h2\<bar> \<le> 36909875" "\<bar>h3\<bar> \<le> 18454937" "\<bar>h4\<bar> \<le> 36909875"
      "\<bar>h5\<bar> \<le> 18454937" "\<bar>h6\<bar> \<le> 36909875" "\<bar>h7\<bar> \<le> 18454937" "\<bar>h8\<bar> \<le> 36909875" "\<bar>h9\<bar> \<le> 18454937"
    using assms unfolding h tight_list by - ((elim conjE)?, assumption)+
  have step: "\<bar>a + 2 ^ n * x\<bar> \<le> A + 2 ^ n * B" if "\<bar>a\<bar> \<le> A" and "\<bar>x\<bar> \<le> B" for a x A B :: int and n
  proof -
    have "\<bar>2 ^ n * x\<bar> \<le> 2 ^ n * B" using that(2) by (simp add: abs_mult)
    then show ?thesis using that(1) by linarith
  qed
  let ?r = "fe_val h - 2 ^ 230 * h ! 9"
  have r: "?r = h0 + 2 ^ 26 * (h1 + 2 ^ 25 * (h2 + 2 ^ 26 * (h3 + 2 ^ 25 * (h4 + 2 ^ 26 * (h5 + 2 ^ 25 *
      (h6 + 2 ^ 26 * (h7 + 2 ^ 25 * h8)))))))"
    by (simp add: h fe_val_def fe_sum_def algebra_simps)
  have "\<bar>?r\<bar> \<le> 36909875 + 2 ^ 26 * (18454937 + 2 ^ 25 * (36909875 + 2 ^ 26 * (18454937 + 2 ^ 25 * (36909875 + 2 ^ 26 *
      (18454937 + 2 ^ 25 * (36909875 + 2 ^ 26 * (18454937 + 2 ^ 25 * 36909875)))))))"
    unfolding r by (intro step b)
  then show "\<bar>?r\<bar> < 2 ^ 230" by (rule le_less_trans) simp
  show "\<bar>h ! 9\<bar> \<le> 18454937" using b(10) by (simp add: h)
qed

lemma tight_less_p: "tight h \<Longrightarrow> \<bar>fe_val h\<bar> < p25519"
proof -
  assume "tight h"
  note t = tight_val [OF this]
  have "2 ^ 230 * 18454937 + 2 ^ 230 < p25519" by (simp add: p25519_def)
  moreover have "\<bar>2 ^ 230 * h ! 9\<bar> \<le> 2 ^ 230 * 18454937" using t(2) by (simp only: abs_mult) simp
  ultimately show ?thesis using t(1) by linarith
qed

lemma sign_quotient:
  assumes "tight h"
  defines "q \<equiv> (19 * h ! 9 + 2 ^ 24) div 2 ^ 25"
  shows "(q + fe_val h) div 2 ^ 255 = (if 0 \<le> fe_val h then 0 else - 1)" and "\<bar>q\<bar> \<le> 16"
proof -
  note t = tight_val [OF assms(1)] and l = tight_less_p [OF assms(1)]
  show q: "\<bar>q\<bar> \<le> 16" unfolding q_def by (rule div_abs_le) (use t(2) in \<open>simp_all add: abs_le_iff\<close>)
  show "(q + fe_val h) div 2 ^ 255 = (if 0 \<le> fe_val h then 0 else - 1)"
  proof (cases "0 \<le> fe_val h")
    case True
    have "0 \<le> h ! 9"
    proof (rule ccontr)
      assume "\<not> 0 \<le> h ! 9"
      then have "2 ^ 230 * h ! 9 \<le> 2 ^ 230 * (- 1)" by (intro mult_left_mono) simp_all
      then show False using True t(1) by linarith
    qed
    then have "0 \<le> q" by (simp add: q_def)
    moreover have "q + fe_val h < 2 ^ 255"
      using q l by (simp add: p25519_def)
    ultimately show ?thesis using True by simp
  next
    case False
    have "h ! 9 \<le> 0"
    proof (rule ccontr)
      assume "\<not> h ! 9 \<le> 0"
      then have "2 ^ 230 * 1 \<le> 2 ^ 230 * h ! 9" by (intro mult_left_mono) simp_all
      then show False using False t(1) by linarith
    qed
    then have "q \<le> (2 ^ 24) div 2 ^ 25" unfolding q_def by (intro zdiv_mono1) simp_all
    then have "q \<le> 0" by simp
    then have "q + fe_val h < 0" using False by simp
    moreover have "- (2 ^ 255) \<le> q + fe_val h" using q l by (simp add: p25519_def)
    ultimately have "(q + fe_val h) div 2 ^ 255 = - 1" by (intro int_div_pos_eq [of _ _ _ "q + fe_val h + 2 ^ 255"]) simp_all
    then show ?thesis using False by simp
  qed
qed

text \<open>Two neighbouring limbs in a word.\<close>

lemma or_shifted: "0 \<le> x \<Longrightarrow> x < 2 ^ j \<Longrightarrow> x OR push_bit j y = x + 2 ^ j * y" for x y :: int
proof -
  assume "0 \<le> x" and "x < 2 ^ j"
  then have "take_bit j x = x" by (simp add: take_bit_int_eq_self)
  moreover have "take_bit j x AND push_bit j y = 0" by (rule bit_eqI) (auto simp: bit_simps)
  ultimately have "x + push_bit j y = x OR push_bit j y" by (simp add: disjunctive_add_eq_or)
  then show ?thesis by (simp add: push_bit_eq_mult mult.commute)
qed

lemma pack_word:
  assumes "0 \<le> a" and "a < 2 ^ (i + j)" and "i + j \<le> 32" and "j \<le> 32"
  shows "int (unat (drop_bit i (word_of_int a) OR push_bit j (word_of_int b) :: u32)) = a div 2 ^ i + 2 ^ j * (b mod 2 ^ (32 - j))"
proof -
  have lt: "a < 2 ^ 32" using assms(2) power_increasing [OF assms(3), of "2 :: int"] by simp
  have a: "drop_bit i (word_of_int a) = (word_of_int (drop_bit i a) :: u32)"
  proof -
    have t: "take_bit 32 a = a" using assms(1) lt by (simp add: take_bit_int_eq_self)
    have "bit (word_of_int a :: u32) n \<longleftrightarrow> bit (take_bit 32 a) n" for n
      by (simp add: bit_simps)
    then show ?thesis unfolding t by (intro bit_word_eqI) (simp add: bit_simps)
  qed
  have b: "push_bit j (word_of_int b) = (word_of_int (push_bit j b) :: u32)"
    by (rule bit_word_eqI) (auto simp: bit_simps)
  have x: "0 \<le> a div 2 ^ i" "a div 2 ^ i < 2 ^ j"
  proof -
    show "0 \<le> a div 2 ^ i" using assms(1) by (simp add: pos_imp_zdiv_nonneg_iff)
    have "0 \<le> a mod 2 ^ i" by simp
    then have "2 ^ i * (a div 2 ^ i) \<le> a" using mult_div_mod_eq [of "2 ^ i" a] by linarith
    also have "a < 2 ^ i * 2 ^ j" using assms(2) by (simp add: power_add)
    finally show "a div 2 ^ i < 2 ^ j" by simp
  qed
  have "drop_bit i (word_of_int a) OR push_bit j (word_of_int b) = (word_of_int (a div 2 ^ i + 2 ^ j * b) :: u32)"
    by (simp only: a b word_wi_log_defs(3)) (simp only: drop_bit_eq_div or_shifted [OF x])
  then have "int (unat (drop_bit i (word_of_int a) OR push_bit j (word_of_int b) :: u32)) = (a div 2 ^ i + 2 ^ j * b) mod 2 ^ 32"
    by (simp only: of_nat_unat uint_word_of_int) simp
  also have "(2 :: int) ^ 32 = 2 ^ j * 2 ^ (32 - j)" using assms(4) by (simp flip: power_add)
  also have "(a div 2 ^ i + 2 ^ j * b) mod (2 ^ j * 2 ^ (32 - j)) = a div 2 ^ i + 2 ^ j * (b mod 2 ^ (32 - j))"
    using x by (subst zmod_zmult2_eq) simp_all
  finally show ?thesis .
qed

lemma store32_num: "le_num (store32_le v) = unat v"
  using load32_num [of "store32_le v"] by simp

lemma fe_tobytes_ok:
  assumes "tight h"
  obtains s where "fe_tobytes h = Some s" and "length s = 32" and "int (le_num s) = fe_val h mod p25519"
proof -
  have len: "length h = 10" and w: "within 36909875 18454937 h" using assms by (simp_all add: tight_def)
  let ?q = "(19 * h ! 9 + 2 ^ 24) div 2 ^ 25" and ?v = "fe_val h"
  let ?s = "if 0 \<le> ?v then 0 else - 1 :: int"
  note q = sign_quotient [OF assms] and l = tight_less_p [OF assms] and t = tight_val(2) [OF assms]
  have i: "i32 (19 * h ! 9) = Some (19 * h ! 9)" "i32 (19 * h ! 9 + 2 ^ 24) = Some (19 * h ! 9 + 2 ^ 24)"
    "i32 (?s * 19) = Some (?s * 19)"
    using t by (auto intro!: i32_Some simp: abs_le_iff)
  have sign: "fe_sign ?q h = Some ?s"
    using fe_sign_ok [of h ?q] q len w by (simp add: limbs_val10)
  obtain u where u: "fe_wrap (?s * 19) h = Some u" "length u = 10" "digits u" "limbs_val u = (?s * 19 + ?v) mod 2 ^ 255"
    using fe_wrap_ok [of h "?s * 19"] len w unfolding limbs_val10 [OF len] by (cases "0 \<le> ?v") auto
  have v: "(?s * 19 + ?v) mod 2 ^ 255 = ?v mod p25519"
  proof (cases "0 \<le> ?v")
    case True
    then show ?thesis using l by (simp add: p25519_def)
  next
    case False
    have "(- 19 + ?v) mod 2 ^ 255 = (?v + p25519) mod 2 ^ 255" 
      using mod_add_self2 [of "- 19 + ?v" "2 ^ 255"] by (simp add: p25519_def algebra_simps)
    also have "\<dots> = ?v + p25519" using False l by (intro mod_pos_pos_trivial) (simp_all add: p25519_def)
    also have "\<dots> = (?v + p25519) mod p25519" using False l by (intro mod_pos_pos_trivial [symmetric]) simp_all
    finally show ?thesis using False by simp
  qed
  obtain a0 a1 a2 a3 a4 a5 a6 a7 a8 a9 where a: "u = [a0, a1, a2, a3, a4, a5, a6, a7, a8, a9]"
    using u(2) by (rule list10)
  let ?w = "\<lambda>i x j y. drop_bit i (word_of_int x) OR push_bit j (word_of_int y) :: u32"
  let ?b = "store32_le (?w 0 a0 26 a1) @ store32_le (?w 6 a1 19 a2) @ store32_le (?w 13 a2 13 a3) @
    store32_le (?w 19 a3 6 a4) @ store32_le (?w 0 a5 25 a6) @ store32_le (?w 7 a6 19 a7) @
    store32_le (?w 13 a7 12 a8) @ store32_le (?w 20 a8 6 a9)"
  have d: "0 \<le> a0" "a0 < 2 ^ 26" "0 \<le> a1" "a1 < 2 ^ 25" "0 \<le> a2" "a2 < 2 ^ 26" "0 \<le> a3" "a3 < 2 ^ 25" "0 \<le> a4" "a4 < 2 ^ 26"
    "0 \<le> a5" "a5 < 2 ^ 25" "0 \<le> a6" "a6 < 2 ^ 26" "0 \<le> a7" "a7 < 2 ^ 25" "0 \<le> a8" "a8 < 2 ^ 26" "0 \<le> a9" "a9 < 2 ^ 25"
    using u(3) unfolding a digits.simps by - ((elim conjE)?, assumption)+
  have p: "int (unat (?w 0 a0 26 a1)) = a0 div 2 ^ 0 + 2 ^ 26 * (a1 mod 2 ^ (32 - 26))"
    "int (unat (?w 6 a1 19 a2)) = a1 div 2 ^ 6 + 2 ^ 19 * (a2 mod 2 ^ (32 - 19))"
    "int (unat (?w 13 a2 13 a3)) = a2 div 2 ^ 13 + 2 ^ 13 * (a3 mod 2 ^ (32 - 13))"
    "int (unat (?w 19 a3 6 a4)) = a3 div 2 ^ 19 + 2 ^ 6 * (a4 mod 2 ^ (32 - 6))"
    "int (unat (?w 0 a5 25 a6)) = a5 div 2 ^ 0 + 2 ^ 25 * (a6 mod 2 ^ (32 - 25))"
    "int (unat (?w 7 a6 19 a7)) = a6 div 2 ^ 7 + 2 ^ 19 * (a7 mod 2 ^ (32 - 19))"
    "int (unat (?w 13 a7 12 a8)) = a7 div 2 ^ 13 + 2 ^ 12 * (a8 mod 2 ^ (32 - 12))"
    "int (unat (?w 20 a8 6 a9)) = a8 div 2 ^ 20 + 2 ^ 6 * (a9 mod 2 ^ (32 - 6))"
    by (rule pack_word; use d in simp)+
  have m: "a4 mod 2 ^ (32 - 6) = a4" "a9 mod 2 ^ (32 - 6) = a9" using d by simp_all
  have split: "x mod 2 ^ n = x - 2 ^ n * (x div 2 ^ n)" for x :: int and n
    by (simp add: minus_mult_div_eq_mod)
  have b: "int (le_num ?b) = limbs_val u"
    unfolding le_num_append store32_num store32_le_length of_nat_add of_nat_mult p m
    unfolding split a
    by (simp add: algebra_simps)
  show thesis
  proof (rule that)
    show "fe_tobytes h = Some ?b"
      by (simp only: fe_tobytes_def i sign u(1) Option.bind.simps Let_def) (simp add: a)
    show "length ?b = 32" by simp
    show "int (le_num ?b) = ?v mod p25519" using b u(4) v by simp
  qed
qed

text \<open>C17. Field elements and their encodings. Any 32 bytes decode, within the bounds and without overflow, to the number they
  are in little-endian with the highest bit ignored, modulo 2^255 - 19, and encoding that element gives the least
  number of its residue class: the same bytes back exactly when they were below the modulus. Any element within the
  bounds, of either sign, encodes to 32 bytes that decode to the same residue.\<close>

theorem field_bytes:
  assumes "length s = 32" and "tight h"
  shows "(\<exists>f t. fe_frombytes s = Some f \<and> tight f \<and> fe_tobytes f = Some t \<and> length t = 32 \<and>
      int (le_num t) = int (le_num s mod 2 ^ 255) mod p25519 \<and> (t = s \<longleftrightarrow> int (le_num s) < p25519)) \<and>
    (\<exists>t f. fe_tobytes h = Some t \<and> length t = 32 \<and> int (le_num t) = fe_val h mod p25519 \<and>
      fe_frombytes t = Some f \<and> fe_val f mod p25519 = fe_val h mod p25519)"
proof
  have p: "0 < p25519" "p25519 < 2 ^ 255" by (simp_all add: p25519_def)
  have dec: "computes (fe_frombytes u) (int (le_num u mod 2 ^ 255))" if "length u = 32" for u
    using fe_frombytes_mask_ok [OF that, of 1] by (simp add: fe_frombytes_def)
  obtain f where f: "fe_frombytes s = Some f" "tight f" "fe_val f mod p25519 = int (le_num s mod 2 ^ 255) mod p25519"
    using dec [OF assms(1)] by (rule computesE)
  obtain t where t: "fe_tobytes f = Some t" "length t = 32" "int (le_num t) = int (le_num s mod 2 ^ 255) mod p25519"
    using fe_tobytes_ok [OF f(2)] unfolding f(3) by blast
  have "t = s \<longleftrightarrow> int (le_num s) < p25519"
  proof
    assume "t = s"
    then show "int (le_num s) < p25519" using t(3) p(1) by simp
  next
    assume l: "int (le_num s) < p25519"
    then have "int (le_num s) < int (2 ^ 255)" using p(2) by simp
    then have "le_num s < 2 ^ 255" by (simp only: of_nat_less_iff)
    then have "int (le_num t) = int (le_num s)" using t(3) l by (simp del: power_numeral)
    then show "t = s" using le_num_inject [of t s] t(2) assms(1) by simp
  qed
  then show "\<exists>f t. fe_frombytes s = Some f \<and> tight f \<and> fe_tobytes f = Some t \<and> length t = 32 \<and>
      int (le_num t) = int (le_num s mod 2 ^ 255) mod p25519 \<and> (t = s \<longleftrightarrow> int (le_num s) < p25519)"
    using f(1,2) t by blast
  obtain v where v: "fe_tobytes h = Some v" "length v = 32" "int (le_num v) = fe_val h mod p25519"
    using fe_tobytes_ok [OF assms(2)] by blast
  have "int (le_num v) < int (2 ^ 255)" using v(3) p pos_mod_bound [OF p(1), of "fe_val h"] by simp
  then have l: "le_num v mod 2 ^ 255 = le_num v" by (simp only: of_nat_less_iff mod_less)
  obtain g where g: "fe_frombytes v = Some g" "fe_val g mod p25519 = int (le_num v) mod p25519"
    using dec [OF v(2)] unfolding l by (rule computesE)
  then show "\<exists>t f. fe_tobytes h = Some t \<and> length t = 32 \<and> int (le_num t) = fe_val h mod p25519 \<and>
      fe_frombytes t = Some f \<and> fe_val f mod p25519 = fe_val h mod p25519"
    using v by (intro exI [of _ v] exI [of _ g]) simp
qed

text \<open>The number 2^255 - 19 itself, which is not canonical, and an element with negative limbs.\<close>

theorem field_bytes_witness:
  "(\<exists>f t. fe_frombytes (0xed # replicate 30 0xff @ [0x7f]) = Some f \<and> fe_tobytes f = Some t \<and> int (le_num t) = 0) \<and>
   (\<exists>t. fe_tobytes (- 1 # replicate 9 0) = Some t \<and> int (le_num t) = p25519 - 1)"
proof -
  let ?s = "0xed # replicate 30 0xff @ [0x7f] :: bytes"
  have "le_num (replicate n 0xff) + 1 = 256 ^ n" for n by (induction n) simp_all
  from this [of 30] have "le_num (replicate 30 0xff) = 256 ^ 30 - 1" by simp
  then have "le_num ?s = 2 ^ 255 - 19" by (simp add: le_num_append)
  then have s: "length ?s = 32" "int (le_num ?s mod 2 ^ 255) mod p25519 = 0" by (simp_all add: p25519_def)
  have h: "tight (- 1 # replicate 9 0)" by (simp add: tight_def eval_nat_numeral)
  have v: "fe_val (- 1 # replicate 9 0) mod p25519 = p25519 - 1"
    by (simp add: fe_val_def fe_sum_def nth_Cons' p25519_def)
  show ?thesis using field_bytes [OF s(1) h] s(2) v by auto
qed

end
