(* ===== verification/X25519.thy ===== *)
theory X25519
  imports FeBytes
begin

unbundle bit_operations_syntax

text \<open>
  The key exchange of the daemon (src/src/asyd/core/monocypher.c): the inverse square root and the inverse of a field
  element, and scalar multiplication on Curve25519 by the Montgomery ladder. The reference definition is the textbook
  ladder: doubling and differential addition on projective x coordinates over the integers modulo 2^255 - 19, for a
  scalar read as a number. The constant-time ladder with its conditional swaps, the operations shared between doubling
  and addition and the limb arithmetic refine it for all inputs.
\<close>

section \<open>The operations\<close>

definition fe_isequal :: "fe \<Rightarrow> fe \<Rightarrow> int option" where
  "fe_isequal f g =
     do {fs \<leftarrow> fe_tobytes f;
         gs \<leftarrow> fe_tobytes g;
         let isdifferent = crypto_verify32 fs gs;
         Some (1 + isdifferent)}"

text \<open>\<open>FOR (i, 1, n) fe_sq(t, t)\<close> squares \<open>n - 1\<close> times.\<close>

primrec sq_times :: "nat \<Rightarrow> fe \<Rightarrow> fe option" where
  "sq_times 0 t = Some t"
| "sq_times (Suc n) t = do {t \<leftarrow> fe_sq t; sq_times n t}"

text \<open>The first part of \<open>invsqrt\<close>, the power of an eighth of \<open>p - 5\<close>.\<close>

definition power_p58 :: "fe \<Rightarrow> fe option" where
  "power_p58 x =
     do {t0 \<leftarrow> fe_sq x;
         t1 \<leftarrow> fe_sq t0; t1 \<leftarrow> fe_sq t1; t1 \<leftarrow> fe_mul x t1;
         t0 \<leftarrow> fe_mul t0 t1;
         t0 \<leftarrow> fe_sq t0; t0 \<leftarrow> fe_mul t1 t0;
         t1 \<leftarrow> fe_sq t0; t1 \<leftarrow> sq_times (5 - 1) t1; t0 \<leftarrow> fe_mul t1 t0;
         t1 \<leftarrow> fe_sq t0; t1 \<leftarrow> sq_times (10 - 1) t1; t1 \<leftarrow> fe_mul t1 t0;
         t2 \<leftarrow> fe_sq t1; t2 \<leftarrow> sq_times (20 - 1) t2; t1 \<leftarrow> fe_mul t2 t1;
         t1 \<leftarrow> fe_sq t1; t1 \<leftarrow> sq_times (10 - 1) t1; t0 \<leftarrow> fe_mul t1 t0;
         t1 \<leftarrow> fe_sq t0; t1 \<leftarrow> sq_times (50 - 1) t1; t1 \<leftarrow> fe_mul t1 t0;
         t2 \<leftarrow> fe_sq t1; t2 \<leftarrow> sq_times (100 - 1) t2; t1 \<leftarrow> fe_mul t2 t1;
         t1 \<leftarrow> fe_sq t1; t1 \<leftarrow> sq_times (50 - 1) t1; t0 \<leftarrow> fe_mul t1 t0;
         t0 \<leftarrow> fe_sq t0; t0 \<leftarrow> sq_times (2 - 1) t0; fe_mul t0 x}"

text \<open>
  The first argument of the C function is only written after the last read of the second, so the call with both the
  same in \<open>fe_invert\<close> computes the same.
\<close>

definition invsqrt :: "fe \<Rightarrow> (fe \<times> int) option" where
  "invsqrt x =
     do {t0 \<leftarrow> power_p58 x;
         quartic \<leftarrow> fe_sq t0;
         quartic \<leftarrow> fe_mul quartic x;
         z0 \<leftarrow> fe_isequal x fe_0;
         p1 \<leftarrow> fe_isequal quartic fe_1;
         check \<leftarrow> fe_neg fe_1; m1 \<leftarrow> fe_isequal quartic check;
         check \<leftarrow> fe_neg sqrtm1; ms \<leftarrow> fe_isequal quartic check;
         isr \<leftarrow> fe_mul t0 sqrtm1;
         let isr = fe_ccopy isr t0 (1 - (m1 OR ms));
         Some (isr, p1 OR m1 OR z0)}"

definition fe_invert :: "fe \<Rightarrow> fe option" where
  "fe_invert x =
     do {tmp \<leftarrow> fe_sq x;
         (tmp, _) \<leftarrow> invsqrt tmp;
         tmp \<leftarrow> fe_sq tmp;
         fe_mul tmp x}"

definition crypto_eddsa_trim_scalar :: "bytes \<Rightarrow> bytes" where
  "crypto_eddsa_trim_scalar inp =
     (let out = take 32 inp;
          out = out[0 := out ! 0 AND 248];
          out = out[31 := out ! 31 AND 127]
      in out[31 := out ! 31 OR 64])"

definition scalar_bit :: "bytes \<Rightarrow> int \<Rightarrow> int" where
  "scalar_bit s i =
     (if i < 0 then 0 else uint (drop_bit (nat (i AND 7)) (s ! nat (drop_bit 3 i)) AND 1))"

text \<open>The body of the loop for one bit, and the loop from bit \<open>n - 1\<close> down to 0.\<close>

type_synonym ladder_state = "fe \<times> fe \<times> fe \<times> fe \<times> int"

fun ladder_step :: "fe \<Rightarrow> int \<Rightarrow> ladder_state \<Rightarrow> ladder_state option" where
  "ladder_step x1 b (x2, z2, x3, z3, swap) =
     do {let swap = swap XOR b;
         let (x2, x3) = fe_cswap x2 x3 swap;
         let (z2, z3) = fe_cswap z2 z3 swap;
         let swap = b;
         t0 \<leftarrow> fe_sub x3 z3;
         t1 \<leftarrow> fe_sub x2 z2;
         x2 \<leftarrow> fe_add x2 z2;
         z2 \<leftarrow> fe_add x3 z3;
         z3 \<leftarrow> fe_mul t0 x2;
         z2 \<leftarrow> fe_mul z2 t1;
         t0 \<leftarrow> fe_sq t1;
         t1 \<leftarrow> fe_sq x2;
         x3 \<leftarrow> fe_add z3 z2;
         z2 \<leftarrow> fe_sub z3 z2;
         x2 \<leftarrow> fe_mul t1 t0;
         t1 \<leftarrow> fe_sub t1 t0;
         z2 \<leftarrow> fe_sq z2;
         z3 \<leftarrow> fe_mul_small t1 121666;
         x3 \<leftarrow> fe_sq x3;
         t0 \<leftarrow> fe_add t0 z3;
         z3 \<leftarrow> fe_mul x1 z2;
         z2 \<leftarrow> fe_mul t1 t0;
         Some (x2, z2, x3, z3, swap)}"

primrec ladder :: "bytes \<Rightarrow> fe \<Rightarrow> nat \<Rightarrow> ladder_state \<Rightarrow> ladder_state option" where
  "ladder scalar x1 0 st = Some st"
| "ladder scalar x1 (Suc pos) st =
     do {let b = scalar_bit scalar (int pos);
         st \<leftarrow> ladder_step x1 b st;
         ladder scalar x1 pos st}"

definition scalarmult :: "bytes \<Rightarrow> bytes \<Rightarrow> nat \<Rightarrow> bytes option" where
  "scalarmult scalar p nb_bits =
     do {x1 \<leftarrow> fe_frombytes p;
         (x2, z2, x3, z3, swap) \<leftarrow> ladder scalar x1 nb_bits (fe_1, fe_0, fe_copy x1, fe_1, 0);
         let (x2, x3) = fe_cswap x2 x3 swap;
         let (z2, z3) = fe_cswap z2 z3 swap;
         z2 \<leftarrow> fe_invert z2;
         x2 \<leftarrow> fe_mul x2 z2;
         fe_tobytes x2}"

definition crypto_x25519 :: "bytes \<Rightarrow> bytes \<Rightarrow> bytes option" where
  "crypto_x25519 your_secret_key their_public_key =
     (let e = crypto_eddsa_trim_scalar your_secret_key in scalarmult e their_public_key 255)"

definition base_point :: bytes where
  "base_point = 9 # replicate 31 0"

definition crypto_x25519_public_key :: "bytes \<Rightarrow> bytes option" where
  "crypto_x25519_public_key secret_key = crypto_x25519 secret_key base_point"

section \<open>The reference definition\<close>

text \<open>Points are projective x coordinates \<open>X : Z\<close> on the curve \<open>y^2 = x^3 + 486662 x^2 + x\<close>.\<close>

type_synonym xpoint = "int \<times> int"

fun xdbl :: "xpoint \<Rightarrow> xpoint" where
  "xdbl (X, Z) =
     ((X ^ 2 - Z ^ 2) ^ 2 mod p25519, 4 * X * Z * (X ^ 2 + 486662 * X * Z + Z ^ 2) mod p25519)"

fun xadd :: "int \<Rightarrow> xpoint \<Rightarrow> xpoint \<Rightarrow> xpoint" where
  "xadd u (X2, Z2) (X3, Z3) =
     (4 * (X2 * X3 - Z2 * Z3) ^ 2 mod p25519, 4 * u * (X2 * Z3 - X3 * Z2) ^ 2 mod p25519)"

text \<open>The points \<open>k\<close> and \<open>k + 1\<close> times the point with x coordinate \<open>u\<close>.\<close>

fun x_multiples :: "int \<Rightarrow> nat \<Rightarrow> xpoint \<times> xpoint" where
  "x_multiples u k =
     (if k = 0 then ((1, 0), (u mod p25519, 1))
      else (let (P, Q) = x_multiples u (k div 2)
            in if odd k then (xadd u P Q, xdbl Q) else (xdbl P, xadd u P Q)))"

declare x_multiples.simps [simp del]

text \<open>
  The inverse: \<open>z\<close> to the power of half of \<open>p - 3\<close>, with the sign of the quadratic character
  (\<open>field_inv_mult\<close> and \<open>field_inv_zero\<close> below). The root of -1 is the constant of the source.
\<close>

fun mod_power :: "int \<Rightarrow> nat \<Rightarrow> int" where
  "mod_power x n =
     (if n = 0 then 1
      else let y = mod_power x (n div 2) in (if odd n then x * (y * y mod p25519) else y * y) mod p25519)"

declare mod_power.simps [simp del]

definition character :: "int \<Rightarrow> int" where
  "character z = mod_power z (nat ((p25519 - 1) div 2))"

definition field_inv :: "int \<Rightarrow> int" where
  "field_inv z =
     (let e = mod_power z (nat ((p25519 - 3) div 2))
      in (if character z = p25519 - 1 \<or> character z = (- fe_val sqrtm1) mod p25519 then - e else e) mod p25519)"

text \<open>The scalars of RFC 7748: a multiple of 8 between 2^254 and 2^255.\<close>

definition clamp :: "nat \<Rightarrow> nat" where
  "clamp k = 2 ^ 254 + 8 * (k mod 2 ^ 254 div 8)"

definition x25519_ref :: "nat \<Rightarrow> nat \<Rightarrow> int" where
  "x25519_ref k u =
     (let ((X, Z), _) = x_multiples (int (u mod 2 ^ 255)) (clamp k) in X * field_inv Z mod p25519)"

section \<open>Powers and inverses\<close>

lemma p25519_gt: "1 < p25519" "0 < p25519"
  by (simp_all add: p25519_def)

lemma mod_power_eq: "mod_power x n = x ^ n mod p25519"
proof (induction x n rule: mod_power.induct)
  case (1 x n)
  show ?case
  proof (cases "n = 0")
    case True
    then show ?thesis using p25519_gt by (simp add: mod_power.simps)
  next
    case False
    let ?y = "x ^ (n div 2)"
    have y: "mod_power x (n div 2) = ?y mod p25519" using 1 False by blast
    have e: "x ^ n = (if odd n then x * (?y * ?y) else ?y * ?y)"
      using power_add [of x "n div 2" "n div 2"] by (cases "odd n") (auto elim!: oddE evenE simp: mult_2)
    show ?thesis
      unfolding mod_power.simps [of x n] y e Let_def using False by (simp add: mod_simps)
  qed
qed

definition fe_mod :: "fe \<Rightarrow> int" where
  "fe_mod f = fe_val f mod p25519"

lemma fe_isequal_ok:
  assumes "tight f" and "tight g"
  shows "fe_isequal f g = Some (if fe_mod f = fe_mod g then 1 else 0)"
proof -
  obtain s where s: "fe_tobytes f = Some s" "length s = 32" "int (le_num s) = fe_mod f"
    using fe_tobytes_ok [OF assms(1)] by (auto simp: fe_mod_def)
  obtain t where t: "fe_tobytes g = Some t" "length t = 32" "int (le_num t) = fe_mod g"
    using fe_tobytes_ok [OF assms(2)] by (auto simp: fe_mod_def)
  have "s = t \<longleftrightarrow> fe_mod f = fe_mod g" using le_num_inject [of s t] s t by auto
  then show ?thesis using s t by (simp add: fe_isequal_def verify32)
qed

text \<open>\<open>is_power x n f\<close>: the element \<open>f\<close> is the \<open>n\<close>th power of \<open>x\<close>.\<close>

definition is_power :: "int \<Rightarrow> nat \<Rightarrow> fe \<Rightarrow> bool" where
  "is_power x n f \<longleftrightarrow> tight f \<and> fe_mod f = x ^ n mod p25519"

lemma computes_mod: "computes r v \<longleftrightarrow> (\<exists>h. r = Some h \<and> tight h \<and> fe_mod h = v mod p25519)"
  by (simp add: computes_def fe_mod_def)

lemma fe_mul_mod:
  assumes "loose f" and "loose g"
  shows "\<exists>h. fe_mul f g = Some h \<and> tight h \<and> fe_mod h = fe_mod f * fe_mod g mod p25519"
  using fe_mul_ok [OF assms] by (simp add: computes_mod) (simp add: fe_mod_def mod_simps)

lemma fe_sq_mod:
  assumes "loose f"
  shows "\<exists>h. fe_sq f = Some h \<and> tight h \<and> fe_mod h = (fe_mod f) ^ 2 mod p25519"
  using fe_mul_mod [OF assms assms] fe_sq_mul [OF assms] by (simp add: power2_eq_square)

lemma fe_mul_pow:
  assumes "is_power x m f" and "is_power x n g"
  shows "\<exists>h. fe_mul f g = Some h \<and> is_power x (m + n) h"
  using fe_mul_mod [of f g] assms by (auto simp: is_power_def tight_loose power_add mod_simps)

lemma fe_sq_pow: "is_power x n f \<Longrightarrow> \<exists>h. fe_sq f = Some h \<and> is_power x (2 * n) h"
  using fe_mul_pow [of x n f n f] fe_sq_mul [of f] by (auto simp: is_power_def tight_loose mult_2)

lemma sq_times_pow: "is_power x n f \<Longrightarrow> \<exists>h. sq_times k f = Some h \<and> is_power x (2 ^ k * n) h"
proof (induction k arbitrary: n f)
  case (Suc k)
  then obtain h where h: "fe_sq f = Some h" "is_power x (2 * n) h" using fe_sq_pow by blast
  then show ?case using Suc.IH [OF h(2)] by (simp add: mult.assoc [symmetric] mult.commute)
qed simp

text \<open>The pattern of the addition chain: square \<open>k + 1\<close> times and multiply.\<close>

lemma chain_pow:
  assumes "is_power x m f" and "is_power x n g"
  shows "\<exists>a b h. fe_sq f = Some a \<and> sq_times k a = Some b \<and> fe_mul b g = Some h \<and> is_power x (2 ^ Suc k * m + n) h"
proof -
  obtain a where a: "fe_sq f = Some a" "is_power x (2 * m) a" using fe_sq_pow [OF assms(1)] by blast
  obtain b where b: "sq_times k a = Some b" "is_power x (2 ^ k * (2 * m)) b" using sq_times_pow [OF a(2)] by blast
  obtain h where h: "fe_mul b g = Some h" "is_power x (2 ^ k * (2 * m) + n) h" using fe_mul_pow [OF b(2) assms(2)] by blast
  have e: "2 ^ k * (2 * m) + n = 2 ^ Suc k * m + n" by simp
  show ?thesis using a(1) b(1) h [unfolded e] by blast
qed

lemma constants_tight: "tight fe_0" "tight fe_1" "tight sqrtm1"
  by (simp_all add: fe_0_def fe_1_def sqrtm1_def tight_def eval_nat_numeral)

lemma constants_mod: "fe_mod fe_0 = 0" "fe_mod fe_1 = 1"
  using p25519_gt by (simp_all add: fe_mod_def fe_val_def fe_sum_def fe_0_def fe_1_def nth_Cons')

text \<open>The constant of the source is a square root of -1; the square is computed by the verified operation itself.\<close>

lemma sqrtm1_square: "fe_mod sqrtm1 ^ 2 mod p25519 = (- 1) mod p25519"
proof -
  have "fe_sq sqrtm1 = Some [- 1, 0, 0, 0, 0, 0, 0, 0, 0, 0]" by code_simp
  then show ?thesis
    using fe_sq_mod [OF tight_loose [OF constants_tight(3)]] by (simp add: fe_mod_def fe_val_def fe_sum_def)
qed

lemma fe_neg_mod: "tight f \<Longrightarrow> \<exists>h. fe_neg f = Some h \<and> tight h \<and> fe_mod h = (- fe_mod f) mod p25519"
  using fe_neg_ok [of f] by (auto simp: fe_mod_def mod_simps)

definition of_int_bool :: "bool \<Rightarrow> int" where
  "of_int_bool b = (if b then 1 else 0)"

lemma flag_or: "of_int_bool a OR of_int_bool b = of_int_bool (a \<or> b)"
  by (simp add: of_int_bool_def)

lemma power_base_mod: "is_power x n f \<longleftrightarrow> is_power (x mod p25519) n f"
  by (simp add: is_power_def power_mod)

definition root_case :: "int \<Rightarrow> bool" where
  "root_case q \<longleftrightarrow> q = p25519 - 1 \<or> q = (- fe_val sqrtm1) mod p25519"

lemma power_p58_ok:
  assumes "tight x"
  shows "\<exists>t. power_p58 x = Some t \<and> is_power (fe_mod x) (2 ^ 252 - 3) t"
proof -
  let ?v = "fe_mod x"
  have x: "is_power ?v 1 x" using assms(1) by (simp add: is_power_def fe_mod_def)
  obtain t0 where s1: "fe_sq x = Some t0" "is_power ?v (2 * 1) t0" using fe_sq_pow [OF x] by blast
  obtain t1 where s2: "fe_sq t0 = Some t1" "is_power ?v (2 * (2 * 1)) t1" using fe_sq_pow [OF s1(2)] by blast
  obtain t2 where s3: "fe_sq t1 = Some t2" "is_power ?v (2 * (2 * (2 * 1))) t2" using fe_sq_pow [OF s2(2)] by blast
  obtain t3 where s4: "fe_mul x t2 = Some t3" "is_power ?v (1 + 2 * (2 * (2 * 1))) t3" using fe_mul_pow [OF x s3(2)] by blast
  obtain t4 where s5: "fe_mul t0 t3 = Some t4" "is_power ?v (2 * 1 + (1 + 2 * (2 * (2 * 1)))) t4"
    using fe_mul_pow [OF s1(2) s4(2)] by blast
  have e3: "is_power ?v 9 t3" and e4: "is_power ?v 11 t4" using s4(2) s5(2) by simp_all
  obtain t5 where s6: "fe_sq t4 = Some t5" "is_power ?v (2 * 11) t5" using fe_sq_pow [OF e4] by blast
  obtain t6 where s7: "fe_mul t3 t5 = Some t6" "is_power ?v (9 + 2 * 11) t6" using fe_mul_pow [OF e3 s6(2)] by blast
  have e6: "is_power ?v (2 ^ 5 - 1) t6" using s7(2) by simp
  obtain a1 b1 t7 where s8: "fe_sq t6 = Some a1" "sq_times (5 - 1) a1 = Some b1" "fe_mul b1 t6 = Some t7"
      "is_power ?v (2 ^ Suc (5 - 1) * (2 ^ 5 - 1) + (2 ^ 5 - 1)) t7" using chain_pow [OF e6 e6] by blast
  have e7: "is_power ?v (2 ^ 10 - 1) t7" using s8(4) by simp
  obtain a2 b2 t8 where s9: "fe_sq t7 = Some a2" "sq_times (10 - 1) a2 = Some b2" "fe_mul b2 t7 = Some t8"
      "is_power ?v (2 ^ Suc (10 - 1) * (2 ^ 10 - 1) + (2 ^ 10 - 1)) t8" using chain_pow [OF e7 e7] by blast
  have e8: "is_power ?v (2 ^ 20 - 1) t8" using s9(4) by simp
  obtain a3 b3 t9 where s10: "fe_sq t8 = Some a3" "sq_times (20 - 1) a3 = Some b3" "fe_mul b3 t8 = Some t9"
      "is_power ?v (2 ^ Suc (20 - 1) * (2 ^ 20 - 1) + (2 ^ 20 - 1)) t9" using chain_pow [OF e8 e8] by blast
  have e9: "is_power ?v (2 ^ 40 - 1) t9" using s10(4) by simp
  obtain a4 b4 t10 where s11: "fe_sq t9 = Some a4" "sq_times (10 - 1) a4 = Some b4" "fe_mul b4 t7 = Some t10"
      "is_power ?v (2 ^ Suc (10 - 1) * (2 ^ 40 - 1) + (2 ^ 10 - 1)) t10" using chain_pow [OF e9 e7] by blast
  have e10: "is_power ?v (2 ^ 50 - 1) t10" using s11(4) by simp
  obtain a5 b5 t11 where s12: "fe_sq t10 = Some a5" "sq_times (50 - 1) a5 = Some b5" "fe_mul b5 t10 = Some t11"
      "is_power ?v (2 ^ Suc (50 - 1) * (2 ^ 50 - 1) + (2 ^ 50 - 1)) t11" using chain_pow [OF e10 e10] by blast
  have e11: "is_power ?v (2 ^ 100 - 1) t11" using s12(4) by simp
  obtain a6 b6 t12 where s13: "fe_sq t11 = Some a6" "sq_times (100 - 1) a6 = Some b6" "fe_mul b6 t11 = Some t12"
      "is_power ?v (2 ^ Suc (100 - 1) * (2 ^ 100 - 1) + (2 ^ 100 - 1)) t12" using chain_pow [OF e11 e11] by blast
  have e12: "is_power ?v (2 ^ 200 - 1) t12" using s13(4) by simp
  obtain a7 b7 t13 where s14: "fe_sq t12 = Some a7" "sq_times (50 - 1) a7 = Some b7" "fe_mul b7 t10 = Some t13"
      "is_power ?v (2 ^ Suc (50 - 1) * (2 ^ 200 - 1) + (2 ^ 50 - 1)) t13" using chain_pow [OF e12 e10] by blast
  have e13: "is_power ?v (2 ^ 250 - 1) t13" using s14(4) by simp
  obtain a8 b8 t14 where s15: "fe_sq t13 = Some a8" "sq_times (2 - 1) a8 = Some b8" "fe_mul b8 x = Some t14"
      "is_power ?v (2 ^ Suc (2 - 1) * (2 ^ 250 - 1) + 1) t14" using chain_pow [OF e13 x] by blast
  have e14: "is_power ?v (2 ^ 252 - 3) t14" using s15(4) by simp
  show ?thesis
    unfolding power_p58_def using s1(1) s2(1) s3(1) s4(1) s5(1) s6(1) s7(1) s8(1-3) s9(1-3) s10(1-3) s11(1-3) s12(1-3)
      s13(1-3) s14(1-3) s15(1-3) e14 by (simp only: Option.bind.simps) blast
qed

lemma invsqrt_ok:
  assumes "tight x"
  defines "q \<equiv> fe_mod x ^ (2 ^ 253 - 5) mod p25519"
  shows "\<exists>isr r. invsqrt x = Some (isr, r) \<and> tight isr \<and>
    fe_mod isr = fe_mod x ^ (2 ^ 252 - 3) * (if root_case q then fe_val sqrtm1 else 1) mod p25519 \<and>
    r = (if q = 1 \<or> q = p25519 - 1 \<or> fe_mod x = 0 then 1 else 0)"
proof -
  let ?v = "fe_mod x"
  have x: "is_power ?v 1 x" using assms(1) by (simp add: is_power_def fe_mod_def)
  obtain t where t: "power_p58 x = Some t" "is_power ?v (2 ^ 252 - 3) t" using power_p58_ok [OF assms(1)] by blast
  obtain q0 where s1: "fe_sq t = Some q0" "is_power ?v (2 * (2 ^ 252 - 3)) q0" using fe_sq_pow [OF t(2)] by blast
  obtain q1 where s2: "fe_mul q0 x = Some q1" "is_power ?v (2 * (2 ^ 252 - 3) + 1) q1" using fe_mul_pow [OF s1(2) x] by blast
  have q: "tight q1" "fe_mod q1 = q" using s2(2) by (simp_all add: is_power_def q_def)
  have tt: "tight t" "fe_mod t = ?v ^ (2 ^ 252 - 3) mod p25519" using t(2) by (simp_all only: is_power_def)
  obtain n1 where n1: "fe_neg fe_1 = Some n1" "tight n1" "fe_mod n1 = p25519 - 1"
    using fe_neg_mod [OF constants_tight(2)] p25519_gt by (auto simp: constants_mod zmod_minus1)
  obtain n2 where n2: "fe_neg sqrtm1 = Some n2" "tight n2" "fe_mod n2 = (- fe_val sqrtm1) mod p25519"
    using fe_neg_mod [OF constants_tight(3)] by (auto simp: fe_mod_def mod_simps)
  obtain isr where isr: "fe_mul t sqrtm1 = Some isr" "tight isr" "fe_mod isr = fe_mod t * fe_mod sqrtm1 mod p25519"
    using fe_mul_mod [OF tight_loose tight_loose, OF tt(1) constants_tight(3)] by blast
  have e: "fe_isequal x fe_0 = Some (of_int_bool (?v = 0))" "fe_isequal q1 fe_1 = Some (of_int_bool (q = 1))"
      "fe_isequal q1 n1 = Some (of_int_bool (q = p25519 - 1))"
      "fe_isequal q1 n2 = Some (of_int_bool (q = (- fe_val sqrtm1) mod p25519))"
    by (simp_all add: fe_isequal_ok assms(1) q n1 n2 constants_tight constants_mod of_int_bool_def)
  have l: "length isr = 10" "length t = 10" using isr(2) tt(1) by (simp_all add: tight_def)
  have c: "fe_ccopy isr t (1 - of_int_bool (root_case q)) = (if root_case q then isr else t)"
    using l by (simp add: fe_ccopy_ok of_int_bool_def)
  have r: "invsqrt x = Some (if root_case q then isr else t, of_int_bool (q = 1 \<or> q = p25519 - 1 \<or> ?v = 0))"
    by (simp only: invsqrt_def t s1 s2 e n1 n2 isr Option.bind.simps Let_def flag_or root_case_def [symmetric] c)
  have "fe_mod isr = ?v ^ (2 ^ 252 - 3) * fe_val sqrtm1 mod p25519"
    using isr(3) tt(2) by (simp only: fe_mod_def [of sqrtm1] mod_simps)
  then show ?thesis
    unfolding r using isr(2) tt by (intro exI conjI) (rule refl, simp_all add: of_int_bool_def)
qed

lemma halves: "nat ((p25519 - 1) div 2) = 2 ^ 254 - 10" "nat ((p25519 - 3) div 2) = 2 ^ 254 - 11"
  by (simp_all add: p25519_def)

lemma fe_invert_ok:
  assumes "loose x"
  shows "\<exists>h. fe_invert x = Some h \<and> tight h \<and> fe_mod h = field_inv (fe_mod x)"
proof -
  let ?v = "fe_mod x"
  obtain y where y: "fe_sq x = Some y" "tight y" "fe_mod y = ?v ^ 2 mod p25519"
    using fe_sq_mod [OF assms] by blast
  let ?c = "if root_case (character ?v) then fe_val sqrtm1 else 1"
  have "fe_mod y ^ (2 ^ 253 - 5) mod p25519 = ?v ^ (2 * (2 ^ 253 - 5)) mod p25519"
    unfolding y(3) power_mod power_mult by (rule refl)
  also have "\<dots> = character ?v" unfolding character_def mod_power_eq halves by simp
  finally have ch: "fe_mod y ^ (2 ^ 253 - 5) mod p25519 = character ?v" .
  obtain isr r where i: "invsqrt y = Some (isr, r)" "tight isr" "fe_mod isr = fe_mod y ^ (2 ^ 252 - 3) * ?c mod p25519"
    using invsqrt_ok [OF y(2)] unfolding ch by blast
  obtain s where s: "fe_sq isr = Some s" "tight s" "fe_mod s = (fe_mod isr) ^ 2 mod p25519"
    using fe_sq_mod [OF tight_loose [OF i(2)]] by blast
  obtain h where h: "fe_mul s x = Some h" "tight h" "fe_mod h = fe_mod s * ?v mod p25519"
    using fe_mul_mod [OF tight_loose [OF s(2)] assms] by blast
  have "fe_mod h = ((?v ^ 2) ^ (2 ^ 252 - 3) * ?c) ^ 2 * ?v mod p25519"
  proof -
    have "fe_mod isr = (?v ^ 2) ^ (2 ^ 252 - 3) * ?c mod p25519"
      unfolding i(3) y(3) by (metis mod_mult_left_eq power_mod)
    then have "fe_mod s = ((?v ^ 2) ^ (2 ^ 252 - 3) * ?c) ^ 2 mod p25519" by (simp only: s(3) power_mod)
    then show ?thesis by (simp only: h(3) mod_simps)
  qed
  also have "((?v ^ 2) ^ (2 ^ 252 - 3) * ?c) ^ 2 * ?v = ?v ^ (2 * (2 ^ 252 - 3) * 2) * ?v * ?c ^ 2"
    by (simp only: power_mult_distrib power_mult) (simp only: ac_simps)
  also have "?v ^ (2 * (2 ^ 252 - 3) * 2) * ?v = ?v ^ (2 ^ 254 - 11)"
    unfolding power_Suc2 [symmetric] by (rule arg_cong [where f = "power ?v"]) simp
  also have "?v ^ (2 ^ 254 - 11) * ?c ^ 2 mod p25519 =
      (if root_case (character ?v) then - (?v ^ (2 ^ 254 - 11)) else ?v ^ (2 ^ 254 - 11)) mod p25519"
  proof (cases "root_case (character ?v)")
    case True
    have "?v ^ (2 ^ 254 - 11) * fe_val sqrtm1 ^ 2 mod p25519 = ?v ^ (2 ^ 254 - 11) * (fe_mod sqrtm1 ^ 2 mod p25519) mod p25519"
      by (simp only: fe_mod_def mod_simps)
    also have "\<dots> = - (?v ^ (2 ^ 254 - 11)) mod p25519"
      unfolding sqrtm1_square by (simp only: mod_simps) simp
    finally show ?thesis using True by simp
  qed simp
  also have "\<dots> = field_inv ?v"
    unfolding field_inv_def Let_def root_case_def [symmetric] mod_power_eq halves
    by (cases "root_case (character ?v)") (simp_all only: if_True if_False mod_minus_eq mod_mod_trivial)
  finally have "fe_mod h = field_inv ?v" .
  moreover have "fe_invert x = Some h" by (simp only: fe_invert_def y(1) i(1) s(1) h(1) Option.bind.simps prod.case)
  ultimately show ?thesis using h(2) by blast
qed

text \<open>By Euler's criterion the quadratic character of a number that is not a multiple of the prime is 1 or -1.\<close>

lemma field_inv_mult:
  assumes "character z = 1 \<or> character z = p25519 - 1"
  shows "z * field_inv z mod p25519 = 1"
proof -
  have e: "z * z ^ (2 ^ 254 - 11) mod p25519 = character z"
  proof -
    have "z * z ^ (2 ^ 254 - 11) = z ^ Suc (2 ^ 254 - 11)" by (rule power_Suc [symmetric])
    also have "Suc (2 ^ 254 - 11) = 2 ^ 254 - 10" by simp
    finally show ?thesis by (simp only: character_def mod_power_eq halves)
  qed
  have n: "(- fe_val sqrtm1) mod p25519 \<noteq> 1" "p25519 - 1 \<noteq> 1"
    by (simp_all add: fe_val_def fe_sum_def sqrtm1_def p25519_def)
  show ?thesis
  proof (cases "character z = 1")
    case True
    then have "field_inv z = z ^ (2 ^ 254 - 11) mod p25519"
      using n by (simp add: field_inv_def Let_def mod_power_eq halves)
    then show ?thesis using e True by (simp only: mod_simps)
  next
    case False
    then have c: "character z = p25519 - 1" using assms by simp
    then have "field_inv z = (- (z ^ (2 ^ 254 - 11) mod p25519)) mod p25519"
      by (simp add: field_inv_def Let_def mod_power_eq halves)
    then have "z * field_inv z mod p25519 = (- (z * z ^ (2 ^ 254 - 11) mod p25519)) mod p25519"
      by (simp only: mod_simps mult_minus_right)
    then show ?thesis unfolding e c using p25519_gt by (simp add: p25519_def)
  qed
qed

lemma field_inv_zero: "field_inv 0 = 0"
  by (simp add: field_inv_def Let_def mod_power_eq halves)

section \<open>The ladder\<close>

text \<open>\<open>is_point x z P\<close>: the elements \<open>x\<close> and \<open>z\<close> are the coordinates of \<open>P\<close>.\<close>

definition is_point :: "fe \<Rightarrow> fe \<Rightarrow> xpoint \<Rightarrow> bool" where
  "is_point x z P \<longleftrightarrow> tight x \<and> tight z \<and> P = (fe_mod x, fe_mod z)"

lemma xadd_commute: "xadd u P Q = xadd u Q P"
proof -
  have "xadd u (a, b) (c, d) = xadd u (c, d) (a, b)" for a b c d
    by (simp add: power2_commute [of "a * d"] mult.commute)
  then show ?thesis by (cases P; cases Q) simp
qed

lemma fe_add_mod: "tight f \<Longrightarrow> tight g \<Longrightarrow> \<exists>h. fe_add f g = Some h \<and> loose h \<and> fe_mod h = (fe_mod f + fe_mod g) mod p25519"
  using fe_add_ok [of f g] by (auto simp: fe_mod_def mod_simps)

lemma fe_sub_mod: "tight f \<Longrightarrow> tight g \<Longrightarrow> \<exists>h. fe_sub f g = Some h \<and> loose h \<and> fe_mod h = (fe_mod f - fe_mod g) mod p25519"
  using fe_sub_ok [of f g] by (auto simp: fe_mod_def mod_simps)

lemma fe_mul_small_mod:
  "loose f \<Longrightarrow> \<bar>g\<bar> \<le> 2 ^ 31 \<Longrightarrow> \<exists>h. fe_mul_small f g = Some h \<and> tight h \<and> fe_mod h = fe_mod f * g mod p25519"
  using fe_mul_small_ok [of f g] by (auto simp: computes_mod) (auto simp: fe_mod_def mod_simps)

text \<open>The arithmetic of one step, and the formulas of the reference definition.\<close>

lemma xdbl_shared:
  fixes x z :: int
  defines "s \<equiv> (x + z) ^ 2" and "d \<equiv> (x - z) ^ 2"
  shows "s * d = (x ^ 2 - z ^ 2) ^ 2"
    and "(s - d) * (d + (s - d) * 121666) = 4 * x * z * (x ^ 2 + 486662 * x * z + z ^ 2)"
  unfolding s_def d_def by algebra+

lemma xadd_shared:
  fixes x2 z2 x3 z3 u :: int
  defines "a \<equiv> (x3 - z3) * (x2 + z2)" and "b \<equiv> (x3 + z3) * (x2 - z2)"
  shows "(a + b) ^ 2 = 4 * (x2 * x3 - z2 * z3) ^ 2" and "u * (a - b) ^ 2 = 4 * u * (x2 * z3 - x3 * z2) ^ 2"
  unfolding a_def b_def by algebra+

lemma cswap_points:
  assumes "is_point x2 z2 P" and "is_point x3 z3 Q" and "s = 0 \<or> s = 1"
  obtains X2 Z2 X3 Z3 where "fe_cswap x2 x3 s = (X2, X3)" and "fe_cswap z2 z3 s = (Z2, Z3)"
    and "is_point X2 Z2 (if s = 0 then P else Q)" and "is_point X3 Z3 (if s = 0 then Q else P)"
proof -
  have "length x2 = length x3" "length z2 = length z3" using assms(1,2) by (simp_all add: is_point_def tight_def)
  then show thesis using that fe_cswap_ok [of x2 x3 s] fe_cswap_ok [of z2 z3 s] assms by auto
qed

lemma ladder_step_ok:
  assumes x1: "tight x1" and P: "is_point x2 z2 P" and Q: "is_point x3 z3 Q" and b: "b = 0 \<or> b = 1" and s: "s = 0 \<or> s = 1"
  defines "S \<equiv> if s = b then P else Q" and "T \<equiv> if s = b then Q else P"
  shows "\<exists>x2' z2' x3' z3'. ladder_step x1 b (x2, z2, x3, z3, s) = Some (x2', z2', x3', z3', b) \<and>
    is_point x2' z2' (xdbl S) \<and> is_point x3' z3' (xadd (fe_mod x1) S T)"
proof -
  have x: "s XOR b = 0 \<or> s XOR b = 1" "s XOR b = 0 \<longleftrightarrow> s = b" using b s by auto
  obtain X2 Z2 X3 Z3 where sw: "fe_cswap x2 x3 (s XOR b) = (X2, X3)" "fe_cswap z2 z3 (s XOR b) = (Z2, Z3)"
    and p: "is_point X2 Z2 S" "is_point X3 Z3 T"
    by (rule cswap_points [OF P Q x(1)]) (simp only: x(2) S_def T_def)
  have t: "tight X2" "tight Z2" "tight X3" "tight Z3" using p by (simp_all add: is_point_def)
  let ?x2 = "fe_mod X2" and ?z2 = "fe_mod Z2" and ?x3 = "fe_mod X3" and ?z3 = "fe_mod Z3"
  obtain a1 where a1: "fe_sub X3 Z3 = Some a1" "loose a1"
    "fe_mod a1 = (?x3 - ?z3) mod p25519" using fe_sub_mod [OF t(3,4)] by blast
  obtain a2 where a2: "fe_sub X2 Z2 = Some a2" "loose a2"
    "fe_mod a2 = (?x2 - ?z2) mod p25519" using fe_sub_mod [OF t(1,2)] by blast
  obtain a3 where a3: "fe_add X2 Z2 = Some a3" "loose a3"
    "fe_mod a3 = (?x2 + ?z2) mod p25519" using fe_add_mod [OF t(1,2)] by blast
  obtain a4 where a4: "fe_add X3 Z3 = Some a4" "loose a4"
    "fe_mod a4 = (?x3 + ?z3) mod p25519" using fe_add_mod [OF t(3,4)] by blast
  let ?a = "(?x3 - ?z3) * (?x2 + ?z2)" and ?b = "(?x3 + ?z3) * (?x2 - ?z2)" and ?d = "(?x2 - ?z2) ^ 2" and ?s = "(?x2 + ?z2) ^ 2"
  obtain m1 where m1: "fe_mul a1 a3 = Some m1" "tight m1" "fe_mod m1 = ?a mod p25519"
    using fe_mul_mod [OF a1(2) a3(2)] a1(3) a3(3) by (auto simp: mod_simps)
  obtain m2 where m2: "fe_mul a4 a2 = Some m2" "tight m2" "fe_mod m2 = ?b mod p25519"
    using fe_mul_mod [OF a4(2) a2(2)] a4(3) a2(3) by (auto simp: mod_simps)
  obtain d where d: "fe_sq a2 = Some d" "tight d" "fe_mod d = ?d mod p25519"
    using fe_sq_mod [OF a2(2)] a2(3) by (auto simp: power_mod)
  obtain e where e: "fe_sq a3 = Some e" "tight e" "fe_mod e = ?s mod p25519"
    using fe_sq_mod [OF a3(2)] a3(3) by (auto simp: power_mod)
  obtain g1 where g1: "fe_add m1 m2 = Some g1" "loose g1" "fe_mod g1 = (?a + ?b) mod p25519"
    using fe_add_mod [OF m1(2) m2(2)] m1(3) m2(3) by (auto simp: mod_simps)
  obtain g2 where g2: "fe_sub m1 m2 = Some g2" "loose g2" "fe_mod g2 = (?a - ?b) mod p25519"
    using fe_sub_mod [OF m1(2) m2(2)] m1(3) m2(3) by (auto simp: mod_simps)
  obtain x2' where r1: "fe_mul e d = Some x2'" "tight x2'" "fe_mod x2' = ?s * ?d mod p25519"
    using fe_mul_mod [OF tight_loose [OF e(2)] tight_loose [OF d(2)]] e(3) d(3) by (auto simp: mod_simps)
  obtain f where f: "fe_sub e d = Some f" "loose f" "fe_mod f = (?s - ?d) mod p25519"
    using fe_sub_mod [OF e(2) d(2)] e(3) d(3) by (auto simp: mod_simps)
  obtain h where h: "fe_sq g2 = Some h" "tight h" "fe_mod h = (?a - ?b) ^ 2 mod p25519"
    using fe_sq_mod [OF g2(2)] g2(3) by (auto simp: power_mod)
  obtain k where k: "fe_mul_small f 121666 = Some k" "tight k" "fe_mod k = (?s - ?d) * 121666 mod p25519"
    using fe_mul_small_mod [OF f(2), of 121666] f(3) by (auto simp: mod_simps)
  obtain x3' where r3: "fe_sq g1 = Some x3'" "tight x3'" "fe_mod x3' = (?a + ?b) ^ 2 mod p25519"
    using fe_sq_mod [OF g1(2)] g1(3) by (auto simp: power_mod)
  obtain n where n: "fe_add d k = Some n" "loose n" "fe_mod n = (?d + (?s - ?d) * 121666) mod p25519"
    using fe_add_mod [OF d(2) k(2)] d(3) k(3) by (auto simp: mod_simps)
  obtain z3' where r4: "fe_mul x1 h = Some z3'" "tight z3'" "fe_mod z3' = fe_mod x1 * (?a - ?b) ^ 2 mod p25519"
    using fe_mul_mod [OF tight_loose [OF x1] tight_loose [OF h(2)]] h(3) by (auto simp: mod_simps)
  obtain z2' where r2: "fe_mul f n = Some z2'" "tight z2'" "fe_mod z2' = (?s - ?d) * (?d + (?s - ?d) * 121666) mod p25519"
    using fe_mul_mod [OF f(2) n(2)] f(3) n(3) by (auto simp: mod_simps)
  have "ladder_step x1 b (x2, z2, x3, z3, s) = Some (x2', z2', x3', z3', b)"
    by (simp only: ladder_step.simps Let_def sw prod.case Option.bind.simps
        a1(1) a2(1) a3(1) a4(1) m1(1) m2(1) d(1) e(1) g1(1) g2(1) r1(1) f(1) h(1) k(1) r3(1) n(1) r4(1) r2(1))
  moreover have "is_point x2' z2' (xdbl S)"
    using p(1) r1 r2 xdbl_shared [of ?x2 ?z2] by (simp add: is_point_def)
  moreover have "is_point x3' z3' (xadd (fe_mod x1) S T)"
    using p r3 r4 xadd_shared(1) [of ?x3 ?z3 ?x2 ?z2] xadd_shared(2) [of "fe_mod x1" ?x3 ?z3 ?x2 ?z2] by (simp add: is_point_def)
  ultimately show ?thesis by blast
qed

section \<open>Scalars\<close>

lemma bit_shifted_add: "a < 2 ^ k \<Longrightarrow> bit (a + 2 ^ k * b) n \<longleftrightarrow> (if n < k then bit a n else bit b (n - k))" for a b :: nat
proof -
  assume "a < 2 ^ k"
  then have a: "take_bit k a = a" by (simp add: take_bit_nat_eq_self)
  have "take_bit k a AND push_bit k b = 0" by (rule bit_eqI) (auto simp: bit_simps)
  then have "a + push_bit k b = a OR push_bit k b" unfolding a by (rule disjunctive_add_eq_or)
  then have "bit (a + 2 ^ k * b) n \<longleftrightarrow> bit (take_bit k a) n \<or> bit (push_bit k b) n"
    by (simp add: a bit_or_iff push_bit_eq_mult mult.commute)
  then show ?thesis by (auto simp: bit_simps a) (metis a bit_take_bit_iff)+
qed

lemma bit_le_num: "bit (le_num s) n \<longleftrightarrow> n < 8 * length s \<and> bit (s ! (n div 8)) (n mod 8)"
proof (induction s arbitrary: n)
  case (Cons b s)
  have "unat b < 2 ^ 8" using unsigned_less [of b, where 'a = nat] by simp
  then have "bit (le_num (b # s)) n \<longleftrightarrow> (if n < 8 then bit (unat b) n else bit (le_num s) (n - 8))"
    using bit_shifted_add [of "unat b" 8 "le_num s" n] by simp
  then show ?case
    by (cases "n < 8") (auto simp: Cons.IH bit_unsigned_iff nth_Cons' le_div_geq le_mod_geq not_less)
qed simp

lemma scalar_bit_num:
  assumes "n < 8 * length s"
  shows "scalar_bit s (int n) = (if odd (le_num s div 2 ^ n) then 1 else 0)"
proof -
  have m: "nat (int n AND 7) = n mod 8" "nat (drop_bit 3 (int n)) = n div 8"
  proof -
    have "int n AND 7 = take_bit 3 (int n)" by (simp add: take_bit_eq_mask mask_eq_exp_minus_1)
    also have "\<dots> = int (n mod 8)" by (simp add: take_bit_eq_mod zmod_int)
    finally show "nat (int n AND 7) = n mod 8" by simp
    have "drop_bit 3 (int n) = int (n div 8)" by (simp add: drop_bit_eq_div zdiv_int)
    then show "nat (drop_bit 3 (int n)) = n div 8" by simp
  qed
  have "uint (drop_bit k w AND 1) = (if bit w k then 1 else 0)" for w :: u8 and k
    by (simp add: and_one_eq bit_iff_odd_drop_bit odd_iff_mod_2_eq_one)
  then show ?thesis
    using bit_le_num [of s n] assms by (simp add: scalar_bit_def m bit_iff_odd)
qed

lemma trim_clamp:
  assumes "length s = 32"
  shows "length (crypto_eddsa_trim_scalar s) = 32" and "le_num (crypto_eddsa_trim_scalar s) = clamp (le_num s)"
proof -
  let ?t = "crypto_eddsa_trim_scalar s"
  show l: "length ?t = 32" using assms by (simp add: crypto_eddsa_trim_scalar_def Let_def)
  have t: "?t ! i = (if i = 0 then s ! 0 AND 248 else if i = 31 then s ! 31 AND 127 OR 64 else s ! i)" if "i < 32" for i
    using assms that by (simp add: crypto_eddsa_trim_scalar_def Let_def nth_list_update)
  show "le_num ?t = clamp (le_num s)"
  proof (rule bit_eqI)
    fix n
    have c: "bit (clamp k) n \<longleftrightarrow> n = 254 \<or> 3 \<le> n \<and> n < 254 \<and> bit k n" for k
    proof -
      have y: "8 * (k mod 2 ^ 254 div 8) = push_bit 3 (drop_bit 3 (take_bit 254 k))"
        by (simp add: push_bit_eq_mult drop_bit_eq_div take_bit_eq_mod mult.commute)
      have "8 * (k mod 2 ^ 254 div 8) \<le> k mod 2 ^ 254" by (rule times_div_less_eq_dividend)
      also have "\<dots> < 2 ^ 254" by simp
      finally have "bit (clamp k) n \<longleftrightarrow> (if n < 254 then bit (8 * (k mod 2 ^ 254 div 8)) n else bit (1 :: nat) (n - 254))"
        using bit_shifted_add [of "8 * (k mod 2 ^ 254 div 8)" 254 1 n] by (simp only: clamp_def add.commute mult_1_right)
      then show ?thesis unfolding y by (auto simp: bit_simps bit_1_iff)
    qed
    have m: "bit (248 :: u8) j \<longleftrightarrow> 3 \<le> j" "bit (127 :: u8) j \<longleftrightarrow> j < 7" "bit (64 :: u8) j \<longleftrightarrow> j = 6" if "j < 8" for j
    proof -
      have "j = 0 \<or> j = 1 \<or> j = 2 \<or> j = 3 \<or> j = 4 \<or> j = 5 \<or> j = 6 \<or> j = 7" using that by linarith
      then show "bit (248 :: u8) j \<longleftrightarrow> 3 \<le> j" "bit (127 :: u8) j \<longleftrightarrow> j < 7" "bit (64 :: u8) j \<longleftrightarrow> j = 6" by (elim disjE; simp)+
    qed
    have "n mod 8 < 8" by simp
    note m = m [OF this]
    have b: "bit (le_num ?t) n \<longleftrightarrow> n < 256 \<and> bit (?t ! (n div 8)) (n mod 8)"
      "bit (le_num s) n \<longleftrightarrow> n < 256 \<and> bit (s ! (n div 8)) (n mod 8)"
      using bit_le_num [of ?t n] bit_le_num [of s n] l assms by simp_all
    consider "n < 8" | "8 \<le> n \<and> n < 248" | "248 \<le> n \<and> n < 256" | "256 \<le> n" by linarith
    then show "bit (le_num ?t) n \<longleftrightarrow> bit (clamp (le_num s)) n"
    proof cases
      case 1
      then show ?thesis unfolding c b using t [of 0] m(1) by (auto simp: bit_and_iff)
    next
      case 2
      then have "n div 8 < 32 \<and> n div 8 \<noteq> 0 \<and> n div 8 \<noteq> 31" by presburger
      then show ?thesis unfolding c b using t [of "n div 8"] 2 by simp
    next
      case 3
      then have "n div 8 = 31 \<and> n = 248 + n mod 8" by presburger
      then have d: "n div 8 = 31" and e: "n = 254 \<longleftrightarrow> n mod 8 = 6" "n < 254 \<longleftrightarrow> n mod 8 < 6" by linarith+
      have "n mod 8 < 7 \<and> n mod 8 \<noteq> 6 \<longleftrightarrow> n mod 8 < 6" by linarith
      then show ?thesis unfolding c b d e using t [of 31] m(2,3) 3 by (auto simp: bit_and_iff bit_or_iff)
    qed (simp add: c b)
  qed
qed

section \<open>Scalar multiplication\<close>

text \<open>Between two steps: the multiples for the bits read so far, in the order the flag says.\<close>

fun ladder_inv :: "int \<Rightarrow> nat \<Rightarrow> ladder_state \<Rightarrow> bool" where
  "ladder_inv u k (x2, z2, x3, z3, swap) \<longleftrightarrow> (swap = 0 \<or> swap = 1) \<and>
     is_point x2 z2 (if swap = 0 then fst (x_multiples u k) else snd (x_multiples u k)) \<and>
     is_point x3 z3 (if swap = 0 then snd (x_multiples u k) else fst (x_multiples u k))"

lemma ladder_inv_step:
  assumes "ladder_inv (fe_mod x1) (k div 2) st" and "tight x1" and "k \<noteq> 0"
  shows "\<exists>st'. ladder_step x1 (if odd k then 1 else 0) st = Some st' \<and> ladder_inv (fe_mod x1) k st'"
proof -
  obtain x2 z2 x3 z3 sw where st: "st = (x2, z2, x3, z3, sw)" by (cases st)
  obtain P Q where m: "x_multiples (fe_mod x1) (k div 2) = (P, Q)" by (cases "x_multiples (fe_mod x1) (k div 2)")
  have k: "x_multiples (fe_mod x1) k = (if odd k then (xadd (fe_mod x1) P Q, xdbl Q) else (xdbl P, xadd (fe_mod x1) P Q))"
    using assms(3) m by (simp add: x_multiples.simps [of _ k])
  have i: "sw = 0 \<or> sw = 1" "is_point x2 z2 (if sw = 0 then P else Q)" "is_point x3 z3 (if sw = 0 then Q else P)"
    using assms(1) unfolding st ladder_inv.simps m fst_conv snd_conv by blast+
  obtain x2' z2' x3' z3' where n: "ladder_step x1 (if odd k then 1 else 0) st = Some (x2', z2', x3', z3', if odd k then 1 else 0)"
      "is_point x2' z2' (xdbl (if odd k then Q else P))"
      "is_point x3' z3' (xadd (fe_mod x1) (if odd k then Q else P) (if odd k then P else Q))"
    using ladder_step_ok [OF assms(2) i(2,3) _ i(1), of "if odd k then 1 else 0"] i(1)
    by (cases "odd k"; cases "sw = 0") (auto simp: st)
  then show ?thesis using xadd_commute [of "fe_mod x1" P Q] by (auto simp: k)
qed

lemma ladder_ok:
  assumes "tight x1" and "length s = 32"
  shows "n \<le> 256 \<Longrightarrow> \<forall>j<n. le_num s div 2 ^ j \<noteq> 0 \<Longrightarrow> ladder_inv (fe_mod x1) (le_num s div 2 ^ n) st \<Longrightarrow>
    \<exists>st'. ladder s x1 n st = Some st' \<and> ladder_inv (fe_mod x1) (le_num s) st'"
proof (induction n arbitrary: st)
  case (Suc n)
  have "le_num s div 2 ^ Suc n = le_num s div 2 ^ n div 2" by (simp only: power_Suc2 div_mult2_eq)
  moreover have "le_num s div 2 ^ n \<noteq> 0" using Suc.prems(2) by simp
  ultimately obtain st' where "ladder_step x1 (scalar_bit s (int n)) st = Some st'"
  "ladder_inv (fe_mod x1) (le_num s div 2 ^ n) st'"
    using ladder_inv_step [of x1 "le_num s div 2 ^ n" st] Suc.prems(1,3) assms by (auto simp: scalar_bit_num)
  then show ?case using Suc by (simp add: Let_def)
qed simp

lemma x_multiples_mod: "x_multiples (u mod p25519) k = x_multiples u k"
proof (induction u k rule: x_multiples.induct)
  case (1 u k)
  have a: "xadd (u mod p25519) P Q = xadd u P Q" for P Q
  proof (cases P; cases Q)
    fix a b c d assume "P = (a, b)" and "Q = (c, d)"
    moreover have "4 * (u mod p25519) * v mod p25519 = 4 * u * v mod p25519" for v
      by (metis mod_mult_left_eq mod_mult_right_eq)
    ultimately show ?thesis by simp
  qed
  show ?case
    unfolding x_multiples.simps [of _ k] using 1 by (auto simp: a simp del: xadd.simps xdbl.simps split: prod.split)
qed

lemma scalarmult_ok:
  assumes "length s = 32" and "length p = 32" and "0 < n" and "n \<le> 256" and "2 ^ (n - 1) \<le> le_num s" and "le_num s < 2 ^ n"
  obtains q where "scalarmult s p n = Some q" and "length q = 32"
    and "int (le_num q) =
      (let ((X, Z), _) = x_multiples (int (le_num p mod 2 ^ 255)) (le_num s) in X * field_inv Z mod p25519)"
proof -
  let ?u = "int (le_num p mod 2 ^ 255)"
  obtain x1 where x1: "fe_frombytes p = Some x1" "tight x1" "fe_mod x1 = ?u mod p25519"
    using fe_frombytes_mask_ok [OF assms(2), of 1] by (auto simp: fe_frombytes_def computes_mod)
  have c: "fe_copy x1 = x1" using x1(2) by (simp add: fe_copy_def tight_def list_eq_iff_nth_eq)
  have z: "le_num s div 2 ^ n = 0" using assms(6) by simp
  have init: "ladder_inv (fe_mod x1) (le_num s div 2 ^ n) (fe_1, fe_0, fe_copy x1, fe_1, 0)"
    unfolding z c by (simp add: x_multiples.simps is_point_def constants_tight constants_mod x1)
  have nz: "\<forall>j<n. le_num s div 2 ^ j \<noteq> 0"
  proof (intro allI impI)
    fix j assume "j < n"
    then have "(2 :: nat) ^ j \<le> 2 ^ (n - 1)" by (intro power_increasing) simp_all
    then have "2 ^ j \<le> le_num s" using assms(5) by (rule order_trans)
    then show "le_num s div 2 ^ j \<noteq> 0" by (simp add: div_eq_0_iff not_less)
  qed
  obtain st where st: "ladder s x1 n (fe_1, fe_0, fe_copy x1, fe_1, 0) = Some st" "ladder_inv (fe_mod x1) (le_num s) st"
    using ladder_ok [OF x1(2) assms(1,4) nz init] by blast
  obtain x2 z2 x3 z3 sw where e: "st = (x2, z2, x3, z3, sw)" by (cases st)
  let ?M = "x_multiples (fe_mod x1) (le_num s)"
  obtain X2 Z2 X3 Z3 where sw: "fe_cswap x2 x3 sw = (X2, X3)" "fe_cswap z2 z3 sw = (Z2, Z3)" and P: "is_point X2 Z2 (fst ?M)"
  proof -
    have i: "is_point x2 z2 (if sw = 0 then fst ?M else snd ?M)" "is_point x3 z3 (if sw = 0 then snd ?M else fst ?M)"
      "sw = 0 \<or> sw = 1"
      using st(2) by (simp_all add: e)
    show thesis by (rule cswap_points [OF i]) (use that in \<open>auto split: if_splits\<close>)
  qed
  have t: "tight X2" "tight Z2" and f: "fst ?M = (fe_mod X2, fe_mod Z2)" using P by (simp_all add: is_point_def)
  obtain i where i: "fe_invert Z2 = Some i" "tight i"
    "fe_mod i = field_inv (fe_mod Z2)" using fe_invert_ok [OF tight_loose [OF t(2)]] by blast
  obtain x where x: "fe_mul X2 i = Some x" "tight x" "fe_mod x = fe_mod X2 * field_inv (fe_mod Z2) mod p25519"
    using fe_mul_mod [OF tight_loose [OF t(1)] tight_loose [OF i(2)]] i(3) by auto
  obtain q where q: "fe_tobytes x = Some q" "length q = 32" "int (le_num q) = fe_mod x"
    using fe_tobytes_ok [OF x(2)] by (auto simp: fe_mod_def)
  have "scalarmult s p n = Some q"
    by (simp only: scalarmult_def x1(1) st(1) e sw i(1) x(1) q(1) Option.bind.simps prod.case Let_def)
  moreover have "x_multiples ?u (le_num s) = ?M" unfolding x1(3) x_multiples_mod by (rule refl)
  ultimately show thesis using that q x f by (simp add: split_beta)
qed

lemma clamp_bounds: "2 ^ 254 \<le> clamp k" "clamp k < 2 ^ 255"
proof -
  have "8 * (k mod 2 ^ 254 div 8) \<le> k mod 2 ^ 254" by (rule times_div_less_eq_dividend)
  also have "\<dots> < 2 ^ 254" by simp
  finally show "2 ^ 254 \<le> clamp k" "clamp k < 2 ^ 255" by (simp_all add: clamp_def)
qed

lemma x25519_total:
  assumes "length sk = 32" and "length pk = 32"
  shows "\<exists>q. crypto_x25519 sk pk = Some q \<and> length q = 32 \<and> int (le_num q) = x25519_ref (le_num sk) (le_num pk)"
proof -
  note t = trim_clamp [OF assms(1)]
  obtain q where "scalarmult (crypto_eddsa_trim_scalar sk) pk 255 = Some q" "length q = 32"
      "int (le_num q) = (let ((X, Z), _) = x_multiples (int (le_num pk mod 2 ^ 255)) (clamp (le_num sk)) in X * field_inv Z mod p25519)"
    using scalarmult_ok [OF t(1) assms(2), of 255] clamp_bounds unfolding t(2) by auto
  then show ?thesis by (simp only: crypto_x25519_def x25519_ref_def Let_def) blast
qed

text \<open>C15. The key exchange is the textbook scalar multiplication. For every 32-byte secret key and every 32-byte public
  key, on the curve or not, crypto_x25519 returns without any overflow or other undefined behaviour; its 32 bytes are,
  little-endian, the number below 2^255 - 19 that the reference definition gives: the x coordinate X / Z of k times the
  point with x coordinate u, computed by doubling and differential addition on the bits of k, where k is the secret key
  with its three lowest bits cleared, bit 254 set and bit 255 dropped, and u is the public key with its highest bit
  ignored. The public key of a secret key is the same for the base point 9. So the conditional swaps, the sharing of
  products between the two formulas, the addition chain of the inversion and the carries of the ten limbs change
  nothing for any input.\<close>

theorem x25519_correct:
  assumes "length sk = 32" and "length pk = 32"
  shows "(\<exists>q. crypto_x25519 sk pk = Some q \<and> length q = 32 \<and> int (le_num q) = x25519_ref (le_num sk) (le_num pk)) \<and>
    (\<exists>q. crypto_x25519_public_key sk = Some q \<and> length q = 32 \<and> int (le_num q) = x25519_ref (le_num sk) 9)"
proof
  show "\<exists>q. crypto_x25519 sk pk = Some q \<and> length q = 32 \<and> int (le_num q) = x25519_ref (le_num sk) (le_num pk)"
    using assms by (rule x25519_total)
  have "length base_point = 32" "le_num base_point = 9" by (simp_all add: base_point_def)
  then show "\<exists>q. crypto_x25519_public_key sk = Some q \<and> length q = 32 \<and> int (le_num q) = x25519_ref (le_num sk) 9"
    using x25519_total [OF assms(1), of base_point] by (simp add: crypto_x25519_public_key_def)
qed

text \<open>The all-zero public key, whose multiples all have the projective coordinate 0.\<close>

theorem x25519_correct_witness:
  "(\<exists>q. crypto_x25519 (replicate 32 7) (replicate 32 0) = Some q \<and> length q = 32 \<and>
      int (le_num q) = x25519_ref (le_num (replicate 32 7)) 0) \<and>
   (\<exists>q. crypto_x25519_public_key (replicate 32 7) = Some q \<and> length q = 32 \<and>
      int (le_num q) = x25519_ref (le_num (replicate 32 7)) 9)"
  using x25519_correct [of "replicate 32 7" "replicate 32 0"] by simp

end
