(* ===== verification/SlotPool.thy ===== *)
theory SlotPool
  imports Prelude
begin

text \<open>
  The daemon allocates nothing at run time: parsers, task entries and client connections live in
  static arrays whose slots are taken first-free-first and given back by index. This is the
  interface those arrays share: \<open>acquire\<close> takes the first free slot or reports that there is
  none, \<open>release\<close> frees one. Everything below the assumptions is proved once and used through
  the interpretations of the parser pool, the task pool and the connection slots.
\<close>

lemma length_filter_update_gain:
  "i < length s \<Longrightarrow> \<not> P (s ! i) \<Longrightarrow> P e \<Longrightarrow>
   length (filter P (s[i := e])) = Suc (length (filter P s))"
  by (induction s arbitrary: i) (auto split: nat.splits)

lemma length_filter_update_same:
  "i < length s \<Longrightarrow> P (s ! i) = P e \<Longrightarrow>
   length (filter P (s[i := e])) = length (filter P s)"
  by (induction s arbitrary: i) (auto split: nat.splits)

locale slot_pool =
  fixes free :: "'e \<Rightarrow> bool"
    and acquire :: "'a \<Rightarrow> 'e list \<Rightarrow> nat option \<times> 'e list"
    and release :: "nat \<Rightarrow> 'e list \<Rightarrow> 'e list"
  assumes acquire_full: "\<forall>e \<in> set s. \<not> free e \<Longrightarrow> acquire a s = (None, s)"
    and acquire_first: "find_first free s = Some i \<Longrightarrow> \<exists>e. \<not> free e \<and> acquire a s = (Some i, s[i := e])"
    and release_slot: "\<exists>e. free e \<and> release i s = s[i := e]"
begin

definition used :: "'e list \<Rightarrow> nat" where
  "used s = length (filter (\<lambda>e. \<not> free e) s)"

lemma used_le: "used s \<le> length s"
  by (simp add: used_def)

lemma full_iff: "(\<forall>e \<in> set s. \<not> free e) \<longleftrightarrow> used s = length s"
  by (metis (mono_tags, lifting) filter_True length_filter_less less_irrefl used_def)

lemma acquire_cases:
  obtains (full) "used s = length s" "acquire a s = (None, s)"
  | (slot) i e where "i < length s" "free (s ! i)" "\<not> free e" "acquire a s = (Some i, s[i := e])"
      "\<forall>j < i. \<not> free (s ! j)"
proof (cases "find_first free s")
  case None
  then have "\<forall>e \<in> set s. \<not> free e" by (simp add: find_first_None)
  with acquire_full full show thesis by (simp add: full_iff)
next
  case (Some i)
  with acquire_first obtain e where "\<not> free e" "acquire a s = (Some i, s[i := e])" by blast
  with slot Some show thesis by (simp add: find_first_Some)
qed

lemma acquire_none_iff: "fst (acquire a s) = None \<longleftrightarrow> used s = length s"
proof (cases rule: acquire_cases [of s a])
  case full
  then show ?thesis by simp
next
  case (slot i e)
  then have "\<not> (\<forall>x \<in> set s. \<not> free x)" by (meson nth_mem)
  with slot show ?thesis by (simp add: full_iff)
qed

lemma acquire_some:
  assumes "acquire a s = (Some i, s')"
  shows "i < length s" and "free (s ! i)" and "\<not> free (s' ! i)" and "length s' = length s"
    and "j \<noteq> i \<Longrightarrow> s' ! j = s ! j" and "used s' = Suc (used s)"
  using assms
  by (cases rule: acquire_cases [of s a]; simp add: used_def length_filter_update_gain)+

lemma acquire_length: "length (snd (acquire a s)) = length s"
  by (cases rule: acquire_cases [of s a]) auto

lemma release_length: "length (release i s) = length s"
  using release_slot [of i s] by auto

lemma release_other: "j \<noteq> i \<Longrightarrow> release i s ! j = s ! j"
  using release_slot [of i s] by auto

lemma release_frees: "i < length s \<Longrightarrow> free (release i s ! i)"
  using release_slot [of i s] by auto

lemma release_used:
  assumes "i < length s" and "\<not> free (s ! i)"
  shows "Suc (used (release i s)) = used s"
proof -
  obtain e where e: "free e" "release i s = s[i := e]" using release_slot by blast
  then have "used ((release i s)[i := s ! i]) = Suc (used (release i s))"
    using assms unfolding used_def by (subst length_filter_update_gain) auto
  then show ?thesis using e by simp
qed

lemma acquire_after_release:
  assumes "i < length s"
  shows "\<exists>j s'. acquire a (release i s) = (Some j, s')"
proof -
  have "free (release i s ! i)" and "i < length (release i s)"
    using release_frees assms release_length by simp_all
  then have "\<not> (\<forall>e \<in> set (release i s). \<not> free e)" by (meson nth_mem)
  then have "fst (acquire a (release i s)) \<noteq> None" by (simp add: acquire_none_iff full_iff)
  then show ?thesis by (cases "acquire a (release i s)") auto
qed

end

end
