(* ===== verification/ApduParser.thy ===== *)
theory ApduParser
  imports Endian SlotPool
begin

unbundle bit_operations_syntax

text \<open>
  The APDU frame parser (src/src/asyd/core/apdu_parser.c and apdu_parser.h): the static pool of
  eight parser slots, the zero-copy receive helpers, the frame parser and the consume and reset
  operations. A pointer into the receive buffer is an offset, a null pointer is \<open>None\<close>, and
  a read outside the buffer is undefined behaviour (outer \<open>None\<close>).

  The second half states what the parser is for: an abstract grammar of frames on byte lists and
  the refinement of the code to it.
\<close>

section \<open>Constants of apdu_parser.h\<close>

definition APDU_STD_HDR_SIZE :: nat where [code_defs]: "APDU_STD_HDR_SIZE = 5"
definition APDU_EXT_HDR_SIZE :: nat where [code_defs]: "APDU_EXT_HDR_SIZE = 7"
definition APDU_STD_LE_SIZE :: nat where [code_defs]: "APDU_STD_LE_SIZE = 1"
definition APDU_EXT_LE_SIZE :: nat where [code_defs]: "APDU_EXT_LE_SIZE = 2"
definition APDU_AUTH_TAG_SIZE :: nat where [code_defs]: "APDU_AUTH_TAG_SIZE = 16"
definition APDU_MAX_DATA_LEN :: nat where [code_defs]: "APDU_MAX_DATA_LEN = 65535"

definition APDU_MAX_FRAME_SIZE :: nat where
  "APDU_MAX_FRAME_SIZE = APDU_EXT_HDR_SIZE + APDU_MAX_DATA_LEN + APDU_EXT_LE_SIZE + APDU_AUTH_TAG_SIZE"

definition APDU_CLA_VER_MASK :: u8 where [mask_defs]: "APDU_CLA_VER_MASK = 0xE0"
definition APDU_CLA_M_BIT :: u8 where [mask_defs]: "APDU_CLA_M_BIT = 0x10"
definition APDU_CLA_SEC_MASK :: u8 where [mask_defs]: "APDU_CLA_SEC_MASK = 0x0C"
definition APDU_CLA_EXT_BIT :: u8 where [mask_defs]: "APDU_CLA_EXT_BIT = 0x02"
definition APDU_CLA_RFU_BIT :: u8 where [mask_defs]: "APDU_CLA_RFU_BIT = 0x01"
definition APDU_CLA_SEC_SHIFT :: nat where [mask_defs]: "APDU_CLA_SEC_SHIFT = 2"

definition APDU_SEC_PLAIN :: u8 where [mask_defs]: "APDU_SEC_PLAIN = 0x00"
definition APDU_SEC_SIGNED :: u8 where [mask_defs]: "APDU_SEC_SIGNED = 0x01"
definition APDU_SEC_ENC_SIGN :: u8 where [mask_defs]: "APDU_SEC_ENC_SIGN = 0x02"

definition APDU_FRAME_READY :: int where [code_defs]: "APDU_FRAME_READY = 2"
definition APDU_NEED_MORE :: int where [code_defs]: "APDU_NEED_MORE = 1"
definition APDU_OK :: int where [code_defs]: "APDU_OK = 0"
definition APDU_ERR_VERSION :: int where [code_defs]: "APDU_ERR_VERSION = -1"
definition APDU_ERR_RFU :: int where [code_defs]: "APDU_ERR_RFU = -2"
definition APDU_ERR_EXT_LC :: int where [code_defs]: "APDU_ERR_EXT_LC = -3"
definition APDU_ERR_LENGTH :: int where [code_defs]: "APDU_ERR_LENGTH = -4"

definition APDU_POOL_SIZE :: nat where [code_defs]: "APDU_POOL_SIZE = 8"
definition MIN_BYTES_FOR_CLA :: nat where [code_defs]: "MIN_BYTES_FOR_CLA = 1"

lemma APDU_MAX_FRAME_SIZE_eq [code_defs]: "APDU_MAX_FRAME_SIZE = 65560"
  by (simp add: APDU_MAX_FRAME_SIZE_def code_defs)

section \<open>Frames and parsers\<close>

record apdu_frame =
  fr_cla :: u8
  fr_ins :: u8
  fr_p1 :: u8
  fr_p2 :: u8
  fr_ver :: u8
  fr_m_bit :: int
  fr_sec :: u8
  fr_ext :: int
  fr_data_len :: u16
  fr_data :: "nat option"
  fr_le :: u16
  fr_auth_tag :: "nat option"
  fr_total_size :: nat

record apdu_parser =
  pr_buf :: bytes
  pr_filled :: nat
  pr_in_use :: int

definition zero_frame :: apdu_frame where
  "zero_frame = \<lparr>fr_cla = 0, fr_ins = 0, fr_p1 = 0, fr_p2 = 0, fr_ver = 0, fr_m_bit = 0, fr_sec = 0,
     fr_ext = 0, fr_data_len = 0, fr_data = None, fr_le = 0, fr_auth_tag = None, fr_total_size = 0\<rparr>"

definition zero_parser :: apdu_parser where
  "zero_parser = \<lparr>pr_buf = replicate APDU_MAX_FRAME_SIZE 0, pr_filled = 0, pr_in_use = 0\<rparr>"

definition wf_parser :: "apdu_parser \<Rightarrow> bool" where
  "wf_parser p \<longleftrightarrow> length (pr_buf p) = APDU_MAX_FRAME_SIZE \<and> pr_filled p \<le> APDU_MAX_FRAME_SIZE"

section \<open>The static pool\<close>

definition apdu_pool_acquire :: "apdu_parser list \<Rightarrow> nat option \<times> apdu_parser list" where
  "apdu_pool_acquire g_pool =
     (case find_first (\<lambda>p. pr_in_use p = 0) g_pool of
        None \<Rightarrow> (None, g_pool)
      | Some i \<Rightarrow> (Some i, g_pool[i := zero_parser\<lparr>pr_in_use := 1\<rparr>]))"

definition apdu_pool_release :: "nat option \<Rightarrow> apdu_parser list \<Rightarrow> apdu_parser list" where
  "apdu_pool_release p g_pool = (case p of None \<Rightarrow> g_pool | Some i \<Rightarrow> g_pool[i := zero_parser])"

section \<open>Receive helpers\<close>

definition apdu_parser_recv_ptr :: "apdu_parser \<Rightarrow> nat \<times> nat" where
  "apdu_parser_recv_ptr p = (pr_filled p, size_sub APDU_MAX_FRAME_SIZE (pr_filled p))"

definition apdu_parser_recv_commit :: "apdu_parser \<Rightarrow> nat \<Rightarrow> apdu_parser" where
  "apdu_parser_recv_commit p n = p\<lparr>pr_filled := (pr_filled p + n) mod 2 ^ 64\<rparr>"

section \<open>Frame parsing\<close>

definition cla_is_ext :: "u8 \<Rightarrow> bool" where
  "cla_is_ext cla \<longleftrightarrow> cla AND APDU_CLA_EXT_BIT \<noteq> 0"

definition cla_sec :: "u8 \<Rightarrow> u8" where
  "cla_sec cla = drop_bit APDU_CLA_SEC_SHIFT (cla AND APDU_CLA_SEC_MASK)"

definition apdu_parser_try_parse ::
    "apdu_parser option \<Rightarrow> apdu_frame option \<Rightarrow> (int \<times> apdu_frame option) option" where
  "apdu_parser_try_parse pp out =
    (case (pp, out) of
       (Some p, Some _) \<Rightarrow>
         if pr_filled p < MIN_BYTES_FOR_CLA then Some (APDU_NEED_MORE, out) else
         do {
           cla \<leftarrow> rd (pr_buf p) 0;
           if cla AND APDU_CLA_VER_MASK \<noteq> 0x00 then Some (APDU_ERR_VERSION, out)
           else if cla AND APDU_CLA_RFU_BIT \<noteq> 0 then Some (APDU_ERR_RFU, out)
           else
             let ext = (if cla_is_ext cla then 1 else 0 :: int);
                 hdr_size = (if ext \<noteq> 0 then APDU_EXT_HDR_SIZE else APDU_STD_HDR_SIZE)
             in if pr_filled p < hdr_size then Some (APDU_NEED_MORE, out) else
             do {
               ins \<leftarrow> rd (pr_buf p) 1;
               p1 \<leftarrow> rd (pr_buf p) 2;
               p2 \<leftarrow> rd (pr_buf p) 3;
               b4 \<leftarrow> rd (pr_buf p) 4;
               if ext \<noteq> 0 \<and> b4 \<noteq> 0x00 then Some (APDU_ERR_EXT_LC, out) else
               do {
                 data_len \<leftarrow>
                   (if ext = 0 then Some (ucast b4 :: u16)
                    else do { h \<leftarrow> rd (pr_buf p) 5; l \<leftarrow> rd (pr_buf p) 6; Some (be16 h l) });
                 let sec = cla_sec cla;
                 let le_size = (if ext \<noteq> 0 then APDU_EXT_LE_SIZE else APDU_STD_LE_SIZE);
                 let tag_size = (if sec \<noteq> APDU_SEC_PLAIN then APDU_AUTH_TAG_SIZE else 0);
                 let total = hdr_size + unat data_len + le_size + tag_size;
                 if total > APDU_MAX_FRAME_SIZE then Some (APDU_ERR_LENGTH, out)
                 else if pr_filled p < total then Some (APDU_NEED_MORE, out)
                 else
                 do {
                   let le_offset = hdr_size + unat data_len;
                   le \<leftarrow>
                     (if ext = 0 then map_option ucast (rd (pr_buf p) le_offset)
                      else do { h \<leftarrow> rd (pr_buf p) le_offset; l \<leftarrow> rd (pr_buf p) (le_offset + 1);
                                Some (be16 h l) });
                   Some (APDU_FRAME_READY,
                     Some \<lparr>fr_cla = cla, fr_ins = ins, fr_p1 = p1, fr_p2 = p2, fr_ver = 0,
                       fr_m_bit = (if cla AND APDU_CLA_M_BIT \<noteq> 0 then 1 else 0),
                       fr_sec = sec, fr_ext = ext, fr_data_len = data_len,
                       fr_data = (if data_len > 0 then Some hdr_size else None),
                       fr_le = le,
                       fr_auth_tag = (if tag_size > 0 then Some (le_offset + le_size) else None),
                       fr_total_size = total\<rparr>)
                 }
               }
             }
         }
     | _ \<Rightarrow> Some (APDU_ERR_LENGTH, out))"

section \<open>Consume and reset\<close>

definition apdu_parser_consume :: "apdu_parser option \<Rightarrow> apdu_frame option \<Rightarrow> apdu_parser option option" where
  "apdu_parser_consume pp frame =
    (case (pp, frame) of
       (Some p, Some f) \<Rightarrow>
         if fr_total_size f \<ge> pr_filled p then Some (Some (p\<lparr>pr_filled := 0\<rparr>))
         else
           let remaining = pr_filled p - fr_total_size f
           in do {
             moved \<leftarrow> rd_range (pr_buf p) (fr_total_size f) remaining;
             buf \<leftarrow> wr_range (pr_buf p) 0 moved;
             Some (Some (p\<lparr>pr_buf := buf, pr_filled := remaining\<rparr>))
           }
     | _ \<Rightarrow> Some pp)"

definition apdu_parser_reset :: "apdu_parser option \<Rightarrow> apdu_parser option" where
  "apdu_parser_reset pp =
     map_option (\<lambda>p. p\<lparr>pr_filled := 0, pr_buf := replicate (length (pr_buf p)) 0\<rparr>) pp"

section \<open>The grammar of frames\<close>

text \<open>
  What a frame is (docs/en/asys-spec.md sections 3.1 and 3.2), as a recogniser of byte lists. It
  looks at the received bytes only; the refinement below says that the code computes exactly this.
\<close>

record apdu_msg =
  ms_cla :: u8
  ms_ins :: u8
  ms_p1 :: u8
  ms_p2 :: u8
  ms_data :: bytes
  ms_le :: u16
  ms_tag :: bytes

datatype apdu_result = Need_more | Bad int | Frame apdu_msg bytes

definition cla_le_len :: "u8 \<Rightarrow> nat" where
  "cla_le_len cla = (if cla_is_ext cla then APDU_EXT_LE_SIZE else APDU_STD_LE_SIZE)"

definition cla_tag_len :: "u8 \<Rightarrow> nat" where
  "cla_tag_len cla = (if cla_sec cla \<noteq> APDU_SEC_PLAIN then APDU_AUTH_TAG_SIZE else 0)"

definition frame_body :: "u8 \<Rightarrow> u8 \<Rightarrow> u8 \<Rightarrow> u8 \<Rightarrow> nat \<Rightarrow> bytes \<Rightarrow> apdu_result" where
  "frame_body cla ins p1 p2 n body =
    (let ls = cla_le_len cla; ts = cla_tag_len cla in
     if length body < n + ls + ts then Need_more
     else Frame \<lparr>ms_cla = cla, ms_ins = ins, ms_p1 = p1, ms_p2 = p2, ms_data = take n body,
            ms_le = (if cla_is_ext cla then get_u16 (drop n body) else ucast (body ! n)),
            ms_tag = take ts (drop (n + ls) body)\<rparr>
          (drop (n + ls + ts) body))"

fun apdu_spec :: "bytes \<Rightarrow> apdu_result" where
  "apdu_spec [] = Need_more"
| "apdu_spec (cla # bs) =
    (if cla AND APDU_CLA_VER_MASK \<noteq> 0 then Bad APDU_ERR_VERSION
     else if cla AND APDU_CLA_RFU_BIT \<noteq> 0 then Bad APDU_ERR_RFU
     else if cla_is_ext cla then
       (case bs of
          ins # p1 # p2 # z # h # l # body \<Rightarrow>
            if z \<noteq> 0 then Bad APDU_ERR_EXT_LC else frame_body cla ins p1 p2 (unat (be16 h l)) body
        | _ \<Rightarrow> Need_more)
     else
       (case bs of
          ins # p1 # p2 # lc # body \<Rightarrow> frame_body cla ins p1 p2 (unat lc) body
        | _ \<Rightarrow> Need_more))"

text \<open>The message a parsed frame denotes: its pointers followed into the receive buffer.\<close>

definition deref :: "bytes \<Rightarrow> nat option \<Rightarrow> nat \<Rightarrow> bytes" where
  "deref buf ptr n = (case ptr of None \<Rightarrow> [] | Some off \<Rightarrow> take n (drop off buf))"

definition frame_msg :: "bytes \<Rightarrow> apdu_frame \<Rightarrow> apdu_msg" where
  "frame_msg buf f =
    \<lparr>ms_cla = fr_cla f, ms_ins = fr_ins f, ms_p1 = fr_p1 f, ms_p2 = fr_p2 f,
     ms_data = deref buf (fr_data f) (unat (fr_data_len f)), ms_le = fr_le f,
     ms_tag = deref buf (fr_auth_tag f) APDU_AUTH_TAG_SIZE\<rparr>"

definition abs_result :: "apdu_parser \<Rightarrow> int \<Rightarrow> apdu_frame \<Rightarrow> apdu_result" where
  "abs_result p rc f =
    (if rc = APDU_FRAME_READY
     then Frame (frame_msg (pr_buf p) f) (drop (fr_total_size f) (take (pr_filled p) (pr_buf p)))
     else if rc = APDU_NEED_MORE then Need_more else Bad rc)"

text \<open>
  The fields of a reported frame that carry addresses: where the data and the auth tag point, and
  that all of the frame lies inside the received bytes.
\<close>

definition hdr_len :: "u8 \<Rightarrow> nat" where
  "hdr_len cla = (if cla_is_ext cla then APDU_EXT_HDR_SIZE else APDU_STD_HDR_SIZE)"

definition frame_ok :: "apdu_parser \<Rightarrow> apdu_frame \<Rightarrow> bool" where
  "frame_ok p f \<longleftrightarrow>
    fr_sec f = cla_sec (fr_cla f) \<and>
    fr_data f = (if fr_data_len f > 0 then Some (hdr_len (fr_cla f)) else None) \<and>
    fr_auth_tag f = (if cla_sec (fr_cla f) \<noteq> APDU_SEC_PLAIN
      then Some (hdr_len (fr_cla f) + unat (fr_data_len f) + cla_le_len (fr_cla f)) else None) \<and>
    fr_total_size f = hdr_len (fr_cla f) + unat (fr_data_len f) + cla_le_len (fr_cla f) +
      cla_tag_len (fr_cla f) \<and>
    fr_total_size f \<le> pr_filled p \<and> fr_total_size f \<le> APDU_MAX_FRAME_SIZE"

definition received :: "apdu_parser \<Rightarrow> bytes" where
  "received p = take (pr_filled p) (pr_buf p)"

section \<open>The code computes the grammar\<close>

lemma unat_ucast_u8_u16: "unat (ucast (x :: u8) :: u16) = unat x"
  using unsigned_less [of x, where 'a = nat] by (simp add: unsigned_ucast_eq take_bit_nat_eq_self)

lemma unat_u8_bound: "unat (x :: u8) \<le> 255"
  using unsigned_less [of x, where 'a = nat] by simp

lemma unat_u16_bound: "unat (x :: u16) \<le> 65535"
  using unsigned_less [of x, where 'a = nat] by simp

lemma length_ge4E:
  assumes "\<not> length bs < 4"
  obtains a b c d body where "bs = a # b # c # d # body"
  using assms by (cases bs; cases "tl bs"; cases "tl (tl bs)"; cases "tl (tl (tl bs))") auto

lemma length_ge6E:
  assumes "\<not> length bs < 6"
  obtains a b c d e f body where "bs = a # b # c # d # e # f # body"
proof -
  from assms obtain a b c d bs' where 1: "bs = a # b # c # d # bs'"
    by (elim length_ge4E [of bs, rotated]) auto
  with assms obtain e f body where "bs' = e # f # body"
    by (cases bs'; cases "tl bs'") auto
  with 1 that show thesis by simp
qed

lemma apdu_spec_short_std:
  "length bs < 4 \<Longrightarrow> (case bs of ins # p1 # p2 # lc # body \<Rightarrow> f ins p1 p2 lc body | _ \<Rightarrow> Need_more) = Need_more"
  by (auto split: list.splits)

lemma apdu_spec_short_ext:
  "length bs < 6 \<Longrightarrow>
   (case bs of ins # p1 # p2 # z # h # l # body \<Rightarrow> f ins p1 p2 z h l body | _ \<Rightarrow> Need_more) = Need_more"
  by (auto split: list.splits)

lemma drop_hdr:
  "drop (5 + n) (a # b # c # d # e # xs) = drop n xs"
  "drop (6 + n) (a # b # c # d # e # xs) = drop (Suc n) xs"
  "drop (22 + n) (a # b # c # d # e # xs) = drop (17 + n) xs"
  "drop (7 + n) (a # b # c # d # e # f # g # xs) = drop n xs"
  "drop (9 + n) (a # b # c # d # e # f # g # xs) = drop (2 + n) xs"
  "drop (25 + n) (a # b # c # d # e # f # g # xs) = drop (18 + n) xs"
  by (simp_all add: eval_nat_numeral)

lemma take_hdr:
  "take (5 + n) (a # b # c # d # e # xs) = a # b # c # d # e # take n xs"
  "take (7 + n) (a # b # c # d # e # f # g # xs) = a # b # c # d # e # f # g # take n xs"
  by (simp_all add: eval_nat_numeral)

lemma u16_pos: "(0 < (x :: u16)) = (unat x \<noteq> 0)"
  by (metis unat_eq_zero word_gt_0)

lemma ucast_u16_pos: "(0 < (ucast (x :: u8) :: u16)) = (unat x \<noteq> 0)"
  by (simp only: u16_pos unat_ucast_u8_u16)

lemmas parse_simps =
  apdu_parser_try_parse_def Let_def abs_result_def frame_body_def cla_tag_len_def
  unat_ucast_u8_u16 frame_msg_def deref_def nth_append drop_hdr take_hdr ucast_u16_pos u16_pos

lemma try_parse_refines_std:
  assumes buf: "pr_buf p = cla # ins # p1 # p2 # lc # body @ stale"
    and filled: "pr_filled p = 5 + length body"
    and cla: "cla AND APDU_CLA_VER_MASK = 0" "cla AND APDU_CLA_RFU_BIT = 0" "\<not> cla_is_ext cla"
  shows "\<exists>rc f. apdu_parser_try_parse (Some p) (Some out) = Some (rc, Some f) \<and>
    (if rc = APDU_FRAME_READY then frame_ok p f else f = out) \<and>
    abs_result p rc f = frame_body cla ins p1 p2 (unat lc) body"
proof -
  have lens: "cla_le_len cla = 1" using cla(3) by (simp add: cla_le_len_def code_defs)
  show ?thesis
    using cla unat_u8_bound [of lc]
    by (cases "cla_sec cla = APDU_SEC_PLAIN";
        cases "length body < unat lc + cla_le_len cla + cla_tag_len cla")
       (simp_all add: parse_simps buf filled lens code_defs frame_ok_def hdr_len_def)
qed

lemma try_parse_refines_ext:
  assumes buf: "pr_buf p = cla # ins # p1 # p2 # z # h # l # body @ stale"
    and filled: "pr_filled p = 7 + length body"
    and cla: "cla AND APDU_CLA_VER_MASK = 0" "cla AND APDU_CLA_RFU_BIT = 0" "cla_is_ext cla"
  shows "\<exists>rc f. apdu_parser_try_parse (Some p) (Some out) = Some (rc, Some f) \<and>
    (if rc = APDU_FRAME_READY then frame_ok p f else f = out) \<and>
    abs_result p rc f =
      (if z \<noteq> 0 then Bad APDU_ERR_EXT_LC else frame_body cla ins p1 p2 (unat (be16 h l)) body)"
proof -
  have lens: "cla_le_len cla = 2" using cla(3) by (simp add: cla_le_len_def code_defs)
  show ?thesis
    using cla unat_u16_bound [of "be16 h l"]
    by (cases "z = 0"; cases "cla_sec cla = APDU_SEC_PLAIN";
        cases "length body < unat (be16 h l) + cla_le_len cla + cla_tag_len cla")
       (simp_all add: parse_simps buf filled lens code_defs get_u16_def frame_ok_def hdr_len_def)
qed

lemma try_parse_refines:
  assumes wf: "wf_parser p"
  shows "\<exists>rc f. apdu_parser_try_parse (Some p) (Some out) = Some (rc, Some f) \<and>
    (if rc = APDU_FRAME_READY then frame_ok p f else f = out) \<and>
    abs_result p rc f = apdu_spec (received p)"
proof -
  let ?bs = "received p"
  obtain stale where buf: "pr_buf p = ?bs @ stale"
    by (metis append_take_drop_id received_def)
  have filled: "pr_filled p = length ?bs" using wf by (simp add: received_def wf_parser_def)
  show ?thesis
  proof (cases ?bs)
    case Nil
    with filled show ?thesis
      by (simp add: apdu_parser_try_parse_def abs_result_def code_defs)
  next
    case (Cons cla bs)
    note hd = Cons
    consider (bad) "cla AND APDU_CLA_VER_MASK \<noteq> 0 \<or> cla AND APDU_CLA_RFU_BIT \<noteq> 0"
      | (good) "cla AND APDU_CLA_VER_MASK = 0" "cla AND APDU_CLA_RFU_BIT = 0" by blast
    then show ?thesis
    proof cases
      case bad
      then show ?thesis using hd buf filled
        by (auto simp: apdu_parser_try_parse_def abs_result_def code_defs rd_def)
    next
      case good
      show ?thesis
      proof (cases "length bs < (if cla_is_ext cla then 6 else 4)")
        case True
        then show ?thesis using good hd buf filled
          by (cases "cla_is_ext cla")
             (simp_all add: apdu_parser_try_parse_def abs_result_def code_defs
               apdu_spec_short_std apdu_spec_short_ext)
      next
        case False
        show ?thesis
        proof (cases "cla_is_ext cla")
          case True
          with False obtain ins p1 p2 z h l body where bs: "bs = ins # p1 # p2 # z # h # l # body"
            by (auto elim: length_ge6E)
          with hd have "apdu_spec ?bs = (if z \<noteq> 0 then Bad APDU_ERR_EXT_LC
              else frame_body cla ins p1 p2 (unat (be16 h l)) body)"
            using good True by simp
          with try_parse_refines_ext [of p cla ins p1 p2 z h l body stale out] show ?thesis
            using good True hd bs buf filled by simp
        next
          case std: False
          with False obtain ins p1 p2 lc body where bs: "bs = ins # p1 # p2 # lc # body"
            by (auto elim: length_ge4E)
          with hd have "apdu_spec ?bs = frame_body cla ins p1 p2 (unat lc) body"
            using good std by simp
          with try_parse_refines_std [of p cla ins p1 p2 lc body stale out] show ?thesis
            using good std hd bs buf filled by simp
        qed
      qed
    qed
  qed
qed

text \<open>The pointers of a reported frame lie inside the received bytes.\<close>

lemma try_parse_ready:
  assumes wf: "wf_parser p"
    and ready: "apdu_parser_try_parse (Some p) (Some out) = Some (APDU_FRAME_READY, Some f)"
  shows "fr_total_size f \<le> pr_filled p" and "fr_total_size f \<le> APDU_MAX_FRAME_SIZE"
    and "fr_sec f = cla_sec (fr_cla f)"
    and "fr_data f = (if fr_data_len f > 0 then Some (hdr_len (fr_cla f)) else None)"
    and "(fr_auth_tag f = None) = (fr_sec f = APDU_SEC_PLAIN)"
    and "fr_auth_tag f = Some t \<Longrightarrow> t + APDU_AUTH_TAG_SIZE = fr_total_size f"
    and "hdr_len (fr_cla f) + unat (fr_data_len f) < fr_total_size f"
proof -
  have "frame_ok p f" using try_parse_refines [OF wf, of out] ready by auto
  then show "fr_total_size f \<le> pr_filled p" and "fr_total_size f \<le> APDU_MAX_FRAME_SIZE"
    and "fr_sec f = cla_sec (fr_cla f)"
    and "fr_data f = (if fr_data_len f > 0 then Some (hdr_len (fr_cla f)) else None)"
    and "(fr_auth_tag f = None) = (fr_sec f = APDU_SEC_PLAIN)"
    and "fr_auth_tag f = Some t \<Longrightarrow> t + APDU_AUTH_TAG_SIZE = fr_total_size f"
    and "hdr_len (fr_cla f) + unat (fr_data_len f) < fr_total_size f"
    by (auto simp: frame_ok_def cla_tag_len_def cla_le_len_def code_defs split: if_splits)
qed

section \<open>Encoding, and what the grammar guarantees\<close>

definition wf_msg :: "apdu_msg \<Rightarrow> bool" where
  "wf_msg m \<longleftrightarrow>
     ms_cla m AND APDU_CLA_VER_MASK = 0 \<and> ms_cla m AND APDU_CLA_RFU_BIT = 0 \<and>
     length (ms_data m) \<le> (if cla_is_ext (ms_cla m) then 65535 else 255) \<and>
     (\<not> cla_is_ext (ms_cla m) \<longrightarrow> unat (ms_le m) \<le> 255) \<and>
     length (ms_tag m) = cla_tag_len (ms_cla m)"

definition apdu_wire :: "apdu_msg \<Rightarrow> bytes" where
  "apdu_wire m =
     [ms_cla m, ms_ins m, ms_p1 m, ms_p2 m] @
     (if cla_is_ext (ms_cla m) then 0 # put_u16 (of_nat (length (ms_data m)))
      else [of_nat (length (ms_data m))]) @
     ms_data m @
     (if cla_is_ext (ms_cla m) then put_u16 (ms_le m) else [ucast (ms_le m)]) @
     ms_tag m"

lemma unat_of_nat_u8: "n \<le> 255 \<Longrightarrow> unat (of_nat n :: u8) = n"
  by (simp add: unat_of_nat take_bit_nat_eq_self)

lemma unat_of_nat_u16: "n \<le> 65535 \<Longrightarrow> unat (of_nat n :: u16) = n"
  by (simp add: unat_of_nat take_bit_nat_eq_self)

lemma ucast_u16_u8_u16: "unat (x :: u16) \<le> 255 \<Longrightarrow> ucast (ucast x :: u8) = x"
  by (rule word_unat_eq_iff [THEN iffD2], simp only: unat_ucast_u8_u16)
     (simp add: unsigned_ucast_eq take_bit_nat_eq_self)

lemma be16_put_u16: "put_u16 v = [h, l] \<Longrightarrow> be16 h l = v"
  using get_put_u16 [of v] by (simp add: get_u16_def)

lemma put_u16_Cons: "\<exists>h l. put_u16 v = [h, l] \<and> be16 h l = v"
  using be16_put_u16 [of v] by (simp add: put_u16_def)

lemma frame_body_wire:
  assumes "length tag = cla_tag_len cla" and "les = cla_le_len cla" and "length le_bs = les"
  shows "frame_body cla ins p1 p2 (length d) (d @ le_bs @ tag @ rest) =
    Frame \<lparr>ms_cla = cla, ms_ins = ins, ms_p1 = p1, ms_p2 = p2, ms_data = d,
      ms_le = (if cla_is_ext cla then get_u16 (le_bs @ tag @ rest) else ucast (le_bs ! 0)),
      ms_tag = tag\<rparr> rest"
  using assms by (cases le_bs) (auto simp: frame_body_def Let_def nth_append cla_le_len_def code_defs split: if_splits)

lemma apdu_spec_wire:
  assumes wf: "wf_msg m"
  shows "apdu_spec (apdu_wire m @ rest) = Frame m rest"
proof (cases "cla_is_ext (ms_cla m)")
  case True
  obtain h l where hl: "put_u16 (of_nat (length (ms_data m))) = [h, l]"
      "be16 h l = of_nat (length (ms_data m))"
    using put_u16_Cons by blast
  have n: "unat (be16 h l) = length (ms_data m)"
    using wf True by (simp add: hl(2) wf_msg_def unat_of_nat_u16)
  have "get_u16 (put_u16 (ms_le m) @ xs) = ms_le m" for xs
    using get_put_u16 [of "ms_le m"] by (simp add: get_u16_def put_u16_def)
  then show ?thesis
    using wf True frame_body_wire [of "ms_tag m" "ms_cla m" 2 "put_u16 (ms_le m)"]
    by (simp add: apdu_wire_def wf_msg_def hl(1) n cla_le_len_def code_defs)
next
  case False
  then show ?thesis
    using wf frame_body_wire [of "ms_tag m" "ms_cla m" 1 "[ucast (ms_le m)]"]
    by (simp add: apdu_wire_def wf_msg_def unat_of_nat_u8 cla_le_len_def code_defs ucast_u16_u8_u16)
qed

lemma put_u16_be16 [simp]: "put_u16 (be16 h l) = [h, l]"
  by (simp add: put_u16_def)

lemma put_get_u16_take: "2 \<le> length xs \<Longrightarrow> put_u16 (get_u16 xs) = take 2 xs"
  by (cases xs; cases "tl xs") (auto simp: get_u16_def)

lemma frame_body_inv:
  assumes fb: "frame_body cla ins p1 p2 n body = Frame m rest"
  shows "n + cla_le_len cla + cla_tag_len cla \<le> length body"
    and "m = \<lparr>ms_cla = cla, ms_ins = ins, ms_p1 = p1, ms_p2 = p2, ms_data = take n body,
            ms_le = (if cla_is_ext cla then get_u16 (drop n body) else ucast (body ! n)),
            ms_tag = take (cla_tag_len cla) (drop (n + cla_le_len cla) body)\<rparr>"
    and "rest = drop (n + cla_le_len cla + cla_tag_len cla) body"
  using fb by (auto simp: frame_body_def Let_def split: if_splits)

lemma frame_body_split:
  assumes fb: "frame_body cla ins p1 p2 n body = Frame m rest"
  shows "body = take n body @ take (cla_le_len cla) (drop n body) @ ms_tag m @ rest"
  using frame_body_inv [OF fb]
  by (metis (no_types, lifting) append_take_drop_id apdu_msg.select_convs(7) drop_drop add.commute)

lemma apdu_spec_inv_ext:
  assumes "cla_is_ext cla" and fb: "frame_body cla ins p1 p2 (unat (be16 h l)) body = Frame m rest"
    and "cla AND APDU_CLA_VER_MASK = 0" and "cla AND APDU_CLA_RFU_BIT = 0"
  shows "wf_msg m \<and> cla # ins # p1 # p2 # 0 # h # l # body = apdu_wire m @ rest"
proof -
  note inv = frame_body_inv [OF fb] and split = frame_body_split [OF fb]
  have ls: "cla_le_len cla = 2" using assms(1) by (simp add: cla_le_len_def code_defs)
  have "length (drop (unat (be16 h l)) body) \<ge> 2" using inv(1) ls by simp
  then have le: "put_u16 (ms_le m) = take 2 (drop (unat (be16 h l)) body)"
    using inv(2) assms(1) by (simp add: put_get_u16_take)
  have len: "length (ms_data m) = unat (be16 h l)" using inv by simp
  have "wf_msg m"
    using inv assms(1,3,4) unat_u16_bound [of "be16 h l"] by (simp add: wf_msg_def)
  moreover have "apdu_wire m @ rest = cla # ins # p1 # p2 # 0 # h # l # body"
    using inv(2) assms(1) le len split ls by (simp add: apdu_wire_def)
  ultimately show ?thesis by simp
qed

lemma apdu_spec_inv_std:
  assumes "\<not> cla_is_ext cla" and fb: "frame_body cla ins p1 p2 (unat lc) body = Frame m rest"
    and "cla AND APDU_CLA_VER_MASK = 0" and "cla AND APDU_CLA_RFU_BIT = 0"
  shows "wf_msg m \<and> cla # ins # p1 # p2 # lc # body = apdu_wire m @ rest"
proof -
  note inv = frame_body_inv [OF fb] and split = frame_body_split [OF fb]
  have ls: "cla_le_len cla = 1" using assms(1) by (simp add: cla_le_len_def code_defs)
  have "drop (unat lc) body = body ! unat lc # drop (Suc (unat lc)) body"
    using inv(1) ls by (simp add: Cons_nth_drop_Suc)
  then have le: "take 1 (drop (unat lc) body) = [body ! unat lc]" by simp
  have len: "length (ms_data m) = unat lc" using inv by simp
  have "unat (ucast (body ! unat lc) :: u16) \<le> 255" by (simp add: unat_ucast_u8_u16 unat_u8_bound)
  then have "wf_msg m"
    using inv assms(1,3,4) unat_u8_bound [of lc] by (simp add: wf_msg_def)
  moreover have "(ucast (ucast (body ! unat lc) :: u16) :: u8) = body ! unat lc"
    by (rule bit_word_eqI) (simp add: bit_simps)
  then have "apdu_wire m @ rest = cla # ins # p1 # p2 # lc # body"
    using inv(2) assms(1) le len split ls by (simp add: apdu_wire_def)
  ultimately show ?thesis by simp
qed

lemma apdu_spec_inv:
  assumes "apdu_spec bs = Frame m rest"
  shows "wf_msg m \<and> bs = apdu_wire m @ rest"
proof (cases bs)
  case Nil
  with assms show ?thesis by simp
next
  case (Cons cla bs')
  with assms have cla: "cla AND APDU_CLA_VER_MASK = 0" "cla AND APDU_CLA_RFU_BIT = 0"
    by (auto split: if_splits)
  show ?thesis
  proof (cases "cla_is_ext cla")
    case True
    with assms Cons cla obtain ins p1 p2 h l body where "bs' = ins # p1 # p2 # 0 # h # l # body"
      and "frame_body cla ins p1 p2 (unat (be16 h l)) body = Frame m rest"
      by (auto split: list.splits if_splits)
    with apdu_spec_inv_ext [OF True _ cla] Cons show ?thesis by simp
  next
    case False
    with assms Cons cla obtain ins p1 p2 lc body where "bs' = ins # p1 # p2 # lc # body"
      and "frame_body cla ins p1 p2 (unat lc) body = Frame m rest"
      by (auto split: list.splits if_splits)
    with apdu_spec_inv_std [OF False _ cla] Cons show ?thesis by simp
  qed
qed

lemma apdu_spec_Frame_append:
  "apdu_spec bs = Frame m rest \<Longrightarrow> apdu_spec (bs @ xs) = Frame m (rest @ xs)"
  using apdu_spec_inv [of bs m rest] apdu_spec_wire [of m "rest @ xs"] by simp

lemma apdu_spec_Bad_append:
  assumes "apdu_spec bs = Bad e"
  shows "apdu_spec (bs @ xs) = Bad e"
proof (cases bs)
  case Nil
  with assms show ?thesis by simp
next
  case (Cons cla bs')
  with assms show ?thesis
    by (auto simp: frame_body_def Let_def split: if_splits list.splits)
qed

text \<open>No strict prefix of a frame is accepted or refused.\<close>

lemma apdu_spec_prefix:
  assumes "wf_msg m" and "apdu_wire m = pre @ post" and "post \<noteq> []"
  shows "apdu_spec pre = Need_more"
proof (cases "apdu_spec pre")
  case (Bad e)
  then have "apdu_spec (pre @ post) = Bad e" by (rule apdu_spec_Bad_append)
  then show ?thesis using apdu_spec_wire [OF assms(1), of "[]"] assms(2) by simp
next
  case (Frame m' r)
  then have "apdu_spec (pre @ post) = Frame m' (r @ post)" by (rule apdu_spec_Frame_append)
  then show ?thesis using apdu_spec_wire [OF assms(1), of "[]"] assms(2,3) by simp
qed

lemma apdu_wire_length:
  "wf_msg m \<Longrightarrow> length (apdu_wire m) \<le> APDU_MAX_FRAME_SIZE"
  by (auto simp: apdu_wire_def wf_msg_def cla_tag_len_def code_defs split: if_splits)

section \<open>Consuming, receiving, resetting\<close>

lemma consume_total:
  assumes wf: "wf_parser p"
  shows "\<exists>p'. apdu_parser_consume (Some p) (Some f) = Some (Some p') \<and> wf_parser p' \<and>
    received p' = drop (fr_total_size f) (received p) \<and> pr_in_use p' = pr_in_use p"
proof (cases "fr_total_size f \<ge> pr_filled p")
  case True
  then show ?thesis using wf
    by (auto simp: apdu_parser_consume_def wf_parser_def received_def)
next
  case False
  let ?t = "fr_total_size f" and ?n = "pr_filled p - fr_total_size f"
  let ?moved = "take ?n (drop ?t (pr_buf p))"
  have len: "length ?moved = ?n" using wf False by (auto simp: wf_parser_def min_def)
  let ?buf = "?moved @ drop ?n (pr_buf p)"
  have wr: "wr_range (pr_buf p) 0 ?moved = Some ?buf"
    using wf False len by (subst wr_range_prefix) (simp_all add: wf_parser_def)
  have rr: "rd_range (pr_buf p) ?t ?n = Some ?moved" using wf False by (simp add: wf_parser_def)
  have c: "apdu_parser_consume (Some p) (Some f) = Some (Some (p\<lparr>pr_buf := ?buf, pr_filled := ?n\<rparr>))"
    using False rr wr by (simp add: apdu_parser_consume_def Let_def)
  have lenb: "length ?buf = APDU_MAX_FRAME_SIZE" using wf False len by (simp add: wf_parser_def)
  have "take ?n ?buf = ?moved" using len by simp
  also have "\<dots> = drop ?t (take (pr_filled p) (pr_buf p))" using False by (simp add: take_drop)
  finally have moved: "take ?n ?buf = drop ?t (take (pr_filled p) (pr_buf p))" .
  have "?n \<le> APDU_MAX_FRAME_SIZE" using wf by (auto simp: wf_parser_def)
  with moved show ?thesis using c lenb
    by (simp add: wf_parser_def received_def del: drop_append take_append)
qed

lemma recv_commit_received:
  assumes wf: "wf_parser p" and fits: "pr_filled p + length d \<le> APDU_MAX_FRAME_SIZE"
    and wr: "wr_range (pr_buf p) (fst (apdu_parser_recv_ptr p)) d = Some buf"
  shows "received (apdu_parser_recv_commit (p\<lparr>pr_buf := buf\<rparr>) (length d)) = received p @ d"
    and "wf_parser (apdu_parser_recv_commit (p\<lparr>pr_buf := buf\<rparr>) (length d))"
proof -
  have "(pr_filled p + length d) mod 2 ^ 64 = pr_filled p + length d"
    using fits by (simp add: code_defs)
  then show "received (apdu_parser_recv_commit (p\<lparr>pr_buf := buf\<rparr>) (length d)) = received p @ d"
    using wr_range_take [OF wr, of "pr_filled p + length d"]
    by (simp add: received_def apdu_parser_recv_commit_def apdu_parser_recv_ptr_def)
  show "wf_parser (apdu_parser_recv_commit (p\<lparr>pr_buf := buf\<rparr>) (length d))"
    using wf fits wr_range_length [OF wr]
    by (simp add: wf_parser_def apdu_parser_recv_commit_def code_defs)
qed

lemma recv_ptr_max:
  "wf_parser p \<Longrightarrow> apdu_parser_recv_ptr p = (pr_filled p, APDU_MAX_FRAME_SIZE - pr_filled p)"
  by (simp add: apdu_parser_recv_ptr_def wf_parser_def size_sub_le code_defs)

lemma wf_zero_parser [simp]: "wf_parser zero_parser"
  by (simp add: wf_parser_def zero_parser_def)

lemma received_zero_parser [simp]: "received zero_parser = []"
  by (simp add: received_def zero_parser_def)

section \<open>The pool as a pool of slots\<close>

definition parser_acquire :: "unit \<Rightarrow> apdu_parser list \<Rightarrow> nat option \<times> apdu_parser list" where
  "parser_acquire _ = apdu_pool_acquire"

definition parser_release :: "nat \<Rightarrow> apdu_parser list \<Rightarrow> apdu_parser list" where
  "parser_release i = apdu_pool_release (Some i)"

interpretation parser_pool: slot_pool "\<lambda>p :: apdu_parser. pr_in_use p = 0" parser_acquire parser_release
proof unfold_locales
  fix u :: unit and s :: "apdu_parser list"
  assume "\<forall>e \<in> set s. pr_in_use e \<noteq> 0"
  then have "find_first (\<lambda>p. pr_in_use p = 0) s = None" by (simp add: find_first_None)
  then show "parser_acquire u s = (None, s)"
    by (simp add: parser_acquire_def apdu_pool_acquire_def)
next
  fix u :: unit and s :: "apdu_parser list" and i
  assume "find_first (\<lambda>p. pr_in_use p = 0) s = Some i"
  then show "\<exists>e. pr_in_use e \<noteq> 0 \<and> parser_acquire u s = (Some i, s[i := e])"
    by (intro exI [of _ "zero_parser\<lparr>pr_in_use := 1\<rparr>"])
       (simp add: parser_acquire_def apdu_pool_acquire_def)
next
  fix i :: nat and s :: "apdu_parser list"
  show "\<exists>e. pr_in_use e = 0 \<and> parser_release i s = s[i := e]"
    by (intro exI [of _ zero_parser])
       (simp add: parser_release_def apdu_pool_release_def zero_parser_def)
qed

section \<open>Properties\<close>

text \<open>A SYS_HELLO request in a receive buffer: the concrete input of the witnesses.\<close>

definition demo_msg :: apdu_msg where
  "demo_msg = \<lparr>ms_cla = 0x00, ms_ins = 0x01, ms_p1 = 0, ms_p2 = 0, ms_data = [], ms_le = 18, ms_tag = []\<rparr>"

definition demo_parser :: apdu_parser where
  "demo_parser = zero_parser\<lparr>pr_buf := [0x00, 0x01, 0, 0, 0, 18] @ replicate 65554 0, pr_filled := 6\<rparr>"

lemma demo_msg_wf: "wf_msg demo_msg"
  by (simp add: demo_msg_def wf_msg_def cla_is_ext_def cla_tag_len_def cla_sec_def mask_defs)

lemma demo_msg_wire: "apdu_wire demo_msg = [0x00, 0x01, 0, 0, 0, 18]"
  by (simp add: demo_msg_def apdu_wire_def cla_is_ext_def mask_defs)

lemma demo_parser_wf: "wf_parser demo_parser"
  by (simp add: demo_parser_def wf_parser_def code_defs)

lemma demo_parser_received: "received demo_parser = apdu_wire demo_msg"
  by (simp add: demo_parser_def received_def demo_msg_wire)

text \<open>C9. Refinement of the frame parser. For every parser slot whose fill level is within its buffer,
  the code reads no byte outside the received prefix, never exhibits undefined behaviour, leaves
  the output frame alone unless it reports a complete frame, and its verdict (need more, the exact
  error code, or the frame with the bytes after it) is that of the frame grammar on the bytes
  received so far; the data and auth-tag pointers of a reported frame lie inside those bytes.\<close>

theorem apdu_parse_refines:
  assumes "wf_parser p"
  shows "\<exists>rc f. apdu_parser_try_parse (Some p) (Some out) = Some (rc, Some f) \<and>
    (if rc = APDU_FRAME_READY then frame_ok p f else f = out) \<and>
    abs_result p rc f = apdu_spec (received p)"
  using assms by (rule try_parse_refines)

theorem apdu_parse_refines_witness:
  "wf_parser demo_parser \<and>
   (\<exists>rc f. apdu_parser_try_parse (Some demo_parser) (Some zero_frame) = Some (rc, Some f) \<and>
     abs_result demo_parser rc f = Frame demo_msg [])"
proof -
  have "apdu_spec (received demo_parser) = Frame demo_msg []"
    using apdu_spec_wire [OF demo_msg_wf, of "[]"] by (simp add: demo_parser_received)
  with apdu_parse_refines [OF demo_parser_wf, of zero_frame] show ?thesis
    by (auto simp: demo_parser_wf)
qed

text \<open>C10. Round trip of frames. Whenever the receive buffer starts with the encoding of a
  well-formed message (standard or extended, with or without an auth tag), the parser reports a
  complete frame whose pointers, followed into the buffer, are exactly that message, whose size is
  the length of the encoding, and consuming it leaves exactly the bytes that followed it.\<close>

theorem apdu_frame_roundtrip:
  assumes wf: "wf_parser p" and msg: "wf_msg m" and recv: "received p = apdu_wire m @ rest"
  shows "\<exists>f p'. apdu_parser_try_parse (Some p) (Some out) = Some (APDU_FRAME_READY, Some f) \<and>
    frame_msg (pr_buf p) f = m \<and> fr_total_size f = length (apdu_wire m) \<and>
    apdu_parser_consume (Some p) (Some f) = Some (Some p') \<and> wf_parser p' \<and> received p' = rest"
proof -
  have spec: "apdu_spec (received p) = Frame m rest" using apdu_spec_wire [OF msg] recv by simp
  obtain rc f where parse: "apdu_parser_try_parse (Some p) (Some out) = Some (rc, Some f)"
    and abs: "abs_result p rc f = Frame m rest"
    using try_parse_refines [OF wf, of out] spec by auto
  then have rc: "rc = APDU_FRAME_READY" and m: "frame_msg (pr_buf p) f = m"
    and rest: "drop (fr_total_size f) (received p) = rest"
    by (auto simp: abs_result_def received_def split: if_splits)
  obtain p' where "apdu_parser_consume (Some p) (Some f) = Some (Some p')" "wf_parser p'"
    "received p' = rest"
    using consume_total [OF wf, of f] rest by auto
  moreover have "fr_total_size f = length (apdu_wire m)"
    using try_parse_ready(1) [OF wf parse [unfolded rc]] arg_cong [OF rest, of length]
      arg_cong [OF recv, of length] wf
    by (simp add: received_def wf_parser_def)
  ultimately show ?thesis using parse rc m by auto
qed

theorem apdu_frame_roundtrip_witness:
  "wf_parser demo_parser \<and> wf_msg demo_msg \<and> received demo_parser = apdu_wire demo_msg @ [] \<and>
   (\<exists>f p'. apdu_parser_try_parse (Some demo_parser) (Some zero_frame) = Some (APDU_FRAME_READY, Some f) \<and>
     frame_msg (pr_buf demo_parser) f = demo_msg \<and> fr_total_size f = 6 \<and> received p' = [])"
  using apdu_frame_roundtrip [OF demo_parser_wf demo_msg_wf, of "[]" zero_frame]
  by (auto simp: demo_parser_wf demo_msg_wf demo_parser_received demo_msg_wire)

text \<open>Soundness of acceptance. A complete frame is reported only when the received bytes really
  are the encoding of a well-formed message followed by the rest: the reported fields, re-encoded,
  give back the received bytes, so no two messages share an encoding and no byte of the frame is
  ignored.\<close>

theorem apdu_frame_sound:
  assumes wf: "wf_parser p"
    and ready: "apdu_parser_try_parse (Some p) (Some out) = Some (APDU_FRAME_READY, Some f)"
  shows "wf_msg (frame_msg (pr_buf p) f) \<and>
    received p = apdu_wire (frame_msg (pr_buf p) f) @ drop (fr_total_size f) (received p)"
proof -
  have "apdu_spec (received p) = Frame (frame_msg (pr_buf p) f) (drop (fr_total_size f) (received p))"
    using try_parse_refines [OF wf, of out] ready by (auto simp: abs_result_def received_def)
  then show ?thesis by (rule apdu_spec_inv)
qed

theorem apdu_frame_sound_witness:
  "\<exists>f. apdu_parser_try_parse (Some demo_parser) (Some zero_frame) = Some (APDU_FRAME_READY, Some f) \<and>
     received demo_parser = apdu_wire (frame_msg (pr_buf demo_parser) f) @ drop (fr_total_size f) (received demo_parser)"
proof -
  have "apdu_spec (received demo_parser) = Frame demo_msg []"
    using apdu_spec_wire [OF demo_msg_wf, of "[]"] by (simp add: demo_parser_received)
  then obtain rc f where f: "apdu_parser_try_parse (Some demo_parser) (Some zero_frame) = Some (rc, Some f)"
    and "abs_result demo_parser rc f = Frame demo_msg []"
    using try_parse_refines [OF demo_parser_wf, of zero_frame] by auto
  then have "rc = APDU_FRAME_READY" by (auto simp: abs_result_def split: if_splits)
  with f apdu_frame_sound [OF demo_parser_wf, of zero_frame f] show ?thesis by auto
qed

text \<open>C11. Frame synchronisation does not depend on how the stream was cut. Once the parser has
  decided (an error or a complete frame), further received bytes cannot change the decision: the
  same code, and for a frame the same message.\<close>

theorem apdu_parse_incremental:
  assumes wf: "wf_parser p" "wf_parser q" and recv: "received q = received p @ xs"
    and parse: "apdu_parser_try_parse (Some p) (Some out) = Some (rc, Some f)"
    and decided: "rc \<noteq> APDU_NEED_MORE"
  shows "\<exists>g. apdu_parser_try_parse (Some q) (Some out) = Some (rc, Some g) \<and>
    (rc = APDU_FRAME_READY \<longrightarrow> frame_msg (pr_buf q) g = frame_msg (pr_buf p) f)"
proof -
  have abs: "abs_result p rc f = apdu_spec (received p)"
    using try_parse_refines [OF wf(1), of out] parse by auto
  obtain rc' g where q: "apdu_parser_try_parse (Some q) (Some out) = Some (rc', Some g)"
    and absq: "abs_result q rc' g = apdu_spec (received p @ xs)"
    using try_parse_refines [OF wf(2), of out] recv by auto
  show ?thesis
  proof (cases "rc = APDU_FRAME_READY")
    case True
    then have "apdu_spec (received p @ xs) = Frame (frame_msg (pr_buf p) f) (drop (fr_total_size f) (received p) @ xs)"
      using apdu_spec_Frame_append abs by (simp add: abs_result_def received_def)
    with absq True q show ?thesis by (auto simp: abs_result_def split: if_splits)
  next
    case False
    with abs decided have "apdu_spec (received p) = Bad rc" by (simp add: abs_result_def)
    then have "apdu_spec (received p @ xs) = Bad rc" by (rule apdu_spec_Bad_append)
    with absq False q show ?thesis by (auto simp: abs_result_def split: if_splits)
  qed
qed

text \<open>A slot holding one byte whose protocol version is not zero, and the same slot after more input.\<close>

definition demo_bad_parser :: "bytes \<Rightarrow> apdu_parser" where
  "demo_bad_parser xs = zero_parser\<lparr>pr_buf := 0xE0 # xs @ replicate (65559 - length xs) 0,
     pr_filled := Suc (length xs)\<rparr>"

theorem apdu_parse_incremental_witness:
  "apdu_parser_try_parse (Some (demo_bad_parser [])) (Some zero_frame) = Some (APDU_ERR_VERSION, Some zero_frame) \<and>
   (\<exists>g. apdu_parser_try_parse (Some (demo_bad_parser [1, 2])) (Some zero_frame) = Some (APDU_ERR_VERSION, Some g))"
proof -
  have wf: "wf_parser (demo_bad_parser [])" "wf_parser (demo_bad_parser [1, 2])"
    by (simp_all add: demo_bad_parser_def wf_parser_def code_defs)
  have parse: "apdu_parser_try_parse (Some (demo_bad_parser [])) (Some zero_frame) =
      Some (APDU_ERR_VERSION, Some zero_frame)"
    by (simp add: demo_bad_parser_def apdu_parser_try_parse_def code_defs mask_defs)
  have recv: "received (demo_bad_parser [1, 2]) = received (demo_bad_parser []) @ [1, 2]"
    by (simp add: demo_bad_parser_def received_def)
  show ?thesis
    using apdu_parse_incremental [OF wf recv parse] parse by (simp add: code_defs)
qed

text \<open>No early verdict. On every strict prefix of a well-formed frame the parser asks for more
  bytes and does not touch the output frame.\<close>

theorem apdu_no_early_verdict:
  assumes wf: "wf_parser p" and msg: "wf_msg m" and pre: "apdu_wire m = received p @ ys" and "ys \<noteq> []"
  shows "apdu_parser_try_parse (Some p) (Some out) = Some (APDU_NEED_MORE, Some out)"
  using try_parse_refines [OF wf, of out] apdu_spec_prefix [OF msg pre \<open>ys \<noteq> []\<close>]
  by (auto simp: abs_result_def code_defs split: if_splits)

theorem apdu_no_early_verdict_witness:
  "apdu_wire demo_msg = received (zero_parser\<lparr>pr_filled := 1\<rparr>) @ [0x01, 0, 0, 0, 18] \<and>
   apdu_parser_try_parse (Some (zero_parser\<lparr>pr_filled := 1\<rparr>)) (Some zero_frame) =
     Some (APDU_NEED_MORE, Some zero_frame)"
proof -
  have wf: "wf_parser (zero_parser\<lparr>pr_filled := 1\<rparr>)"
    by (simp add: wf_parser_def zero_parser_def code_defs)
  have "received (zero_parser\<lparr>pr_filled := 1\<rparr>) = [0]"
    by (simp add: received_def zero_parser_def code_defs)
  then have pre: "apdu_wire demo_msg = received (zero_parser\<lparr>pr_filled := 1\<rparr>) @ [0x01, 0, 0, 0, 18]"
    by (simp add: demo_msg_wire)
  show ?thesis using apdu_no_early_verdict [OF wf demo_msg_wf pre, of zero_frame] pre by simp
qed

end
