(* ===== verification/Chacha20.thy ===== *)
theory Chacha20
  imports MonoUtil
begin

unbundle bit_operations_syntax

text \<open>
  The ChaCha20 stream cipher of src/src/asyd/core/monocypher.c, and the proof that the buffered
  loop computes the exclusive or of its input with a key stream that is a function of key, nonce
  and a 64-bit block counter. The 16 variables of the round function are a list of 16 words.
\<close>

definition QUARTERROUND :: "nat \<Rightarrow> nat \<Rightarrow> nat \<Rightarrow> nat \<Rightarrow> u32 list \<Rightarrow> u32 list" where
  "QUARTERROUND a b c d t =
     (let t = t[a := t ! a + t ! b]; t = t[d := rotl32 (t ! d XOR t ! a) 16];
          t = t[c := t ! c + t ! d]; t = t[b := rotl32 (t ! b XOR t ! c) 12];
          t = t[a := t ! a + t ! b]; t = t[d := rotl32 (t ! d XOR t ! a) 8];
          t = t[c := t ! c + t ! d]; t = t[b := rotl32 (t ! b XOR t ! c) 7]
      in t)"

definition chacha20_double_round :: "u32 list \<Rightarrow> u32 list" where
  "chacha20_double_round t =
     (let t = QUARTERROUND 0 4 8 12 t; t = QUARTERROUND 1 5 9 13 t;
          t = QUARTERROUND 2 6 10 14 t; t = QUARTERROUND 3 7 11 15 t;
          t = QUARTERROUND 0 5 10 15 t; t = QUARTERROUND 1 6 11 12 t;
          t = QUARTERROUND 2 7 8 13 t; t = QUARTERROUND 3 4 9 14 t
      in t)"

definition chacha20_rounds :: "u32 list \<Rightarrow> u32 list" where
  "chacha20_rounds t = (chacha20_double_round ^^ 10) t"

text \<open>The 16 characters \<^verbatim>\<open>expand 32-byte k\<close>.\<close>

definition chacha20_constant :: bytes where
  "chacha20_constant = [101, 120, 112, 97, 110, 100, 32, 51, 50, 45, 98, 121, 116, 101, 32, 107]"

definition crypto_chacha20_h :: "bytes \<Rightarrow> bytes \<Rightarrow> bytes" where
  "crypto_chacha20_h key inp =
     (let block = chacha20_rounds (load32_le_buf chacha20_constant 4 @ load32_le_buf key 8 @ load32_le_buf inp 4)
      in store32_le_buf block 4 @ store32_le_buf (drop 12 block) 4)"

definition chacha20_input :: "bytes \<Rightarrow> bytes \<Rightarrow> u64 \<Rightarrow> u32 list" where
  "chacha20_input key nonce ctr =
     load32_le_buf chacha20_constant 4 @ load32_le_buf key 8 @
     [ucast ctr, ucast (drop_bit 32 ctr)] @ load32_le_buf nonce 2"

text \<open>One whole block: the 16 output words, mixed with 64 bytes of the plain text if there is one.\<close>

definition chacha20_mix :: "u32 list \<Rightarrow> bytes option \<Rightarrow> bytes" where
  "chacha20_mix inp plain_text =
     (let pool = chacha20_rounds inp in
      case plain_text of
        Some pt \<Rightarrow> concat (map (\<lambda>j. store32_le ((pool ! j + inp ! j) XOR load32_le (drop (4 * j) pt))) [0..<16])
      | None \<Rightarrow> concat (map (\<lambda>j. store32_le (pool ! j + inp ! j)) [0..<16]))"

definition chacha20_next :: "u32 list \<Rightarrow> u32 list" where
  "chacha20_next inp =
     (let inp = inp[12 := inp ! 12 + 1]
      in if inp ! 12 = 0 then inp[13 := inp ! 13 + 1] else inp)"

primrec chacha20_blocks :: "nat \<Rightarrow> u32 list \<Rightarrow> bytes option \<Rightarrow> bytes \<times> u32 list \<times> bytes option" where
  "chacha20_blocks 0 inp pt = ([], inp, pt)"
| "chacha20_blocks (Suc n) inp pt =
     (let (out, inp', pt') = chacha20_blocks n (chacha20_next inp) (map_option (drop 64) pt)
      in (chacha20_mix inp pt @ out, inp', pt'))"

text \<open>
  The function writes \<open>text_size\<close> bytes and returns the next counter. A null plain text stands
  for zeros. The code works in place or from one buffer to another: every word is read before it is
  written, so the two agree.
\<close>

definition crypto_chacha20_djb :: "bytes option \<Rightarrow> nat \<Rightarrow> bytes \<Rightarrow> bytes \<Rightarrow> u64 \<Rightarrow> bytes \<times> u64" where
  "crypto_chacha20_djb plain_text text_size key nonce ctr =
     (let (whole, inp, pt) = chacha20_blocks (text_size div 64) (chacha20_input key nonce ctr) plain_text;
          rest = text_size mod 64;
          last_part =
            (if rest > 0
             then let pt = (case pt of None \<Rightarrow> replicate 128 0 | Some p \<Rightarrow> p);
                      pool = chacha20_rounds inp;
                      tmp = concat (map (\<lambda>i. store32_le (pool ! i + inp ! i)) [0..<16])
                  in map (\<lambda>i. tmp ! i XOR pt ! i) [0..<rest]
             else [])
      in (whole @ last_part,
          ucast (inp ! 12) + push_bit 32 (ucast (inp ! 13)) + (if rest > 0 then 1 else 0)))"

definition crypto_chacha20_ietf :: "bytes option \<Rightarrow> nat \<Rightarrow> bytes \<Rightarrow> bytes \<Rightarrow> u32 \<Rightarrow> bytes \<times> u32" where
  "crypto_chacha20_ietf plain_text text_size key nonce ctr =
     (let big_ctr = ucast ctr + push_bit 32 (ucast (load32_le nonce));
          (out, ctr') = crypto_chacha20_djb plain_text text_size key (drop 4 nonce) big_ctr
      in (out, ucast ctr'))"

definition crypto_chacha20_x :: "bytes option \<Rightarrow> nat \<Rightarrow> bytes \<Rightarrow> bytes \<Rightarrow> u64 \<Rightarrow> bytes \<times> u64" where
  "crypto_chacha20_x plain_text text_size key nonce ctr =
     crypto_chacha20_djb plain_text text_size (crypto_chacha20_h key (take 16 nonce)) (drop 16 nonce) ctr"

text \<open>The quarter round on the example of RFC 8439, section 2.1.1.\<close>

lemma quarterround_rfc8439:
  "QUARTERROUND 0 1 2 3 [0x11111111, 0x01020304, 0x9b8d6f43, 0x01234567] =
   [0xea2a92f4, 0xcb1cf8ce, 0x4581472e, 0x5881c4bb]"
  by code_simp

section \<open>The key stream\<close>

text \<open>
  The abstract cipher: block \<open>i\<close> of the stream is the round function of the state with counter
  \<open>ctr + i\<close> (as a 64-bit number), and encryption is exclusive or with the stream.
\<close>

definition ks_block :: "bytes \<Rightarrow> bytes \<Rightarrow> u64 \<Rightarrow> bytes" where
  "ks_block key nonce ctr = chacha20_mix (chacha20_input key nonce ctr) None"

definition keystream :: "bytes \<Rightarrow> bytes \<Rightarrow> u64 \<Rightarrow> nat \<Rightarrow> bytes" where
  "keystream key nonce ctr n =
     take n (concat (map (\<lambda>i. ks_block key nonce (ctr + of_nat i)) [0..<n div 64 + 1]))"

lemma QUARTERROUND_length [simp]: "length (QUARTERROUND a b c d t) = length t"
  by (simp add: QUARTERROUND_def Let_def)

lemma double_round_length [simp]: "length (chacha20_double_round t) = length t"
  by (simp add: chacha20_double_round_def Let_def)

lemma chacha20_rounds_length [simp]: "length (chacha20_rounds t) = length t"
proof -
  have "length ((chacha20_double_round ^^ n) t) = length t" for n by (induction n) simp_all
  then show ?thesis by (simp add: chacha20_rounds_def)
qed

lemma chacha20_input_length [simp]: "length (chacha20_input key nonce ctr) = 16"
  by (simp add: chacha20_input_def)

lemma chacha20_input_ctr:
  "chacha20_input key nonce ctr ! 12 = ucast ctr"
  "chacha20_input key nonce ctr ! 13 = ucast (drop_bit 32 ctr)"
  by (simp_all add: chacha20_input_def nth_append)

lemma chacha20_h_length [simp]: "length (crypto_chacha20_h key inp) = 32"
  by (simp add: crypto_chacha20_h_def Let_def)

text \<open>The two-word increment is the increment of the 64-bit counter.\<close>

lemma unat_low32: "unat (ucast c :: u32) = unat c mod 2 ^ 32" for c :: u64
  by (simp add: unsigned_ucast_eq take_bit_eq_mod)

lemma unat_high32: "unat (ucast (drop_bit 32 c) :: u32) = unat c div 2 ^ 32" for c :: u64
proof -
  have "unat c < 2 ^ 64" using unsigned_less [of c, where 'a = nat] by simp
  then have "unat c div 2 ^ 32 < 2 ^ 32" by (simp add: less_mult_imp_div_less)
  moreover have "unat (ucast (drop_bit 32 c) :: u32) = take_bit 32 (drop_bit 32 (unat c))"
    by (simp only: unsigned_ucast_eq unat_drop_bit_eq) simp
  ultimately show ?thesis by (simp only: drop_bit_eq_div take_bit_nat_eq_self)
qed

lemma nat_split_Suc:
  fixes c :: nat
  assumes "c < 2 ^ 64"
  shows "(c + 1) mod 2 ^ 64 mod 2 ^ 32 = (c mod 2 ^ 32 + 1) mod 2 ^ 32"
    and "(c + 1) mod 2 ^ 64 div 2 ^ 32 =
      (if (c mod 2 ^ 32 + 1) mod 2 ^ 32 = 0 then (c div 2 ^ 32 + 1) mod 2 ^ 32 else c div 2 ^ 32)"
proof -
  define q r where "q = c div 4294967296" and "r = c mod 4294967296"
  have c: "c = q * 4294967296 + r" "r < 4294967296" "q < 4294967296"
    using assms by (simp_all add: q_def r_def div_mult_mod_eq less_mult_imp_div_less)
  show "(c + 1) mod 2 ^ 64 mod 2 ^ 32 = (c mod 2 ^ 32 + 1) mod 2 ^ 32"
    by (simp add: mod_mod_cancel mod_Suc_eq)
  show "(c + 1) mod 2 ^ 64 div 2 ^ 32 =
      (if (c mod 2 ^ 32 + 1) mod 2 ^ 32 = 0 then (c div 2 ^ 32 + 1) mod 2 ^ 32 else c div 2 ^ 32)"
  proof (cases "r = 4294967295")
    case True
    then have "c + 1 = (q + 1) * 4294967296" using c by simp
    then have "(c + 1) mod 2 ^ 64 div 2 ^ 32 = (q + 1) mod 4294967296"
      using mult_mod_left [of "q + 1" 4294967296 4294967296] by simp
    then show ?thesis using True by (simp flip: q_def r_def)
  next
    case False
    then have "c + 1 = q * 4294967296 + (r + 1)" "r + 1 < 4294967296" using c by simp_all
    moreover have "c + 1 < 18446744073709551616" using c False by simp
    ultimately show ?thesis using False c by (simp flip: q_def r_def)
  qed
qed

lemma chacha20_next_at:
  "length a = 12 \<Longrightarrow> chacha20_next (a @ l # h # b) = a @ (l + 1) # (if l + 1 = 0 then h + 1 else h) # b"
  by (simp add: chacha20_next_def Let_def list_update_append nth_append)

lemma chacha20_next_input:
  "chacha20_next (chacha20_input key nonce ctr) = chacha20_input key nonce (ctr + 1)"
proof -
  have c: "unat ctr < 2 ^ 64" using unsigned_less [of ctr, where 'a = nat] by simp
  have s: "unat (ctr + 1) = (unat ctr + 1) mod 2 ^ 64" by (simp add: unat_word_ariths)
  have low: "(ucast (ctr + 1) :: u32) = ucast ctr + 1"
    by (rule word_unat_eq_iff [THEN iffD2])
       (simp add: unat_low32 s unat_word_ariths nat_split_Suc(1) [OF c, simplified])
  have z: "(ucast ctr :: u32) + 1 = 0 \<longleftrightarrow> (unat ctr mod 2 ^ 32 + 1) mod 2 ^ 32 = 0"
    by (simp add: unat_word_ariths unat_low32 flip: unat_eq_zero)
  have high: "(ucast (drop_bit 32 (ctr + 1)) :: u32) =
      (if ucast ctr + 1 = (0 :: u32) then ucast (drop_bit 32 ctr) + 1 else ucast (drop_bit 32 ctr))"
    unfolding z
    by (rule word_unat_eq_iff [THEN iffD2])
       (simp add: unat_high32 s nat_split_Suc(2) [OF c, simplified] unat_word_ariths)
  show ?thesis
    unfolding chacha20_input_def low high
    using chacha20_next_at [of "load32_le_buf chacha20_constant 4 @ load32_le_buf key 8" "ucast ctr"
        "ucast (drop_bit 32 ctr)" "load32_le_buf nonce 2"]
    by simp
qed

section \<open>The loop computes the key stream\<close>

lemma map2_take_right: "length xs \<le> n \<Longrightarrow> map2 f xs (take n ys) = map2 f xs ys"
  by (rule nth_equalityI) auto

lemma map2_append:
  "length as = length cs \<Longrightarrow> map2 f (as @ bs) (cs @ ds) = map2 f as cs @ map2 f bs ds"
  by simp

lemma concat_chunks: "concat (map (\<lambda>j. take k (drop (k * j) xs)) [0..<n]) = take (k * n) xs"
  by (induction n) (simp_all add: take_add [of "k * n" k for n] add.commute [of k])

lemma concat_map2:
  "(\<And>j. j \<in> set js \<Longrightarrow> length (g j) = length (h j)) \<Longrightarrow>
   concat (map (\<lambda>j. map2 f (g j) (h j)) js) = map2 f (concat (map g js)) (concat (map h js))"
  by (induction js) auto

lemma store_xor_load:
  assumes "4 \<le> length s"
  shows "store32_le (a XOR load32_le s) = map2 (XOR) (store32_le a) (take 4 s)"
proof -
  have x: "store32_le (a XOR b) = map2 (XOR) (store32_le a) (store32_le b)" for a b
    by (auto simp: store32_le_def bit_eq_iff bit_simps)
  have "store32_le (load32_le (take 4 s)) = take 4 s" using assms by (simp add: store_load32)
  then show ?thesis by (simp add: x load32_take)
qed

lemma chacha20_mix_length [simp]: "length (chacha20_mix inp pt) = 64"
  by (simp add: chacha20_mix_def Let_def length_concat comp_def sum_list_triv split: option.split)

lemma chacha20_mix_xor:
  assumes "64 \<le> length p"
  shows "chacha20_mix inp (Some p) = map2 (XOR) (chacha20_mix inp None) p"
proof -
  let ?w = "\<lambda>j. chacha20_rounds inp ! j + inp ! j"
  have "chacha20_mix inp (Some p) =
      concat (map (\<lambda>j. map2 (XOR) (store32_le (?w j)) (take 4 (drop (4 * j) p))) [0..<16])"
    unfolding chacha20_mix_def Let_def option.case
    by (intro arg_cong [of _ _ concat] map_cong refl store_xor_load) (use assms in auto)
  also have "\<dots> = map2 (XOR) (chacha20_mix inp None) (take 64 p)"
    by (subst concat_map2) (use assms in \<open>auto simp: chacha20_mix_def Let_def concat_chunks\<close>)
  also have "\<dots> = map2 (XOR) (chacha20_mix inp None) p"
    by (simp add: map2_take_right)
  finally show ?thesis .
qed

definition xor_opt :: "bytes \<Rightarrow> bytes option \<Rightarrow> bytes" where
  "xor_opt ks pt = (case pt of None \<Rightarrow> ks | Some p \<Rightarrow> map2 (XOR) ks p)"

definition pt_ok :: "bytes option \<Rightarrow> nat \<Rightarrow> bool" where
  "pt_ok pt n \<longleftrightarrow> (\<forall>p. pt = Some p \<longrightarrow> n \<le> length p)"

lemma pt_ok_simps [simp]: "pt_ok None n" "pt_ok (Some p) n \<longleftrightarrow> n \<le> length p"
  by (simp_all add: pt_ok_def)

lemma xor_opt_append:
  "pt_ok pt (length a) \<Longrightarrow> xor_opt (a @ b) pt = xor_opt a pt @ xor_opt b (map_option (drop (length a)) pt)"
proof (cases pt)
  case (Some p)
  assume "pt_ok pt (length a)"
  then have "length a = length (take (length a) p)" using Some by simp
  then have "map2 (XOR) (a @ b) (take (length a) p @ drop (length a) p) =
      map2 (XOR) a (take (length a) p) @ map2 (XOR) b (drop (length a) p)" by (rule map2_append)
  then show ?thesis using Some by (simp add: xor_opt_def map2_take_right)
qed (simp add: xor_opt_def)

lemma ks_block_mix:
  "pt_ok pt 64 \<Longrightarrow> chacha20_mix (chacha20_input key nonce ctr) pt = xor_opt (ks_block key nonce ctr) pt"
  by (cases pt) (auto simp: xor_opt_def ks_block_def chacha20_mix_xor)

definition ks_blocks :: "bytes \<Rightarrow> bytes \<Rightarrow> u64 \<Rightarrow> nat \<Rightarrow> bytes" where
  "ks_blocks key nonce ctr n = concat (map (\<lambda>i. ks_block key nonce (ctr + of_nat i)) [0..<n])"

lemma ks_block_length [simp]: "length (ks_block key nonce ctr) = 64"
  by (simp add: ks_block_def)

lemma ks_blocks_length [simp]: "length (ks_blocks key nonce ctr n) = 64 * n"
  by (simp add: ks_blocks_def length_concat comp_def sum_list_triv)

lemma ks_blocks_Suc: "ks_blocks key nonce ctr (Suc n) = ks_block key nonce ctr @ ks_blocks key nonce (ctr + 1) n"
proof -
  have "ks_block key nonce (ctr + of_nat (Suc i)) = ks_block key nonce (ctr + 1 + of_nat i)" for i
    by (simp add: algebra_simps)
  then show ?thesis unfolding ks_blocks_def by (simp only: upt_rec [of 0 "Suc n"] map_Suc_upt [symmetric]) (simp add: comp_def)
qed

lemma ks_blocks_snoc: "ks_blocks key nonce ctr (Suc n) = ks_blocks key nonce ctr n @ ks_block key nonce (ctr + of_nat n)"
  by (simp add: ks_blocks_def)

lemma chacha20_blocks_stream:
  "pt_ok pt (64 * n) \<Longrightarrow>
   chacha20_blocks n (chacha20_input key nonce ctr) pt =
     (xor_opt (ks_blocks key nonce ctr n) (map_option (take (64 * n)) pt),
      chacha20_input key nonce (ctr + of_nat n), map_option (drop (64 * n)) pt)"
proof (induction n arbitrary: ctr pt)
  case 0
  then show ?case by (cases pt) (simp_all add: xor_opt_def ks_blocks_def)
next
  case (Suc n)
  have p: "pt_ok (map_option (drop 64) pt) (64 * n)" "pt_ok pt 64" "pt_ok (map_option (take (64 * Suc n)) pt) 64"
    using Suc.prems by (cases pt; simp)+
  have "chacha20_blocks (Suc n) (chacha20_input key nonce ctr) pt =
      (xor_opt (ks_block key nonce ctr) pt @
         xor_opt (ks_blocks key nonce (ctr + 1) n) (map_option (take (64 * n)) (map_option (drop 64) pt)),
       chacha20_input key nonce (ctr + 1 + of_nat n),
       map_option (drop (64 * n)) (map_option (drop 64) pt))"
    by (simp add: chacha20_next_input Suc.IH [OF p(1)] ks_block_mix [OF p(2)])
  also have "xor_opt (ks_block key nonce ctr) pt @
         xor_opt (ks_blocks key nonce (ctr + 1) n) (map_option (take (64 * n)) (map_option (drop 64) pt)) =
      xor_opt (ks_blocks key nonce ctr (Suc n)) (map_option (take (64 * Suc n)) pt)"
    using xor_opt_append [of "map_option (take (64 * Suc n)) pt" "ks_block key nonce ctr"
        "ks_blocks key nonce (ctr + 1) n"] p(3)
    by (cases pt) (simp_all add: xor_opt_def ks_blocks_Suc drop_take map2_take_right)
  finally show ?case by (cases pt) (simp_all add: algebra_simps)
qed

lemma keystream_blocks: "keystream key nonce ctr n = take n (ks_blocks key nonce ctr (n div 64 + 1))"
  by (simp add: keystream_def ks_blocks_def)

lemma keystream_length [simp]: "length (keystream key nonce ctr n) = n"
proof -
  have "n \<le> 64 * (n div 64 + 1)" using dividend_less_times_div [of 64 n] by simp
  then show ?thesis by (simp only: keystream_blocks length_take ks_blocks_length min_absorb2)
qed

lemma keystream_split:
  "keystream key nonce ctr n =
   ks_blocks key nonce ctr (n div 64) @ take (n mod 64) (ks_block key nonce (ctr + of_nat (n div 64)))"
proof -
  have n: "64 * (n div 64) + n mod 64 = n" by simp
  have "keystream key nonce ctr n = take (64 * (n div 64) + n mod 64) (ks_blocks key nonce ctr (Suc (n div 64)))"
    by (simp only: keystream_blocks n Suc_eq_plus1)
  then show ?thesis by (simp only: ks_blocks_snoc take_append ks_blocks_length)
      (simp add: minus_mult_div_eq_mod)
qed

lemma last_part_stream:
  assumes "pt_ok pt r" and "r < 64" and "length ks = 64"
  shows "map (\<lambda>i. ks ! i XOR (case pt of None \<Rightarrow> replicate 128 0 | Some p \<Rightarrow> p) ! i) [0..<r] =
    xor_opt (take r ks) (map_option (take r) pt)"
  by (rule nth_equalityI) (use assms in \<open>auto simp: xor_opt_def split: option.split\<close>)

lemma ctr_words: "ucast (ucast c :: u32) + push_bit 32 (ucast (ucast (drop_bit 32 c) :: u32)) = c" for c :: u64
proof -
  have "ucast (ucast c :: u32) AND push_bit 32 (ucast (ucast (drop_bit 32 c) :: u32)) = (0 :: u64)"
    by (rule bit_word_eqI) (auto simp: bit_simps)
  then show ?thesis by (simp only: disjunctive_add_eq_or u64_halves')
qed

lemma xor_opt_take: "length ks \<le> k \<Longrightarrow> xor_opt ks (map_option (take k) pt) = xor_opt ks pt"
  by (cases pt) (simp_all add: xor_opt_def map2_take_right)

lemma xor_opt_length: "pt_ok pt (length ks) \<Longrightarrow> length (xor_opt ks pt) = length ks"
  by (cases pt) (simp_all add: xor_opt_def)

lemma djb_stream:
  assumes "pt_ok pt n"
  shows "crypto_chacha20_djb pt n key nonce ctr =
    (xor_opt (keystream key nonce ctr n) pt,
     ctr + of_nat (n div 64) + (if n mod 64 > 0 then 1 else 0))"
proof -
  have n: "64 * (n div 64) + n mod 64 = n" by simp
  then have le: "64 * (n div 64) \<le> n" by linarith
  have p1: "pt_ok pt (64 * (n div 64))" using assms le by (auto simp: pt_ok_def)
  have p2: "pt_ok (map_option (drop (64 * (n div 64))) pt) (n mod 64)"
    using assms by (cases pt) (simp_all only: option.map pt_ok_simps length_drop diff_le_mono flip: minus_mult_div_eq_mod)
  let ?kb = "ks_block key nonce (ctr + of_nat (n div 64))"
  let ?rest = "map_option (drop (64 * (n div 64))) pt"
  have split: "xor_opt (keystream key nonce ctr n) pt =
     xor_opt (ks_blocks key nonce ctr (n div 64)) pt @ xor_opt (take (n mod 64) ?kb) ?rest"
    using xor_opt_append [of pt "ks_blocks key nonce ctr (n div 64)" "take (n mod 64) ?kb"] p1
    by (simp add: keystream_split)
  have kb: "concat (map (\<lambda>i. store32_le (chacha20_rounds inp ! i + inp ! i)) [0..<16]) = ?kb"
    if "inp = chacha20_input key nonce (ctr + of_nat (n div 64))" for inp
    using that by (simp add: ks_block_def chacha20_mix_def Let_def)
  have last_part: "map (\<lambda>i. ?kb ! i XOR (case ?rest of None \<Rightarrow> replicate 128 0 | Some p \<Rightarrow> p) ! i) [0..<n mod 64] =
      xor_opt (take (n mod 64) ?kb) ?rest"
    using last_part_stream [OF p2, of ?kb] by (simp add: xor_opt_take)
  have "crypto_chacha20_djb pt n key nonce ctr =
    (xor_opt (ks_blocks key nonce ctr (n div 64)) pt @
       (if n mod 64 > 0 then xor_opt (take (n mod 64) ?kb) ?rest else []),
     ctr + of_nat (n div 64) + (if n mod 64 > 0 then 1 else 0))"
    unfolding crypto_chacha20_djb_def Let_def chacha20_blocks_stream [OF p1]
    by (simp only: split_def fst_conv snd_conv prod.case kb last_part chacha20_input_ctr ctr_words
        xor_opt_take ks_blocks_length order_refl refl)
  also have "(if n mod 64 > 0 then xor_opt (take (n mod 64) ?kb) ?rest else []) = xor_opt (take (n mod 64) ?kb) ?rest"
    by (simp add: xor_opt_def split: option.split)
  finally show ?thesis by (simp only: split)
qed

lemma div64_round_up: "(n + 63) div 64 = n div 64 + (if n mod 64 > 0 then 1 else (0 :: nat))" for n :: nat
proof -
  define q r where "q = n div 64" and "r = n mod 64"
  have r: "r < 64" and n: "n = r + 64 * q" by (simp_all add: q_def r_def)
  have "(r + 63) div 64 = (if r > 0 then 1 else 0)"
    using r by (auto intro: div_nat_eqI)
  moreover have "(n + 63) div 64 = q + (r + 63) div 64"
    using div_mult_self1 [of 64 "r + 63" q] n by (simp add: ac_simps)
  ultimately show ?thesis by (simp only: q_def r_def)
qed

text \<open>C21. The cipher loop, with its whole blocks, its partial last block and its two-word counter,
  computes exactly the exclusive or of the text with a key stream: the first bytes of the sequence of
  blocks with the 64-bit counters ctr, ctr + 1, and so on, wrapping over the two counter words. A null
  plain text gives the key stream itself, the counter returned is the next unused one, and applying
  the cipher to its own output gives the text back.\<close>

theorem chacha20_stream_cipher:
  assumes "length p = n"
  shows "crypto_chacha20_djb (Some p) n key nonce ctr =
      (map2 (XOR) (keystream key nonce ctr n) p, ctr + of_nat ((n + 63) div 64)) \<and>
    crypto_chacha20_djb None n key nonce ctr =
      (keystream key nonce ctr n, ctr + of_nat ((n + 63) div 64)) \<and>
    crypto_chacha20_djb (Some (fst (crypto_chacha20_djb (Some p) n key nonce ctr))) n key nonce ctr =
      (p, ctr + of_nat ((n + 63) div 64))"
proof -
  have c: "ctr + of_nat (n div 64) + (if n mod 64 > 0 then 1 else 0) = ctr + of_nat ((n + 63) div 64)"
    unfolding div64_round_up by (simp only: of_nat_add add.assoc of_nat_1 of_nat_0 split: if_split) simp
  have d: "pt_ok pt n \<Longrightarrow> crypto_chacha20_djb pt n key nonce ctr =
      (xor_opt (keystream key nonce ctr n) pt, ctr + of_nat ((n + 63) div 64))" for pt
    by (simp only: djb_stream c)
  have x: "length (map2 (XOR) (keystream key nonce ctr n) p) = n" using assms by simp
  show ?thesis
    using d [of "Some p"] d [of None] d [of "Some (map2 (XOR) (keystream key nonce ctr n) p)"] assms x
    by (simp only: pt_ok_simps order_refl xor_opt_def option.case fst_conv map2_xor_cancel keystream_length simp_thms)
qed

theorem chacha20_stream_cipher_witness:
  "fst (crypto_chacha20_djb (Some (fst (crypto_chacha20_djb (Some [104, 105]) 2 (replicate 32 1)
     (replicate 8 0) 0))) 2 (replicate 32 1) (replicate 8 0) 0) = [104, 105]"
proof -
  have "length [104, 105 :: u8] = 2" by simp
  from chacha20_stream_cipher [OF this, THEN conjunct2, THEN conjunct2] show ?thesis by (simp only: fst_conv)
qed

end
