(* ===== verification/Aead.thy ===== *)
theory Aead
  imports Chacha20 Poly1305
begin

unbundle bit_operations_syntax

text \<open>
  Authenticated encryption of src/src/asyd/core/monocypher.c, section "Authenticated encryption":
  the incremental context with its re-keying after every message, and the one-shot lock and unlock.
  The interface \<open>aead\<close> states what a user of the cipher may rely on; it is interpreted on the
  modelled functions here and used by the Noise layer.
\<close>

definition zero128 :: bytes where
  "zero128 = replicate 128 0"

definition lock_auth :: "bytes \<Rightarrow> bytes \<Rightarrow> nat \<Rightarrow> bytes \<Rightarrow> nat \<Rightarrow> bytes" where
  "lock_auth auth_key ad ad_size cipher_text text_size =
     (let sizes = store64_le (of_nat ad_size) @ store64_le (of_nat text_size);
          ctx = crypto_poly1305_init auth_key;
          ctx = crypto_poly1305_update ctx ad ad_size;
          ctx = crypto_poly1305_update ctx (take (gap ad_size 16) zero128) (gap ad_size 16);
          ctx = crypto_poly1305_update ctx cipher_text text_size;
          ctx = crypto_poly1305_update ctx (take (gap text_size 16) zero128) (gap text_size 16);
          ctx = crypto_poly1305_update ctx sizes 16
      in crypto_poly1305_final ctx)"

record crypto_aead_ctx =
  ae_counter :: u64
  ae_key :: bytes
  ae_nonce :: bytes

definition crypto_aead_init_x :: "bytes \<Rightarrow> bytes \<Rightarrow> crypto_aead_ctx" where
  "crypto_aead_init_x key nonce =
     \<lparr>ae_counter = 0, ae_key = crypto_chacha20_h key nonce, ae_nonce = take 8 (drop 16 nonce)\<rparr>"

definition crypto_aead_init_djb :: "bytes \<Rightarrow> bytes \<Rightarrow> crypto_aead_ctx" where
  "crypto_aead_init_djb key nonce = \<lparr>ae_counter = 0, ae_key = take 32 key, ae_nonce = take 8 nonce\<rparr>"

definition crypto_aead_init_ietf :: "bytes \<Rightarrow> bytes \<Rightarrow> crypto_aead_ctx" where
  "crypto_aead_init_ietf key nonce =
     \<lparr>ae_counter = push_bit 32 (ucast (load32_le nonce)), ae_key = take 32 key,
      ae_nonce = take 8 (drop 4 nonce)\<rparr>"

text \<open>Writing returns the new context, the cipher text and the tag.\<close>

definition crypto_aead_write ::
    "crypto_aead_ctx \<Rightarrow> bytes \<Rightarrow> nat \<Rightarrow> bytes \<Rightarrow> nat \<Rightarrow> crypto_aead_ctx \<times> bytes \<times> bytes" where
  "crypto_aead_write ctx ad ad_size plain_text text_size =
     (let auth_key = fst (crypto_chacha20_djb None 64 (ae_key ctx) (ae_nonce ctx) (ae_counter ctx));
          cipher_text = fst (crypto_chacha20_djb (Some plain_text) text_size (ae_key ctx) (ae_nonce ctx)
                               (ae_counter ctx + 1));
          mac = lock_auth (take 32 auth_key) ad ad_size cipher_text text_size
      in (ctx\<lparr>ae_key := take 32 (drop 32 auth_key)\<rparr>, cipher_text, mac))"

text \<open>
  Reading returns the mismatch flag, the new context, and what was written to the plain text buffer:
  nothing when the tag does not match.
\<close>

definition crypto_aead_read ::
    "crypto_aead_ctx \<Rightarrow> bytes \<Rightarrow> bytes \<Rightarrow> nat \<Rightarrow> bytes \<Rightarrow> nat \<Rightarrow> int \<times> crypto_aead_ctx \<times> bytes option" where
  "crypto_aead_read ctx mac ad ad_size cipher_text text_size =
     (let auth_key = fst (crypto_chacha20_djb None 64 (ae_key ctx) (ae_nonce ctx) (ae_counter ctx));
          real_mac = lock_auth (take 32 auth_key) ad ad_size cipher_text text_size;
          mismatch = crypto_verify16 mac real_mac
      in if mismatch = 0
         then (mismatch, ctx\<lparr>ae_key := take 32 (drop 32 auth_key)\<rparr>,
               Some (fst (crypto_chacha20_djb (Some cipher_text) text_size (ae_key ctx) (ae_nonce ctx)
                            (ae_counter ctx + 1))))
         else (mismatch, ctx, None))"

definition crypto_aead_lock :: "bytes \<Rightarrow> bytes \<Rightarrow> bytes \<Rightarrow> nat \<Rightarrow> bytes \<Rightarrow> nat \<Rightarrow> bytes \<times> bytes" where
  "crypto_aead_lock key nonce ad ad_size plain_text text_size =
     snd (crypto_aead_write (crypto_aead_init_x key nonce) ad ad_size plain_text text_size)"

definition crypto_aead_unlock ::
    "bytes \<Rightarrow> bytes \<Rightarrow> bytes \<Rightarrow> bytes \<Rightarrow> nat \<Rightarrow> bytes \<Rightarrow> nat \<Rightarrow> int \<times> bytes option" where
  "crypto_aead_unlock mac key nonce ad ad_size cipher_text text_size =
     (let (mismatch, _, out) =
        crypto_aead_read (crypto_aead_init_x key nonce) mac ad ad_size cipher_text text_size
      in (mismatch, out))"

section \<open>The interface of an authenticated cipher\<close>

text \<open>
  \<open>seal c ad p\<close> gives the next state, the cipher text and the tag; \<open>unseal c ad t x\<close> the next
  state and the plain text, or none.
\<close>

locale aead =
  fixes valid :: "'c \<Rightarrow> bool"
    and seal :: "'c \<Rightarrow> bytes \<Rightarrow> bytes \<Rightarrow> 'c \<times> bytes \<times> bytes"
    and unseal :: "'c \<Rightarrow> bytes \<Rightarrow> bytes \<Rightarrow> bytes \<Rightarrow> 'c \<times> bytes option"
  assumes seal_shape: "valid c \<Longrightarrow> seal c ad p = (c', x, t) \<Longrightarrow> valid c' \<and> length x = length p \<and> length t = 16"
    and unseal_seal: "valid c \<Longrightarrow> seal c ad p = (c', x, t) \<Longrightarrow> unseal c ad t x = (c', Some p)"
    and unseal_sound: "valid c \<Longrightarrow> length t = 16 \<Longrightarrow> unseal c ad t x = (c', Some p) \<Longrightarrow> seal c ad p = (c', x, t)"
    and unseal_None: "unseal c ad t x = (c', None) \<Longrightarrow> c' = c"
begin

lemma unseal_iff:
  "valid c \<Longrightarrow> length t = 16 \<Longrightarrow> unseal c ad t x = (c', Some p) \<longleftrightarrow> seal c ad p = (c', x, t)"
  using unseal_seal unseal_sound by blast

lemma seal_inject:
  "valid c \<Longrightarrow> seal c ad p = seal c ad q \<Longrightarrow> p = q"
proof -
  assume v: "valid c" and e: "seal c ad p = seal c ad q"
  obtain c' x t where s: "seal c ad p = (c', x, t)" by (cases "seal c ad p") auto
  then have s': "seal c ad q = (c', x, t)" using e by simp
  show "p = q" using unseal_seal [OF v s] unseal_seal [OF v s'] by simp
qed

primrec seals :: "'c \<Rightarrow> (bytes \<times> bytes) list \<Rightarrow> (bytes \<times> bytes \<times> bytes) list" where
  "seals c [] = []"
| "seals c (m # ms) = (let (c', x, t) = seal c (fst m) (snd m) in (fst m, x, t) # seals c' ms)"

primrec unseals :: "'c \<Rightarrow> (bytes \<times> bytes \<times> bytes) list \<Rightarrow> bytes list option" where
  "unseals c [] = Some []"
| "unseals c (m # ms) =
     (case unseal c (fst m) (snd (snd m)) (fst (snd m)) of
        (c', None) \<Rightarrow> None
      | (c', Some p) \<Rightarrow> map_option (\<lambda>ps. p # ps) (unseals c' ms))"

text \<open>Two ends that start from the same state stay in step over a whole conversation.\<close>

lemma unseals_seals: "valid c \<Longrightarrow> unseals c (seals c ms) = Some (map snd ms)"
proof (induction ms arbitrary: c)
  case (Cons m ms)
  obtain c' x t where s: "seal c (fst m) (snd m) = (c', x, t)" by (cases "seal c (fst m) (snd m)") auto
  have "valid c'" using seal_shape [OF Cons.prems s] by blast
  with Cons.IH show ?case using unseal_seal [OF Cons.prems s] s by simp
qed simp

end

section \<open>What the modelled cipher computes\<close>

text \<open>The byte string RFC 8439 authenticates.\<close>

definition pad16 :: "bytes \<Rightarrow> bytes" where
  "pad16 b = b @ replicate ((16 - length b mod 16) mod 16) 0"

definition aead_mac_data :: "bytes \<Rightarrow> bytes \<Rightarrow> bytes" where
  "aead_mac_data ad x = pad16 ad @ pad16 x @ store64_le (of_nat (length ad)) @ store64_le (of_nat (length x))"

lemma lock_auth_correct:
  assumes "length auth_key = 32"
  shows "le_num (lock_auth auth_key ad (length ad) x (length x)) = poly1305_spec auth_key (aead_mac_data ad x)"
    and "length (lock_auth auth_key ad (length ad) x (length x)) = 16"
proof -
  let ?sizes = "store64_le (of_nat (length ad)) @ store64_le (of_nat (length x))"
  have g: "take (gap n 16) zero128 = replicate (gap n 16) 0" for n
    by (simp add: zero128_def gap16)
  have u: "poly_absorbed ctx auth_key m \<Longrightarrow>
      poly_absorbed (crypto_poly1305_update ctx (take (gap n 16) zero128) (gap n 16)) auth_key
        (m @ replicate ((16 - n mod 16) mod 16) 0)" for ctx m n
    using poly_absorbed_update [of ctx auth_key m "gap n 16" "replicate (gap n 16) 0"]
    unfolding g by (simp add: gap16)
  have sz: "16 = length ?sizes" by simp
  note a = poly_absorbed_update [OF u [OF poly_absorbed_update [OF u [OF poly_absorbed_update
    [OF poly_absorbed_init [OF assms], of "length ad" ad, OF refl]], of "length x" x, OF refl]] sz]
  note f = poly_absorbed_final [OF a assms]
  show "le_num (lock_auth auth_key ad (length ad) x (length x)) = poly1305_spec auth_key (aead_mac_data ad x)"
    using f(1) by (simp add: lock_auth_def Let_def aead_mac_data_def pad16_def)
  show "length (lock_auth auth_key ad (length ad) x (length x)) = 16"
    using f(2) by (simp add: lock_auth_def Let_def)
qed

definition valid_aead :: "crypto_aead_ctx \<Rightarrow> bool" where
  "valid_aead ctx \<longleftrightarrow> length (ae_key ctx) = 32 \<and> length (ae_nonce ctx) = 8"

definition aead_block0 :: "crypto_aead_ctx \<Rightarrow> bytes" where
  "aead_block0 ctx = keystream (ae_key ctx) (ae_nonce ctx) (ae_counter ctx) 64"

definition aead_xor :: "crypto_aead_ctx \<Rightarrow> bytes \<Rightarrow> bytes" where
  "aead_xor ctx p = map2 (XOR) (keystream (ae_key ctx) (ae_nonce ctx) (ae_counter ctx + 1) (length p)) p"

lemma aead_block0_length [simp]: "length (aead_block0 ctx) = 64"
  by (simp add: aead_block0_def)

lemma aead_xor_length [simp]: "length (aead_xor ctx p) = length p"
  by (simp add: aead_xor_def)

lemma aead_xor_xor [simp]: "aead_xor ctx (aead_xor ctx p) = p"
  by (simp add: aead_xor_def map2_xor_cancel)

lemma djb_block0: "fst (crypto_chacha20_djb None 64 (ae_key ctx) (ae_nonce ctx) (ae_counter ctx)) = aead_block0 ctx"
  by (simp add: djb_stream xor_opt_def aead_block0_def)

lemma djb_xor:
  "fst (crypto_chacha20_djb (Some p) (length p) (ae_key ctx) (ae_nonce ctx) (ae_counter ctx + 1)) = aead_xor ctx p"
  by (simp add: djb_stream xor_opt_def aead_xor_def)

lemma aead_write_eq:
  "crypto_aead_write ctx ad (length ad) p (length p) =
   (ctx\<lparr>ae_key := drop 32 (aead_block0 ctx)\<rparr>, aead_xor ctx p,
    lock_auth (take 32 (aead_block0 ctx)) ad (length ad) (aead_xor ctx p) (length p))"
  by (simp add: crypto_aead_write_def Let_def djb_block0 djb_xor)

lemma aead_read_eq:
  assumes "length t = 16"
  shows "crypto_aead_read ctx t ad (length ad) x (length x) =
   (if t = lock_auth (take 32 (aead_block0 ctx)) ad (length ad) x (length x)
    then (0, ctx\<lparr>ae_key := drop 32 (aead_block0 ctx)\<rparr>, Some (aead_xor ctx x))
    else (- 1, ctx, None))"
  by (simp add: crypto_aead_read_def Let_def djb_block0 djb_xor verify16 assms lock_auth_correct(2))

definition aead_seal :: "crypto_aead_ctx \<Rightarrow> bytes \<Rightarrow> bytes \<Rightarrow> crypto_aead_ctx \<times> bytes \<times> bytes" where
  "aead_seal ctx ad p = crypto_aead_write ctx ad (length ad) p (length p)"

definition aead_unseal :: "crypto_aead_ctx \<Rightarrow> bytes \<Rightarrow> bytes \<Rightarrow> bytes \<Rightarrow> crypto_aead_ctx \<times> bytes option" where
  "aead_unseal ctx ad t x = snd (crypto_aead_read ctx t ad (length ad) x (length x))"

interpretation mono: aead valid_aead aead_seal aead_unseal
proof unfold_locales
  fix c ad p c' x t assume v: "valid_aead c" and s: "aead_seal c ad p = (c', x, t)"
  have tag: "t = lock_auth (take 32 (aead_block0 c)) ad (length ad) x (length x)" and x: "x = aead_xor c p"
    and c': "c' = c\<lparr>ae_key := drop 32 (aead_block0 c)\<rparr>"
    using s by (auto simp: aead_seal_def aead_write_eq)
  have t: "length t = 16"
    using lock_auth_correct(2) [of "take 32 (aead_block0 c)" ad x] tag by simp
  show "valid_aead c' \<and> length x = length p \<and> length t = 16"
    using v t c' x by (simp add: valid_aead_def)
  show "aead_unseal c ad t x = (c', Some p)"
    using aead_read_eq [OF t, of c ad x] tag x c' by (simp add: aead_unseal_def)
next
  fix c ad x c' p and t :: bytes
  assume "valid_aead c" "length t = 16" "aead_unseal c ad t x = (c', Some p)"
  then show "aead_seal c ad p = (c', x, t)"
    by (auto simp: aead_unseal_def aead_read_eq aead_seal_def aead_write_eq split: if_splits)
next
  fix c ad x c' and t :: bytes
  assume "aead_unseal c ad t x = (c', None)"
  then show "c' = c" by (auto simp: aead_unseal_def crypto_aead_read_def Let_def split: if_splits)
qed

section \<open>Properties\<close>

text \<open>C23. The authenticated cipher is the one RFC 8439 describes: the cipher text is the plain text
  under the key stream from the block after the context's counter, the one-time key of the tag is the
  first half of the block at the counter, the tag is the Poly1305 number of the padded additional data,
  the padded cipher text and their two lengths, and the next message uses the second half of that
  block as its key, with nonce and counter unchanged.\<close>

theorem aead_write_rfc8439:
  "case crypto_aead_write ctx ad (length ad) p (length p) of (ctx', x, t) \<Rightarrow>
     x = map2 (XOR) (keystream (ae_key ctx) (ae_nonce ctx) (ae_counter ctx + 1) (length p)) p \<and>
     length t = 16 \<and>
     le_num t = poly1305_spec (take 32 (keystream (ae_key ctx) (ae_nonce ctx) (ae_counter ctx) 64))
                  (aead_mac_data ad x) \<and>
     ctx' = ctx\<lparr>ae_key := drop 32 (keystream (ae_key ctx) (ae_nonce ctx) (ae_counter ctx) 64)\<rparr>"
  using lock_auth_correct [of "take 32 (aead_block0 ctx)" ad "aead_xor ctx p"]
  by (simp add: aead_write_eq) (simp add: aead_block0_def aead_xor_def)

text \<open>C24. Reading accepts exactly what writing produced: for a 16-byte tag, the mismatch flag is 0 if
  and only if cipher text and tag are the output of a write in the same context for some plain text,
  and then that plain text and the writer's next context are what reading gives. Otherwise the flag
  is -1, nothing is written to the plain text buffer and the context is unchanged.\<close>

theorem aead_read_accepts_exactly_written:
  assumes "length t = 16" and "crypto_aead_read ctx t ad (length ad) x (length x) = (mismatch, ctx', out)"
  shows "if mismatch = 0
     then \<exists>p. out = Some p \<and> crypto_aead_write ctx ad (length ad) p (length p) = (ctx', x, t)
     else mismatch = - 1 \<and> out = None \<and> ctx' = ctx \<and>
       (\<forall>p ctx''. crypto_aead_write ctx ad (length ad) p (length p) \<noteq> (ctx'', x, t))"
  using assms(2) by (auto simp: aead_read_eq [OF assms(1)] aead_write_eq split: if_splits)

theorem aead_read_accepts_exactly_written_witness:
  "\<exists>p. Some p = Some [104, 105 :: u8] \<and>
     fst (snd (crypto_aead_write (crypto_aead_init_djb (replicate 32 7) (replicate 8 1)) [] 0 p (length p))) =
     fst (snd (crypto_aead_write (crypto_aead_init_djb (replicate 32 7) (replicate 8 1)) [] 0 [104, 105] 2))"
proof -
  let ?ctx = "crypto_aead_init_djb (replicate 32 7) (replicate 8 1)"
  obtain c x t where w: "aead_seal ?ctx [] [104, 105] = (c, x, t)" by (cases "aead_seal ?ctx [] [104, 105]") auto
  have v: "valid_aead ?ctx" by (simp add: valid_aead_def crypto_aead_init_djb_def)
  have t: "length t = 16" using mono.seal_shape [OF v w] by blast
  have u: "aead_unseal ?ctx [] t x = (c, Some [104, 105])" by (rule mono.unseal_seal [OF v w])
  obtain m where r: "crypto_aead_read ?ctx t [] (length ([] :: bytes)) x (length x) = (m, c, Some [104, 105])"
    using u by (cases "crypto_aead_read ?ctx t [] (length ([] :: bytes)) x (length x)") (auto simp: aead_unseal_def)
  from aead_read_accepts_exactly_written [OF t r] w show ?thesis
    by (auto simp: aead_seal_def numeral_2_eq_2 split: if_splits)
qed

primrec aead_write_all :: "crypto_aead_ctx \<Rightarrow> (bytes \<times> bytes) list \<Rightarrow> (bytes \<times> bytes \<times> bytes) list" where
  "aead_write_all ctx [] = []"
| "aead_write_all ctx (m # ms) =
     (let (ctx', x, t) = crypto_aead_write ctx (fst m) (length (fst m)) (snd m) (length (snd m))
      in (fst m, x, t) # aead_write_all ctx' ms)"

primrec aead_read_all :: "crypto_aead_ctx \<Rightarrow> (bytes \<times> bytes \<times> bytes) list \<Rightarrow> bytes list option" where
  "aead_read_all ctx [] = Some []"
| "aead_read_all ctx (m # ms) =
     (case crypto_aead_read ctx (snd (snd m)) (fst m) (length (fst m)) (fst (snd m)) (length (fst (snd m))) of
        (mismatch, ctx', None) \<Rightarrow> None
      | (mismatch, ctx', Some p) \<Rightarrow> map_option (\<lambda>ps. p # ps) (aead_read_all ctx' ms))"

lemma aead_write_all_seals: "aead_write_all ctx ms = mono.seals ctx ms"
  by (induction ms arbitrary: ctx) (simp_all add: aead_seal_def split: prod.split)

lemma aead_read_all_unseals: "aead_read_all ctx ms = mono.unseals ctx ms"
  by (induction ms arbitrary: ctx)
     (simp_all add: aead_unseal_def split_def Let_def split: prod.split option.split)

text \<open>Two ends of a conversation that hold the same valid context stay in step: every list of
  messages written one after the other is read back as the same list, whatever the messages and their
  additional data are.\<close>

theorem aead_conversation:
  assumes "length (ae_key ctx) = 32" and "length (ae_nonce ctx) = 8"
  shows "aead_read_all ctx (aead_write_all ctx ms) = Some (map snd ms)"
  unfolding aead_write_all_seals aead_read_all_unseals
  by (rule mono.unseals_seals) (simp add: valid_aead_def assms)

theorem aead_conversation_witness:
  "aead_read_all (crypto_aead_init_djb (replicate 32 7) (replicate 8 1))
     (aead_write_all (crypto_aead_init_djb (replicate 32 7) (replicate 8 1)) [([1], [2, 3]), ([], [4])]) =
   Some [[2, 3], [4]]"
  by (subst aead_conversation) (simp_all add: crypto_aead_init_djb_def)

end
