(* ===== verification/Blake2b.thy ===== *)
theory Blake2b
  imports MonoUtil
begin

unbundle bit_operations_syntax

text \<open>
  BLAKE2b of src/src/asyd/core/monocypher.c: the compression function, and the incremental interface
  that collects bytes into sixteen 64-bit words, holds the last block back until more input or the end
  comes, and counts the bytes in two words. The reference is the block recursion of RFC 7693 on the
  whole message.
\<close>

definition iv :: "u64 list" where
  "iv = [0x6a09e667f3bcc908, 0xbb67ae8584caa73b, 0x3c6ef372fe94f82b, 0xa54ff53a5f1d36f1,
         0x510e527fade682d1, 0x9b05688c2b3e6c1f, 0x1f83d9abfb41bd6b, 0x5be0cd19137e2179]"

record crypto_blake2b_ctx =
  b2_hash :: "u64 list"
  b2_input_offset :: "u64 \<times> u64"
  b2_input :: "u64 list"
  b2_input_idx :: nat
  b2_hash_size :: nat

definition sigma :: "nat list list" where
  "sigma =
    [[ 0,  1,  2,  3,  4,  5,  6,  7,  8,  9, 10, 11, 12, 13, 14, 15],
     [14, 10,  4,  8,  9, 15, 13,  6,  1, 12,  0,  2, 11,  7,  5,  3],
     [11,  8, 12,  0,  5,  2, 15, 13, 10, 14,  3,  6,  7,  1,  9,  4],
     [ 7,  9,  3,  1, 13, 12, 11, 14,  2,  6,  5, 10,  4,  0, 15,  8],
     [ 9,  0,  5,  7,  2,  4, 10, 15, 14,  1, 11, 12,  6,  8,  3, 13],
     [ 2, 12,  6, 10,  0, 11,  8,  3,  4, 13,  7,  5, 15, 14,  1,  9],
     [12,  5,  1, 15, 14, 13,  4, 10,  0,  7,  6,  3,  9,  2,  8, 11],
     [13, 11,  7, 14, 12,  1,  3,  9,  5,  0, 15,  4,  8,  6,  2, 10],
     [ 6, 15, 14,  9, 11,  3,  0,  8, 12,  2, 13,  7,  1,  4, 10,  5],
     [10,  2,  8,  4,  7,  6,  1,  5, 15, 11,  9, 14,  3, 12, 13,  0],
     [ 0,  1,  2,  3,  4,  5,  6,  7,  8,  9, 10, 11, 12, 13, 14, 15],
     [14, 10,  4,  8,  9, 15, 13,  6,  1, 12,  0,  2, 11,  7,  5,  3]]"

definition BLAKE2_G :: "nat \<Rightarrow> nat \<Rightarrow> nat \<Rightarrow> nat \<Rightarrow> u64 \<Rightarrow> u64 \<Rightarrow> u64 list \<Rightarrow> u64 list" where
  "BLAKE2_G a b c d x y v =
     (let v = v[a := v ! a + (v ! b + x)]; v = v[d := rotr64 (v ! d XOR v ! a) 32];
          v = v[c := v ! c + v ! d]; v = v[b := rotr64 (v ! b XOR v ! c) 24];
          v = v[a := v ! a + (v ! b + y)]; v = v[d := rotr64 (v ! d XOR v ! a) 16];
          v = v[c := v ! c + v ! d]; v = v[b := rotr64 (v ! b XOR v ! c) 63]
      in v)"

definition BLAKE2_ROUND :: "u64 list \<Rightarrow> nat \<Rightarrow> u64 list \<Rightarrow> u64 list" where
  "BLAKE2_ROUND inp i v =
     (let s = sigma ! i;
          v = BLAKE2_G 0 4 8 12 (inp ! (s ! 0)) (inp ! (s ! 1)) v;
          v = BLAKE2_G 1 5 9 13 (inp ! (s ! 2)) (inp ! (s ! 3)) v;
          v = BLAKE2_G 2 6 10 14 (inp ! (s ! 4)) (inp ! (s ! 5)) v;
          v = BLAKE2_G 3 7 11 15 (inp ! (s ! 6)) (inp ! (s ! 7)) v;
          v = BLAKE2_G 0 5 10 15 (inp ! (s ! 8)) (inp ! (s ! 9)) v;
          v = BLAKE2_G 1 6 11 12 (inp ! (s ! 10)) (inp ! (s ! 11)) v;
          v = BLAKE2_G 2 7 8 13 (inp ! (s ! 12)) (inp ! (s ! 13)) v;
          v = BLAKE2_G 3 4 9 14 (inp ! (s ! 14)) (inp ! (s ! 15)) v
      in v)"

text \<open>The mixing of one block into a hash, with the two counter words and the finalisation flag.\<close>

definition blake2b_mix :: "u64 list \<Rightarrow> u64 list \<Rightarrow> u64 \<Rightarrow> u64 \<Rightarrow> bool \<Rightarrow> u64 list" where
  "blake2b_mix hash inp off0 off1 is_last =
     (let last_block = (if is_last then 1 else 0 :: 32 word);
          v = take 8 hash @
              [iv ! 0, iv ! 1, iv ! 2, iv ! 3, iv ! 4 XOR off0, iv ! 5 XOR off1,
               iv ! 6 XOR scast (NOT (last_block - 1)), iv ! 7];
          v = foldl (\<lambda>v i. BLAKE2_ROUND inp i v) v [0..<12]
      in map (\<lambda>i. hash ! i XOR (v ! i XOR v ! (i + 8))) [0..<8])"

definition blake2b_compress :: "crypto_blake2b_ctx \<Rightarrow> bool \<Rightarrow> crypto_blake2b_ctx" where
  "blake2b_compress ctx is_last_block =
     (let y = (of_nat (b2_input_idx ctx) :: u64);
          x0 = fst (b2_input_offset ctx) + y;
          x1 = (if x0 < y then snd (b2_input_offset ctx) + 1 else snd (b2_input_offset ctx))
      in ctx\<lparr>b2_input_offset := (x0, x1),
             b2_hash := blake2b_mix (b2_hash ctx) (b2_input ctx) x0 x1 is_last_block\<rparr>)"

definition crypto_blake2b_keyed_init :: "nat \<Rightarrow> bytes \<Rightarrow> nat \<Rightarrow> crypto_blake2b_ctx" where
  "crypto_blake2b_keyed_init hash_size key key_size =
     (let ctx = \<lparr>b2_hash = iv[0 := iv ! 0 XOR ((0x01010000 XOR push_bit 8 (of_nat key_size)) XOR of_nat hash_size)],
                 b2_input_offset = (0, 0), b2_input = replicate 16 0, b2_input_idx = 0,
                 b2_hash_size = hash_size\<rparr>
      in if key_size > 0
         then ctx\<lparr>b2_input := load64_le_buf (take key_size key @ replicate (128 - key_size) 0) 16,
                  b2_input_idx := 128\<rparr>
         else ctx)"

definition crypto_blake2b_init :: "nat \<Rightarrow> crypto_blake2b_ctx" where
  "crypto_blake2b_init hash_size = crypto_blake2b_keyed_init hash_size [] 0"

text \<open>
  The four parts of the update: the rest of a word byte by byte, the rest of a block word by word,
  whole blocks, and the tail. Each takes and gives the context and the unread message.
\<close>

definition b2_or_byte :: "u64 list \<Rightarrow> nat \<Rightarrow> nat \<Rightarrow> u8 \<Rightarrow> u64 list" where
  "b2_or_byte inp word byte b = inp[word := inp ! word OR push_bit (byte * 8) (ucast b)]"

definition b2_load_words :: "u64 list \<Rightarrow> nat \<Rightarrow> bytes \<Rightarrow> nat \<Rightarrow> u64 list" where
  "b2_load_words inp at message nb_words =
     take at inp @ load64_le_buf message nb_words @ drop (at + nb_words) inp"

definition b2_align_word :: "crypto_blake2b_ctx \<Rightarrow> bytes \<Rightarrow> crypto_blake2b_ctx \<times> bytes" where
  "b2_align_word ctx message =
     (if b2_input_idx ctx mod 8 \<noteq> 0
      then let nb_bytes = min (gap (b2_input_idx ctx) 8) (length message);
               word = b2_input_idx ctx div 8;
               byte = b2_input_idx ctx mod 8;
               inp = foldl (\<lambda>inp i. b2_or_byte inp word (byte + i) (message ! i)) (b2_input ctx) [0..<nb_bytes]
           in (ctx\<lparr>b2_input := inp, b2_input_idx := b2_input_idx ctx + nb_bytes\<rparr>, drop nb_bytes message)
      else (ctx, message))"

definition b2_align_block :: "crypto_blake2b_ctx \<Rightarrow> bytes \<Rightarrow> crypto_blake2b_ctx \<times> bytes" where
  "b2_align_block ctx message =
     (if b2_input_idx ctx mod 128 \<noteq> 0
      then let nb_words = min (gap (b2_input_idx ctx) 128) (length message) div 8
           in (ctx\<lparr>b2_input := b2_load_words (b2_input ctx) (b2_input_idx ctx div 8) message nb_words,
                   b2_input_idx := b2_input_idx ctx + nb_words * 8\<rparr>,
               drop (nb_words * 8) message)
      else (ctx, message))"

primrec b2_blocks :: "nat \<Rightarrow> crypto_blake2b_ctx \<Rightarrow> bytes \<Rightarrow> crypto_blake2b_ctx \<times> bytes" where
  "b2_blocks 0 ctx message = (ctx, message)"
| "b2_blocks (Suc n) ctx message =
     (let ctx = (if b2_input_idx ctx = 128 then blake2b_compress ctx False else ctx);
          ctx = ctx\<lparr>b2_input := load64_le_buf message 16, b2_input_idx := 128\<rparr>
      in b2_blocks n ctx (drop 128 message))"

definition b2_tail :: "crypto_blake2b_ctx \<Rightarrow> bytes \<Rightarrow> crypto_blake2b_ctx" where
  "b2_tail ctx message =
     (if message \<noteq> []
      then let ctx = (if b2_input_idx ctx = 128 then (blake2b_compress ctx False)\<lparr>b2_input_idx := 0\<rparr> else ctx);
               ctx = (if b2_input_idx ctx = 0 then ctx\<lparr>b2_input := replicate 16 0\<rparr> else ctx);
               nb_words = length message div 8;
               ctx = ctx\<lparr>b2_input := b2_load_words (b2_input ctx) 0 message nb_words,
                         b2_input_idx := b2_input_idx ctx + nb_words * 8\<rparr>
           in foldl (\<lambda>ctx b. ctx\<lparr>b2_input := b2_or_byte (b2_input ctx) (b2_input_idx ctx div 8)
                                    (b2_input_idx ctx mod 8) b,
                                  b2_input_idx := b2_input_idx ctx + 1\<rparr>)
                ctx (drop (nb_words * 8) message)
      else ctx)"

definition crypto_blake2b_update :: "crypto_blake2b_ctx \<Rightarrow> bytes \<Rightarrow> nat \<Rightarrow> crypto_blake2b_ctx" where
  "crypto_blake2b_update ctx message message_size =
     (if message_size = 0 then ctx
      else let (ctx, message) = b2_align_word ctx (take message_size message);
               (ctx, message) = b2_align_block ctx message;
               (ctx, message) = b2_blocks (length message div 128) ctx message
           in b2_tail ctx message)"

definition crypto_blake2b_final :: "crypto_blake2b_ctx \<Rightarrow> bytes" where
  "crypto_blake2b_final ctx =
     (let ctx = blake2b_compress ctx True;
          hash_size = min (b2_hash_size ctx) 64;
          nb_words = hash_size div 8
      in store64_le_buf (b2_hash ctx) nb_words @
         map (\<lambda>i. ucast (drop_bit (8 * (i mod 8)) (b2_hash ctx ! (i div 8)) AND 0xff)) [nb_words * 8..<hash_size])"

definition crypto_blake2b_keyed :: "nat \<Rightarrow> bytes \<Rightarrow> nat \<Rightarrow> bytes \<Rightarrow> nat \<Rightarrow> bytes" where
  "crypto_blake2b_keyed hash_size key key_size message message_size =
     crypto_blake2b_final (crypto_blake2b_update (crypto_blake2b_keyed_init hash_size key key_size)
       message message_size)"

definition crypto_blake2b :: "nat \<Rightarrow> bytes \<Rightarrow> nat \<Rightarrow> bytes" where
  "crypto_blake2b hash_size msg msg_size = crypto_blake2b_keyed hash_size [] 0 msg msg_size"

section \<open>The reference definition\<close>

text \<open>The words of a block of at most 128 bytes, filled up with zeros.\<close>

definition block_pad :: "bytes \<Rightarrow> bytes" where
  "block_pad pd = pd @ replicate (128 - length pd) 0"

definition block_words :: "bytes \<Rightarrow> u64 list" where
  "block_words pd = load64_le_buf (block_pad pd) 16"

text \<open>Compression of a block after \<open>t\<close> bytes in all: the counter is a 128-bit number.\<close>

definition b2_F :: "u64 list \<Rightarrow> bytes \<Rightarrow> nat \<Rightarrow> bool \<Rightarrow> u64 list" where
  "b2_F h block t is_last = blake2b_mix h (block_words block) (of_nat t) (of_nat (t div 2 ^ 64)) is_last"

function b2_chain :: "nat \<Rightarrow> u64 list \<Rightarrow> bytes \<Rightarrow> u64 list" where
  "b2_chain t h m =
     (if length m \<le> 128 then b2_F h m (t + length m) True
      else b2_chain (t + 128) (b2_F h (take 128 m) (t + 128) False) (drop 128 m))"
  by pat_completeness auto
termination
  by (relation "measure (\<lambda>(t, h, m). length m)") auto

declare b2_chain.simps [simp del]

definition blake2b_spec :: "nat \<Rightarrow> bytes \<Rightarrow> bytes \<Rightarrow> bytes" where
  "blake2b_spec hash_size key m =
     (let h0 = iv[0 := iv ! 0 XOR (0x01010000 XOR push_bit 8 (of_nat (length key)) XOR of_nat hash_size)];
          key_block = (if key = [] then [] else block_pad key)
      in take hash_size (concat (map store64_le (b2_chain 0 h0 (key_block @ m)))))"

section \<open>Words and bytes\<close>

lemma octet_eq: "a < 8 \<Longrightarrow> b < 8 \<Longrightarrow> 8 * i + a = 8 * w + b \<longleftrightarrow> i = w \<and> a = b" for a b i w :: nat
  by presburger

lemma octet_split: "k + n < 8 \<Longrightarrow> (8 * w + k + n) div 8 = w \<and> (8 * w + k + n) mod 8 = k + n" for k n w :: nat
  by (simp add: add.assoc)

lemma octet_room: "l mod 8 \<noteq> 0 \<Longrightarrow> l \<le> 128 \<Longrightarrow> l \<le> 120 + l mod 8" for l :: nat
proof -
  assume a: "l mod 8 \<noteq> 0" "l \<le> 128"
  define w k where "w = l div 8" and "k = l mod 8"
  have l: "l = 8 * w + k" by (simp add: w_def k_def)
  have "w < 16" using a(2) a(1)[folded k_def] l by simp
  then show ?thesis unfolding k_def [symmetric] using l by simp
qed

lemma octet_less: "a < 8 \<Longrightarrow> i < j \<Longrightarrow> 8 * i + a < 8 * j" for a i j :: nat
  by linarith

lemma bit_load32:
  assumes "n < 32"
  shows "bit (load32_le s) n = bit (s ! (n div 8)) (n mod 8)"
proof -
  consider "n < 8" | "8 \<le> n" "n < 16" | "16 \<le> n" "n < 24" | "24 \<le> n" "n < 32" using assms by linarith
  then show ?thesis
  proof cases
    case 1
    then show ?thesis by (auto simp: load32_le_def bit_simps)
  next
    case 2
    then have "n div 8 = 1" "n mod 8 = n - 8" by (auto intro: div_nat_eqI simp: mod_if)
    with 2 show ?thesis by (auto simp: load32_le_def bit_simps dest: bit_imp_le_length)
  next
    case 3
    then have "n div 8 = 2" "n mod 8 = n - 16" by (auto intro: div_nat_eqI simp: mod_if)
    with 3 show ?thesis by (auto simp: load32_le_def bit_simps dest: bit_imp_le_length)
  next
    case 4
    then have "n div 8 = 3" "n mod 8 = n - 24" by (auto intro: div_nat_eqI simp: mod_if)
    with 4 show ?thesis by (auto simp: load32_le_def bit_simps dest: bit_imp_le_length)
  qed
qed

lemma bit_load64:
  assumes "n < 64" and "8 \<le> length s"
  shows "bit (load64_le s) n = bit (s ! (n div 8)) (n mod 8)"
proof (cases "n < 32")
  case True
  then show ?thesis by (simp add: load64_le_def bit_simps bit_load32)
next
  case False
  then obtain k where k: "n = 32 + k" "k < 32" using assms(1) by (metis add_less_cancel_left le_Suc_ex not_le numeral_Bit0)
  have d: "(32 + k) div 8 = 4 + k div 8" "(32 + k) mod 8 = k mod 8"
    by presburger+
  have "bit (load64_le s) n = bit (load32_le (drop 4 s)) k"
    using k by (simp add: load64_le_def bit_simps) (auto dest: bit_imp_le_length)
  then show ?thesis using k d assms(2) by (simp add: bit_load32)
qed

lemma block_pad_length [simp]: "length pd \<le> 128 \<Longrightarrow> length (block_pad pd) = 128"
  by (simp add: block_pad_def)

lemma block_words_length [simp]: "length (block_words pd) = 16"
  by (simp add: block_words_def)

lemma block_pad_nth: "j < 128 \<Longrightarrow> length pd \<le> 128 \<Longrightarrow> block_pad pd ! j = (if j < length pd then pd ! j else 0)"
  by (simp add: block_pad_def nth_append)

lemma bit_block_word:
  assumes "i < 16" and "n < 64" and "length pd \<le> 128"
  shows "bit (block_words pd ! i) n =
    (8 * i + n div 8 < length pd \<and> bit (pd ! (8 * i + n div 8)) (n mod 8))"
proof -
  have d: "n div 8 < 8" using assms(2) by (simp add: less_mult_imp_div_less)
  then have "8 * i + n div 8 < 128" using assms(1) by linarith
  moreover have "drop (i * 8) (block_pad pd) ! (n div 8) = block_pad pd ! (8 * i + n div 8)"
    using assms(1,3) by (subst nth_drop) (simp_all add: mult.commute)
  moreover have "8 \<le> length (drop (i * 8) (block_pad pd))" using assms by simp
  ultimately show ?thesis
    using assms by (simp add: block_words_def bit_load64 block_pad_nth del: length_drop nth_drop)
qed

lemma block_words_push:
  assumes "length pd < 128"
  shows "block_words (pd @ [b]) = b2_or_byte (block_words pd) (length pd div 8) (length pd mod 8) b"
proof (rule nth_equalityI)
  show "length (block_words (pd @ [b])) = length (b2_or_byte (block_words pd) (length pd div 8) (length pd mod 8) b)"
    by (simp add: b2_or_byte_def)
  fix i assume "i < length (block_words (pd @ [b]))"
  then have i: "i < 16" by simp
  show "block_words (pd @ [b]) ! i = b2_or_byte (block_words pd) (length pd div 8) (length pd mod 8) b ! i"
  proof (rule bit_word_eqI)
    fix n assume "n < LENGTH(64)"
    then have n: "n < 64" by simp
    define w k where "w = length pd div 8" and "k = length pd mod 8"
    have wk: "length pd = 8 * w + k" "k < 8" by (simp_all add: w_def k_def)
    have byte: "bit b (n - k * 8) \<and> k * 8 \<le> n \<longleftrightarrow> n div 8 = k \<and> bit b (n mod 8)"
    proof
      assume a: "bit b (n - k * 8) \<and> k * 8 \<le> n"
      then have "n - k * 8 < 8" by (auto dest: bit_imp_le_length)
      then have "n div 8 = k" using a by (intro div_nat_eqI) auto
      moreover from this have "n mod 8 = n - k * 8" by (metis minus_div_mult_eq_mod)
      ultimately show "n div 8 = k \<and> bit b (n mod 8)" using a by simp
    next
      assume a: "n div 8 = k \<and> bit b (n mod 8)"
      then have "n mod 8 = n - k * 8" by (metis minus_div_mult_eq_mod)
      moreover have "k * 8 \<le> n" using a by (metis div_times_less_eq_dividend)
      ultimately show "bit b (n - k * 8) \<and> k * 8 \<le> n" using a by simp
    qed
    have idx: "8 * i + n div 8 = length pd \<longleftrightarrow> i = w \<and> n div 8 = k"
    proof -
      have "n div 8 < 8" using n by (simp add: less_mult_imp_div_less)
      then show ?thesis unfolding wk(1) using wk(2) by (rule octet_eq)
    qed
    have old: "8 * i + n div 8 = length pd \<Longrightarrow> \<not> bit (block_words pd ! i) n"
      using i n assms by (simp add: bit_block_word)
    have "bit (block_words (pd @ [b]) ! i) n \<longleftrightarrow>
        bit (block_words pd ! i) n \<or> (i = w \<and> n div 8 = k \<and> bit b (n mod 8))"
      using i n assms idx by (auto simp: bit_block_word nth_append less_Suc_eq)
    also have "\<dots> \<longleftrightarrow> bit (b2_or_byte (block_words pd) w k b ! i) n"
    proof -
      have "w < 16" using wk assms by linarith
      then have nth: "b2_or_byte (block_words pd) w k b ! i =
          (if i = w then block_words pd ! i OR push_bit (k * 8) (ucast b) else block_words pd ! i)"
        using i by (simp add: b2_or_byte_def nth_list_update)
      have "bit (push_bit (k * 8) (ucast b) :: u64) n \<longleftrightarrow> k * 8 \<le> n \<and> bit b (n - k * 8)"
        using n by (auto simp: bit_simps dest: bit_imp_le_length)
      then show ?thesis using byte by (auto simp: nth bit_or_iff)
    qed
    finally show "bit (block_words (pd @ [b]) ! i) n =
        bit (b2_or_byte (block_words pd) (length pd div 8) (length pd mod 8) b ! i) n"
      by (simp only: w_def k_def)
  qed
qed

lemma block_words_load:
  assumes "length pd = 8 * w" and "w + k \<le> 16" and "8 * k \<le> length m"
  shows "block_words (pd @ take (8 * k) m) = b2_load_words (block_words pd) w m k"
proof (rule nth_equalityI)
  have len: "length (b2_load_words (block_words pd) w m k) = 16"
    using assms by (simp add: b2_load_words_def)
  then show "length (block_words (pd @ take (8 * k) m)) = length (b2_load_words (block_words pd) w m k)" by simp
  fix i assume "i < length (block_words (pd @ take (8 * k) m))"
  then have i: "i < 16" by simp
  show "block_words (pd @ take (8 * k) m) ! i = b2_load_words (block_words pd) w m k ! i"
  proof (rule bit_word_eqI)
    fix n assume "n < LENGTH(64)"
    then have n: "n < 64" and d: "n div 8 < 8" by (simp_all add: less_mult_imp_div_less)
    have l: "length (pd @ take (8 * k) m) = 8 * (w + k)" using assms by simp
    have rhs: "b2_load_words (block_words pd) w m k ! i =
        (if i < w then block_words pd ! i else if i < w + k then load64_le (drop ((i - w) * 8) m)
         else block_words pd ! i)"
      using i assms by (auto simp: b2_load_words_def nth_append)
    show "bit (block_words (pd @ take (8 * k) m) ! i) n = bit (b2_load_words (block_words pd) w m k ! i) n"
    proof (cases "i < w")
      case True
      then have "8 * i + n div 8 < 8 * w" by (rule octet_less [OF d])
      then show ?thesis using True i n assms l rhs by (simp add: bit_block_word nth_append)
    next
      case False
      show ?thesis
      proof (cases "i < w + k")
        case True
        have "8 * i + n div 8 < 8 * (w + k)" by (rule octet_less [OF d True])
        moreover have "8 * i + n div 8 - 8 * w = (i - w) * 8 + n div 8" using False by (simp add: diff_mult_distrib2)
        moreover have "(i - w) * 8 + n div 8 < 8 * k"
          using octet_less [OF d, of "i - w" k] True False by (simp add: mult.commute)
        moreover have "8 \<le> length (drop ((i - w) * 8) m)" using True False assms(3) by simp
        note bit_load64 [OF n this]
        ultimately show ?thesis
          using True False i n assms l rhs by (simp add: bit_block_word nth_append)
      next
        case ge: False
        then have "8 * (w + k) \<le> 8 * i" by simp
        then have "\<not> 8 * i + n div 8 < 8 * (w + k)" and "\<not> 8 * i + n div 8 < 8 * w"
          by (simp_all add: not_less trans_le_add1)
        then show ?thesis using False ge i n assms l rhs by (simp add: bit_block_word)
      qed
    qed
  qed
qed

section \<open>The invariant of the incremental interface\<close>

text \<open>
  The context after \<open>bl\<close> has been compressed and while \<open>pd\<close> waits in the input words; \<open>h0\<close>
  is the hash it started from. The last block is held back, so that it can be compressed as the final one.
\<close>

definition b2_inv :: "crypto_blake2b_ctx \<Rightarrow> u64 list \<Rightarrow> bytes \<Rightarrow> bytes \<Rightarrow> bool" where
  "b2_inv ctx h0 bl pd \<longleftrightarrow>
     length pd \<le> 128 \<and>
     b2_input ctx = block_words pd \<and> b2_input_idx ctx = length pd \<and>
     b2_input_offset ctx = (of_nat (length bl), of_nat (length bl div 2 ^ 64)) \<and>
     length (b2_hash ctx) = 8 \<and>
     (\<forall>x. x \<noteq> [] \<or> bl = [] \<longrightarrow> b2_chain 0 h0 (bl @ x) = b2_chain (length bl) (b2_hash ctx) x)"

text \<open>The two counter words after \<open>y\<close> more bytes.\<close>

lemma unat_of_nat64: "unat (of_nat n :: u64) = n mod 2 ^ 64"
  by (simp add: unat_of_nat)

lemma counter_add:
  assumes "y < 2 ^ 64"
  shows "(if (of_nat n + of_nat y :: u64) < of_nat y then of_nat (n div 18446744073709551616) + 1
      else of_nat (n div 18446744073709551616) :: u64) =
    of_nat ((n + y) div 18446744073709551616)"
proof -
  define r q where "r = n mod 2 ^ 64" and "q = n div 2 ^ 64"
  have n: "n = r + 2 ^ 64 * q" and r: "r < 2 ^ 64" by (simp_all add: r_def q_def)
  have "(n + y) mod 2 ^ 64 = (r + y) mod 2 ^ 64" by (simp add: r_def mod_add_left_eq)
  then have "(of_nat n + of_nat y :: u64) < of_nat y \<longleftrightarrow> (r + y) mod 2 ^ 64 < y"
    using assms by (simp add: word_less_nat_alt unat_of_nat64 flip: of_nat_add)
  also have "\<dots> \<longleftrightarrow> 2 ^ 64 \<le> r + y"
  proof (cases "r + y < 2 ^ 64")
    case True
    then show ?thesis by simp
  next
    case False
    then have "(r + y) mod 2 ^ 64 = r + y - 2 ^ 64" using r assms by (subst le_mod_geq) simp_all
    then show ?thesis using False r by simp
  qed
  finally have c: "(of_nat n + of_nat y :: u64) < of_nat y \<longleftrightarrow> 2 ^ 64 \<le> r + y" .
  have "(n + y) div 2 ^ 64 = q + (r + y) div 2 ^ 64" using n by (simp add: add.assoc add.commute)
  moreover have "(r + y) div 2 ^ 64 = (if 2 ^ 64 \<le> r + y then 1 else 0)"
    using r assms by (auto intro: div_nat_eqI)
  ultimately show ?thesis using c by (simp add: q_def)
qed

lemma blake2b_mix_length [simp]: "length (blake2b_mix h inp a b l) = 8"
  by (simp add: blake2b_mix_def Let_def)

lemma compress_F:
  assumes "b2_inv ctx h0 bl pd"
  shows "b2_hash (blake2b_compress ctx l) = b2_F (b2_hash ctx) pd (length bl + length pd) l"
    and "b2_input_offset (blake2b_compress ctx l) =
      (of_nat (length bl + length pd), of_nat ((length bl + length pd) div 2 ^ 64))"
    and "b2_hash_size (blake2b_compress ctx l) = b2_hash_size ctx"
proof -
  have y: "length pd < 2 ^ 64" using assms by (simp add: b2_inv_def)
  note c = counter_add [OF y, of "length bl"]
  show "b2_hash (blake2b_compress ctx l) = b2_F (b2_hash ctx) pd (length bl + length pd) l"
    and "b2_input_offset (blake2b_compress ctx l) =
      (of_nat (length bl + length pd), of_nat ((length bl + length pd) div 2 ^ 64))"
    and "b2_hash_size (blake2b_compress ctx l) = b2_hash_size ctx"
    using assms c by (auto simp: blake2b_compress_def b2_inv_def b2_F_def Let_def split: if_splits)
qed

lemma b2_chain_last: "length m \<le> 128 \<Longrightarrow> b2_chain t h m = b2_F h m (t + length m) True"
  by (subst b2_chain.simps) simp

lemma b2_chain_step:
  "length a = 128 \<Longrightarrow> x \<noteq> [] \<Longrightarrow> b2_chain t h (a @ x) = b2_chain (t + 128) (b2_F h a (t + 128) False) x"
  by (subst b2_chain.simps) simp

text \<open>A full input buffer, once more input is known to come, is compressed and replaced by new input.\<close>

lemma b2_inv_next_block:
  assumes inv: "b2_inv ctx h0 bl pd" and pd: "length pd = 128" and new: "length new \<le> 128"
  shows "b2_inv ((blake2b_compress ctx False)\<lparr>b2_input := block_words new, b2_input_idx := length new\<rparr>) h0 (bl @ pd) new"
proof -
  note c = compress_F [OF inv, of False]
  have "pd \<noteq> []" using pd by auto
  then have "b2_chain 0 h0 (bl @ pd @ x) = b2_chain (length bl) (b2_hash ctx) (pd @ x)" for x
    using inv by (simp add: b2_inv_def)
  then have "b2_chain 0 h0 ((bl @ pd) @ x) =
      b2_chain (length (bl @ pd)) (b2_F (b2_hash ctx) pd (length bl + length pd) False) x" if "x \<noteq> []" for x
    using that pd by (simp add: b2_chain_step)
  then show ?thesis
    using c new pd by (auto simp: b2_inv_def b2_F_def)
qed

lemma b2_inv_extend:
  assumes "b2_inv ctx h0 bl pd" and "length pd + length new \<le> 128"
  shows "b2_inv (ctx\<lparr>b2_input := block_words (pd @ new), b2_input_idx := length pd + length new\<rparr>) h0 bl (pd @ new)"
  using assms by (auto simp: b2_inv_def)

lemma b2_inv_push:
  assumes "b2_inv ctx h0 bl pd" and "length pd < 128"
  shows "b2_inv (ctx\<lparr>b2_input := b2_or_byte (b2_input ctx) (b2_input_idx ctx div 8) (b2_input_idx ctx mod 8) b,
                     b2_input_idx := b2_input_idx ctx + 1\<rparr>) h0 bl (pd @ [b])"
  using b2_inv_extend [OF assms(1), of "[b]"] assms
  by (simp add: b2_inv_def block_words_push)

section \<open>The update\<close>

lemma b2_inv_idx: "b2_inv ctx h0 bl pd \<Longrightarrow> b2_input_idx ctx = length pd"
  by (simp add: b2_inv_def)

lemma b2_inv_pushes:
  "b2_inv ctx h0 bl pd \<Longrightarrow> length pd + length bs \<le> 128 \<Longrightarrow>
   b2_inv (foldl (\<lambda>ctx b. ctx\<lparr>b2_input := b2_or_byte (b2_input ctx) (b2_input_idx ctx div 8) (b2_input_idx ctx mod 8) b,
                               b2_input_idx := b2_input_idx ctx + 1\<rparr>) ctx bs) h0 bl (pd @ bs)"
proof (induction bs arbitrary: ctx pd)
  case (Cons b bs)
  then show ?case using Cons.IH [OF b2_inv_push [OF Cons.prems(1)], of b] by simp
qed simp

lemma or_bytes_words:
  "n \<le> length m \<Longrightarrow> length pd mod 8 + n \<le> 8 \<Longrightarrow> length pd \<le> 120 + length pd mod 8 \<Longrightarrow>
   foldl (\<lambda>inp i. b2_or_byte inp (length pd div 8) (length pd mod 8 + i) (m ! i)) (block_words pd) [0..<n] =
   block_words (pd @ take n m)"
proof (induction n)
  case (Suc n)
  let ?p = "pd @ take n m"
  have l: "length ?p = length pd + n" using Suc.prems by simp
  have dm: "length ?p div 8 = length pd div 8" "length ?p mod 8 = length pd mod 8 + n"
    using octet_split [of "length pd mod 8" n "length pd div 8"] Suc.prems(2) unfolding l by simp_all
  have "take (Suc n) m = take n m @ [m ! n]" using Suc.prems by (simp add: take_Suc_nth)
  then have "block_words (pd @ take (Suc n) m) = b2_or_byte (block_words ?p) (length ?p div 8) (length ?p mod 8) (m ! n)"
    using block_words_push [of ?p "m ! n"] l Suc.prems by simp
  then show ?case using Suc dm by simp
qed simp

lemma b2_align_word_inv:
  assumes inv: "b2_inv ctx h0 bl pd"
  shows "\<exists>pd' m'. snd (b2_align_word ctx m) = m' \<and>
    b2_inv (fst (b2_align_word ctx m)) h0 bl pd' \<and> pd' @ m' = pd @ m \<and>
    (length pd' mod 8 = 0 \<or> m' = []) \<and> (pd' = [] \<longrightarrow> pd = [])"
proof (cases "length pd mod 8 = 0")
  case True
  then show ?thesis using inv by (intro exI [of _ pd] exI [of _ m]) (simp add: b2_align_word_def b2_inv_idx)
next
  case False
  define n where "n = min (gap (length pd) 8) (length m)"
  have k: "length pd mod 8 < 8" by simp
  have n: "n \<le> length m" "length pd mod 8 + n \<le> 8" "length pd mod 8 + n = 8 \<or> n = length m"
    using False k by (auto simp: n_def gap8)
  have le: "length pd \<le> 128" using inv by (simp add: b2_inv_def)
  have b: "length pd \<le> 120 + length pd mod 8"
    by (rule octet_room [OF False le])
  have step: "b2_align_word ctx m =
      (ctx\<lparr>b2_input := block_words (pd @ take n m), b2_input_idx := length pd + n\<rparr>, drop n m)"
    using False inv or_bytes_words [OF n(1,2) b] by (simp add: b2_align_word_def b2_inv_def n_def Let_def)
  have "length pd + n \<le> 128" using b n(2) by linarith
  then have "b2_inv (fst (b2_align_word ctx m)) h0 bl (pd @ take n m)"
    using b2_inv_extend [OF inv, of "take n m"] n(1) step by simp
  moreover have "length (pd @ take n m) mod 8 = 0 \<or> drop n m = []"
  proof -
    have "(length pd + n) mod 8 = (length pd mod 8 + n) mod 8" by (rule mod_add_left_eq [symmetric])
    then show ?thesis using n(1,3) by (elim disjE) simp_all
  qed
  ultimately show ?thesis
    using step by (intro exI [of _ "pd @ take n m"] exI [of _ "drop n m"]) simp
qed

text \<open>After the alignment either the buffer is at a block boundary, or less than a word is left to read.\<close>

definition b2_aligned :: "bytes \<Rightarrow> bytes \<Rightarrow> bool" where
  "b2_aligned pd m \<longleftrightarrow>
     pd = [] \<or> length pd = 128 \<or> m = [] \<or>
     length pd mod 8 = 0 \<and> length m < 8 \<and> length pd + length m \<le> 128"

lemma load_words_inv:
  assumes inv: "b2_inv ctx h0 bl pd" and "length pd = 8 * w" and "w + k \<le> 16" and "8 * k \<le> length m"
  shows "b2_inv (ctx\<lparr>b2_input := b2_load_words (b2_input ctx) w m k, b2_input_idx := length pd + k * 8\<rparr>)
    h0 bl (pd @ take (8 * k) m)"
  using b2_inv_extend [OF inv, of "take (8 * k) m"] block_words_load [OF assms(2-4)] assms
  by (simp add: b2_inv_def mult.commute)

lemma b2_align_block_inv:
  assumes inv: "b2_inv ctx h0 bl pd" and al: "length pd mod 8 = 0 \<or> m = []"
  shows "\<exists>pd' m'. snd (b2_align_block ctx m) = m' \<and>
    b2_inv (fst (b2_align_block ctx m)) h0 bl pd' \<and> pd' @ m' = pd @ m \<and> b2_aligned pd' m' \<and>
    (pd' = [] \<longrightarrow> pd = [])"
proof (cases "m = [] \<or> length pd mod 128 = 0")
  case True
  have le: "length pd \<le> 128" using inv by (simp add: b2_inv_def)
  have *: "b2_align_block ctx m = (ctx, m)"
    using True inv by (auto simp: b2_align_block_def b2_inv_def b2_load_words_def Let_def load64_le_buf_def)
  have "pd = [] \<or> length pd = 128" if "length pd mod 128 = 0"
    using that le by (cases "length pd = 128") auto
  then show ?thesis using True inv * by (intro exI [of _ pd] exI [of _ m]) (auto simp: b2_aligned_def)
next
  case False
  define w where "w = length pd div 8"
  have pd: "length pd = 8 * w" using al False by (auto simp: w_def)
  have "length pd \<le> 128" using inv by (simp add: b2_inv_def)
  then have w: "w < 16" using False pd by (cases "w = 16") auto
  have g: "gap (length pd) 128 = 8 * (16 - w)" using w False pd by (simp add: gap128 diff_mult_distrib2)
  define k where "k = min (gap (length pd) 128) (length m) div 8"
  have k: "w + k \<le> 16" "8 * k \<le> length m" using w by (auto simp: k_def g min_def)
  have step: "b2_align_block ctx m =
      (ctx\<lparr>b2_input := b2_load_words (b2_input ctx) w m k, b2_input_idx := length pd + k * 8\<rparr>, drop (k * 8) m)"
    using False b2_inv_idx [OF inv] by (simp add: b2_align_block_def k_def w_def Let_def)
  have "b2_aligned (pd @ take (8 * k) m) (drop (k * 8) m)"
  proof (cases "length m < 8 * (16 - w)")
    case True
    then have kd: "k = length m div 8" by (simp add: k_def g)
    have "length m - 8 * (length m div 8) < 8" by (simp add: minus_mult_div_eq_mod)
    moreover have "8 * w + length m \<le> 128" using True w by (simp add: diff_mult_distrib2)
    ultimately show ?thesis using kd pd k(2) by (simp add: b2_aligned_def mult.commute)
  next
    case ge: False
    then have "k = 16 - w" by (simp add: k_def g min_def)
    moreover have "8 * w + 8 * (16 - w) = 128" using w by simp
    ultimately show ?thesis using ge pd w by (simp add: b2_aligned_def)
  qed
  then show ?thesis
    using step load_words_inv [OF inv pd k] k(2)
    by (intro exI [of _ "pd @ take (8 * k) m"] exI [of _ "drop (k * 8) m"]) (simp add: mult.commute)
qed

lemma load_block: "128 \<le> length m \<Longrightarrow> load64_le_buf m 16 = block_words (take 128 m)"
  using block_words_load [of "[]" 0 16 m] by (simp add: b2_load_words_def)

lemma b2_blocks_inv:
  "b2_inv ctx h0 bl pd \<Longrightarrow> (pd = [] \<and> bl = []) \<or> length pd = 128 \<Longrightarrow> 128 * n \<le> length m \<Longrightarrow>
   \<exists>bl' pd'. snd (b2_blocks n ctx m) = drop (128 * n) m \<and> b2_inv (fst (b2_blocks n ctx m)) h0 bl' pd' \<and>
     bl' @ pd' = bl @ pd @ take (128 * n) m \<and> ((pd' = [] \<and> bl' = []) \<or> length pd' = 128)"
proof (induction n arbitrary: ctx bl pd m)
  case 0
  then show ?case by (intro exI [of _ bl] exI [of _ pd]) simp
next
  case (Suc n)
  let ?b = "take 128 m"
  have len: "length ?b = 128" "128 \<le> length m" using Suc.prems(3) by simp_all
  let ?c = "(if b2_input_idx ctx = 128 then blake2b_compress ctx False else ctx)
    \<lparr>b2_input := load64_le_buf m 16, b2_input_idx := 128\<rparr>"
  have "b2_inv ?c h0 (bl @ pd) ?b"
  proof (cases "length pd = 128")
    case True
    then show ?thesis
      using b2_inv_next_block [OF Suc.prems(1) True, of ?b] len b2_inv_idx [OF Suc.prems(1)]
      by (simp add: load_block)
  next
    case False
    then have "pd = []" "bl = []" using Suc.prems(2) by auto
    then show ?thesis
      using b2_inv_extend [OF Suc.prems(1), of ?b] len b2_inv_idx [OF Suc.prems(1)]
      by (simp add: load_block)
  qed
  moreover have "128 * n \<le> length (drop 128 m)" using Suc.prems(3) by simp
  ultimately obtain bl' pd' where *: "snd (b2_blocks n ?c (drop 128 m)) = drop (128 * n) (drop 128 m)"
      "b2_inv (fst (b2_blocks n ?c (drop 128 m))) h0 bl' pd'"
      "bl' @ pd' = (bl @ pd) @ ?b @ take (128 * n) (drop 128 m)" "(pd' = [] \<and> bl' = []) \<or> length pd' = 128"
    using Suc.IH [of ?c "bl @ pd" ?b "drop 128 m"] len(1) by blast
  have "take (128 * Suc n) m = ?b @ take (128 * n) (drop 128 m)"
    using take_add [of 128 "128 * n" m] by simp
  then show ?case using * by (intro exI [of _ bl'] exI [of _ pd']) (simp add: Let_def add.commute)
qed

lemma b2_tail_inv:
  assumes inv: "b2_inv ctx h0 bl pd" and m: "length m < 128" "m \<noteq> []" and al: "b2_aligned pd m"
  shows "\<exists>bl' pd'. b2_inv (b2_tail ctx m) h0 bl' pd' \<and> bl' @ pd' = bl @ pd @ m \<and> pd' \<noteq> []"
proof -
  define c1 where "c1 = (if b2_input_idx ctx = 128 then (blake2b_compress ctx False)\<lparr>b2_input_idx := 0\<rparr> else ctx)"
  define c2 where "c2 = (if b2_input_idx c1 = 0 then c1\<lparr>b2_input := replicate 16 0\<rparr> else c1)"
  define k where "k = length m div 8"
  define c3 where "c3 = c2\<lparr>b2_input := b2_load_words (b2_input c2) 0 m k, b2_input_idx := b2_input_idx c2 + k * 8\<rparr>"
  have tail: "b2_tail ctx m = foldl (\<lambda>ctx b. ctx\<lparr>b2_input := b2_or_byte (b2_input ctx) (b2_input_idx ctx div 8)
                                    (b2_input_idx ctx mod 8) b, b2_input_idx := b2_input_idx ctx + 1\<rparr>) c3 (drop (k * 8) m)"
    using m(2) by (simp add: b2_tail_def Let_def c1_def c2_def c3_def k_def)
  have bw: "block_words [] = replicate 16 0"
    by (simp add: block_words_def block_pad_def load64_le_buf_def load64_le_def load32_le_def list_eq_iff_nth_eq)
  have k: "0 + k \<le> 16" "8 * k \<le> length m" using m(1) by (simp_all add: k_def)
  have "\<exists>bl' pd'. b2_inv c3 h0 bl' pd' \<and> bl' @ pd' = bl @ pd @ take (8 * k) m \<and>
      length pd' + length (drop (k * 8) m) \<le> 128 \<and> pd' @ drop (k * 8) m \<noteq> []"
  proof (cases "length pd = 0 \<or> length pd = 128")
    case True
    have "b2_inv c2 h0 (bl @ pd) []"
    proof (cases "length pd = 128")
      case True
      then show ?thesis
        using b2_inv_next_block [OF inv True, of "[]"] b2_inv_idx [OF inv] bw
        by (simp add: c1_def c2_def b2_inv_def)
    next
      case False
      then show ?thesis using \<open>length pd = 0 \<or> length pd = 128\<close> inv bw
        by (simp add: c1_def c2_def b2_inv_def)
    qed
    from load_words_inv [OF this _ k] have "b2_inv c3 h0 (bl @ pd) (take (8 * k) m)"
      using b2_inv_idx [OF \<open>b2_inv c2 h0 (bl @ pd) []\<close>] by (simp add: c3_def)
    moreover have "take (8 * k) m @ drop (k * 8) m = m" by (simp add: mult.commute)
    ultimately show ?thesis using m k
      by (intro exI [of _ "bl @ pd"] exI [of _ "take (8 * k) m"]) (simp add: mult.commute)
  next
    case False
    then have *: "length m < 8" "length pd + length m \<le> 128" using al m(2) by (auto simp: b2_aligned_def)
    then have "k = 0" by (simp add: k_def)
    moreover have "c2 = ctx" using False b2_inv_idx [OF inv] by (simp add: c1_def c2_def)
    ultimately have "c3 = ctx" by (simp add: c3_def b2_load_words_def load64_le_buf_def)
    then show ?thesis using inv * \<open>k = 0\<close> m(2) by (intro exI [of _ bl] exI [of _ pd]) simp
  qed
  then obtain bl' pd' where c3: "b2_inv c3 h0 bl' pd'" "bl' @ pd' = bl @ pd @ take (8 * k) m"
      "length pd' + length (drop (k * 8) m) \<le> 128" "pd' @ drop (k * 8) m \<noteq> []" by blast
  have "bl' @ pd' @ drop (k * 8) m = bl @ pd @ m"
    using arg_cong [OF c3(2), of "\<lambda>x. x @ drop (k * 8) m"] by (simp add: mult.commute)
  moreover have "b2_inv (b2_tail ctx m) h0 bl' (pd' @ drop (k * 8) m)"
    unfolding tail by (rule b2_inv_pushes [OF c3(1,3)])
  ultimately show ?thesis using c3(4) by (intro exI [of _ bl'] exI [of _ "pd' @ drop (k * 8) m"]) simp
qed

text \<open>What has been absorbed, whatever the cut: the held-back part is empty only at the beginning.\<close>

definition b2_absorbed :: "crypto_blake2b_ctx \<Rightarrow> u64 list \<Rightarrow> bytes \<Rightarrow> bool" where
  "b2_absorbed ctx h0 m \<longleftrightarrow>
     (\<exists>bl pd. b2_inv ctx h0 bl pd \<and> (pd = [] \<longrightarrow> bl = []) \<and> bl @ pd = m)"

lemma b2_update_absorbed:
  assumes "b2_absorbed ctx h0 m" and n: "n = length m'"
  shows "b2_absorbed (crypto_blake2b_update ctx m' n) h0 (m @ m')"
proof (cases "m' = []")
  case True
  then show ?thesis using assms by (simp add: crypto_blake2b_update_def)
next
  case False
  obtain bl pd where inv: "b2_inv ctx h0 bl pd" and ne: "pd = [] \<longrightarrow> bl = []" and m: "m = bl @ pd"
    using assms(1) by (auto simp: b2_absorbed_def)
  obtain pd1 m1 where a: "snd (b2_align_word ctx m') = m1"
      "b2_inv (fst (b2_align_word ctx m')) h0 bl pd1" "pd1 @ m1 = pd @ m'" "length pd1 mod 8 = 0 \<or> m1 = []"
      "pd1 = [] \<longrightarrow> pd = []"
    using b2_align_word_inv [OF inv, of m'] by (elim exE conjE) simp
  let ?c1 = "fst (b2_align_word ctx m')"
  obtain pd2 m2 where b: "snd (b2_align_block ?c1 m1) = m2"
      "b2_inv (fst (b2_align_block ?c1 m1)) h0 bl pd2" "pd2 @ m2 = pd1 @ m1" "b2_aligned pd2 m2"
      "pd2 = [] \<longrightarrow> pd1 = []"
    using b2_align_block_inv [OF a(2,4)] by (elim exE conjE) simp
  let ?c2 = "fst (b2_align_block ?c1 m1)"
  define nb where "nb = length m2 div 128"
  have "\<exists>bl' pd'. snd (b2_blocks nb ?c2 m2) = drop (128 * nb) m2 \<and> b2_inv (fst (b2_blocks nb ?c2 m2)) h0 bl' pd' \<and>
     bl' @ pd' = bl @ pd2 @ take (128 * nb) m2 \<and> b2_aligned pd' (drop (128 * nb) m2) \<and> (pd' = [] \<longrightarrow> bl' = [])"
  proof (cases "pd2 = [] \<or> length pd2 = 128")
    case True
    then have "(pd2 = [] \<and> bl = []) \<or> length pd2 = 128" using ne a(5) b(5) by blast
    moreover have "128 * nb \<le> length m2" by (simp add: nb_def)
    ultimately obtain bl' pd' where "snd (b2_blocks nb ?c2 m2) = drop (128 * nb) m2"
        "b2_inv (fst (b2_blocks nb ?c2 m2)) h0 bl' pd'" "bl' @ pd' = bl @ pd2 @ take (128 * nb) m2"
        "(pd' = [] \<and> bl' = []) \<or> length pd' = 128"
      using b2_blocks_inv [OF b(2), of nb m2] by blast
    then show ?thesis by (intro exI [of _ bl'] exI [of _ pd']) (auto simp: b2_aligned_def)
  next
    case False
    then have "nb = 0" using b(4) by (auto simp: b2_aligned_def nb_def)
    then show ?thesis using b False by (intro exI [of _ bl] exI [of _ pd2]) simp
  qed
  then obtain bl3 pd3 where c: "snd (b2_blocks nb ?c2 m2) = drop (128 * nb) m2"
      "b2_inv (fst (b2_blocks nb ?c2 m2)) h0 bl3 pd3" "bl3 @ pd3 = bl @ pd2 @ take (128 * nb) m2"
      "b2_aligned pd3 (drop (128 * nb) m2)" "pd3 = [] \<longrightarrow> bl3 = []" by blast
  let ?c3 = "fst (b2_blocks nb ?c2 m2)" and ?m3 = "drop (128 * nb) m2"
  have up: "crypto_blake2b_update ctx m' n = b2_tail ?c3 ?m3"
    using False n a(1) b(1) c(1) by (simp add: crypto_blake2b_update_def split_def nb_def Let_def)
  have "length ?m3 < 128" by (simp add: nb_def minus_mult_div_eq_mod)
  have all: "bl3 @ pd3 @ ?m3 = m @ m'"
  proof -
    have "bl3 @ pd3 @ ?m3 = (bl3 @ pd3) @ ?m3" by simp
    also have "\<dots> = bl @ pd2 @ m2" by (simp only: c(3) append_assoc append_take_drop_id)
    also have "\<dots> = m @ m'" using a(3) b(3) m by simp
    finally show ?thesis .
  qed
  show ?thesis
  proof (cases "?m3 = []")
    case True
    then have "b2_tail ?c3 ?m3 = ?c3" by (simp add: b2_tail_def)
    then show ?thesis using c(2,5) all True unfolding up b2_absorbed_def
      by (intro exI [of _ bl3] exI [of _ pd3]) simp
  next
    case False
    obtain bl4 pd4 where "b2_inv (b2_tail ?c3 ?m3) h0 bl4 pd4" "bl4 @ pd4 = bl3 @ pd3 @ ?m3" "pd4 \<noteq> []"
      using b2_tail_inv [OF c(2) \<open>length ?m3 < 128\<close> False c(4)] by blast
    then show ?thesis unfolding up b2_absorbed_def all by blast
  qed
qed

section \<open>Initialisation and result\<close>

lemma b2_init_absorbed:
  assumes "key_size = length key" and "key_size \<le> 64"
  shows "b2_absorbed (crypto_blake2b_keyed_init hash_size key key_size)
    (iv[0 := iv ! 0 XOR (0x01010000 XOR push_bit 8 (of_nat key_size) XOR of_nat hash_size)])
    (if key = [] then [] else block_pad key)"
proof -
  let ?h0 = "iv[0 := iv ! 0 XOR (0x01010000 XOR push_bit 8 (of_nat key_size) XOR of_nat hash_size)]"
  have bw: "block_words [] = replicate 16 0"
    by (simp add: block_words_def block_pad_def load64_le_buf_def load64_le_def load32_le_def list_eq_iff_nth_eq)
  have kl: "length (block_pad key) = 128" using assms by simp
  then have kb: "load64_le_buf (block_pad key) 16 = block_words (block_pad key)" using load_block [of "block_pad key"] by simp
  have "b2_inv (crypto_blake2b_keyed_init hash_size key key_size) ?h0 [] (if key = [] then [] else block_pad key)"
    using assms kb kl bw
    by (simp add: b2_inv_def crypto_blake2b_keyed_init_def Let_def iv_def)
       (simp add: block_pad_def xor.assoc)
  then show ?thesis unfolding b2_absorbed_def append.simps
    by (intro exI [of _ "[]"] exI [of _ "if key = [] then [] else block_pad key"]) simp
qed

lemma store64_bytes: "i < 8 \<Longrightarrow> store64_le v ! i = ucast (drop_bit (8 * i) v AND 0xff)"
proof -
  assume i: "i < 8"
  have s: "store64_le v = map (\<lambda>i. ucast (drop_bit (8 * i) v AND 0xff)) [0, 1, 2, 3, 4, 5, 6, 7]"
    unfolding store64_le_def store32_le_def and_0xFF by (auto simp: bit_eq_iff bit_simps)
  have "[0, 1, 2, 3, 4, 5, 6, 7] = [0..<8 :: nat]" by (simp add: upt_rec)
  then show ?thesis using i by (simp add: s)
qed

lemma concat_store64_nth:
  "j < 8 * length h \<Longrightarrow> concat (map store64_le h) ! j = ucast (drop_bit (8 * (j mod 8)) (h ! (j div 8)) AND 0xff)"
proof (induction h arbitrary: j)
  case (Cons v h)
  show ?case
  proof (cases "j < 8")
    case True
    then show ?thesis by (simp add: nth_append store64_bytes)
  next
    case False
    then have "(j - 8) div 8 = j div 8 - 1" "(j - 8) mod 8 = j mod 8" "j div 8 \<noteq> 0" "j - 8 < 8 * length h"
      using Cons.prems by (auto simp: le_div_geq le_mod_geq)
    then show ?thesis using False Cons.IH [of "j - 8"] by (simp add: nth_append nth_Cons')
  qed
qed simp

lemma concat_store64_length [simp]: "length (concat (map store64_le h)) = 8 * length h"
  by (induction h) simp_all

lemma take_concat_store64: "take (8 * n) (concat (map store64_le h)) = concat (map store64_le (take n h))"
proof (induction h arbitrary: n)
  case (Cons v h)
  show ?case
  proof (cases n)
    case (Suc k)
    then show ?thesis using Cons.IH [of k] by simp
  qed simp
qed simp

lemma store64_le_buf_take: "n \<le> length h \<Longrightarrow> store64_le_buf h n = take (8 * n) (concat (map store64_le h))"
proof -
  assume n: "n \<le> length h"
  have "map (\<lambda>i. store64_le (h ! i)) [0..<n] = map store64_le (take n h)"
    using n by (intro nth_equalityI) simp_all
  then show ?thesis by (simp only: store64_le_buf_def take_concat_store64)
qed

lemma final_bytes:
  assumes "length h = 8" and "hs \<le> 64"
  shows "store64_le_buf h (hs div 8) @
     map (\<lambda>i. ucast (drop_bit (8 * (i mod 8)) (h ! (i div 8)) AND 0xff)) [hs div 8 * 8..<hs] =
   take hs (concat (map store64_le h))"
proof (rule nth_equalityI)
  have d: "hs div 8 * 8 \<le> hs" by simp
  show l: "length (store64_le_buf h (hs div 8) @
     map (\<lambda>i. ucast (drop_bit (8 * (i mod 8)) (h ! (i div 8)) AND 0xff)) [hs div 8 * 8..<hs]) =
     length (take hs (concat (map store64_le h)))"
    using assms d by simp
  fix i assume "i < length (store64_le_buf h (hs div 8) @
     map (\<lambda>i. ucast (drop_bit (8 * (i mod 8)) (h ! (i div 8)) AND 0xff)) [hs div 8 * 8..<hs])"
  then have i: "i < hs" using d by simp
  have n: "hs div 8 \<le> length h" using assms by simp
  show "(store64_le_buf h (hs div 8) @
     map (\<lambda>i. ucast (drop_bit (8 * (i mod 8)) (h ! (i div 8)) AND 0xff)) [hs div 8 * 8..<hs]) ! i =
     take hs (concat (map store64_le h)) ! i"
  proof (cases "i < 8 * (hs div 8)")
    case True
    then show ?thesis using i assms by (simp add: nth_append store64_le_buf_take [OF n] mult.commute)
  next
    case False
    then have "hs div 8 * 8 + (i - 8 * (hs div 8)) = i" by simp
    then show ?thesis using False i assms by (simp add: nth_append concat_store64_nth)
  qed
qed

lemma b2_F_length [simp]: "length (b2_F h m t l) = 8"
  by (simp add: b2_F_def)

lemma b2_chain_length: "length (b2_chain t h m) = 8"
  by (induction t h m rule: b2_chain.induct) (subst b2_chain.simps, simp)

lemma b2_final_absorbed:
  assumes "b2_absorbed ctx h0 m" and "b2_hash_size ctx \<le> 64"
  shows "crypto_blake2b_final ctx = take (b2_hash_size ctx) (concat (map store64_le (b2_chain 0 h0 m)))"
proof -
  obtain bl pd where inv: "b2_inv ctx h0 bl pd" and ne: "pd = [] \<longrightarrow> bl = []" and m: "m = bl @ pd"
    using assms(1) by (auto simp: b2_absorbed_def)
  have "b2_chain 0 h0 m = b2_chain (length bl) (b2_hash ctx) pd" using inv ne m by (simp add: b2_inv_def)
  also have "\<dots> = b2_hash (blake2b_compress ctx True)"
    using inv by (simp add: b2_chain_last compress_F(1) [OF inv]) (simp add: b2_inv_def b2_chain_last)
  finally have h: "b2_hash (blake2b_compress ctx True) = b2_chain 0 h0 m" ..
  show ?thesis
    using final_bytes [OF b2_chain_length assms(2)] assms(2) compress_F(3) [OF inv, of True]
    by (simp add: crypto_blake2b_final_def Let_def h)
qed

lemma b2_compress_size [simp]: "b2_hash_size (blake2b_compress ctx l) = b2_hash_size ctx"
  by (simp add: blake2b_compress_def Let_def)

lemma b2_blocks_size: "b2_hash_size (fst (b2_blocks n ctx m)) = b2_hash_size ctx"
  by (induction n arbitrary: ctx m) (simp_all add: Let_def)

lemma b2_tail_size: "b2_hash_size (b2_tail ctx m) = b2_hash_size ctx"
proof -
  let ?push = "\<lambda>ctx b. ctx\<lparr>b2_input := b2_or_byte (b2_input ctx) (b2_input_idx ctx div 8) (b2_input_idx ctx mod 8) b,
                               b2_input_idx := b2_input_idx ctx + 1\<rparr>"
  have "b2_hash_size (foldl ?push c bs) = b2_hash_size c" for c :: crypto_blake2b_ctx and bs
    by (induction bs arbitrary: c) simp_all
  then show ?thesis by (simp add: b2_tail_def Let_def)
qed

lemma b2_update_size: "b2_hash_size (crypto_blake2b_update ctx m n) = b2_hash_size ctx"
proof -
  have "b2_hash_size (fst (b2_align_word c x)) = b2_hash_size c"
    and "b2_hash_size (fst (b2_align_block c x)) = b2_hash_size c" for c x
    by (simp_all add: b2_align_word_def b2_align_block_def Let_def)
  then show ?thesis by (simp add: crypto_blake2b_update_def split_def b2_tail_size b2_blocks_size Let_def)
qed

lemma blake2b_spec_length: "hs \<le> 64 \<Longrightarrow> length (blake2b_spec hs key m) = hs"
  by (simp add: blake2b_spec_def Let_def b2_chain_length)

lemma blake2b_parts:
  assumes "length key \<le> 64" and "hash_size \<le> 64"
  shows "crypto_blake2b_final
      (foldl (\<lambda>ctx m. crypto_blake2b_update ctx m (length m))
        (crypto_blake2b_keyed_init hash_size key (length key)) parts) =
    blake2b_spec hash_size key (concat parts)"
proof -
  let ?h0 = "iv[0 := iv ! 0 XOR (0x01010000 XOR push_bit 8 (of_nat (length key)) XOR of_nat hash_size)]"
  let ?run = "\<lambda>ctx parts. foldl (\<lambda>ctx m. crypto_blake2b_update ctx m (length m)) ctx parts"
  have "b2_absorbed ctx h0 m \<Longrightarrow> b2_absorbed (?run ctx parts) h0 (m @ concat parts)" for ctx h0 m
  proof (induction parts arbitrary: ctx m)
    case (Cons p parts)
    show ?case using Cons.IH [OF b2_update_absorbed [OF Cons.prems refl, of p]] by simp
  qed simp
  from this [OF b2_init_absorbed [OF refl assms(1)]]
  have "b2_absorbed (?run (crypto_blake2b_keyed_init hash_size key (length key)) parts) ?h0
      ((if key = [] then [] else block_pad key) @ concat parts)" .
  moreover have "b2_hash_size (?run ctx parts) = b2_hash_size ctx" for ctx
    by (induction parts arbitrary: ctx) (simp_all add: b2_update_size)
  then have "b2_hash_size (?run (crypto_blake2b_keyed_init hash_size key (length key)) parts) = hash_size"
    by (simp add: crypto_blake2b_keyed_init_def Let_def)
  ultimately show ?thesis using b2_final_absorbed assms(2) by (simp add: blake2b_spec_def Let_def)
qed



end
