(* ===== verification/Hmac.thy ===== *)
theory Hmac
  imports Blake2b
begin

unbundle bit_operations_syntax

text \<open>
  HMAC over BLAKE2b (src/src/asyd/core/crypto_utils.c), which keys the Noise key derivation and the
  authentication tag of the APDU frames.
\<close>

definition CRYPTO_UTILS_BLAKE2B_BLOCK :: nat where "CRYPTO_UTILS_BLAKE2B_BLOCK = 128"
definition CRYPTO_UTILS_BLAKE2B_OUT :: nat where "CRYPTO_UTILS_BLAKE2B_OUT = 64"

definition hmac_blake2b :: "bytes \<Rightarrow> nat \<Rightarrow> bytes \<Rightarrow> nat \<Rightarrow> bytes" where
  "hmac_blake2b key key_len data data_len =
     (let k_padded =
            (if key_len > CRYPTO_UTILS_BLAKE2B_BLOCK
             then crypto_blake2b CRYPTO_UTILS_BLAKE2B_OUT key key_len @
                  replicate (CRYPTO_UTILS_BLAKE2B_BLOCK - CRYPTO_UTILS_BLAKE2B_OUT) 0
             else take key_len key @ replicate (CRYPTO_UTILS_BLAKE2B_BLOCK - key_len) 0);
          k_ipad = map (\<lambda>i. k_padded ! i XOR 0x36) [0..<CRYPTO_UTILS_BLAKE2B_BLOCK];
          k_opad = map (\<lambda>i. k_padded ! i XOR 0x5C) [0..<CRYPTO_UTILS_BLAKE2B_BLOCK];
          ctx = crypto_blake2b_init CRYPTO_UTILS_BLAKE2B_OUT;
          ctx = crypto_blake2b_update ctx k_ipad CRYPTO_UTILS_BLAKE2B_BLOCK;
          ctx = (if data_len > 0 then crypto_blake2b_update ctx data data_len else ctx);
          inner = crypto_blake2b_final ctx;
          ctx = crypto_blake2b_init CRYPTO_UTILS_BLAKE2B_OUT;
          ctx = crypto_blake2b_update ctx k_opad CRYPTO_UTILS_BLAKE2B_BLOCK;
          ctx = crypto_blake2b_update ctx inner CRYPTO_UTILS_BLAKE2B_OUT
      in crypto_blake2b_final ctx)"

text \<open>The construction of RFC 2104 over an unkeyed 64-byte hash with 128-byte blocks.\<close>

definition hash64 :: "bytes \<Rightarrow> bytes" where
  "hash64 m = blake2b_spec 64 [] m"

definition hmac_key_block :: "bytes \<Rightarrow> bytes" where
  "hmac_key_block key =
     (let k = (if length key > 128 then hash64 key else key) in k @ replicate (128 - length k) 0)"

definition hmac_spec :: "bytes \<Rightarrow> bytes \<Rightarrow> bytes" where
  "hmac_spec key m =
     (let k = hmac_key_block key
      in hash64 (map (\<lambda>b. b XOR 0x5C) k @ hash64 (map (\<lambda>b. b XOR 0x36) k @ m)))"

lemma hash64_length [simp]: "length (hash64 m) = 64"
  by (simp add: hash64_def blake2b_spec_length)

lemma hmac_key_block_length [simp]: "length (hmac_key_block key) = 128"
  by (simp add: hmac_key_block_def Let_def)

lemma hmac_spec_length [simp]: "length (hmac_spec key m) = 64"
  by (simp add: hmac_spec_def Let_def)

lemma hash_parts:
  "crypto_blake2b_final (foldl (\<lambda>ctx m. crypto_blake2b_update ctx m (length m)) (crypto_blake2b_init 64) parts) =
   hash64 (concat parts)"
  by (simp add: crypto_blake2b_init_def hash64_def blake2b_parts [of "[]", simplified])

lemma crypto_blake2b_hash64: "n = length m \<Longrightarrow> crypto_blake2b 64 m n = hash64 m"
  using hash_parts [of "[m]"] by (simp add: crypto_blake2b_def crypto_blake2b_keyed_def crypto_blake2b_init_def)

lemma hmac_correct: "hmac_blake2b key (length key) m (length m) = hmac_spec key m"
proof -
  define k where "k = (if length key > CRYPTO_UTILS_BLAKE2B_BLOCK
             then crypto_blake2b CRYPTO_UTILS_BLAKE2B_OUT key (length key) @
                  replicate (CRYPTO_UTILS_BLAKE2B_BLOCK - CRYPTO_UTILS_BLAKE2B_OUT) 0
             else take (length key) key @ replicate (CRYPTO_UTILS_BLAKE2B_BLOCK - length key) 0)"
  have k: "k = hmac_key_block key"
    by (simp add: k_def hmac_key_block_def Let_def CRYPTO_UTILS_BLAKE2B_BLOCK_def CRYPTO_UTILS_BLAKE2B_OUT_def
        crypto_blake2b_hash64)
  have pad: "map (\<lambda>i. k ! i XOR v) [0..<CRYPTO_UTILS_BLAKE2B_BLOCK] = map (\<lambda>b. b XOR v) (hmac_key_block key)" for v
    unfolding k CRYPTO_UTILS_BLAKE2B_BLOCK_def by (rule nth_equalityI) simp_all
  let ?ip = "map (\<lambda>b. b XOR 0x36) (hmac_key_block key)" and ?op = "map (\<lambda>b. b XOR 0x5C) (hmac_key_block key)"
  have up: "crypto_blake2b_final (crypto_blake2b_update (crypto_blake2b_update (crypto_blake2b_init 64) a 128) b n) =
      hash64 (a @ b)" if "length a = 128" "n = length b" for a b n
    using hash_parts [of "[a, b]"] that by simp
  have up0: "crypto_blake2b_final (crypto_blake2b_update (crypto_blake2b_init 64) a 128) = hash64 a"
    if "length a = 128" for a
    using hash_parts [of "[a]"] that by simp
  have inner: "crypto_blake2b_final (if length m > 0
       then crypto_blake2b_update (crypto_blake2b_update (crypto_blake2b_init 64) ?ip 128) m (length m)
       else crypto_blake2b_update (crypto_blake2b_init 64) ?ip 128) = hash64 (?ip @ m)"
    by (simp add: up up0)
  show ?thesis
    unfolding hmac_blake2b_def Let_def k_def [symmetric] pad
    by (simp only: CRYPTO_UTILS_BLAKE2B_BLOCK_def CRYPTO_UTILS_BLAKE2B_OUT_def inner)
       (simp add: up hmac_spec_def Let_def)
qed

text \<open>C26. The keyed hash is HMAC with BLAKE2b: for every key and message, the key hashed down when it is
  longer than a block and filled with zeros otherwise, the result is the outer hash of the key block with
  0x5C over the inner hash of the key block with 0x36 and the message; it is always 64 bytes long.\<close>

theorem hmac_blake2b_correct:
  "hmac_blake2b key (length key) m (length m) =
     (let k = (if length key > 128 then blake2b_spec 64 [] key else key);
          k = k @ replicate (128 - length k) 0
      in blake2b_spec 64 [] (map (\<lambda>b. b XOR 0x5C) k @ blake2b_spec 64 [] (map (\<lambda>b. b XOR 0x36) k @ m))) \<and>
   length (hmac_blake2b key (length key) m (length m)) = 64"
  unfolding hmac_correct
  by (simp add: hmac_spec_def hmac_key_block_def Let_def hash64_def blake2b_spec_length)

end
