(* ===== verification/Noise.thy ===== *)
theory Noise
  imports Aead Hmac
begin

unbundle bit_operations_syntax

text \<open>
  The Noise IK handshake and transport (src/src/asyd/core/noise_ik.c and noise_ik.h) over the modelled
  hash, key derivation and authenticated cipher. The curve operations of the crypto library are
  arguments: \<open>dh priv pub\<close> is \<^verbatim>\<open>crypto_x25519\<close>, \<open>pk priv\<close> is \<^verbatim>\<open>crypto_x25519_public_key\<close>. What
  \<^verbatim>\<open>/dev/urandom\<close> delivers is an argument too: none when it cannot be opened, otherwise the bytes
  read. An input pointer that may be null is an option, an output pointer is the flag \<open>out\<close> (it is
  not null) and what is written through it is a result. The state pointer is never null: every caller
  passes the address of an object.
\<close>

definition NOISE_KEY_SIZE :: nat where "NOISE_KEY_SIZE = 32"
definition NOISE_MAC_SIZE :: nat where "NOISE_MAC_SIZE = 16"
definition NOISE_HASH_SIZE :: nat where "NOISE_HASH_SIZE = 64"
definition NOISE_MSG1_SIZE :: nat where "NOISE_MSG1_SIZE = 96"
definition NOISE_MSG2_SIZE :: nat where "NOISE_MSG2_SIZE = 48"
definition NOISE_OK :: int where [code_defs]: "NOISE_OK = 0"
definition NOISE_ERR_AUTH :: int where [code_defs]: "NOISE_ERR_AUTH = - 1"
definition NOISE_ERR_PARAM :: int where [code_defs]: "NOISE_ERR_PARAM = - 2"
definition NOISE_ERR_STATE :: int where [code_defs]: "NOISE_ERR_STATE = - 3"

named_theorems noise_sizes "sizes of the Noise messages and keys"

lemmas [noise_sizes] = NOISE_KEY_SIZE_def NOISE_MAC_SIZE_def NOISE_HASH_SIZE_def NOISE_MSG1_SIZE_def
  NOISE_MSG2_SIZE_def

record noise_ik_state =
  st_s_priv :: bytes
  st_s_pub :: bytes
  st_rs_pub :: bytes
  st_e_priv :: bytes
  st_e_pub :: bytes
  st_re_pub :: bytes
  st_h :: bytes
  st_ck :: bytes
  st_send_key :: bytes
  st_recv_key :: bytes
  st_send_nonce :: u64
  st_recv_nonce :: u64
  st_is_server :: bool
  st_handshake_done :: bool

definition zero_state :: noise_ik_state where
  "zero_state = \<lparr>st_s_priv = replicate 32 0, st_s_pub = replicate 32 0, st_rs_pub = replicate 32 0,
     st_e_priv = replicate 32 0, st_e_pub = replicate 32 0, st_re_pub = replicate 32 0,
     st_h = replicate 64 0, st_ck = replicate 64 0, st_send_key = replicate 32 0, st_recv_key = replicate 32 0,
     st_send_nonce = 0, st_recv_nonce = 0, st_is_server = False, st_handshake_done = False\<rparr>"

section \<open>Symmetric operations\<close>

definition mix_hash :: "bytes \<Rightarrow> bytes \<Rightarrow> nat \<Rightarrow> bytes" where
  "mix_hash h data data_len =
     (let ctx = crypto_blake2b_init NOISE_HASH_SIZE;
          ctx = crypto_blake2b_update ctx h NOISE_HASH_SIZE;
          ctx = crypto_blake2b_update ctx data data_len
      in crypto_blake2b_final ctx)"

text \<open>The new chaining key and the 32-byte cipher key.\<close>

definition mix_key :: "bytes \<Rightarrow> bytes \<Rightarrow> nat \<Rightarrow> bytes \<times> bytes" where
  "mix_key ck dh_output dh_len =
     (let temp = hmac_blake2b ck NOISE_HASH_SIZE dh_output dh_len;
          ck = hmac_blake2b temp NOISE_HASH_SIZE [0x01] 1;
          data2 = ck @ [0x02];
          k_full = hmac_blake2b temp NOISE_HASH_SIZE data2 (NOISE_HASH_SIZE + 1)
      in (ck, take NOISE_KEY_SIZE k_full))"

text \<open>The new handshake hash, and the cipher text followed by its tag.\<close>

definition encrypt_and_hash :: "bytes \<Rightarrow> bytes \<Rightarrow> bytes \<Rightarrow> nat \<Rightarrow> bytes \<times> bytes" where
  "encrypt_and_hash h k plaintext pt_len =
     (let nonce12 = replicate 12 0;
          ctx = crypto_aead_init_ietf k nonce12;
          (_, ciphertext, mac) = crypto_aead_write ctx h NOISE_HASH_SIZE plaintext pt_len;
          out = ciphertext @ mac
      in (mix_hash h out (pt_len + NOISE_MAC_SIZE), out))"

text \<open>The result code, the new handshake hash, and what was written to the plain text buffer.\<close>

definition decrypt_and_hash :: "bytes \<Rightarrow> bytes \<Rightarrow> bytes \<Rightarrow> nat \<Rightarrow> int \<times> bytes \<times> bytes option" where
  "decrypt_and_hash h k ciphertext ct_len =
     (if ct_len < NOISE_MAC_SIZE then (NOISE_ERR_AUTH, h, None)
      else
        let pt_len = ct_len - NOISE_MAC_SIZE;
            nonce12 = replicate 12 0;
            mac = take NOISE_MAC_SIZE (drop pt_len ciphertext);
            h_before = h;
            h = mix_hash h ciphertext ct_len;
            ctx = crypto_aead_init_ietf k nonce12;
            (rc, _, out) = crypto_aead_read ctx mac h_before NOISE_HASH_SIZE (take pt_len ciphertext) pt_len
        in (if rc = 0 then NOISE_OK else NOISE_ERR_AUTH, h, out))"

definition split :: "bytes \<Rightarrow> bytes \<times> bytes" where
  "split ck =
     (let temp = hmac_blake2b ck NOISE_HASH_SIZE [] 0;
          k1_full = hmac_blake2b temp NOISE_HASH_SIZE [0x01] 1;
          data2 = k1_full @ [0x02];
          k2_full = hmac_blake2b temp NOISE_HASH_SIZE data2 (NOISE_HASH_SIZE + 1)
      in (take NOISE_KEY_SIZE k1_full, take NOISE_KEY_SIZE k2_full))"

text \<open>The protocol name \<^verbatim>\<open>Noise_IK_25519_ChaChaPoly_BLAKE2b\<close>, 33 characters.\<close>

definition noise_proto :: bytes where
  "noise_proto = [78, 111, 105, 115, 101, 95, 73, 75, 95, 50, 53, 53, 49, 57, 95, 67, 104, 97, 67, 104, 97,
     80, 111, 108, 121, 95, 66, 76, 65, 75, 69, 50, 98]"

definition init_symmetric :: "bytes \<times> bytes" where
  "init_symmetric =
     (let proto_len = 33;
          h = (if proto_len \<le> NOISE_HASH_SIZE
               then take proto_len noise_proto @ replicate (NOISE_HASH_SIZE - proto_len) 0
               else crypto_blake2b NOISE_HASH_SIZE noise_proto proto_len)
      in (h, h))"

section \<open>Keys\<close>

text \<open>The buffer keeps what it held when the random device cannot be opened, or past a short read.\<close>

definition noise_ik_generate_keypair ::
    "(bytes \<Rightarrow> bytes) \<Rightarrow> bytes option \<Rightarrow> bytes \<Rightarrow> bytes \<times> bytes" where
  "noise_ik_generate_keypair pk urandom priv =
     (let priv = (case urandom of
                    Some r \<Rightarrow> take NOISE_KEY_SIZE r @ drop (length (take NOISE_KEY_SIZE r)) priv
                  | None \<Rightarrow> priv);
          priv = priv[0 := priv ! 0 AND 248];
          priv = priv[31 := priv ! 31 AND 127];
          priv = priv[31 := priv ! 31 OR 64]
      in (priv, pk priv))"

section \<open>Server\<close>

definition noise_ik_init_server :: "bytes option \<Rightarrow> bytes option \<Rightarrow> noise_ik_state \<Rightarrow> int \<times> noise_ik_state" where
  "noise_ik_init_server s_priv s_pub st =
     (case (s_priv, s_pub) of
        (Some s_priv, Some s_pub) \<Rightarrow>
          let st = zero_state\<lparr>st_s_priv := take NOISE_KEY_SIZE s_priv, st_s_pub := take NOISE_KEY_SIZE s_pub,
                              st_is_server := True\<rparr>;
              (h, ck) = init_symmetric;
              h = mix_hash h [] 0;
              h = mix_hash h (st_s_pub st) NOISE_KEY_SIZE
          in (NOISE_OK, st\<lparr>st_h := h, st_ck := ck\<rparr>)
      | _ \<Rightarrow> (NOISE_ERR_PARAM, st))"

text \<open>The result code, the state, and what was written to the buffer for the agent's static key.\<close>

definition noise_ik_read_msg1 ::
    "(bytes \<Rightarrow> bytes \<Rightarrow> bytes) \<Rightarrow> bytes option \<Rightarrow> noise_ik_state \<Rightarrow> int \<times> noise_ik_state \<times> bytes option" where
  "noise_ik_read_msg1 dh msg1 st =
     (case msg1 of None \<Rightarrow> (NOISE_ERR_PARAM, st, None) | Some msg1 \<Rightarrow>
      if \<not> st_is_server st then (NOISE_ERR_STATE, st, None)
      else
        let re = take 32 msg1;
            enc_s = take 48 (drop 32 msg1);
            enc_p = take 16 (drop (32 + 48) msg1);
            st = st\<lparr>st_re_pub := re\<rparr>;
            st = st\<lparr>st_h := mix_hash (st_h st) re NOISE_KEY_SIZE\<rparr>;
            s = dh (st_s_priv st) (st_re_pub st);
            (ck, k) = mix_key (st_ck st) s NOISE_KEY_SIZE;
            st = st\<lparr>st_ck := ck\<rparr>;
            (rc, h, agent_s) = decrypt_and_hash (st_h st) k enc_s (32 + NOISE_MAC_SIZE);
            st = st\<lparr>st_h := h\<rparr>
        in case agent_s of
             None \<Rightarrow> (NOISE_ERR_AUTH, st, None)
           | Some agent_s \<Rightarrow>
               if rc \<noteq> NOISE_OK then (NOISE_ERR_AUTH, st, None)
               else
                 let st = st\<lparr>st_rs_pub := agent_s\<rparr>;
                     s = dh (st_s_priv st) (st_rs_pub st);
                     (ck, k) = mix_key (st_ck st) s NOISE_KEY_SIZE;
                     st = st\<lparr>st_ck := ck\<rparr>;
                     (rc, h, _) = decrypt_and_hash (st_h st) k enc_p NOISE_MAC_SIZE;
                     st = st\<lparr>st_h := h\<rparr>
                 in (rc, st, Some agent_s))"

definition noise_ik_write_msg2 ::
    "(bytes \<Rightarrow> bytes \<Rightarrow> bytes) \<Rightarrow> (bytes \<Rightarrow> bytes) \<Rightarrow> bytes option \<Rightarrow> bool \<Rightarrow> noise_ik_state \<Rightarrow>
     int \<times> noise_ik_state \<times> bytes option" where
  "noise_ik_write_msg2 dh pk urandom out st =
     (if \<not> out then (NOISE_ERR_PARAM, st, None)
      else if \<not> st_is_server st then (NOISE_ERR_STATE, st, None)
      else
        let (e_priv, e_pub) = noise_ik_generate_keypair pk urandom (st_e_priv st);
            st = st\<lparr>st_e_priv := e_priv, st_e_pub := e_pub\<rparr>;
            st = st\<lparr>st_h := mix_hash (st_h st) e_pub NOISE_KEY_SIZE\<rparr>;
            s = dh (st_e_priv st) (st_re_pub st);
            (ck, k) = mix_key (st_ck st) s NOISE_KEY_SIZE;
            st = st\<lparr>st_ck := ck\<rparr>;
            s = dh (st_e_priv st) (st_rs_pub st);
            (ck, k) = mix_key (st_ck st) s NOISE_KEY_SIZE;
            st = st\<lparr>st_ck := ck\<rparr>;
            (h, enc_p) = encrypt_and_hash (st_h st) k [] 0;
            st = st\<lparr>st_h := h\<rparr>;
            (recv_key, send_key) = split (st_ck st);
            st = st\<lparr>st_recv_key := recv_key, st_send_key := send_key, st_send_nonce := 0, st_recv_nonce := 0,
                    st_handshake_done := True\<rparr>
        in (NOISE_OK, st, Some (e_pub @ enc_p)))"

section \<open>Client\<close>

definition noise_ik_init_client ::
    "bytes option \<Rightarrow> bytes option \<Rightarrow> bytes option \<Rightarrow> noise_ik_state \<Rightarrow> int \<times> noise_ik_state" where
  "noise_ik_init_client s_priv s_pub rs_pub st =
     (case (s_priv, s_pub, rs_pub) of
        (Some s_priv, Some s_pub, Some rs_pub) \<Rightarrow>
          let st = zero_state\<lparr>st_s_priv := take NOISE_KEY_SIZE s_priv, st_s_pub := take NOISE_KEY_SIZE s_pub,
                              st_rs_pub := take NOISE_KEY_SIZE rs_pub, st_is_server := False\<rparr>;
              (h, ck) = init_symmetric;
              h = mix_hash h [] 0;
              h = mix_hash h rs_pub NOISE_KEY_SIZE
          in (NOISE_OK, st\<lparr>st_h := h, st_ck := ck\<rparr>)
      | _ \<Rightarrow> (NOISE_ERR_PARAM, st))"

definition noise_ik_write_msg1 ::
    "(bytes \<Rightarrow> bytes \<Rightarrow> bytes) \<Rightarrow> (bytes \<Rightarrow> bytes) \<Rightarrow> bytes option \<Rightarrow> bool \<Rightarrow> noise_ik_state \<Rightarrow>
     int \<times> noise_ik_state \<times> bytes option" where
  "noise_ik_write_msg1 dh pk urandom out st =
     (if \<not> out then (NOISE_ERR_PARAM, st, None)
      else if st_is_server st then (NOISE_ERR_STATE, st, None)
      else
        let (e_priv, e_pub) = noise_ik_generate_keypair pk urandom (st_e_priv st);
            st = st\<lparr>st_e_priv := e_priv, st_e_pub := e_pub\<rparr>;
            st = st\<lparr>st_h := mix_hash (st_h st) e_pub NOISE_KEY_SIZE\<rparr>;
            s = dh (st_e_priv st) (st_rs_pub st);
            (ck, k) = mix_key (st_ck st) s NOISE_KEY_SIZE;
            st = st\<lparr>st_ck := ck\<rparr>;
            (h, enc_s) = encrypt_and_hash (st_h st) k (st_s_pub st) NOISE_KEY_SIZE;
            st = st\<lparr>st_h := h\<rparr>;
            s = dh (st_s_priv st) (st_rs_pub st);
            (ck, k) = mix_key (st_ck st) s NOISE_KEY_SIZE;
            st = st\<lparr>st_ck := ck\<rparr>;
            (h, enc_p) = encrypt_and_hash (st_h st) k [] 0;
            st = st\<lparr>st_h := h\<rparr>
        in (NOISE_OK, st, Some (e_pub @ enc_s @ enc_p)))"

definition noise_ik_read_msg2 ::
    "(bytes \<Rightarrow> bytes \<Rightarrow> bytes) \<Rightarrow> bytes option \<Rightarrow> noise_ik_state \<Rightarrow> int \<times> noise_ik_state" where
  "noise_ik_read_msg2 dh msg2 st =
     (case msg2 of None \<Rightarrow> (NOISE_ERR_PARAM, st) | Some msg2 \<Rightarrow>
      if st_is_server st then (NOISE_ERR_STATE, st)
      else
        let re = take 32 msg2;
            enc_p = take 16 (drop NOISE_KEY_SIZE msg2);
            st = st\<lparr>st_re_pub := re\<rparr>;
            st = st\<lparr>st_h := mix_hash (st_h st) re NOISE_KEY_SIZE\<rparr>;
            s = dh (st_e_priv st) (st_re_pub st);
            (ck, k) = mix_key (st_ck st) s NOISE_KEY_SIZE;
            st = st\<lparr>st_ck := ck\<rparr>;
            s = dh (st_s_priv st) (st_re_pub st);
            (ck, k) = mix_key (st_ck st) s NOISE_KEY_SIZE;
            st = st\<lparr>st_ck := ck\<rparr>;
            (rc, h, _) = decrypt_and_hash (st_h st) k enc_p NOISE_MAC_SIZE;
            st = st\<lparr>st_h := h\<rparr>
        in if rc \<noteq> NOISE_OK then (NOISE_ERR_AUTH, st)
           else
             let (send_key, recv_key) = split (st_ck st);
                 st = st\<lparr>st_send_key := send_key, st_recv_key := recv_key, st_send_nonce := 0, st_recv_nonce := 0,
                         st_handshake_done := True\<rparr>
             in (NOISE_OK, st))"

section \<open>Transport\<close>

definition nonce12_of :: "u64 \<Rightarrow> bytes" where
  "nonce12_of n = replicate 4 0 @ map (\<lambda>i. ucast (drop_bit (8 * i) n)) [0..<8]"

definition noise_ik_encrypt :: "bytes \<Rightarrow> nat \<Rightarrow> bool \<Rightarrow> noise_ik_state \<Rightarrow> int \<times> noise_ik_state \<times> bytes option" where
  "noise_ik_encrypt plaintext plaintext_len out st =
     (if \<not> out then (NOISE_ERR_PARAM, st, None)
      else if \<not> st_handshake_done st then (NOISE_ERR_STATE, st, None)
      else
        let ctx = crypto_aead_init_ietf (st_send_key st) (nonce12_of (st_send_nonce st));
            (_, ciphertext, mac) = crypto_aead_write ctx [] 0 plaintext plaintext_len
        in (NOISE_OK, st\<lparr>st_send_nonce := st_send_nonce st + 1\<rparr>, Some (ciphertext @ mac)))"

text \<open>The last component is what was written to the plain text buffer, if anything.\<close>

definition noise_ik_decrypt :: "bytes option \<Rightarrow> nat \<Rightarrow> bool \<Rightarrow> noise_ik_state \<Rightarrow> int \<times> noise_ik_state \<times> bytes option" where
  "noise_ik_decrypt ciphertext ciphertext_len out st =
     (case ciphertext of None \<Rightarrow> (NOISE_ERR_PARAM, st, None) | Some ciphertext \<Rightarrow>
      if \<not> out then (NOISE_ERR_PARAM, st, None)
      else if \<not> st_handshake_done st then (NOISE_ERR_STATE, st, None)
      else if ciphertext_len < NOISE_MAC_SIZE then (NOISE_ERR_AUTH, st, None)
      else
        let pt_len = ciphertext_len - NOISE_MAC_SIZE;
            mac = take NOISE_MAC_SIZE (drop pt_len ciphertext);
            ctx = crypto_aead_init_ietf (st_recv_key st) (nonce12_of (st_recv_nonce st));
            (rc, _, pt) = crypto_aead_read ctx mac [] 0 (take pt_len ciphertext) pt_len
        in if rc \<noteq> 0 then (NOISE_ERR_AUTH, st, pt)
           else (NOISE_OK, st\<lparr>st_recv_nonce := st_recv_nonce st + 1\<rparr>, pt))"

definition noise_ik_wipe :: "noise_ik_state \<Rightarrow> noise_ik_state" where
  "noise_ik_wipe st = zero_state"

section \<open>Shapes\<close>

lemma hmac_length: "length (hmac_blake2b key (length key) m (length m)) = 64"
  by (simp add: hmac_correct)

lemma hmac_length': "n = length key \<Longrightarrow> l = length m \<Longrightarrow> length (hmac_blake2b key n m l) = 64"
  by (simp add: hmac_correct)

lemma mix_hash_hash64:
  "length h = 64 \<Longrightarrow> n = length d \<Longrightarrow> mix_hash h d n = hash64 (h @ d)"
  using hash_parts [of "[h, d]"] by (simp add: mix_hash_def noise_sizes)

lemma mix_hash_length: "length h = 64 \<Longrightarrow> n = length d \<Longrightarrow> length (mix_hash h d n) = 64"
  by (simp add: mix_hash_hash64)

lemma mix_key_length:
  assumes "length ck = 64" and "length d = n"
  shows "length (fst (mix_key ck d n)) = 64" and "length (snd (mix_key ck d n)) = 32"
  using assms by (simp_all add: mix_key_def Let_def noise_sizes hmac_length')

lemma split_length:
  assumes "length ck = 64"
  shows "length (fst (split ck)) = 32" and "length (snd (split ck)) = 32"
  using assms by (simp_all add: split_def Let_def noise_sizes hmac_length')

lemma init_symmetric_length: "length (fst init_symmetric) = 64" "length (snd init_symmetric) = 64"
  by (simp_all add: init_symmetric_def Let_def noise_sizes noise_proto_def)

lemma generate_keypair_length:
  "length priv = 32 \<Longrightarrow> length (fst (noise_ik_generate_keypair pk u priv)) = 32"
  by (auto simp: noise_ik_generate_keypair_def Let_def noise_sizes split: option.split)

lemma generate_keypair_pub:
  "snd (noise_ik_generate_keypair pk u priv) = pk (fst (noise_ik_generate_keypair pk u priv))"
  by (simp add: noise_ik_generate_keypair_def Let_def)

lemma valid_ietf: "length k = 32 \<Longrightarrow> length n = 12 \<Longrightarrow> valid_aead (crypto_aead_init_ietf k n)"
  by (simp add: valid_aead_def crypto_aead_init_ietf_def)

section \<open>Sealing with one key and one nonce\<close>

text \<open>A single message: the context is made, used once and thrown away.\<close>

definition seal_once :: "bytes \<Rightarrow> bytes \<Rightarrow> bytes \<Rightarrow> bytes \<Rightarrow> bytes" where
  "seal_once k n ad p = (let (_, x, t) = aead_seal (crypto_aead_init_ietf k n) ad p in x @ t)"

definition unseal_once :: "bytes \<Rightarrow> bytes \<Rightarrow> bytes \<Rightarrow> bytes \<Rightarrow> bytes option" where
  "unseal_once k n ad c =
     (if length c < 16 then None
      else snd (aead_unseal (crypto_aead_init_ietf k n) ad (drop (length c - 16) c) (take (length c - 16) c)))"

lemma seal_once_length:
  assumes "length k = 32" and "length n = 12"
  shows "length (seal_once k n ad p) = length p + 16"
proof -
  obtain c x t where s: "aead_seal (crypto_aead_init_ietf k n) ad p = (c, x, t)"
    by (cases "aead_seal (crypto_aead_init_ietf k n) ad p") auto
  then show ?thesis using mono.seal_shape [OF valid_ietf [OF assms] s] by (simp add: seal_once_def)
qed

lemma unseal_once_iff:
  assumes "length k = 32" and "length n = 12"
  shows "unseal_once k n ad c = Some p \<longleftrightarrow> c = seal_once k n ad p"
proof
  note v = valid_ietf [OF assms]
  assume u: "unseal_once k n ad c = Some p"
  then have l: "16 \<le> length c" by (auto simp: unseal_once_def split: if_splits)
  let ?x = "take (length c - 16) c" and ?t = "drop (length c - 16) c"
  obtain c' where "aead_unseal (crypto_aead_init_ietf k n) ad ?t ?x = (c', Some p)"
    using u l by (cases "aead_unseal (crypto_aead_init_ietf k n) ad ?t ?x") (auto simp: unseal_once_def)
  moreover have "length ?t = 16" using l by simp
  ultimately have "aead_seal (crypto_aead_init_ietf k n) ad p = (c', ?x, ?t)"
    using mono.unseal_sound [OF v] by blast
  then show "c = seal_once k n ad p" by (simp add: seal_once_def)
next
  note v = valid_ietf [OF assms]
  assume c: "c = seal_once k n ad p"
  obtain c' x t where s: "aead_seal (crypto_aead_init_ietf k n) ad p = (c', x, t)"
    by (cases "aead_seal (crypto_aead_init_ietf k n) ad p") auto
  then have "c = x @ t" "length t = 16" using c mono.seal_shape [OF v s] by (simp_all add: seal_once_def)
  then show "unseal_once k n ad c = Some p"
    using mono.unseal_seal [OF v s] by (simp add: unseal_once_def)
qed

lemma encrypt_and_hash_seal:
  assumes "length h = 64"
  shows "encrypt_and_hash h k p (length p) =
    (mix_hash h (seal_once k (replicate 12 0) h p) (length p + 16), seal_once k (replicate 12 0) h p)"
  using assms
  by (simp add: encrypt_and_hash_def seal_once_def aead_seal_def noise_sizes Let_def case_prod_beta)

lemma decrypt_and_hash_unseal:
  assumes "length h = 64" and "n = length c" and "16 \<le> n"
  shows "decrypt_and_hash h k c n =
    (if unseal_once k (replicate 12 0) h c = None then NOISE_ERR_AUTH else NOISE_OK,
     mix_hash h c n, unseal_once k (replicate 12 0) h c)"
proof -
  let ?ctx = "crypto_aead_init_ietf k (replicate 12 0)"
  have "length (drop (n - 16) c) = 16" using assms by simp
  note r = aead_read_eq [OF this, of ?ctx h "take (n - 16) c"]
  have "length (take (n - 16) c) = n - 16" using assms by simp
  with r show ?thesis
    using assms by (simp add: decrypt_and_hash_def unseal_once_def aead_unseal_def noise_sizes Let_def case_prod_beta)
qed

end
