(* ===== verification/AuthVerify.thy ===== *)
theory AuthVerify
  imports ApduParser Noise
begin

text \<open>
  Verification of the authentication tag of a signed frame (src/src/asyd/core/auth_verify.c). The frame's
  pointers are offsets into the receive buffer \<open>buf\<close>; a read past it, through a null pointer, or a write
  past the local message buffer is undefined behaviour (outer \<open>None\<close>).
\<close>

section \<open>Frames in their buffer\<close>

text \<open>\<open>n\<close> bytes of the data of a frame, from offset \<open>off\<close>.\<close>

definition frame_data :: "bytes \<Rightarrow> apdu_frame \<Rightarrow> nat \<Rightarrow> nat \<Rightarrow> bytes option" where
  "frame_data buf f off n = (case fr_data f of None \<Rightarrow> None | Some d \<Rightarrow> rd_range buf (d + off) n)"

definition frame_in :: "bytes \<Rightarrow> apdu_frame \<Rightarrow> bool" where
  "frame_in buf f \<longleftrightarrow>
     (fr_data_len f \<noteq> 0 \<longrightarrow> (case fr_data f of None \<Rightarrow> False | Some d \<Rightarrow> d + unat (fr_data_len f) \<le> length buf)) \<and>
     (case fr_auth_tag f of None \<Rightarrow> True | Some t \<Rightarrow> t + APDU_AUTH_TAG_SIZE \<le> length buf)"

text \<open>The data and the tag a frame in its buffer denotes.\<close>

definition payload :: "bytes \<Rightarrow> apdu_frame \<Rightarrow> bytes" where
  "payload buf f = ms_data (frame_msg buf f)"

definition auth_tag :: "bytes \<Rightarrow> apdu_frame \<Rightarrow> bytes" where
  "auth_tag buf f = ms_tag (frame_msg buf f)"

lemma frame_in_parsed:
  assumes "wf_parser p" and "apdu_parser_try_parse (Some p) (Some out) = Some (APDU_FRAME_READY, Some f)"
  shows "frame_in (pr_buf p) f" and "(fr_auth_tag f = None) = (fr_sec f = APDU_SEC_PLAIN)"
proof -
  note r = try_parse_ready [OF assms]
  have l: "pr_filled p \<le> length (pr_buf p)" using assms(1) by (simp add: wf_parser_def)
  have "fr_data_len f \<noteq> 0 \<Longrightarrow> fr_data f = Some (hdr_len (fr_cla f))" using r(4) by (simp add: word_gt_0)
  then show "frame_in (pr_buf p) f"
    using r(1) l r(7) r(6) by (auto simp: frame_in_def split: option.split)
  show "(fr_auth_tag f = None) = (fr_sec f = APDU_SEC_PLAIN)" by (rule r(5))
qed

lemma payload_length:
  assumes "frame_in buf f"
  shows "length (payload buf f) = unat (fr_data_len f) \<or> fr_data_len f = 0"
  using assms by (auto simp: frame_in_def payload_def frame_msg_def deref_def split: option.splits)

lemma frame_data_payload:
  assumes "frame_in buf f" and "off + n \<le> unat (fr_data_len f)" and "0 < unat (fr_data_len f)"
  shows "frame_data buf f off n = Some (take n (drop off (payload buf f)))"
proof -
  from assms(3) have "fr_data_len f \<noteq> 0" by auto
  with assms(1) obtain d where d: "fr_data f = Some d" "d + unat (fr_data_len f) \<le> length buf"
    by (auto simp: frame_in_def split: option.splits)
  then have "rd_range buf (d + off) n = Some (take n (drop (d + off) buf))" using assms(2) by (intro rd_range_Some) simp
  moreover have "take n (drop off (take (unat (fr_data_len f)) (drop d buf))) = take n (drop (d + off) buf)"
    using assms(2) by (simp add: drop_take min_def add.commute)
  ultimately show ?thesis by (simp add: frame_data_def payload_def frame_msg_def deref_def d)
qed

section \<open>The code\<close>

definition verify_auth_tag :: "noise_ik_state \<Rightarrow> bytes \<Rightarrow> apdu_frame \<Rightarrow> bytes \<Rightarrow> int option" where
  "verify_auth_tag noise buf frame epoch_id =
     (if unat (fr_data_len frame) < 4 \<or> fr_auth_tag frame = None then Some 0
      else
        let header = [fr_cla frame, fr_ins frame, fr_p1 frame, fr_p2 frame, ucast (fr_data_len frame)];
            payload_len = unat (fr_data_len frame) - 4
        in if payload_len > 255 then Some 0
           else do {
             epoch \<leftarrow> rd_range epoch_id 0 4;
             seq \<leftarrow> frame_data buf frame 0 4;
             pl \<leftarrow> frame_data buf frame 4 payload_len;
             msg \<leftarrow> wr_range (replicate (5 + 4 + 4 + 255) 0) 0 header;
             msg \<leftarrow> wr_range msg 5 epoch;
             msg \<leftarrow> wr_range msg 9 seq;
             msg \<leftarrow> wr_range msg 13 pl;
             let msg_len = 5 + 4 + 4 + payload_len;
             msg \<leftarrow> rd_range msg 0 msg_len;
             let digest = hmac_blake2b (st_recv_key noise) 32 msg msg_len;
             tag \<leftarrow> (case fr_auth_tag frame of None \<Rightarrow> None | Some t \<Rightarrow> rd_range buf t 16);
             Some (if crypto_verify16 (take 16 digest) tag = 0 then 1 else 0)
           })"

section \<open>What it decides\<close>

text \<open>The byte string that is authenticated.\<close>

definition auth_input :: "bytes \<Rightarrow> bytes \<Rightarrow> apdu_frame \<Rightarrow> bytes" where
  "auth_input buf epoch f =
     [fr_cla f, fr_ins f, fr_p1 f, fr_p2 f, ucast (fr_data_len f)] @ epoch @ payload buf f"

lemma wr_range_append: "length a = off \<Longrightarrow> length d \<le> length b \<Longrightarrow> wr_range (a @ b) off d = Some ((a @ d) @ drop (length d) b)"
  by (simp add: wr_range_def)

lemma verify_auth_tag_eq:
  assumes "frame_in buf f" and "length epoch = 4" and "length (st_recv_key st) = 32"
  shows "verify_auth_tag st buf f epoch =
    Some (if 4 \<le> unat (fr_data_len f) \<and> unat (fr_data_len f) \<le> 259 \<and> fr_auth_tag f \<noteq> None \<and>
            auth_tag buf f = take 16 (hmac_spec (st_recv_key st) (auth_input buf epoch f)) then 1 else 0)"
proof (cases "4 \<le> unat (fr_data_len f) \<and> unat (fr_data_len f) \<le> 259 \<and> fr_auth_tag f \<noteq> None")
  case False
  then show ?thesis by (auto simp: verify_auth_tag_def Let_def)
next
  case True
  let ?n = "unat (fr_data_len f)" and ?p = "payload buf f"
  let ?h = "[fr_cla f, fr_ins f, fr_p1 f, fr_p2 f, ucast (fr_data_len f)]"
  from True obtain t where t: "fr_auth_tag f = Some t" by auto
  have tb: "t + 16 \<le> length buf" using assms(1) t by (simp add: frame_in_def code_defs)
  have pl: "length ?p = ?n" using payload_length [OF assms(1)] True by auto
  have d1: "frame_data buf f 0 4 = Some (take 4 ?p)" using frame_data_payload [OF assms(1), of 0 4] True by simp
  have d2: "frame_data buf f 4 (?n - 4) = Some (drop 4 ?p)"
    using frame_data_payload [OF assms(1), of 4 "?n - 4"] True pl by simp
  let ?z = "replicate 268 (0 :: u8)"
  have w1: "wr_range ?z 0 ?h = Some (?h @ replicate 263 0)"
    by (subst wr_range_prefix) simp_all
  have w2: "wr_range (?h @ replicate 263 0) 5 epoch = Some ((?h @ epoch) @ replicate 259 0)"
    by (subst wr_range_append) (simp_all add: assms(2))
  have w3: "wr_range ((?h @ epoch) @ replicate 259 0) 9 (take 4 ?p) = Some (((?h @ epoch) @ take 4 ?p) @ replicate 255 0)"
  proof (subst wr_range_append)
    show "length (take 4 ?p) \<le> length (replicate 259 (0 :: u8))" by simp
  qed (use pl True in \<open>auto simp: assms(2)\<close>)
  have w4: "wr_range (((?h @ epoch) @ take 4 ?p) @ replicate 255 0) 13 (drop 4 ?p) =
      Some ((((?h @ epoch) @ take 4 ?p) @ drop 4 ?p) @ drop (?n - 4) (replicate 255 0))"
  proof (subst wr_range_append)
    have n: "4 \<le> ?n" "?n \<le> 259" using True by simp_all
    then show "length ((?h @ epoch) @ take 4 ?p) = 13" using pl by (simp add: assms(2))
    show "length (drop 4 ?p) \<le> length (replicate 255 (0 :: u8))" using n pl by simp
  qed (simp_all add: pl)
  have m: "((?h @ epoch) @ take 4 ?p) @ drop 4 ?p = auth_input buf epoch f" by (simp add: auth_input_def)
  have ml: "length (auth_input buf epoch f) = 13 + (?n - 4)" using pl True assms(2) by (simp add: auth_input_def)
  have r: "rd_range (auth_input buf epoch f @ drop (?n - 4) (replicate 255 0)) 0 (13 + (?n - 4)) = Some (auth_input buf epoch f)"
    using ml by (subst rd_range_Some) simp_all
  have le255: "\<not> 255 < ?n - 4" using True by auto
  have h: "hmac_blake2b (st_recv_key st) 32 (auth_input buf epoch f) (13 + (?n - 4)) =
      hmac_spec (st_recv_key st) (auth_input buf epoch f)"
    using hmac_correct [of "st_recv_key st" "auth_input buf epoch f"] by (simp add: assms(3) ml)
  have dl: "length (take 16 (hmac_spec (st_recv_key st) (auth_input buf epoch f))) = 16"
    using hmac_length [of "st_recv_key st" "auth_input buf epoch f"] by (simp add: hmac_correct)
  have tg: "rd_range buf t 16 = Some (auth_tag buf f)" "length (auth_tag buf f) = 16"
    using tb t by (simp_all add: auth_tag_def frame_msg_def deref_def code_defs)
  have "verify_auth_tag st buf f epoch =
      Some (if crypto_verify16 (take 16 (hmac_spec (st_recv_key st) (auth_input buf epoch f))) (auth_tag buf f) = 0 then 1 else 0)"
    using True t assms(2) d1 d2 w1 w2 w3 w4 [unfolded m] r h tg(1) le255 by (simp add: verify_auth_tag_def Let_def)
  then show ?thesis using verify16 [OF dl tg(2)] True by auto
qed

text \<open>Equal inputs mean equal header fields and equal data.\<close>

lemma auth_input_inject:
  assumes "auth_input buf epoch f = auth_input buf' epoch' f'" and "length epoch = length epoch'"
  shows "fr_cla f = fr_cla f' \<and> fr_ins f = fr_ins f' \<and> fr_p1 f = fr_p1 f' \<and> fr_p2 f = fr_p2 f' \<and>
    epoch = epoch' \<and> payload buf f = payload buf' f'"
  using assms by (simp add: auth_input_def)

section \<open>Properties\<close>

text \<open>C34. The tag check never leaves a buffer and decides exactly the specified equation: for every frame
  whose pointers lie in the receive buffer it returns 1 if and only if the frame carries a tag, has 4 to
  259 data bytes, and the tag is the first 16 bytes of the HMAC under the receiving key of the header, the
  low byte of the length, the epoch identifier and the data; in every other case it returns 0.\<close>

theorem auth_tag_exact:
  assumes "frame_in buf f" and "length epoch = 4" and "length (st_recv_key st) = 32"
  shows "verify_auth_tag st buf f epoch =
    Some (if 4 \<le> unat (fr_data_len f) \<and> unat (fr_data_len f) \<le> 259 \<and> fr_auth_tag f \<noteq> None \<and>
            auth_tag buf f = take 16 (hmac_spec (st_recv_key st)
              ([fr_cla f, fr_ins f, fr_p1 f, fr_p2 f, ucast (fr_data_len f)] @ epoch @ payload buf f))
          then 1 else 0)"
  unfolding verify_auth_tag_eq [OF assms] auth_input_def by (rule refl)

text \<open>A throttle request for process 1 with a zero tag: data at offset 5, tag after the expected length.\<close>

definition demo_signed :: apdu_frame where
  "demo_signed = zero_frame\<lparr>fr_cla := 0x04, fr_ins := 0x20, fr_sec := 1, fr_data_len := 8, fr_data := Some 5,
     fr_auth_tag := Some 14, fr_total_size := 30\<rparr>"

theorem auth_tag_exact_witness:
  "verify_auth_tag zero_state (replicate 30 0) demo_signed (replicate 4 0) =
   Some (if replicate 16 0 = take 16 (hmac_spec (replicate 32 0)
     ([0x04, 0x20, 0, 0, 8] @ replicate 4 0 @ replicate 8 0)) then 1 else 0)"
proof -
  have f: "frame_in (replicate 30 0) demo_signed"
    by (simp add: frame_in_def demo_signed_def zero_frame_def code_defs)
  have "payload (replicate 30 0) demo_signed = replicate 8 0" "auth_tag (replicate 30 0) demo_signed = replicate 16 0"
    by (simp_all add: payload_def auth_tag_def frame_msg_def deref_def demo_signed_def code_defs)
  then show ?thesis
    using auth_tag_exact [OF f, of "replicate 4 0" zero_state] by (simp add: zero_state_def demo_signed_def zero_frame_def)
qed

end
