(* ===== verification/CString.thy ===== *)
theory CString
  imports Prelude
begin

text \<open>
  The string functions of the C library the sources call, on NUL-terminated byte arrays. A
  \<open>char *\<close> is the byte list from the pointer to the end of its object.
\<close>

definition cstr :: "bytes \<Rightarrow> bytes" where
  "cstr s = takeWhile (\<lambda>c. c \<noteq> 0) s"

definition strlen :: "bytes \<Rightarrow> nat" where
  "strlen s = length (cstr s)"

definition strcmp_eq :: "bytes \<Rightarrow> bytes \<Rightarrow> bool" where
  "strcmp_eq a b \<longleftrightarrow> cstr a = cstr b"

definition strncpy_bytes :: "bytes \<Rightarrow> nat \<Rightarrow> bytes" where
  "strncpy_bytes s n = take n (cstr s @ replicate n 0)"

lemma strncpy_length [buf_simps, simp]: "length (strncpy_bytes s n) = n"
  by (simp add: strncpy_bytes_def)

lemma cstr_idem [simp]: "cstr (cstr s) = cstr s"
  by (simp add: cstr_def)

lemma cstr_no_nul: "0 \<notin> set (cstr s)"
  by (auto simp: cstr_def dest: set_takeWhileD)

lemma cstr_append_nul: "0 \<notin> set s \<Longrightarrow> cstr (s @ 0 # t) = s"
  unfolding cstr_def by (subst takeWhile_append2) auto

lemma cstr_replicate_nul [simp]: "cstr (replicate n 0) = []"
  by (cases n) (simp_all add: cstr_def)

lemma cstr_id: "0 \<notin> set s \<Longrightarrow> cstr s = s"
  unfolding cstr_def by (rule takeWhile_eq_all_conv [THEN iffD2]) auto

lemma cstr_append_zeros: "0 \<notin> set s \<Longrightarrow> cstr (s @ replicate k 0) = s"
  by (cases k) (simp_all add: cstr_id cstr_append_nul)

lemma cstr_take: "cstr (take n (cstr s) @ replicate k 0) = take n (cstr s)"
  by (rule cstr_append_zeros) (meson cstr_no_nul in_set_takeD)

text \<open>A bounded copy that is then terminated holds the source string cut to the bound.\<close>

lemma cstr_strncpy: "cstr (strncpy_bytes s n @ [0]) = take n (cstr s)"
proof -
  have "cstr (strncpy_bytes s n) = take n (cstr s)" by (simp add: strncpy_bytes_def cstr_take)
  moreover have "cstr (x @ [0]) = cstr x" for x
    by (induction x) (auto simp: cstr_def)
  ultimately show ?thesis by simp
qed

end
