(* ===== verification/TaskPool.thy ===== *)
theory TaskPool
  imports CString SlotPool
begin

unbundle bit_operations_syntax

text \<open>
  The async task pool (src/src/asyd/core/task_pool.c and task_pool.h): 64 static entries, each an
  outstanding service restart, and the seed of its pseudo-random handles. The C library calls are
  arguments: \<open>rand_r\<close> maps a seed to a number and the next seed, \<open>now\<close> is what
  \<open>time(NULL)\<close> returns.
\<close>

definition TASK_POOL_SIZE :: nat where [code_defs]: "TASK_POOL_SIZE = 64"
definition TASK_SVC_NAME_MAX :: nat where [code_defs]: "TASK_SVC_NAME_MAX = 64"
definition TASK_TIMEOUT_SEC :: int where [code_defs]: "TASK_TIMEOUT_SEC = 30"

datatype task_status =
  TASK_EMPTY | TASK_PENDING | TASK_SUCCESS | TASK_FAILED | TASK_TIMEOUT | TASK_CANCELLED

record task_entry =
  te_handle_id :: u32
  te_session_id :: u16
  te_child_pid :: int
  te_status :: task_status
  te_created_at :: int
  te_svc_name :: bytes

record task_pool =
  tp_entries :: "task_entry list"
  tp_rand_seed :: u32

definition zero_task :: task_entry where
  "zero_task = \<lparr>te_handle_id = 0, te_session_id = 0, te_child_pid = 0, te_status = TASK_EMPTY,
     te_created_at = 0, te_svc_name = replicate (TASK_SVC_NAME_MAX + 1) 0\<rparr>"

definition task_pool_init :: "int \<Rightarrow> int \<Rightarrow> task_pool" where
  "task_pool_init now pid =
     \<lparr>tp_entries = replicate TASK_POOL_SIZE zero_task,
      tp_rand_seed = ucast ((word_of_int now :: u64) XOR word_of_int pid)\<rparr>"

definition task_pool_available :: "task_pool \<Rightarrow> int" where
  "task_pool_available tp =
     (case find_first (\<lambda>e. te_status e = TASK_EMPTY) (tp_entries tp) of Some _ \<Rightarrow> 1 | None \<Rightarrow> 0)"

definition task_pool_alloc ::
    "(u32 \<Rightarrow> int \<times> u32) \<Rightarrow> int \<Rightarrow> u16 \<Rightarrow> bytes \<Rightarrow> int \<Rightarrow> task_pool \<Rightarrow> u32 \<times> task_pool" where
  "task_pool_alloc rand_r now session_id svc_name child_pid tp =
     (case find_first (\<lambda>e. te_status e = TASK_EMPTY) (tp_entries tp) of
        None \<Rightarrow> (0, tp)
      | Some i \<Rightarrow>
          let (r, seed) = rand_r (tp_rand_seed tp);
              rnd0 = (word_of_int (r AND 0xFFFF) :: u16);
              rnd = (if rnd0 = 0 then 1 else rnd0);
              handle = push_bit 16 (ucast session_id :: u32) OR ucast rnd
          in (handle,
              tp\<lparr>tp_entries := (tp_entries tp)[i :=
                   \<lparr>te_handle_id = handle, te_session_id = session_id, te_child_pid = child_pid,
                    te_status = TASK_PENDING, te_created_at = now,
                    te_svc_name = strncpy_bytes svc_name TASK_SVC_NAME_MAX @ [0]\<rparr>],
                 tp_rand_seed := seed\<rparr>))"

definition task_pool_find_pending :: "u16 \<Rightarrow> bytes \<Rightarrow> task_pool \<Rightarrow> u32" where
  "task_pool_find_pending session_id svc_name tp =
     (case find_first (\<lambda>e. te_status e = TASK_PENDING \<and> te_session_id e = session_id \<and>
                           strcmp_eq (te_svc_name e) svc_name) (tp_entries tp) of
        Some i \<Rightarrow> te_handle_id (tp_entries tp ! i)
      | None \<Rightarrow> 0)"

definition task_pool_find_handle :: "u32 \<Rightarrow> u16 \<Rightarrow> task_pool \<Rightarrow> nat option" where
  "task_pool_find_handle handle_id session_id tp =
     (if handle_id = 0 then None
      else let sid = (ucast (drop_bit 16 handle_id) :: u16) in
        if sid \<noteq> session_id then None
        else find_first (\<lambda>e. te_handle_id e = handle_id \<and> te_status e \<noteq> TASK_EMPTY) (tp_entries tp))"

definition task_pool_free :: "u32 \<Rightarrow> task_pool \<Rightarrow> task_pool" where
  "task_pool_free handle_id tp =
     (case find_first (\<lambda>e. te_handle_id e = handle_id) (tp_entries tp) of
        Some i \<Rightarrow> tp\<lparr>tp_entries := (tp_entries tp)[i := zero_task]\<rparr>
      | None \<Rightarrow> tp)"

definition task_pool_update_by_pid :: "int \<Rightarrow> task_status \<Rightarrow> task_pool \<Rightarrow> task_pool" where
  "task_pool_update_by_pid pid new_status tp =
     (case find_first (\<lambda>e. te_child_pid e = pid \<and> te_status e = TASK_PENDING) (tp_entries tp) of
        Some i \<Rightarrow> tp\<lparr>tp_entries := (tp_entries tp)[i := (tp_entries tp ! i)\<lparr>te_status := new_status\<rparr>]\<rparr>
      | None \<Rightarrow> tp)"

definition task_pool_release_session :: "u16 \<Rightarrow> task_pool \<Rightarrow> task_pool" where
  "task_pool_release_session session_id tp =
     tp\<lparr>tp_entries := map (\<lambda>e. if te_session_id e = session_id \<and> te_status e \<noteq> TASK_EMPTY
                               then zero_task else e) (tp_entries tp)\<rparr>"

definition sweep_entry :: "int \<Rightarrow> task_entry \<Rightarrow> task_entry" where
  "sweep_entry now e =
     (if te_status e = TASK_EMPTY then e
      else if now - te_created_at e \<le> TASK_TIMEOUT_SEC then e
      else if te_status e = TASK_PENDING then e\<lparr>te_status := TASK_TIMEOUT\<rparr>
      else zero_task)"

definition task_pool_sweep_timeouts :: "int \<Rightarrow> task_pool \<Rightarrow> task_pool" where
  "task_pool_sweep_timeouts now tp = tp\<lparr>tp_entries := map (sweep_entry now) (tp_entries tp)\<rparr>"

section \<open>The invariant of the pool\<close>

text \<open>
  An empty slot is all zero, an occupied one carries its session in the high half of its handle, a
  non-zero low half, and a terminated name of at most 64 characters.
\<close>

definition wf_task :: "task_entry \<Rightarrow> bool" where
  "wf_task e \<longleftrightarrow>
     (if te_status e = TASK_EMPTY then e = zero_task
      else ucast (drop_bit 16 (te_handle_id e)) = te_session_id e \<and>
           (ucast (te_handle_id e) :: u16) \<noteq> 0 \<and>
           length (te_svc_name e) = TASK_SVC_NAME_MAX + 1 \<and>
           last (te_svc_name e) = 0)"

definition wf_pool :: "task_pool \<Rightarrow> bool" where
  "wf_pool tp \<longleftrightarrow> length (tp_entries tp) = TASK_POOL_SIZE \<and> (\<forall>e \<in> set (tp_entries tp). wf_task e)"

lemma wf_zero_task [simp]: "wf_task zero_task"
  by (simp add: wf_task_def zero_task_def)

lemma zero_task_status [simp]: "te_status zero_task = TASK_EMPTY"
  by (simp add: zero_task_def)

lemma zero_task_handle [simp]: "te_handle_id zero_task = 0"
  by (simp add: zero_task_def)

lemma wf_pool_update:
  "wf_pool tp \<Longrightarrow> wf_task e \<Longrightarrow> wf_pool (tp\<lparr>tp_entries := (tp_entries tp)[i := e]\<rparr>)"
  using set_update_subset_insert [of "tp_entries tp" i e] by (auto simp: wf_pool_def)

lemma wf_pool_map:
  "wf_pool tp \<Longrightarrow> (\<And>e. wf_task e \<Longrightarrow> wf_task (f e)) \<Longrightarrow>
   wf_pool (tp\<lparr>tp_entries := map f (tp_entries tp)\<rparr>)"
  by (auto simp: wf_pool_def)

lemma wf_pool_seed [simp]: "wf_pool (tp\<lparr>tp_rand_seed := s\<rparr>) = wf_pool tp"
  by (simp add: wf_pool_def)

lemma wf_pool_nth: "wf_pool tp \<Longrightarrow> i < TASK_POOL_SIZE \<Longrightarrow> wf_task (tp_entries tp ! i)"
  by (auto simp: wf_pool_def)

lemma wf_pool_init: "wf_pool (task_pool_init now pid)"
  by (auto simp: wf_pool_def task_pool_init_def)

text \<open>The handle written by an allocation, taken apart again.\<close>

definition make_handle :: "u16 \<Rightarrow> u16 \<Rightarrow> u32" where
  "make_handle sid rnd = push_bit 16 (ucast sid) OR ucast rnd"

lemma make_handle_high: "ucast (drop_bit 16 (make_handle sid rnd)) = sid"
  unfolding make_handle_def
  by (rule bit_word_eqI) (auto simp: bit_simps dest: bit_imp_le_length)

lemma make_handle_low: "ucast (make_handle sid rnd) = rnd"
  unfolding make_handle_def by (rule bit_word_eqI) (auto simp: bit_simps)

lemma make_handle_inject: "make_handle s r = make_handle s' r' \<longleftrightarrow> s = s' \<and> r = r'"
  by (metis make_handle_high make_handle_low)

lemma make_handle_nonzero: "rnd \<noteq> 0 \<Longrightarrow> make_handle sid rnd \<noteq> 0"
  by (metis make_handle_low unsigned_0)

section \<open>Every operation keeps the invariant\<close>

text \<open>The entry an allocation writes.\<close>

definition alloc_rnd :: "int \<Rightarrow> u16" where
  "alloc_rnd r = (if (word_of_int (r AND 0xFFFF) :: u16) = 0 then 1 else word_of_int (r AND 0xFFFF))"

definition new_task :: "u16 \<Rightarrow> u16 \<Rightarrow> int \<Rightarrow> int \<Rightarrow> bytes \<Rightarrow> task_entry" where
  "new_task sid rnd pid now name =
     \<lparr>te_handle_id = make_handle sid rnd, te_session_id = sid, te_child_pid = pid,
      te_status = TASK_PENDING, te_created_at = now,
      te_svc_name = strncpy_bytes name TASK_SVC_NAME_MAX @ [0]\<rparr>"

lemma alloc_rnd_nonzero: "alloc_rnd r \<noteq> 0"
  by (simp add: alloc_rnd_def)

lemma wf_new_task: "rnd \<noteq> 0 \<Longrightarrow> wf_task (new_task sid rnd pid now name)"
  by (simp add: wf_task_def new_task_def make_handle_high make_handle_low)

lemma new_task_status [simp]: "te_status (new_task sid rnd pid now name) = TASK_PENDING"
  by (simp add: new_task_def)

lemma alloc_None:
  "find_first (\<lambda>e. te_status e = TASK_EMPTY) (tp_entries tp) = None \<Longrightarrow>
   task_pool_alloc rand_r now sid name pid tp = (0, tp)"
  by (simp add: task_pool_alloc_def)

lemma alloc_Some:
  assumes "find_first (\<lambda>e. te_status e = TASK_EMPTY) (tp_entries tp) = Some i"
  shows "task_pool_alloc rand_r now sid name pid tp =
    (make_handle sid (alloc_rnd (fst (rand_r (tp_rand_seed tp)))),
     tp\<lparr>tp_entries := (tp_entries tp)[i := new_task sid (alloc_rnd (fst (rand_r (tp_rand_seed tp)))) pid now name],
        tp_rand_seed := snd (rand_r (tp_rand_seed tp))\<rparr>)"
  using assms
  by (simp add: task_pool_alloc_def new_task_def make_handle_def alloc_rnd_def Let_def split: prod.split)

lemma wf_pool_alloc: "wf_pool tp \<Longrightarrow> wf_pool (snd (task_pool_alloc rand_r now sid name pid tp))"
  by (cases "find_first (\<lambda>e. te_status e = TASK_EMPTY) (tp_entries tp)")
     (simp_all add: alloc_None alloc_Some wf_pool_update wf_new_task alloc_rnd_nonzero)

lemma wf_pool_free: "wf_pool tp \<Longrightarrow> wf_pool (task_pool_free h tp)"
  by (auto simp: task_pool_free_def wf_pool_update split: option.split)

lemma wf_task_finish:
  "wf_task e \<Longrightarrow> te_status e \<noteq> TASK_EMPTY \<Longrightarrow> st \<noteq> TASK_EMPTY \<Longrightarrow> wf_task (e\<lparr>te_status := st\<rparr>)"
  by (simp add: wf_task_def)

lemma wf_pool_update_by_pid:
  assumes "wf_pool tp" and "st \<noteq> TASK_EMPTY"
  shows "wf_pool (task_pool_update_by_pid pid st tp)"
proof (cases "find_first (\<lambda>e. te_child_pid e = pid \<and> te_status e = TASK_PENDING) (tp_entries tp)")
  case None
  then show ?thesis using assms by (simp add: task_pool_update_by_pid_def)
next
  case (Some i)
  note i = find_first_SomeD [OF Some]
  have "wf_task (tp_entries tp ! i)" using assms(1) i(1) by (simp add: wf_pool_def)
  then have "wf_task ((tp_entries tp ! i)\<lparr>te_status := st\<rparr>)"
    using i(2) assms(2) by (intro wf_task_finish) auto
  then show ?thesis using assms Some by (simp add: task_pool_update_by_pid_def wf_pool_update)
qed

lemma wf_pool_release_session: "wf_pool tp \<Longrightarrow> wf_pool (task_pool_release_session sid tp)"
  unfolding task_pool_release_session_def by (rule wf_pool_map) auto

lemma wf_sweep_entry: "wf_task e \<Longrightarrow> wf_task (sweep_entry now e)"
  by (auto simp: sweep_entry_def wf_task_def)

lemma wf_pool_sweep: "wf_pool tp \<Longrightarrow> wf_pool (task_pool_sweep_timeouts now tp)"
  unfolding task_pool_sweep_timeouts_def by (rule wf_pool_map) (auto intro: wf_sweep_entry)

lemmas wf_pool_ops =
  wf_pool_init wf_pool_alloc wf_pool_free wf_pool_update_by_pid wf_pool_release_session wf_pool_sweep

section \<open>The pool as a pool of slots\<close>

definition task_acquire :: "task_entry \<Rightarrow> task_entry list \<Rightarrow> nat option \<times> task_entry list" where
  "task_acquire e es =
     (case find_first (\<lambda>e. te_status e = TASK_EMPTY) es of
        None \<Rightarrow> (None, es)
      | Some i \<Rightarrow> (Some i, es[i := e\<lparr>te_status := TASK_PENDING\<rparr>]))"

definition task_release :: "nat \<Rightarrow> task_entry list \<Rightarrow> task_entry list" where
  "task_release i es = es[i := zero_task]"

interpretation task_slots: slot_pool "\<lambda>e :: task_entry. te_status e = TASK_EMPTY" task_acquire task_release
proof unfold_locales
  fix a and s :: "task_entry list"
  assume "\<forall>e \<in> set s. te_status e \<noteq> TASK_EMPTY"
  then have "find_first (\<lambda>e. te_status e = TASK_EMPTY) s = None" by (simp add: find_first_None)
  then show "task_acquire a s = (None, s)" by (simp add: task_acquire_def)
next
  fix a and s :: "task_entry list" and i
  assume "find_first (\<lambda>e. te_status e = TASK_EMPTY) s = Some i"
  then show "\<exists>e. te_status e \<noteq> TASK_EMPTY \<and> task_acquire a s = (Some i, s[i := e])"
    by (intro exI [of _ "a\<lparr>te_status := TASK_PENDING\<rparr>"]) (simp add: task_acquire_def)
next
  fix i :: nat and s :: "task_entry list"
  show "\<exists>e. te_status e = TASK_EMPTY \<and> task_release i s = s[i := e]"
    by (intro exI [of _ zero_task]) (simp add: task_release_def)
qed

text \<open>The code's allocation is the acquisition of a slot, plus the draw of the handle.\<close>

lemma alloc_acquire:
  "tp_entries (snd (task_pool_alloc rand_r now sid name pid tp)) =
   snd (task_acquire (new_task sid (alloc_rnd (fst (rand_r (tp_rand_seed tp)))) pid now name) (tp_entries tp))"
  by (cases "find_first (\<lambda>e. te_status e = TASK_EMPTY) (tp_entries tp)")
     (simp_all add: alloc_None alloc_Some task_acquire_def new_task_def)

lemma find_empty_None_iff:
  "find_first (\<lambda>e. te_status e = TASK_EMPTY) es = None \<longleftrightarrow> task_slots.used es = length es"
  by (simp only: find_first_None task_slots.full_iff)

lemma alloc_zero_iff:
  "fst (task_pool_alloc rand_r now sid name pid tp) = 0 \<longleftrightarrow>
   task_slots.used (tp_entries tp) = length (tp_entries tp)"
  by (cases "find_first (\<lambda>e. te_status e = TASK_EMPTY) (tp_entries tp)")
     (simp_all add: alloc_None alloc_Some make_handle_nonzero alloc_rnd_nonzero
        flip: find_empty_None_iff)

lemma available_iff:
  "task_pool_available tp = 1 \<longleftrightarrow> task_slots.used (tp_entries tp) \<noteq> length (tp_entries tp)"
  by (simp add: task_pool_available_def split: option.split flip: find_empty_None_iff)

section \<open>Operations as events\<close>

text \<open>
  The calls other components make, as a datatype: allocation by SVC_RESTART, release by TASK_QUERY,
  the exit of a child reported by the SIGCHLD handler, the end of a session and a timeout sweep.
\<close>

datatype pool_op =
    Pool_alloc int u16 bytes int
  | Pool_free u32
  | Pool_exit int bool
  | Pool_release u16
  | Pool_sweep int

fun pool_step :: "(u32 \<Rightarrow> int \<times> u32) \<Rightarrow> task_pool \<Rightarrow> pool_op \<Rightarrow> task_pool" where
  "pool_step rand_r tp (Pool_alloc now sid name pid) = snd (task_pool_alloc rand_r now sid name pid tp)"
| "pool_step rand_r tp (Pool_free h) = task_pool_free h tp"
| "pool_step rand_r tp (Pool_exit pid ok) =
     task_pool_update_by_pid pid (if ok then TASK_SUCCESS else TASK_FAILED) tp"
| "pool_step rand_r tp (Pool_release sid) = task_pool_release_session sid tp"
| "pool_step rand_r tp (Pool_sweep now) = task_pool_sweep_timeouts now tp"

lemma wf_pool_step: "wf_pool tp \<Longrightarrow> wf_pool (pool_step rand_r tp op)"
  by (cases op) (auto intro: wf_pool_ops)

lemma wf_pool_steps: "wf_pool tp \<Longrightarrow> wf_pool (foldl (pool_step rand_r) tp ops)"
  by (induction ops arbitrary: tp) (auto intro: wf_pool_step)

text \<open>How one slot may evolve in one operation.\<close>

inductive slot_step :: "task_entry \<Rightarrow> task_entry \<Rightarrow> bool" where
  slot_keep: "slot_step e e"
| slot_fill: "te_status e = TASK_EMPTY \<Longrightarrow> te_status e' = TASK_PENDING \<Longrightarrow> slot_step e e'"
| slot_finish: "te_status e = TASK_PENDING \<Longrightarrow> st \<in> {TASK_SUCCESS, TASK_FAILED, TASK_TIMEOUT} \<Longrightarrow>
     slot_step e (e\<lparr>te_status := st\<rparr>)"
| slot_drop: "slot_step e zero_task"

inductive_cases slot_stepE: "slot_step e e'"

lemma slot_step_terminal:
  "slot_step e e' \<Longrightarrow> te_status e \<in> {TASK_SUCCESS, TASK_FAILED, TASK_TIMEOUT, TASK_CANCELLED} \<Longrightarrow>
   e' = e \<or> e' = zero_task"
  by (auto elim: slot_stepE)

lemma slot_step_identity:
  "slot_step e e' \<Longrightarrow> te_status e \<noteq> TASK_EMPTY \<Longrightarrow> te_status e' \<noteq> TASK_EMPTY \<Longrightarrow>
   te_handle_id e' = te_handle_id e \<and> te_session_id e' = te_session_id e \<and>
   te_child_pid e' = te_child_pid e \<and> te_created_at e' = te_created_at e \<and> te_svc_name e' = te_svc_name e"
  by (auto elim: slot_stepE)

lemma slot_step_update:
  "slot_step (es ! i) e \<Longrightarrow> j < length es \<Longrightarrow> slot_step (es ! j) (es[i := e] ! j)"
  by (cases "i = j") (auto intro: slot_keep)

lemma slot_step_sweep: "slot_step e (sweep_entry now e)"
  by (auto simp: sweep_entry_def intro: slot_step.intros)

lemma pool_step_slots:
  assumes "j < length (tp_entries tp)"
  shows "slot_step (tp_entries tp ! j) (tp_entries (pool_step rand_r tp op) ! j)"
proof (cases op)
  case (Pool_alloc now sid name pid)
  show ?thesis
  proof (cases "find_first (\<lambda>e. te_status e = TASK_EMPTY) (tp_entries tp)")
    case None
    then show ?thesis by (simp add: Pool_alloc alloc_None slot_keep)
  next
    case (Some i)
    have "slot_step (tp_entries tp ! i) (new_task s r p t n)" for s r p t n
      by (rule slot_fill) (simp_all add: find_first_SomeD(2) [OF Some])
    then show ?thesis by (simp add: Pool_alloc alloc_Some [OF Some] slot_step_update assms)
  qed
next
  case (Pool_free h)
  then show ?thesis
    by (auto simp: task_pool_free_def assms intro!: slot_keep slot_step_update slot_drop split: option.split)
next
  case (Pool_exit pid ok)
  then show ?thesis
    by (auto simp: task_pool_update_by_pid_def assms intro!: slot_keep slot_step_update slot_finish
        split: option.split dest: find_first_SomeD)
next
  case (Pool_release sid)
  then show ?thesis
    by (auto simp: task_pool_release_session_def assms intro: slot_keep slot_drop)
next
  case (Pool_sweep now)
  then show ?thesis
    by (simp add: task_pool_sweep_timeouts_def assms slot_step_sweep)
qed

section \<open>Looking tasks up\<close>

lemma find_handle_SomeD:
  assumes "task_pool_find_handle h sid tp = Some i"
  shows "h \<noteq> 0" and "ucast (drop_bit 16 h) = sid" and "i < length (tp_entries tp)"
    and "te_handle_id (tp_entries tp ! i) = h" and "te_status (tp_entries tp ! i) \<noteq> TASK_EMPTY"
  using assms by (auto simp: task_pool_find_handle_def Let_def split: if_splits dest: find_first_SomeD)

lemma find_handle_session:
  assumes "wf_pool tp" and "task_pool_find_handle h sid tp = Some i"
  shows "te_session_id (tp_entries tp ! i) = sid"
proof -
  note d = find_handle_SomeD [OF assms(2)]
  have "wf_task (tp_entries tp ! i)" using assms(1) d(3) by (simp add: wf_pool_def)
  then show ?thesis using d by (simp add: wf_task_def)
qed

lemma wf_task_handle_nonzero: "wf_task e \<Longrightarrow> te_status e \<noteq> TASK_EMPTY \<Longrightarrow> te_handle_id e \<noteq> 0"
  by (auto simp: wf_task_def)

lemma find_handle_iff:
  assumes "wf_pool tp"
  shows "task_pool_find_handle h sid tp \<noteq> None \<longleftrightarrow>
    (\<exists>e \<in> set (tp_entries tp). te_status e \<noteq> TASK_EMPTY \<and> te_handle_id e = h \<and> te_session_id e = sid)"
    (is "?L \<longleftrightarrow> ?R")
proof
  assume ?L
  then obtain i where i: "task_pool_find_handle h sid tp = Some i" by blast
  note d = find_handle_SomeD [OF i] and s = find_handle_session [OF assms i]
  show ?R by (rule bexI [of _ "tp_entries tp ! i"]) (use d s in auto)
next
  assume ?R
  then obtain e where e: "e \<in> set (tp_entries tp)" "te_status e \<noteq> TASK_EMPTY" "te_handle_id e = h"
    "te_session_id e = sid" by blast
  have "wf_task e" using assms e(1) by (simp add: wf_pool_def)
  then have "h \<noteq> 0" and "ucast (drop_bit 16 h) = sid"
    using e wf_task_handle_nonzero by (auto simp: wf_task_def)
  then show ?L using e by (auto simp: task_pool_find_handle_def find_first_None)
qed

lemma find_handle_fresh:
  assumes wf: "wf_pool tp" and h: "task_pool_alloc rand_r now sid name pid tp = (h, tp')" "h \<noteq> 0"
    and fresh: "\<forall>e \<in> set (tp_entries tp). te_status e \<noteq> TASK_EMPTY \<longrightarrow> te_handle_id e \<noteq> h"
  shows "\<exists>i. task_pool_find_handle h sid tp' = Some i \<and> i < TASK_POOL_SIZE \<and>
    te_status (tp_entries tp ! i) = TASK_EMPTY \<and>
    tp_entries tp' ! i = new_task sid (ucast h) pid now name \<and>
    (\<forall>j < TASK_POOL_SIZE. j \<noteq> i \<longrightarrow> tp_entries tp' ! j = tp_entries tp ! j)"
proof (cases "find_first (\<lambda>e. te_status e = TASK_EMPTY) (tp_entries tp)")
  case None
  with h show ?thesis by (simp add: alloc_None)
next
  case (Some i)
  let ?rnd = "alloc_rnd (fst (rand_r (tp_rand_seed tp)))"
  let ?e = "new_task sid ?rnd pid now name"
  note i = find_first_SomeD [OF Some]
  have hh: "h = make_handle sid ?rnd" and es: "tp_entries tp' = (tp_entries tp)[i := ?e]"
    using h(1) by (auto simp: alloc_Some [OF Some])
  have len: "length (tp_entries tp) = TASK_POOL_SIZE" using wf by (simp add: wf_pool_def)
  have "find_first (\<lambda>e. te_handle_id e = h \<and> te_status e \<noteq> TASK_EMPTY) (tp_entries tp') = Some i"
    unfolding find_first_Some
  proof (intro conjI allI impI)
    show "i < length (tp_entries tp')" using i es by simp
    show "te_handle_id (tp_entries tp' ! i) = h" "te_status (tp_entries tp' ! i) \<noteq> TASK_EMPTY"
      using i es hh by (simp_all add: new_task_def)
    fix j assume "j < i"
    then show "\<not> (te_handle_id (tp_entries tp' ! j) = h \<and> te_status (tp_entries tp' ! j) \<noteq> TASK_EMPTY)"
      using fresh i es by auto
  qed
  then have "task_pool_find_handle h sid tp' = Some i"
    using h(2) by (simp add: task_pool_find_handle_def hh make_handle_high)
  then show ?thesis using i es hh len by (auto simp: make_handle_low)
qed

section \<open>One service restart per session\<close>

text \<open>The handler looks for a pending task of the same session and service before it forks.\<close>

lemma find_pending_zero_iff:
  assumes "wf_pool tp"
  shows "task_pool_find_pending sid name tp = 0 \<longleftrightarrow>
    (\<forall>e \<in> set (tp_entries tp). te_status e = TASK_PENDING \<longrightarrow> te_session_id e = sid \<longrightarrow>
       cstr (te_svc_name e) \<noteq> cstr name)"
proof (cases "find_first (\<lambda>e. te_status e = TASK_PENDING \<and> te_session_id e = sid \<and>
                           strcmp_eq (te_svc_name e) name) (tp_entries tp)")
  case None
  then have "task_pool_find_pending sid name tp = 0" by (simp add: task_pool_find_pending_def)
  with None show ?thesis by (auto simp: find_first_None strcmp_eq_def)
next
  case (Some i)
  note i = find_first_SomeD [OF Some]
  have "wf_task (tp_entries tp ! i)" using assms i(1) by (simp add: wf_pool_def)
  then have "task_pool_find_pending sid name tp \<noteq> 0"
    using i(2) by (simp add: task_pool_find_pending_def Some wf_task_handle_nonzero)
  then show ?thesis using i(1,2) by (auto simp: strcmp_eq_def intro: nth_mem)
qed

lemma find_pending_handle:
  assumes "wf_pool tp" and "task_pool_find_pending sid name tp = h" and "h \<noteq> 0"
  shows "\<exists>e \<in> set (tp_entries tp). te_status e = TASK_PENDING \<and> te_session_id e = sid \<and>
           te_handle_id e = h \<and> cstr (te_svc_name e) = cstr name"
  using assms(2,3)
  by (auto simp: task_pool_find_pending_def strcmp_eq_def intro: nth_mem
      split: option.splits dest: find_first_SomeD(1,2))

section \<open>Runs of the pool\<close>

definition pool_run :: "(u32 \<Rightarrow> int \<times> u32) \<Rightarrow> int \<Rightarrow> int \<Rightarrow> pool_op list \<Rightarrow> task_pool" where
  "pool_run rand_r now pid ops = foldl (pool_step rand_r) (task_pool_init now pid) ops"

lemma wf_pool_run: "wf_pool (pool_run rand_r now pid ops)"
  by (simp add: pool_run_def wf_pool_steps wf_pool_init)

lemma pool_run_length: "length (tp_entries (pool_run rand_r now pid ops)) = TASK_POOL_SIZE"
  using wf_pool_run wf_pool_def by blast

lemma pool_run_snoc: "pool_run rand_r now pid (ops @ [op]) = pool_step rand_r (pool_run rand_r now pid ops) op"
  by (simp add: pool_run_def)

lemma pool_run_slot_step:
  "j < TASK_POOL_SIZE \<Longrightarrow> slot_step (tp_entries (pool_run rand_r now pid ops) ! j)
                            (tp_entries (pool_run rand_r now pid (ops @ [op])) ! j)"
  by (simp add: pool_run_snoc pool_step_slots pool_run_length)

section \<open>Properties\<close>

text \<open>C12. Whatever sequence of calls the other components make after the pool is initialised
  (allocations with any clock, random source and service name, releases of any handle, exits of any
  child, session ends and sweeps), the pool keeps its 64 entries, every free slot is all zero, and
  every occupied one carries the id of its own session in the high half of its handle, a non-zero
  random half, and a service name terminated within its 65 bytes.\<close>

theorem task_pool_invariant:
  "wf_pool (foldl (pool_step rand_r) (task_pool_init now pid) ops)"
  using wf_pool_run by (simp add: pool_run_def)

text \<open>C13. In every reachable pool a session can look up exactly the tasks it owns: a handle resolves
  for a session if and only if some occupied entry has both that handle and that session id, and the
  entry it resolves to has them; so no session can read or free another session's task.\<close>

theorem task_ownership:
  "(task_pool_find_handle h sid (pool_run rand_r now pid ops) \<noteq> None \<longleftrightarrow>
     (\<exists>e \<in> set (tp_entries (pool_run rand_r now pid ops)).
        te_status e \<noteq> TASK_EMPTY \<and> te_handle_id e = h \<and> te_session_id e = sid)) \<and>
   (\<forall>i. task_pool_find_handle h sid (pool_run rand_r now pid ops) = Some i \<longrightarrow>
        i < TASK_POOL_SIZE \<and>
        te_handle_id (tp_entries (pool_run rand_r now pid ops) ! i) = h \<and>
        te_session_id (tp_entries (pool_run rand_r now pid ops) ! i) = sid)"
proof (intro conjI allI impI)
  fix i assume i: "task_pool_find_handle h sid (pool_run rand_r now pid ops) = Some i"
  show "i < TASK_POOL_SIZE" using find_handle_SomeD(3) [OF i] by (simp add: pool_run_length)
  show "te_handle_id (tp_entries (pool_run rand_r now pid ops) ! i) = h" by (rule find_handle_SomeD(4) [OF i])
  show "te_session_id (tp_entries (pool_run rand_r now pid ops) ! i) = sid"
    by (rule find_handle_session [OF wf_pool_run i])
qed (rule find_handle_iff [OF wf_pool_run])

theorem task_ownership_witness:
  "te_session_id (tp_entries (pool_run (\<lambda>s. (42, s)) 5 6 [Pool_alloc 100 3 [115, 0] 7]) ! 0) = 3 \<and>
   task_pool_find_handle 0x0003002A 4 (pool_run (\<lambda>s. (42, s)) 5 6 [Pool_alloc 100 3 [115, 0] 7]) = None"
proof -
  let ?tp = "pool_run (\<lambda>s. (42, s)) 5 6 [Pool_alloc 100 3 [115, 0] 7]"
  have "task_pool_find_handle 0x0003002A 3 ?tp = Some 0" by code_simp
  then have "te_session_id (tp_entries ?tp ! 0) = 3"
    by (rule task_ownership [THEN conjunct2, rule_format, THEN conjunct2, THEN conjunct2])
  moreover have "task_pool_find_handle 0x0003002A 4 ?tp = None" by code_simp
  ultimately show ?thesis by blast
qed

text \<open>Allocation fails exactly when all 64 slots are occupied, and then changes nothing. When it
  succeeds with a handle no occupied entry has, that handle resolves, for the session that allocated
  it and in the slot that was free, to a pending entry with the child, the time and the service name
  of the call, and every other entry is unchanged.\<close>

theorem task_alloc_then_find:
  assumes "wf_pool tp"
    and "task_pool_alloc rand_r now sid name pid tp = (h, tp')"
    and "\<forall>e \<in> set (tp_entries tp). te_status e \<noteq> TASK_EMPTY \<longrightarrow> te_handle_id e \<noteq> h"
  shows "if \<forall>e \<in> set (tp_entries tp). te_status e \<noteq> TASK_EMPTY then h = 0 \<and> tp' = tp
    else h \<noteq> 0 \<and> (\<exists>i. task_pool_find_handle h sid tp' = Some i \<and> i < TASK_POOL_SIZE \<and>
      te_status (tp_entries tp ! i) = TASK_EMPTY \<and>
      tp_entries tp' ! i = \<lparr>te_handle_id = h, te_session_id = sid, te_child_pid = pid,
        te_status = TASK_PENDING, te_created_at = now,
        te_svc_name = strncpy_bytes name TASK_SVC_NAME_MAX @ [0]\<rparr> \<and>
      (\<forall>j < TASK_POOL_SIZE. j \<noteq> i \<longrightarrow> tp_entries tp' ! j = tp_entries tp ! j))"
proof (cases "\<forall>e \<in> set (tp_entries tp). te_status e \<noteq> TASK_EMPTY")
  case True
  then have "find_first (\<lambda>e. te_status e = TASK_EMPTY) (tp_entries tp) = None" by (simp add: find_first_None)
  then show ?thesis using assms(2) True by (simp add: alloc_None)
next
  case False
  have h: "h \<noteq> 0"
    using alloc_zero_iff [of rand_r now sid name pid tp] assms(2) False task_slots.full_iff by auto
  obtain i where i: "task_pool_find_handle h sid tp' = Some i" "i < TASK_POOL_SIZE"
      "te_status (tp_entries tp ! i) = TASK_EMPTY" "tp_entries tp' ! i = new_task sid (ucast h) pid now name"
      "\<forall>j < TASK_POOL_SIZE. j \<noteq> i \<longrightarrow> tp_entries tp' ! j = tp_entries tp ! j"
    using find_handle_fresh [OF assms(1,2) h assms(3)] by blast
  have "te_handle_id (tp_entries tp' ! i) = h" by (rule find_handle_SomeD(4) [OF i(1)])
  then have "make_handle sid (ucast h) = h" using i(4) by (simp add: new_task_def)
  then show ?thesis using False h i by (intro if_not_P [THEN iffD2]) (auto simp: new_task_def)
qed

theorem task_alloc_then_find_witness:
  "task_pool_find_handle 0x0003002A 3 (snd (task_pool_alloc (\<lambda>s. (42, s)) 100 3 [115, 115, 104, 0] 7
     (task_pool_init 5 6))) \<noteq> None"
proof -
  have wf: "wf_pool (task_pool_init 5 6)" by (rule wf_pool_init)
  have free: "\<forall>e \<in> set (tp_entries (task_pool_init 5 6)). te_status e = TASK_EMPTY"
    by (auto simp: task_pool_init_def)
  have al: "task_pool_alloc (\<lambda>s. (42, s)) 100 3 [115, 115, 104, 0] 7 (task_pool_init 5 6) =
    (0x0003002A, snd (task_pool_alloc (\<lambda>s. (42, s)) 100 3 [115, 115, 104, 0] 7 (task_pool_init 5 6)))"
    by code_simp
  have "\<not> (\<forall>e \<in> set (tp_entries (task_pool_init 5 6)). te_status e \<noteq> TASK_EMPTY)"
    using free by (auto simp: task_pool_init_def TASK_POOL_SIZE_def)
  with task_alloc_then_find [OF wf al] free show ?thesis by auto
qed

text \<open>C14. A task moves only forward. In one call a slot of a reachable pool either stays as it is, is
  cleared, is filled with a pending task when it was empty, or, when its task was pending, gets a
  terminal status with every other field unchanged. So once a task has succeeded, failed or timed out
  no later call changes its outcome or its identity, until the slot is cleared.\<close>

theorem task_lifecycle:
  assumes "j < TASK_POOL_SIZE"
    and "e = tp_entries (pool_run rand_r now pid ops) ! j"
    and "e' = tp_entries (pool_run rand_r now pid (ops @ [op])) ! j"
  shows "case te_status e of
      TASK_EMPTY \<Rightarrow> e' = e \<or> te_status e' = TASK_PENDING
    | TASK_PENDING \<Rightarrow> e' = e \<or> e' = zero_task \<or>
        (\<exists>st \<in> {TASK_SUCCESS, TASK_FAILED, TASK_TIMEOUT}. e' = e\<lparr>te_status := st\<rparr>)
    | _ \<Rightarrow> e' = e \<or> e' = zero_task"
proof -
  have s: "slot_step e e'" using pool_run_slot_step [OF assms(1)] assms(2,3) by simp
  have "wf_task e" using wf_pool_nth [OF wf_pool_run assms(1)] assms(2) by simp
  then have z: "te_status e = TASK_EMPTY \<Longrightarrow> e = zero_task" by (simp add: wf_task_def)
  from s show ?thesis
    by (cases rule: slot_stepE) (auto split: task_status.split simp: z)
qed

theorem task_lifecycle_witness:
  "te_status (tp_entries (pool_run (\<lambda>s. (42, s)) 5 6 ([Pool_alloc 100 3 [115, 0] 7] @ [Pool_exit 7 True])) ! 0)
     = TASK_SUCCESS"
proof -
  let ?e = "tp_entries (pool_run (\<lambda>s. (42, s)) 5 6 [Pool_alloc 100 3 [115, 0] 7]) ! 0"
  let ?e' = "tp_entries (pool_run (\<lambda>s. (42, s)) 5 6 ([Pool_alloc 100 3 [115, 0] 7] @ [Pool_exit 7 True])) ! 0"
  have st: "te_status ?e = TASK_PENDING" by code_simp
  have st': "te_status ?e' \<noteq> TASK_PENDING" "te_status ?e' \<noteq> TASK_EMPTY"
    "te_status ?e' \<noteq> TASK_FAILED" "te_status ?e' \<noteq> TASK_TIMEOUT" by code_simp+
  have "0 < TASK_POOL_SIZE" by (simp add: TASK_POOL_SIZE_def)
  from task_lifecycle [OF this refl refl, of "\<lambda>s. (42, s)" 5 6 "[Pool_alloc 100 3 [115, 0] 7]" "Pool_exit 7 True"]
  show ?thesis using st st' by auto
qed

text \<open>A sweep does to each slot what the age of its task says: a slot that is
  empty or whose task is at most 30 seconds old is untouched, an older pending task becomes a timeout
  and keeps every other field, and an older finished task is cleared. After it no task older than 30
  seconds is pending, and the same sweep again clears the tasks that just timed out, so a timeout is
  visible only until the next sweep.\<close>

theorem task_sweep_exact:
  "length (tp_entries (task_pool_sweep_timeouts now tp)) = length (tp_entries tp) \<and>
   (\<forall>j < length (tp_entries tp).
     tp_entries (task_pool_sweep_timeouts now tp) ! j =
       (if te_status (tp_entries tp ! j) = TASK_EMPTY \<or> now \<le> te_created_at (tp_entries tp ! j) + 30
        then tp_entries tp ! j
        else if te_status (tp_entries tp ! j) = TASK_PENDING
        then (tp_entries tp ! j)\<lparr>te_status := TASK_TIMEOUT\<rparr>
        else zero_task) \<and>
     (te_status (tp_entries tp ! j) \<noteq> TASK_EMPTY \<longrightarrow> now > te_created_at (tp_entries tp ! j) + 30 \<longrightarrow>
        tp_entries (task_pool_sweep_timeouts now (task_pool_sweep_timeouts now tp)) ! j = zero_task)) \<and>
   (\<forall>e \<in> set (tp_entries (task_pool_sweep_timeouts now tp)).
      te_status e = TASK_PENDING \<longrightarrow> now \<le> te_created_at e + 30)"
  by (auto simp: task_pool_sweep_timeouts_def sweep_entry_def TASK_TIMEOUT_SEC_def
      split: if_splits)

theorem task_sweep_exact_witness:
  "te_status (tp_entries (task_pool_sweep_timeouts 131
     (pool_run (\<lambda>s. (42, s)) 5 6 [Pool_alloc 100 3 [115, 0] 7])) ! 0) = TASK_TIMEOUT"
proof -
  let ?tp = "pool_run (\<lambda>s. (42, s)) 5 6 [Pool_alloc 100 3 [115, 0] 7]"
  have "0 < length (tp_entries ?tp)" by (simp add: pool_run_length TASK_POOL_SIZE_def)
  moreover have "te_status (tp_entries ?tp ! 0) = TASK_PENDING" "te_created_at (tp_entries ?tp ! 0) = 100"
    by code_simp+
  ultimately show ?thesis
    using task_sweep_exact [of 131 ?tp, THEN conjunct2, THEN conjunct1, rule_format, of 0] by simp
qed

text \<open>The outcome an expired task reports is lost by any second sweep, whichever session runs it.\<close>

theorem task_timeout_lost:
  assumes "te_status e = TASK_PENDING" and "now > te_created_at e + 30" and "now \<le> later"
  shows "te_status (sweep_entry now e) = TASK_TIMEOUT \<and> sweep_entry later (sweep_entry now e) = zero_task"
  using assms by (simp add: sweep_entry_def TASK_TIMEOUT_SEC_def)

text \<open>Two allocations of one session can draw the same handle, which then names only the first of them.\<close>

theorem task_handle_collision:
  "\<exists>rand_r tp1 tp2 h.
     task_pool_alloc rand_r 100 3 [97, 0] 7 (task_pool_init 5 6) = (h, tp1) \<and>
     task_pool_alloc rand_r 101 3 [98, 0] 8 tp1 = (h, tp2) \<and>
     task_pool_find_handle h 3 tp2 = Some 0 \<and> te_status (tp_entries tp2 ! 1) = TASK_PENDING"
  by (rule exI [of _ "\<lambda>s. (42, s)"],
      rule exI [of _ "snd (task_pool_alloc (\<lambda>s. (42, s)) 100 3 [97, 0] 7 (task_pool_init 5 6))"],
      rule exI [of _ "snd (task_pool_alloc (\<lambda>s. (42, s)) 101 3 [98, 0] 8
        (snd (task_pool_alloc (\<lambda>s. (42, s)) 100 3 [97, 0] 7 (task_pool_init 5 6))))"],
      rule exI [of _ "0x0003002A"]) code_simp

text \<open>When a session ends, exactly its tasks are gone: every entry of that session is cleared,
  every entry of another session is the same as before, none of the session's handles resolves any
  more, and the exit of one of its children afterwards changes no entry.\<close>

theorem task_release_session_exact:
  assumes "wf_pool tp"
  shows "(\<forall>j < TASK_POOL_SIZE.
      tp_entries (task_pool_release_session sid tp) ! j =
        (if te_session_id (tp_entries tp ! j) = sid then zero_task else tp_entries tp ! j)) \<and>
    (\<forall>h. task_pool_find_handle h sid (task_pool_release_session sid tp) = None) \<and>
    (\<forall>pid st. (\<forall>e \<in> set (tp_entries tp). te_child_pid e = pid \<longrightarrow> te_session_id e = sid) \<longrightarrow>
       task_pool_update_by_pid pid st (task_pool_release_session sid tp) = task_pool_release_session sid tp)"
proof (intro conjI allI impI)
  have len: "length (tp_entries tp) = TASK_POOL_SIZE" using assms by (simp add: wf_pool_def)
  fix j assume j: "j < TASK_POOL_SIZE"
  have "te_status (tp_entries tp ! j) = TASK_EMPTY \<Longrightarrow> tp_entries tp ! j = zero_task"
    using wf_pool_nth [OF assms j] by (simp add: wf_task_def)
  then show "tp_entries (task_pool_release_session sid tp) ! j =
      (if te_session_id (tp_entries tp ! j) = sid then zero_task else tp_entries tp ! j)"
    using j len by (auto simp: task_pool_release_session_def)
next
  fix h
  have "\<forall>e \<in> set (tp_entries (task_pool_release_session sid tp)).
      te_status e \<noteq> TASK_EMPTY \<longrightarrow> te_session_id e \<noteq> sid"
    by (auto simp: task_pool_release_session_def)
  then show "task_pool_find_handle h sid (task_pool_release_session sid tp) = None"
    using find_handle_iff [OF wf_pool_release_session [OF assms]] by blast
next
  fix pid st assume "\<forall>e \<in> set (tp_entries tp). te_child_pid e = pid \<longrightarrow> te_session_id e = sid"
  then have "find_first (\<lambda>e. te_child_pid e = pid \<and> te_status e = TASK_PENDING)
      (tp_entries (task_pool_release_session sid tp)) = None"
    by (auto simp: find_first_None task_pool_release_session_def)
  then show "task_pool_update_by_pid pid st (task_pool_release_session sid tp) = task_pool_release_session sid tp"
    by (simp add: task_pool_update_by_pid_def)
qed

theorem task_release_session_exact_witness:
  "task_pool_find_handle 0x0003002A 3 (task_pool_release_session 3
     (snd (task_pool_alloc (\<lambda>s. (42, s)) 100 3 [115, 0] 7 (task_pool_init 5 6)))) = None"
  by (rule task_release_session_exact [THEN conjunct2, THEN conjunct1, rule_format])
     (rule wf_pool_alloc [OF wf_pool_init])

end
