(* ===== verification/CStdio.thy ===== *)
theory CStdio
  imports CString
begin

text \<open>
  The stream functions of the C library the daemon reads files with. A file opened for reading is the
  byte list that is still to be read, none if it cannot be opened. \<open>fgets\<close> is the line reader with its
  buffer bound, \<open>scanf\<close> interprets a format given as a list of directives: the conversions made before the
  first failure, and what is left of the stream. The number of conversions is what the sources compare
  (a failure before the first one is 0 here and EOF in C; every comparison in the sources treats the two
  alike).
\<close>

definition ascii :: "string \<Rightarrow> bytes" where
  "ascii s = map of_char s"

lemma ascii_append [simp]: "ascii (s @ t) = ascii s @ ascii t"
  by (simp add: ascii_def)

lemma ascii_length [simp]: "length (ascii s) = length s"
  by (simp add: ascii_def)

definition is_space :: "u8 \<Rightarrow> bool" where
  "is_space c \<longleftrightarrow> c = 32 \<or> 9 \<le> c \<and> c \<le> 13"

definition is_digit :: "u8 \<Rightarrow> bool" where
  "is_digit c \<longleftrightarrow> 48 \<le> c \<and> c \<le> 57"

section \<open>Reading lines\<close>

fun line_take :: "nat \<Rightarrow> bytes \<Rightarrow> bytes \<times> bytes" where
  "line_take 0 s = ([], s)"
| "line_take (Suc n) [] = ([], [])"
| "line_take (Suc n) (c # s) =
     (if c = 10 then ([c], s) else (case line_take n s of (l, r) \<Rightarrow> (c # l, r)))"

text \<open>The characters put in the buffer before the terminating NUL, none at the end of the file.\<close>

definition fgets :: "nat \<Rightarrow> bytes \<Rightarrow> (bytes \<times> bytes) option" where
  "fgets k s = (if s = [] then None else Some (line_take (k - 1) s))"

lemma line_take_append: "line_take n s = (l, r) \<Longrightarrow> s = l @ r"
  by (induction n s arbitrary: l r rule: line_take.induct) (auto split: if_splits prod.splits)

lemma line_take_length: "line_take n s = (l, r) \<Longrightarrow> length l \<le> n"
  by (induction n s arbitrary: l r rule: line_take.induct) (auto split: if_splits prod.splits)

lemma line_take_nonempty: "line_take (Suc n) s = (l, r) \<Longrightarrow> s \<noteq> [] \<Longrightarrow> l \<noteq> []"
  by (cases s) (auto split: if_splits prod.splits)

lemma line_take_line:
  "10 \<notin> set l \<Longrightarrow> length l < n \<Longrightarrow> line_take n (l @ 10 # r) = (l @ [10], r)"
proof (induction l arbitrary: n)
  case Nil
  then show ?case by (cases n) auto
next
  case (Cons c l)
  then show ?case by (cases n) auto
qed

lemma fgets_progress:
  assumes "fgets k s = Some (l, r)" and "2 \<le> k"
  shows "length r < length s"
proof -
  obtain n where n: "k - 1 = Suc n" using assms(2) by (cases "k - 1") auto
  have t: "s \<noteq> []" "line_take (Suc n) s = (l, r)" using assms(1) n by (auto simp: fgets_def split: if_splits)
  then show ?thesis using line_take_append [OF t(2)] line_take_nonempty [OF t(2,1)] by simp
qed

text \<open>The pieces of a file as the line reader delivers them.\<close>

function lines_of :: "nat \<Rightarrow> bytes \<Rightarrow> bytes list" where
  "lines_of k s =
     (if k < 2 then [] else case fgets k s of None \<Rightarrow> [] | Some (l, r) \<Rightarrow> l # lines_of k r)"
  by pat_completeness auto
termination
  by (relation "measure (\<lambda>(_, s). length s)") (auto dest: fgets_progress)

declare lines_of.simps [simp del]

lemma lines_of_Nil [simp]: "lines_of k [] = []"
  by (simp add: lines_of.simps fgets_def)

lemma lines_of_fgets: "2 \<le> k \<Longrightarrow> fgets k s = Some (l, r) \<Longrightarrow> lines_of k s = l # lines_of k r"
  by (subst lines_of.simps) simp

lemma lines_of_line:
  assumes "10 \<notin> set l" and "length l + 2 \<le> k"
  shows "lines_of k (l @ 10 # r) = (l @ [10]) # lines_of k r"
  using assms line_take_line [of l "k - 1" r] by (intro lines_of_fgets) (auto simp: fgets_def)

lemma lines_of_lines:
  assumes "\<And>l. l \<in> set ls \<Longrightarrow> 10 \<notin> set l \<and> length l + 2 \<le> k"
  shows "lines_of k (concat (map (\<lambda>l. l @ [10]) ls)) = map (\<lambda>l. l @ [10]) ls"
  using assms by (induction ls) (simp_all add: lines_of_line)

section \<open>Formatted input\<close>

datatype scan_dir = Scan_ws | Scan_lit u8 | Scan_uint nat | Scan_str nat | Scan_not u8 nat

datatype scan_val = Val_num u64 | Val_str bytes

definition dec_value :: "bytes \<Rightarrow> int" where
  "dec_value ds = foldl (\<lambda>n c. 10 * n + uint (c - 48)) 0 ds"

text \<open>
  The unsigned conversions: an optional sign, digits, a result that saturates at 64 bits and is then cut
  to the width of its object.
\<close>

definition strtoul :: "bytes \<Rightarrow> (u64 \<times> bytes) option" where
  "strtoul s =
     (let s = dropWhile is_space s;
          (neg, s) = (case s of [] \<Rightarrow> (False, s)
                      | c # r \<Rightarrow> if c = 45 then (True, r) else if c = 43 then (False, r) else (False, s));
          ds = takeWhile is_digit s;
          v = (if dec_value ds < 2 ^ 64 then (if neg then - of_int (dec_value ds) else of_int (dec_value ds))
               else - 1)
      in if ds = [] then None else Some (v, drop (length ds) s))"

definition scan_one :: "scan_dir \<Rightarrow> bytes \<Rightarrow> (scan_val list \<times> bytes) option" where
  "scan_one d s =
     (case d of
        Scan_ws \<Rightarrow> Some ([], dropWhile is_space s)
      | Scan_lit c \<Rightarrow> (case s of x # r \<Rightarrow> if x = c then Some ([], r) else None | [] \<Rightarrow> None)
      | Scan_uint w \<Rightarrow> map_option (\<lambda>(v, r). ([Val_num (take_bit w v)], r)) (strtoul s)
      | Scan_str n \<Rightarrow>
          (let s = dropWhile is_space s; t = take n (takeWhile (\<lambda>c. \<not> is_space c) s)
           in if t = [] then None else Some ([Val_str t], drop (length t) s))
      | Scan_not c n \<Rightarrow>
          (let t = take n (takeWhile (\<lambda>x. x \<noteq> c) s)
           in if t = [] then None else Some ([Val_str t], drop (length t) s)))"

fun scanf :: "scan_dir list \<Rightarrow> bytes \<Rightarrow> scan_val list \<times> bytes" where
  "scanf [] s = ([], s)"
| "scanf (d # ds) s =
     (case scan_one d s of
        None \<Rightarrow> ([], s)
      | Some (v, r) \<Rightarrow> (case scanf ds r of (vs, r) \<Rightarrow> (v @ vs, r)))"

definition sscanf :: "scan_dir list \<Rightarrow> bytes \<Rightarrow> scan_val list" where
  "sscanf ds s = fst (scanf ds (cstr s))"

fun num_of :: "scan_val \<Rightarrow> u64" where
  "num_of (Val_num n) = n"
| "num_of (Val_str _) = 0"

fun str_of :: "scan_val \<Rightarrow> bytes" where
  "str_of (Val_str s) = s"
| "str_of (Val_num _) = []"

lemma drop_prefix_less: "t \<noteq> [] \<Longrightarrow> length t \<le> length x \<Longrightarrow> length (drop (length t) x) < length x"
  by (cases t; cases x) auto

lemma strtoul_consumes:
  assumes "strtoul s = Some (v, r)"
  shows "length r < length s"
proof -
  have l: "length (dropWhile is_space s) \<le> length s" by (rule length_dropWhile_le)
  have tw: "length (drop (length (takeWhile is_digit x)) x) < length x" if "takeWhile is_digit x \<noteq> []" for x
    using that by (rule drop_prefix_less) (rule length_takeWhile_le)
  show ?thesis
  proof (cases "dropWhile is_space s")
    case Nil
    then show ?thesis using assms unfolding strtoul_def Nil Let_def by simp
  next
    case (Cons c u)
    have "r = drop (length (takeWhile is_digit u)) u \<and> takeWhile is_digit u \<noteq> [] \<or>
        r = drop (length (takeWhile is_digit (c # u))) (c # u) \<and> takeWhile is_digit (c # u) \<noteq> []"
      using assms unfolding strtoul_def Cons Let_def by (auto split: if_splits)
    then have "length r < length (c # u)" using tw [of u] tw [of "c # u"] by (metis length_Cons less_SucI)
    then show ?thesis using l Cons by simp
  qed
qed

lemma scan_one_consumes:
  assumes "scan_one d s = Some (v, r)"
  shows "length r \<le> length s" and "v \<noteq> [] \<Longrightarrow> length r < length s"
proof -
  have t: "length (drop (length t) x) < length s" if "t = take n (takeWhile P x)" "t \<noteq> []" "length x \<le> length s"
    for t x P and n
  proof -
    have "length t \<le> length x" using that(1) length_takeWhile_le [of P x] by simp
    with that(2) have "length (drop (length t) x) < length x" by (rule drop_prefix_less)
    then show ?thesis using that(3) by simp
  qed
  have w: "length (dropWhile is_space s) \<le> length s" by (rule length_dropWhile_le)
  have "length r \<le> length s \<and> (v \<noteq> [] \<longrightarrow> length r < length s)"
  proof (cases d)
    case Scan_ws
    then show ?thesis using assms w by (auto simp: scan_one_def)
  next
    case (Scan_lit c)
    then show ?thesis using assms by (auto simp: scan_one_def split: list.splits if_splits)
  next
    case (Scan_uint n)
    then obtain x where "strtoul s = Some (x, r)" using assms by (auto simp: scan_one_def)
    from strtoul_consumes [OF this] show ?thesis by simp
  next
    case (Scan_str n)
    then show ?thesis using assms t [OF refl _ w] by (auto simp: scan_one_def Let_def less_imp_le split: if_splits)
  next
    case (Scan_not c n)
    then show ?thesis using assms t [OF refl _ order_refl]
      by (auto simp: scan_one_def Let_def less_imp_le split: if_splits)
  qed
  then show "length r \<le> length s" "v \<noteq> [] \<Longrightarrow> length r < length s" by simp_all
qed

lemma scanf_consumes:
  "scanf ds s = (vs, r) \<Longrightarrow> length r \<le> length s \<and> (vs \<noteq> [] \<longrightarrow> length r < length s)"
proof (induction ds arbitrary: s vs r)
  case (Cons d ds)
  show ?case
  proof (cases "scan_one d s")
    case (Some vr)
    obtain v r1 where vr: "vr = (v, r1)" by fastforce
    obtain vs2 r2 where 2: "scanf ds r1 = (vs2, r2)" by fastforce
    have "v = [] \<or> length r1 < length s" "length r1 \<le> length s"
      using scan_one_consumes [of d s v r1] Some vr by auto
    with Some vr Cons.IH [OF 2] 2 Cons.prems show ?thesis by auto
  qed (use Cons.prems in simp)
qed simp

end
