(* ===== verification/Device.thy ===== *)
theory Device
  imports AuthVerify TaskPool CStdio
begin

unbundle bit_operations_syntax

text \<open>
  What the instruction handlers share: the status words and the handler type of dispatcher.h, the
  daemon's static state they read and write, the readings of the operating system one call may take, and
  the contract every handler keeps (the locale \<open>handler\<close>). The response buffer is a byte list; a
  write past its end is undefined behaviour (\<open>None\<close>). Calls that act on the machine are appended to a
  log in the state.
\<close>

section \<open>Status words\<close>

definition SW_OK :: u16 where [code_defs]: "SW_OK = 0x9000"
definition SW_NOT_FOUND :: u16 where [code_defs]: "SW_NOT_FOUND = 0x6A81"
definition SW_ACCESS_DENIED :: u16 where [code_defs]: "SW_ACCESS_DENIED = 0x6982"
definition SW_NOT_SUPPORTED :: u16 where [code_defs]: "SW_NOT_SUPPORTED = 0x6D00"
definition SW_WRONG_DATA :: u16 where [code_defs]: "SW_WRONG_DATA = 0x6A80"
definition SW_WRONG_LEN :: u16 where [code_defs]: "SW_WRONG_LEN = 0x6700"
definition SW_BLOCKED :: u16 where [code_defs]: "SW_BLOCKED = 0x6400"
definition SW_REPLAY_DETECTED :: u16 where [code_defs]: "SW_REPLAY_DETECTED = 0x6985"
definition SW_SYS_ERR :: u16 where [code_defs]: "SW_SYS_ERR = 0x6F00"
definition SW_SYS_ERR_NOMEM :: u16 where [code_defs]: "SW_SYS_ERR_NOMEM = 0x6F01"
definition DISP_RESP_MAX :: nat where [code_defs]: "DISP_RESP_MAX = 256"

definition CORE_CAPS_BITMAP :: u32 where [code_defs]: "CORE_CAPS_BITMAP = 0x0002000F"
definition EXT_CAPS_BITMAP :: u32 where [code_defs]: "EXT_CAPS_BITMAP = 0x00000005"

text \<open>The word is written at offset \<open>off\<close>; the result is 2 and the buffer.\<close>

definition sw_write :: "bytes \<Rightarrow> nat \<Rightarrow> u16 \<Rightarrow> (int \<times> bytes) option" where
  "sw_write buf off sw =
     map_option (\<lambda>b. (2, b)) (wr_range buf off [ucast (drop_bit 8 sw), ucast (sw AND 0xFF)])"

lemma sw_write_eq: "sw_write buf off sw = map_option (\<lambda>b. (2, b)) (wr_range buf off (put_u16 sw))"
  by (simp add: sw_write_def put_u16_def)

section \<open>Static state of the handlers\<close>

record status_snap =
  sn_load1_x10 :: u8
  sn_load5_x10 :: u8
  sn_cpu_pct :: u8
  sn_mem_avail_mb :: u32
  sn_root_usage_pct :: u8
  sn_iowait_ms :: u32
  sn_in_mbps :: u16
  sn_out_mbps :: u16
  sn_rpi :: u8

text \<open>The cache of sys_status.c and the static variables of its readers.\<close>

record status_state =
  sc_snap :: status_snap
  sc_snap_time_ms :: u64
  sc_prev_iowait :: u64
  sc_prev_time_ms :: u64
  sc_prev_rx :: u64
  sc_prev_tx :: u64
  sc_prev_net_ms :: u64
  sc_psi_available :: int
  sc_ncpus :: int

record proc_snap =
  ps_pid :: u32
  ps_jiffies :: u64
  ps_mem_pct :: u8
  ps_status_flag :: u8

text \<open>The snapshot sys_procs.c keeps between calls: the used part of \<^verbatim>\<open>g_prev\<close>, its count, the total.\<close>

record procs_state =
  pc_prev :: "proc_snap list"
  pc_n_prev :: int
  pc_total_prev :: u64

datatype sys_call = Sys_kill int int | Sys_restart bytes

record daemon =
  dm_tasks :: task_pool
  dm_status :: status_state
  dm_procs :: procs_state
  dm_calls :: "sys_call list"

section \<open>Readings of the operating system during one call\<close>

text \<open>
  A file is what opening it yields, none on failure; where a call opens a file or reads a clock several
  times the field is indexed by the number of the reading. A process of \<^verbatim>\<open>/proc\<close> is its directory name,
  its stat file and its status file.
\<close>

record os =
  os_machine_id :: "bytes option"
  os_realtime :: "(int \<times> int) option"
  os_monotonic :: "nat \<Rightarrow> int \<times> int"
  os_time :: int
  os_uname :: "(bytes \<times> bytes) option"
  os_ncpus :: int
  os_meminfo :: "bytes option"
  os_statfs :: "(int \<times> int \<times> u64 \<times> int) option"
  os_statvfs :: "(u64 \<times> u64) option"
  os_psi_probe :: bool
  os_psi :: "bytes option"
  os_loadavg :: "bytes option"
  os_stat :: "nat \<Rightarrow> bytes option"
  os_netdev :: "bytes option"
  os_proc :: "nat \<Rightarrow> (bytes \<times> bytes option \<times> bytes option) list option"
  os_rand_r :: "u32 \<Rightarrow> int \<times> u32"
  os_kill :: "int \<Rightarrow> int \<Rightarrow> int option"
  os_fork :: "int + int"

text \<open>
  \<open>os_kill pid sig\<close> is the error number of a failing \<^verbatim>\<open>kill\<close>, none when it succeeds; \<open>os_fork\<close> is the error
  number (left) or the child (right).
\<close>

definition now_ms :: "int \<times> int \<Rightarrow> u64" where
  "now_ms ts = of_int (fst ts) * 1000 + of_int (snd ts div 1000000)"

section \<open>The contract of a handler\<close>

type_synonym handler =
  "os \<Rightarrow> bytes \<Rightarrow> apdu_frame \<Rightarrow> bytes \<Rightarrow> nat \<Rightarrow> u16 \<Rightarrow> daemon \<Rightarrow> (int \<times> bytes \<times> daemon) option"

definition wf_status :: "status_state \<Rightarrow> bool" where
  "wf_status s \<longleftrightarrow> sn_rpi (sc_snap s) \<le> 100 \<and>
     (sc_psi_available s = - 1 \<or> (sc_psi_available s \<in> {0, 1} \<and> 1 \<le> sc_ncpus s \<and> sc_ncpus s < 2 ^ 31))"

definition wf_procs :: "procs_state \<Rightarrow> bool" where
  "wf_procs s \<longleftrightarrow> pc_n_prev s = int (length (pc_prev s)) \<and> length (pc_prev s) \<le> 512 \<or> pc_n_prev s = - 1"

definition wf_daemon :: "daemon \<Rightarrow> bool" where
  "wf_daemon dm \<longleftrightarrow> wf_pool (dm_tasks dm) \<and> wf_status (dm_status dm) \<and> wf_procs (dm_procs dm)"

text \<open>An answer of \<open>n\<close> bytes in a response buffer: nothing after it changes.\<close>

definition answered :: "bytes \<Rightarrow> nat \<Rightarrow> bytes \<Rightarrow> bool" where
  "answered resp n resp' \<longleftrightarrow> 2 \<le> n \<and> n \<le> length resp \<and> length resp' = length resp \<and> drop n resp' = drop n resp"

text \<open>Its bytes and its status word.\<close>

definition answer :: "int \<Rightarrow> bytes \<Rightarrow> bytes" where
  "answer n resp = take (nat n) resp"

definition answer_sw :: "int \<Rightarrow> bytes \<Rightarrow> u16" where
  "answer_sw n resp = be16 (resp ! nat (n - 2)) (resp ! nat (n - 1))"

text \<open>
  \<open>need\<close> is the size of the response buffer the handler relies on, \<open>env\<close> what it relies on from the
  operating system. A handler answers within the buffer, touches no other memory, keeps the daemon's
  state well formed, and acts on the machine only for a signed frame.
\<close>

locale handler =
  fixes run :: handler and need :: nat and env :: "os \<Rightarrow> bool"
  assumes need_sw: "2 \<le> need"
    and runs: "env os \<Longrightarrow> frame_in buf f \<Longrightarrow> wf_daemon dm \<Longrightarrow> need \<le> length resp \<Longrightarrow>
      \<exists>n resp' dm'. run os buf f resp (length resp) sid dm = Some (int n, resp', dm') \<and> answered resp n resp' \<and>
        wf_daemon dm'"
    and acts_signed: "run os buf f resp sz sid dm = Some (n, resp', dm') \<Longrightarrow>
      dm_calls dm' = dm_calls dm \<or> fr_sec f = APDU_SEC_SIGNED"
begin

lemma run_cases:
  assumes "env os" "frame_in buf f" "wf_daemon dm" "need \<le> length resp"
  obtains n resp' dm' where "run os buf f resp (length resp) sid dm = Some (int n, resp', dm')"
    and "2 \<le> n" "n \<le> length resp" "length resp' = length resp" "drop n resp' = drop n resp" "wf_daemon dm'"
  using runs [OF assms, of sid] by (auto simp: answered_def)

text \<open>The handler never reports the internal error its caller would have to answer for it.\<close>

lemma run_nonneg:
  assumes "env os" "frame_in buf f" "wf_daemon dm" "need \<le> length resp"
    and "run os buf f resp (length resp) sid dm = Some (n, resp', dm')"
  shows "2 \<le> n"
  using runs [OF assms(1-4), of sid] assms(5) by (auto simp: answered_def)

end

section \<open>Writing answers\<close>

lemma sw_write_front:
  assumes "2 \<le> length resp"
  shows "sw_write resp 0 sw = Some (2, put_u16 sw @ drop 2 resp)"
  using assms by (simp add: sw_write_eq wr_range_prefix)

lemma answered_front: "2 \<le> length d \<Longrightarrow> length d \<le> length resp \<Longrightarrow> answered resp (length d) (d @ drop (length d) resp)"
  by (simp add: answered_def)

lemma answered_sw: "2 \<le> length resp \<Longrightarrow> answered resp 2 (put_u16 sw @ drop 2 resp)"
  using answered_front [of "put_u16 sw" resp] by simp

lemma answer_sw_front: "answer_sw 2 (put_u16 sw @ r) = sw"
  using get_put_u16 [of sw] by (simp add: answer_sw_def get_u16_def put_u16_def)

text \<open>An answer with a payload, written at the front and then its status word.\<close>

lemma sw_write_after:
  assumes "length d = off" and "off + 2 \<le> length resp"
  shows "sw_write (d @ drop off resp) off sw = Some (2, (d @ put_u16 sw) @ drop (off + 2) resp)"
  using assms by (simp add: sw_write_eq wr_range_append add.commute)

text \<open>A bare status word as the whole answer.\<close>

definition reply :: "bytes \<Rightarrow> u16 \<Rightarrow> daemon \<Rightarrow> (int \<times> bytes \<times> daemon) option" where
  "reply resp sw dm = map_option (\<lambda>(n, resp). (n, resp, dm)) (sw_write resp 0 sw)"

lemma reply_eq: "2 \<le> length resp \<Longrightarrow> reply resp sw dm = Some (2, put_u16 sw @ drop 2 resp, dm)"
  by (simp add: reply_def sw_write_front)

lemma reply_calls: "reply resp sw dm = Some (n, resp', dm') \<Longrightarrow> dm' = dm"
  by (auto simp: reply_def)

section \<open>The initial state\<close>

text \<open>The static variables as the program starts, after \<^verbatim>\<open>task_pool_init\<close>.\<close>

definition zero_snap :: status_snap where
  "zero_snap = \<lparr>sn_load1_x10 = 0, sn_load5_x10 = 0, sn_cpu_pct = 0, sn_mem_avail_mb = 0, sn_root_usage_pct = 0,
     sn_iowait_ms = 0, sn_in_mbps = 0, sn_out_mbps = 0, sn_rpi = 0\<rparr>"

definition initial_status :: status_state where
  "initial_status = \<lparr>sc_snap = zero_snap, sc_snap_time_ms = 0, sc_prev_iowait = 0, sc_prev_time_ms = 0, sc_prev_rx = 0,
     sc_prev_tx = 0, sc_prev_net_ms = 0, sc_psi_available = - 1, sc_ncpus = 0\<rparr>"

definition initial_procs :: procs_state where
  "initial_procs = \<lparr>pc_prev = [], pc_n_prev = 0, pc_total_prev = 0\<rparr>"

definition initial_daemon :: "int \<Rightarrow> int \<Rightarrow> daemon" where
  "initial_daemon now pid =
     \<lparr>dm_tasks = task_pool_init now pid, dm_status = initial_status, dm_procs = initial_procs, dm_calls = []\<rparr>"

lemma wf_initial_daemon: "wf_daemon (initial_daemon now pid)"
  by (simp add: wf_daemon_def initial_daemon_def wf_pool_init wf_status_def initial_status_def zero_snap_def wf_procs_def
      initial_procs_def)

text \<open>An operating system for the concrete runs: no file can be opened, one processor, every call succeeds.\<close>

definition quiet_os :: os where
  "quiet_os = \<lparr>os_machine_id = None, os_realtime = Some (1, 2), os_monotonic = (\<lambda>i. (5 + int i, 0)), os_time = 100, os_uname = None,
     os_ncpus = 1, os_meminfo = None, os_statfs = None, os_statvfs = None, os_psi_probe = False, os_psi = None,
     os_loadavg = None, os_stat = (\<lambda>_. None), os_netdev = None, os_proc = (\<lambda>_. Some []),
     os_rand_r = (\<lambda>s. (42, s)), os_kill = (\<lambda>_ _. None), os_fork = Inr 77\<rparr>"

end
