(* ===== verification/SysHello.thy ===== *)
theory SysHello
  imports Device
begin

unbundle bit_operations_syntax

text \<open>
  The SYS_HELLO handler (src/src/asyd/handlers/sys_hello.c): the magic number, a node identifier read from
  the machine id, and the wall clock.
\<close>

definition HELLO_RESP_LEN :: nat where [code_defs]: "HELLO_RESP_LEN = 18"

definition hello_nibble :: "u8 \<Rightarrow> u8 option" where
  "hello_nibble c =
     (if 48 \<le> c \<and> c \<le> 57 then Some (c - 48)
      else if 97 \<le> c \<and> c \<le> 102 then Some (c - 97 + 10)
      else if 65 \<le> c \<and> c \<le> 70 then Some (c - 65 + 10)
      else None)"

primrec uid_loop :: "bytes \<Rightarrow> u32 \<Rightarrow> u32" where
  "uid_loop [] uid = uid"
| "uid_loop (c # cs) uid =
     (case hello_nibble c of None \<Rightarrow> 0 | Some nib \<Rightarrow> uid_loop cs (push_bit 4 uid OR ucast nib))"

definition read_node_uid :: "bytes option \<Rightarrow> u32" where
  "read_node_uid f =
     (case f of None \<Rightarrow> 0
      | Some s \<Rightarrow> if length (take 8 s) \<noteq> 8 then 0 else uid_loop (take 8 s) 0)"

definition handler_sys_hello :: handler where
  "handler_sys_hello os buf req resp sz session_id dm =
     (if sz < HELLO_RESP_LEN then reply resp SW_SYS_ERR dm
      else do {
        resp \<leftarrow> wr_range resp 0 (put_u32 0x41535953);
        resp \<leftarrow> wr_range resp 4 (put_u32 (read_node_uid (os_machine_id os)));
        let ns = (case os_realtime os of
                    Some (sec, nsec) \<Rightarrow> of_int sec * 1000000000 + of_int nsec
                  | None \<Rightarrow> 0);
        resp \<leftarrow> wr_range resp 8 (put_u64 ns);
        resp \<leftarrow> wr_range resp 16 [0x90];
        resp \<leftarrow> wr_range resp 17 [0x00];
        Some (int HELLO_RESP_LEN, resp, dm)
      })"

text \<open>The bytes of an answer.\<close>

definition hello_answer :: "os \<Rightarrow> bytes" where
  "hello_answer os =
     put_u32 0x41535953 @ put_u32 (read_node_uid (os_machine_id os)) @
     put_u64 (case os_realtime os of Some (sec, nsec) \<Rightarrow> of_int sec * 1000000000 + of_int nsec | None \<Rightarrow> 0) @
     put_u16 SW_OK"

lemma hello_answer_length [simp]: "length (hello_answer os) = 18"
  by (simp add: hello_answer_def)

lemma put_SW_OK: "put_u16 SW_OK = [0x90, 0x00]"
  by (simp add: put_u16_def SW_OK_def drop_bit_eq_div)

lemma hello_writes:
  assumes "18 \<le> length resp"
  shows "Option.bind (wr_range resp 0 (put_u32 m)) (\<lambda>r. Option.bind (wr_range r 4 (put_u32 u))
      (\<lambda>r. Option.bind (wr_range r 8 (put_u64 t)) (\<lambda>r. Option.bind (wr_range r 16 [x]) (\<lambda>r. wr_range r 17 [y])))) =
      Some ((put_u32 m @ put_u32 u @ put_u64 t @ [x, y]) @ drop 18 resp)"
  using assms by (simp add: wr_range_def)

lemma hello_eq:
  assumes "18 \<le> length resp"
  shows "handler_sys_hello os buf req resp (length resp) sid dm = Some (18, hello_answer os @ drop 18 resp, dm)"
proof -
  let ?ns = "case os_realtime os of Some (sec, nsec) \<Rightarrow> of_int sec * 1000000000 + of_int nsec | None \<Rightarrow> 0"
  show ?thesis using assms hello_writes [OF assms, of "0x41535953" "read_node_uid (os_machine_id os)" ?ns "0x90" 0]
    by (auto simp: handler_sys_hello_def HELLO_RESP_LEN_def hello_answer_def Let_def put_SW_OK bind_Some_iff)
qed

interpretation hello: handler handler_sys_hello 2 "\<lambda>_. True"
proof unfold_locales
  fix os buf f dm resp sid
  assume a: "wf_daemon dm" "2 \<le> length (resp :: bytes)"
  show "\<exists>n resp' dm'. handler_sys_hello os buf f resp (length resp) sid dm = Some (int n, resp', dm') \<and>
      answered resp n resp' \<and> wf_daemon dm'"
  proof (cases "18 \<le> length resp")
    case True
    then show ?thesis using hello_eq [OF True] a answered_front [of "hello_answer os" resp]
      by (intro exI [of _ 18]) simp
  next
    case False
    then show ?thesis using a answered_sw [of resp SW_SYS_ERR]
      by (intro exI [of _ 2]) (simp add: handler_sys_hello_def HELLO_RESP_LEN_def reply_eq)
  qed
next
  fix os buf f resp sz sid dm n resp' dm'
  assume "handler_sys_hello os buf f resp sz sid dm = Some (n, resp', dm')"
  then show "dm_calls dm' = dm_calls dm \<or> fr_sec f = APDU_SEC_SIGNED"
    by (auto simp: handler_sys_hello_def Let_def bind_Some_iff dest: reply_calls split: if_splits)
qed simp

end
