(* ===== verification/SysCaps.thy ===== *)
theory SysCaps
  imports SysHello
begin

unbundle bit_operations_syntax

text \<open>
  The SYS_CAPS handler (src/src/asyd/handlers/sys_caps.c): capability bitmaps, protocol version, kernel,
  processor, memory and storage facts. A statfs reading is fragment size, block size, block count, type.
\<close>

definition CAPS_RESP_LEN :: nat where [code_defs]: "CAPS_RESP_LEN = 36"
definition ARCH_X86_64 :: u16 where [code_defs]: "ARCH_X86_64 = 0x0001"
definition ARCH_AARCH64 :: u16 where [code_defs]: "ARCH_AARCH64 = 0x0002"
definition ARCH_RISCV64 :: u16 where [code_defs]: "ARCH_RISCV64 = 0x0003"
definition ARCH_UNKNOWN :: u16 where [code_defs]: "ARCH_UNKNOWN = 0xFFFF"
definition FS_EXT4 :: u16 where [code_defs]: "FS_EXT4 = 0x0001"
definition FS_XFS :: u16 where [code_defs]: "FS_XFS = 0x0002"
definition FS_BTRFS :: u16 where [code_defs]: "FS_BTRFS = 0x0003"
definition FS_TMPFS :: u16 where [code_defs]: "FS_TMPFS = 0x0004"
definition FS_NFS :: u16 where [code_defs]: "FS_NFS = 0x0005"
definition FS_UNKNOWN :: u16 where [code_defs]: "FS_UNKNOWN = 0xFFFF"
definition RPI_NATIVE_KERNEL :: u8 where [code_defs]: "RPI_NATIVE_KERNEL = 0x01"
definition RPI_USER_SIMULATED :: u8 where [code_defs]: "RPI_USER_SIMULATED = 0x02"

definition strncmp_eq :: "bytes \<Rightarrow> bytes \<Rightarrow> nat \<Rightarrow> bool" where
  "strncmp_eq a b n \<longleftrightarrow> take n (cstr a) = take n (cstr b)"

definition detect_arch :: "bytes \<Rightarrow> u16" where
  "detect_arch machine =
     (if strncmp_eq machine (ascii ''x86_64'') 6 then ARCH_X86_64
      else if strncmp_eq machine (ascii ''aarch64'') 7 then ARCH_AARCH64
      else if strncmp_eq machine (ascii ''riscv64'') 7 then ARCH_RISCV64
      else ARCH_UNKNOWN)"

text \<open>Conversion \<open>i\<close> of a scan, 0 when it was not reached.\<close>

definition scanned :: "scan_val list \<Rightarrow> nat \<Rightarrow> u64" where
  "scanned vs i = (if i < length vs then num_of (vs ! i) else 0)"

definition build_kernel_hash :: "bytes \<Rightarrow> bytes" where
  "build_kernel_hash release =
     (let vs = sscanf [Scan_uint 32, Scan_lit 46, Scan_uint 32, Scan_lit 46, Scan_uint 32] release;
          major = scanned vs 0; minor = scanned vs 1; patch = scanned vs 2
      in [ucast (major AND 0xFF), ucast (minor AND 0xFF), ucast (drop_bit 8 patch), ucast (patch AND 0xFF)])"

definition detect_fs_type :: "int \<Rightarrow> u16" where
  "detect_fs_type f_type =
     (let t = (of_int f_type :: u64)
      in if t = 0xEF53 then FS_EXT4
         else if t = 0x58465342 then FS_XFS
         else if t = 0x9123683E then FS_BTRFS
         else if t = 0x01021994 then FS_TMPFS
         else if t = 0x6969 then FS_NFS
         else FS_UNKNOWN)"

definition detect_rpi_type :: "bool \<Rightarrow> u8" where
  "detect_rpi_type psi = (if psi then RPI_NATIVE_KERNEL else RPI_USER_SIMULATED)"

definition fmt_meminfo :: "scan_dir list" where
  "fmt_meminfo = [Scan_str 31, Scan_ws, Scan_uint 64, Scan_ws, Scan_str 7, Scan_ws]"

text \<open>The loop over \<^verbatim>\<open>/proc/meminfo\<close>: total memory and total swap in MB.\<close>

lemma scan_progress: "scanf ds f = (vs, f') \<Longrightarrow> \<not> length vs < 2 \<Longrightarrow> length f' < length f"
  using scanf_consumes [of ds f vs f'] by auto

function meminfo_loop :: "bytes \<Rightarrow> u32 \<times> u32 \<Rightarrow> u32 \<times> u32" where
  "meminfo_loop f (ram, swap) =
     (case scanf fmt_meminfo f of (vs, f') \<Rightarrow>
        if length vs < 2 then (ram, swap)
        else
          let key = str_of (vs ! 0); val = num_of (vs ! 1)
          in if strcmp_eq key (ascii ''MemTotal:'') then meminfo_loop f' (ucast (val div 1024), swap)
             else if strcmp_eq key (ascii ''SwapTotal:'') then meminfo_loop f' (ram, ucast (val div 1024))
             else meminfo_loop f' (ram, swap))"
  by pat_completeness auto
termination
  by (relation "measure (\<lambda>(f, _). length f)") (auto dest: scan_progress [OF sym])

declare meminfo_loop.simps [simp del]

definition handler_sys_caps :: handler where
  "handler_sys_caps os buf req resp sz session_id dm =
     (if sz < CAPS_RESP_LEN then reply resp SW_SYS_ERR dm
      else do {
        resp \<leftarrow> wr_range resp 0 (replicate CAPS_RESP_LEN 0);
        resp \<leftarrow> wr_range resp 0 (put_u32 CORE_CAPS_BITMAP);
        resp \<leftarrow> wr_range resp 4 (put_u32 EXT_CAPS_BITMAP);
        resp \<leftarrow> wr_range resp 8 (put_u16 0x0100);
        resp \<leftarrow> (case os_uname os of
                  Some (release, machine) \<Rightarrow> do {
                    resp \<leftarrow> wr_range resp 10 (build_kernel_hash release);
                    let ncpus = (if os_ncpus os < 1 then 1 else os_ncpus os);
                    resp \<leftarrow> wr_range resp 14 (put_u16 (of_int ncpus));
                    wr_range resp 16 (put_u16 (detect_arch machine))
                  }
                | None \<Rightarrow> wr_range resp 16 (put_u16 ARCH_UNKNOWN));
        let (total_ram_mb, total_swap_mb) =
          (case os_meminfo os of Some f \<Rightarrow> meminfo_loop f (0, 0) | None \<Rightarrow> (0, 0));
        resp \<leftarrow> wr_range resp 18 (put_u32 total_ram_mb);
        resp \<leftarrow> wr_range resp 22 (put_u32 total_swap_mb);
        let (root_size_mb, fs_code) =
          (case os_statfs os of
             Some (frsize, bsize, blocks, f_type) \<Rightarrow>
               let bsz = (of_int (if frsize \<noteq> 0 then frsize else bsize) :: u64)
               in (ucast (blocks * bsz div (1024 * 1024)), detect_fs_type f_type)
           | None \<Rightarrow> (0, FS_UNKNOWN));
        resp \<leftarrow> wr_range resp 26 (put_u32 root_size_mb);
        resp \<leftarrow> wr_range resp 30 (put_u16 fs_code);
        resp \<leftarrow> wr_range resp 32 [detect_rpi_type (os_psi_probe os)];
        resp \<leftarrow> wr_range resp 33 [0x00];
        resp \<leftarrow> wr_range resp 34 [0x90];
        resp \<leftarrow> wr_range resp 35 [0x00];
        Some (int CAPS_RESP_LEN, resp, dm)
      })"

text \<open>The bytes of an answer, by field.\<close>

definition caps_kernel :: "os \<Rightarrow> bytes" where
  "caps_kernel os =
     (case os_uname os of
        Some (release, machine) \<Rightarrow>
          build_kernel_hash release @ put_u16 (of_int (max 1 (os_ncpus os))) @ put_u16 (detect_arch machine)
      | None \<Rightarrow> replicate 6 0 @ put_u16 ARCH_UNKNOWN)"

definition caps_memory :: "os \<Rightarrow> bytes" where
  "caps_memory os =
     (case (case os_meminfo os of Some f \<Rightarrow> meminfo_loop f (0, 0) | None \<Rightarrow> (0, 0)) of
        (ram, swap) \<Rightarrow> put_u32 ram @ put_u32 swap)"

definition caps_storage :: "os \<Rightarrow> bytes" where
  "caps_storage os =
     (case os_statfs os of
        Some (frsize, bsize, blocks, f_type) \<Rightarrow>
          put_u32 (ucast (blocks * of_int (if frsize \<noteq> 0 then frsize else bsize) div (1024 * 1024))) @
          put_u16 (detect_fs_type f_type)
      | None \<Rightarrow> put_u32 0 @ put_u16 FS_UNKNOWN)"

definition caps_answer :: "os \<Rightarrow> bytes" where
  "caps_answer os =
     put_u32 CORE_CAPS_BITMAP @ put_u32 EXT_CAPS_BITMAP @ put_u16 0x0100 @ caps_kernel os @ caps_memory os @
     caps_storage os @ [detect_rpi_type (os_psi_probe os), 0x00] @ put_u16 SW_OK"

lemma build_kernel_hash_length [simp]: "length (build_kernel_hash r) = 4"
  by (simp add: build_kernel_hash_def Let_def)

lemma caps_lengths [simp]:
  "length (caps_kernel os) = 8" "length (caps_memory os) = 8" "length (caps_storage os) = 6" "length (caps_answer os) = 36"
  by (simp_all add: caps_kernel_def caps_memory_def caps_storage_def caps_answer_def case_prod_beta split: option.split)

text \<open>A buffer that is complete up to an offset, zero up to the answer's end, then as before.\<close>

definition filled :: "nat \<Rightarrow> bytes \<Rightarrow> bytes \<Rightarrow> bytes" where
  "filled len d resp = d @ replicate (len - length d) 0 @ drop len resp"

lemma fill_start: "len \<le> length resp \<Longrightarrow> wr_range resp 0 (replicate len 0) = Some (filled len [] resp)"
  by (simp add: filled_def wr_range_prefix)

lemma fill_next:
  assumes "off = length d" and "length d + length x \<le> len"
  shows "wr_range (filled len d resp) off x = Some (filled len (d @ x) resp)"
proof -
  have "drop (length x) (replicate (len - length d) (0 :: u8) @ drop len resp) =
      replicate (len - length (d @ x)) 0 @ drop len resp"
    using assms(2) by simp
  then show ?thesis using assms(1) assms(2) wr_range_append [of d off x "replicate (len - length d) 0 @ drop len resp"]
    by (simp add: filled_def)
qed

lemma fill_skip: "length d + n \<le> len \<Longrightarrow> filled len d resp = filled len (d @ replicate n 0) resp"
proof -
  assume "length d + n \<le> len"
  then have "replicate (len - length d) (0 :: u8) = replicate n 0 @ replicate (len - (length d + n)) 0"
    by (simp flip: replicate_add)
  then show ?thesis by (simp add: filled_def)
qed

lemma fill_end: "length d = len \<Longrightarrow> filled len d resp = d @ drop len resp"
  by (simp add: filled_def)

lemma caps_eq:
  assumes "36 \<le> length resp"
  shows "handler_sys_caps os buf req resp (length resp) sid dm = Some (36, caps_answer os @ drop 36 resp, dm)"
proof -
  have e: "caps_answer os @ drop 36 resp = filled 36 (caps_answer os) resp" by (rule fill_end [symmetric]) simp
  have n: "\<not> length resp < CAPS_RESP_LEN" using assms by (simp add: CAPS_RESP_LEN_def)
  let ?h = "put_u32 CORE_CAPS_BITMAP @ put_u32 EXT_CAPS_BITMAP @ put_u16 0x0100"
  have s: "filled 36 ?h resp = filled 36 (?h @ replicate 6 0) resp" by (rule fill_skip) simp
  have mx: "(if os_ncpus os < 1 then 1 else os_ncpus os) = max 1 (os_ncpus os)" by simp
  show ?thesis
  proof (cases "os_uname os")
    case None
    then show ?thesis unfolding e using n assms s
      by (simp add: handler_sys_caps_def CAPS_RESP_LEN_def fill_start fill_next Let_def case_prod_beta caps_answer_def
          caps_kernel_def caps_memory_def caps_storage_def put_SW_OK split: option.split)
  next
    case (Some u)
    then show ?thesis unfolding e using n assms mx
      by (simp add: handler_sys_caps_def CAPS_RESP_LEN_def fill_start fill_next Let_def case_prod_beta caps_answer_def
          caps_kernel_def caps_memory_def caps_storage_def put_SW_OK split: option.split)
  qed
qed

interpretation caps: handler handler_sys_caps 2 "\<lambda>_. True"
proof unfold_locales
  fix os buf f dm resp sid
  assume a: "wf_daemon dm" "2 \<le> length (resp :: bytes)"
  show "\<exists>n resp' dm'. handler_sys_caps os buf f resp (length resp) sid dm = Some (int n, resp', dm') \<and>
      answered resp n resp' \<and> wf_daemon dm'"
  proof (cases "36 \<le> length resp")
    case True
    then show ?thesis using caps_eq [OF True] a answered_front [of "caps_answer os" resp]
      by (intro exI [of _ 36]) simp
  next
    case False
    then show ?thesis using a answered_sw [of resp SW_SYS_ERR]
      by (intro exI [of _ 2]) (simp add: handler_sys_caps_def CAPS_RESP_LEN_def reply_eq)
  qed
next
  fix os buf f resp sz sid dm n resp' dm'
  assume "handler_sys_caps os buf f resp sz sid dm = Some (n, resp', dm')"
  then show "dm_calls dm' = dm_calls dm \<or> fr_sec f = APDU_SEC_SIGNED"
    by (auto simp: handler_sys_caps_def Let_def bind_Some_iff case_prod_beta dest: reply_calls split: if_splits)
qed simp

end
