(* ===== verification/SysStatus.thy ===== *)
theory SysStatus
  imports SysCaps
begin

unbundle bit_operations_syntax

text \<open>
  The SYS_STATUS handler (src/src/asyd/handlers/sys_status.c): a cached snapshot of load, memory, disk and
  network, refreshed at most every 500 ms. The readers take the static variables they keep and give them
  back. The monotonic clock is read by the handler (0), for the disk (1), for the network (2) and after
  the refresh (3); \<^verbatim>\<open>/proc/stat\<close> is opened twice for the processor and once for the disk. A division
  by zero is undefined behaviour.
\<close>

definition STATUS_RESP_LEN :: nat where [code_defs]: "STATUS_RESP_LEN = 23"
definition REFRESH_INTERVAL_MS :: u64 where [code_defs]: "REFRESH_INTERVAL_MS = 500"

section \<open>The readers\<close>

definition fmt_loadavg :: "scan_dir list" where
  "fmt_loadavg = [Scan_uint 32, Scan_lit 46, Scan_uint 32, Scan_ws, Scan_uint 32, Scan_lit 46, Scan_uint 32]"

definition load_x10 :: "u64 \<Rightarrow> u64 \<Rightarrow> u8" where
  "load_x10 whole frac = ucast (ucast whole * 10 + ucast frac div 10 :: u32)"

definition read_loadavg :: "bytes option \<Rightarrow> u8 \<times> u8" where
  "read_loadavg file =
     (case file of None \<Rightarrow> (0, 0)
      | Some f \<Rightarrow>
          let vs = fst (scanf fmt_loadavg f)
          in if length vs = 4
             then (load_x10 (scanned vs 0) (scanned vs 1), load_x10 (scanned vs 2) (scanned vs 3))
             else (0, 0))"

definition fmt_cpu :: "scan_dir list" where
  "fmt_cpu = [Scan_lit 99, Scan_lit 112, Scan_lit 117] @ concat (replicate 8 [Scan_ws, Scan_uint 64])"

definition cpu_pct :: "u64 list \<Rightarrow> u64 list \<Rightarrow> u8" where
  "cpu_pct a b =
     (let d = (\<lambda>i. b ! i - a ! i);
          idle = d 3 + d 4;
          total = d 0 + d 1 + d 2 + d 3 + d 4 + d 5 + d 6 + d 7
      in if total = 0 then 0 else ucast (100 * (total - idle) div total))"

definition read_cpu_pct :: "bytes option \<Rightarrow> bytes option \<Rightarrow> u8" where
  "read_cpu_pct stat1 stat2 =
     (case stat1 of None \<Rightarrow> 0
      | Some f \<Rightarrow>
          let vs1 = fst (scanf fmt_cpu f)
          in if length vs1 \<noteq> 8 then 0
             else case stat2 of None \<Rightarrow> 0
                  | Some f \<Rightarrow>
                      let vs2 = fst (scanf fmt_cpu f)
                      in if length vs2 \<noteq> 8 then 0 else cpu_pct (map num_of vs1) (map num_of vs2))"

definition fmt_memavail :: "scan_dir list" where
  "fmt_memavail = [Scan_str 31, Scan_ws, Scan_uint 64, Scan_ws, Scan_lit 107, Scan_lit 66, Scan_ws]"

text \<open>The value of the first line with a given key, in the unit of the file.\<close>

function mem_lookup :: "bytes \<Rightarrow> bytes \<Rightarrow> u64 option" where
  "mem_lookup key f =
     (case scanf fmt_memavail f of (vs, f') \<Rightarrow>
        if length vs \<noteq> 2 then None
        else if strcmp_eq (str_of (vs ! 0)) key then Some (num_of (vs ! 1))
        else mem_lookup key f')"
  by pat_completeness auto
termination
  by (relation "measure (\<lambda>(_, f). length f)") (auto dest: scan_progress [OF sym])

declare mem_lookup.simps [simp del]

definition read_mem_avail_mb :: "bytes option \<Rightarrow> u32" where
  "read_mem_avail_mb file =
     (case file of None \<Rightarrow> 0
      | Some f \<Rightarrow> (case mem_lookup (ascii ''MemAvailable:'') f of Some val \<Rightarrow> ucast (val div 1024) | None \<Rightarrow> 0))"

definition read_root_disk ::
    "(u64 \<times> u64) option \<Rightarrow> bytes option \<Rightarrow> u64 \<Rightarrow> status_state \<Rightarrow> u8 \<times> u32 \<times> status_state" where
  "read_root_disk statvfs stat t s =
     (let usage_pct = (case statvfs of
            Some (blocks, bfree) \<Rightarrow> if blocks > 0 then ucast ((blocks - bfree) * 100 div blocks) else 0
          | None \<Rightarrow> 0)
      in case stat of None \<Rightarrow> (usage_pct, 0, s)
         | Some f \<Rightarrow>
             let vs = fst (scanf fmt_cpu f)
             in if length vs \<noteq> 8 then (usage_pct, 0, s)
                else
                  let w = num_of (vs ! 4);
                      delta_iow = (if w \<ge> sc_prev_iowait s then w - sc_prev_iowait s else 0);
                      delta_ms = (if t > sc_prev_time_ms s then t - sc_prev_time_ms s else 1);
                      hz = 100;
                      iowait_ms = (ucast (delta_iow * 1000 div hz) :: u32);
                      iowait_ms = (if ucast iowait_ms > delta_ms then ucast delta_ms else iowait_ms)
                  in (usage_pct, iowait_ms, s\<lparr>sc_prev_iowait := w, sc_prev_time_ms := t\<rparr>))"

definition fmt_netdev :: "scan_dir list" where
  "fmt_netdev = [Scan_ws, Scan_not 58 31, Scan_lit 58] @ concat (replicate 9 [Scan_ws, Scan_uint 64])"

definition skip_line :: "bytes \<Rightarrow> bytes" where
  "skip_line f = (case fgets 256 f of None \<Rightarrow> f | Some (_, r) \<Rightarrow> r)"

function net_loop :: "bytes \<Rightarrow> u64 \<times> u64 \<Rightarrow> u64 \<times> u64" where
  "net_loop f (rx_total, tx_total) =
     (case fgets 256 f of
        None \<Rightarrow> (rx_total, tx_total)
      | Some (line, f') \<Rightarrow>
          let vs = sscanf fmt_netdev line
          in if length vs \<ge> 10 \<and> take 2 (str_of (vs ! 0)) \<noteq> ascii ''lo''
             then net_loop f' (rx_total + num_of (vs ! 1), tx_total + num_of (vs ! 9))
             else net_loop f' (rx_total, tx_total))"
  by pat_completeness auto
termination
  by (relation "measure (\<lambda>(f, _). length f)") (auto dest: fgets_progress)

declare net_loop.simps [simp del]

definition cap16 :: "u64 \<Rightarrow> u16" where
  "cap16 v = (if v > 0xFFFF then 0xFFFF else ucast v)"

definition read_net_mbps :: "bytes option \<Rightarrow> u64 \<Rightarrow> status_state \<Rightarrow> u16 \<times> u16 \<times> status_state" where
  "read_net_mbps file t s =
     (case file of None \<Rightarrow> (0, 0, s)
      | Some f \<Rightarrow>
          let (rx_total, tx_total) = net_loop (skip_line (skip_line f)) (0, 0);
              (in_mbps, out_mbps) =
                (if sc_prev_net_ms s > 0 \<and> t > sc_prev_net_ms s
                 then
                   let delta_ms = t - sc_prev_net_ms s;
                       delta_rx = (if rx_total \<ge> sc_prev_rx s then rx_total - sc_prev_rx s else 0);
                       delta_tx = (if tx_total \<ge> sc_prev_tx s then tx_total - sc_prev_tx s else 0)
                   in (cap16 (delta_rx * 8 div delta_ms div 1000), cap16 (delta_tx * 8 div delta_ms div 1000))
                 else (0, 0))
          in (in_mbps, out_mbps, s\<lparr>sc_prev_rx := rx_total, sc_prev_tx := tx_total, sc_prev_net_ms := t\<rparr>))"

definition fmt_psi :: "scan_dir list" where
  "fmt_psi = map Scan_lit (ascii ''some'') @ [Scan_ws] @ map Scan_lit (ascii ''avg10='') @
     [Scan_uint 32, Scan_lit 46, Scan_uint 32]"

definition read_rpi :: "os \<Rightarrow> u8 \<Rightarrow> status_state \<Rightarrow> (u8 \<times> status_state) option" where
  "read_rpi os load1_x10 s =
     (let s = (if sc_psi_available s = - 1
               then s\<lparr>sc_psi_available := (if os_psi_probe os then 1 else 0),
                      sc_ncpus := (if os_ncpus os < 1 then 1 else os_ncpus os)\<rparr>
               else s)
      in case (if sc_psi_available s \<noteq> 0 then os_psi os else None) of
           Some f \<Rightarrow>
             let vs = fst (scanf fmt_psi f)
             in if length vs = 2
                then
                  let pct = (ucast (num_of (vs ! 0)) :: u32);
                      pct = (if pct > 100 then 100 else pct)
                  in Some (ucast pct, s)
                else Some (0, s)
         | None \<Rightarrow>
             let n = (of_int (sc_ncpus s) :: u32)
             in if n = 0 then None
                else
                  let rpi = ucast load1_x10 * 10 div n;
                      rpi = (if rpi > 100 then 100 else rpi)
                  in Some (ucast rpi, s))"

section \<open>Refresh and answer\<close>

definition refresh_snapshot :: "os \<Rightarrow> status_state \<Rightarrow> status_state option" where
  "refresh_snapshot os s =
     do {
       let (load1_x10, load5_x10) = read_loadavg (os_loadavg os);
       let cpu = read_cpu_pct (os_stat os 0) (os_stat os 1);
       let mem = read_mem_avail_mb (os_meminfo os);
       let (usage, iowait, s) = read_root_disk (os_statvfs os) (os_stat os 2) (now_ms (os_monotonic os 1)) s;
       let (in_mbps, out_mbps, s) = read_net_mbps (os_netdev os) (now_ms (os_monotonic os 2)) s;
       (rpi, s) \<leftarrow> read_rpi os load1_x10 s;
       Some (s\<lparr>sc_snap := \<lparr>sn_load1_x10 = load1_x10, sn_load5_x10 = load5_x10, sn_cpu_pct = cpu, sn_mem_avail_mb = mem,
                 sn_root_usage_pct = usage, sn_iowait_ms = iowait, sn_in_mbps = in_mbps, sn_out_mbps = out_mbps,
                 sn_rpi = rpi\<rparr>,
               sc_snap_time_ms := now_ms (os_monotonic os 3)\<rparr>)
     }"

definition handler_sys_status :: handler where
  "handler_sys_status os buf req resp sz session_id dm =
     (if sz < STATUS_RESP_LEN then reply resp SW_SYS_ERR dm
      else do {
        let now = now_ms (os_monotonic os 0);
        let s = dm_status dm;
        s \<leftarrow> (if sc_snap_time_ms s = 0 \<or> now - sc_snap_time_ms s \<ge> REFRESH_INTERVAL_MS
              then refresh_snapshot os s else Some s);
        let snap = sc_snap s;
        resp \<leftarrow> wr_range resp 0 (replicate STATUS_RESP_LEN 0);
        resp \<leftarrow> wr_range resp 0 [sn_load1_x10 snap];
        resp \<leftarrow> wr_range resp 1 [sn_load5_x10 snap];
        resp \<leftarrow> wr_range resp 2 [sn_cpu_pct snap];
        resp \<leftarrow> wr_range resp 3 (put_u32 (sn_mem_avail_mb snap));
        resp \<leftarrow> wr_range resp 7 [sn_root_usage_pct snap];
        resp \<leftarrow> wr_range resp 8 (put_u32 (sn_iowait_ms snap));
        resp \<leftarrow> wr_range resp 12 (put_u16 (sn_in_mbps snap));
        resp \<leftarrow> wr_range resp 14 (put_u16 (sn_out_mbps snap));
        resp \<leftarrow> wr_range resp 16 [sn_rpi snap];
        resp \<leftarrow> wr_range resp 21 [0x90];
        resp \<leftarrow> wr_range resp 22 [0x00];
        Some (int STATUS_RESP_LEN, resp, dm\<lparr>dm_status := s\<rparr>)
      })"

section \<open>What it answers\<close>

definition status_answer :: "status_snap \<Rightarrow> bytes" where
  "status_answer snap =
     [sn_load1_x10 snap, sn_load5_x10 snap, sn_cpu_pct snap] @ put_u32 (sn_mem_avail_mb snap) @
     [sn_root_usage_pct snap] @ put_u32 (sn_iowait_ms snap) @ put_u16 (sn_in_mbps snap) @ put_u16 (sn_out_mbps snap) @
     [sn_rpi snap] @ replicate 4 0 @ put_u16 SW_OK"

lemma status_answer_length [simp]: "length (status_answer snap) = 23"
  by (simp add: status_answer_def)

text \<open>The state after the cache was brought up to date.\<close>

definition cache_stale :: "os \<Rightarrow> status_state \<Rightarrow> bool" where
  "cache_stale os s \<longleftrightarrow> sc_snap_time_ms s = 0 \<or> now_ms (os_monotonic os 0) - sc_snap_time_ms s \<ge> 500"

definition cached :: "os \<Rightarrow> status_state \<Rightarrow> status_state option" where
  "cached os s = (if cache_stale os s then refresh_snapshot os s else Some s)"

lemma status_eq:
  assumes "23 \<le> length resp"
  shows "handler_sys_status os buf req resp (length resp) sid dm =
    Option.bind (cached os (dm_status dm))
      (\<lambda>s. Some (23, status_answer (sc_snap s) @ drop 23 resp, dm\<lparr>dm_status := s\<rparr>))"
proof -
  have e: "status_answer snap @ drop 23 resp = filled 23 (status_answer snap) resp" for snap
    by (rule fill_end [symmetric]) simp
  have sk: "filled 23 d resp = filled 23 (d @ replicate 4 0) resp" if "length d = 17" for d
    by (rule fill_skip) (simp add: that)
  show ?thesis unfolding e using assms
    by (simp add: handler_sys_status_def cached_def cache_stale_def STATUS_RESP_LEN_def REFRESH_INTERVAL_MS_def Let_def
        fill_start fill_next sk status_answer_def put_SW_OK)
qed

section \<open>Well-formed state\<close>

definition ncpus_ok :: "os \<Rightarrow> bool" where
  "ncpus_ok os \<longleftrightarrow> os_ncpus os < 2 ^ 31"

definition psi_ok :: "status_state \<Rightarrow> bool" where
  "psi_ok s \<longleftrightarrow> sc_psi_available s = - 1 \<or> (sc_psi_available s \<in> {0, 1} \<and> 1 \<le> sc_ncpus s \<and> sc_ncpus s < 2 ^ 31)"

lemma wf_status_psi: "wf_status s \<longleftrightarrow> sn_rpi (sc_snap s) \<le> 100 \<and> psi_ok s"
  by (simp add: wf_status_def psi_ok_def)

lemma ucast_le_100: "(v :: u32) \<le> 100 \<Longrightarrow> (ucast v :: u8) \<le> 100"
proof -
  assume "v \<le> 100"
  then have "unat v \<le> 100" by (simp add: word_le_nat_alt)
  moreover from this have "unat (ucast v :: u8) = unat v" by (simp add: unsigned_ucast_eq take_bit_nat_eq_self)
  ultimately show ?thesis by (simp add: word_le_nat_alt)
qed

lemma read_rpi_total:
  assumes "psi_ok s" and "ncpus_ok os"
  shows "\<exists>rpi s'. read_rpi os l s = Some (rpi, s') \<and> rpi \<le> 100 \<and> psi_ok s' \<and> sc_psi_available s' \<noteq> - 1"
proof -
  define s1 where "s1 = (if sc_psi_available s = - 1
      then s\<lparr>sc_psi_available := (if os_psi_probe os then 1 else 0), sc_ncpus := (if os_ncpus os < 1 then 1 else os_ncpus os)\<rparr>
      else s)"
  have s1: "psi_ok s1" "sc_psi_available s1 \<noteq> - 1" using assms by (auto simp: s1_def psi_ok_def ncpus_ok_def)
  then have n: "1 \<le> sc_ncpus s1" "sc_ncpus s1 < 2 ^ 31" by (auto simp: psi_ok_def)
  have "(of_int (sc_ncpus s1) :: u32) \<noteq> 0"
  proof
    assume "(of_int (sc_ncpus s1) :: u32) = 0"
    then have "take_bit 32 (sc_ncpus s1) = 0" by (simp add: word_of_int_eq_0_iff dvd_eq_mod_eq_0 take_bit_eq_mod)
    moreover have "take_bit 32 (sc_ncpus s1) = sc_ncpus s1" using n by (simp add: take_bit_int_eq_self_iff)
    ultimately show False using n by simp
  qed
  moreover have c: "(if v > 100 then 100 else v) \<le> (100 :: u32)" for v by (simp add: not_less)
  moreover have "\<not> 100 < v \<Longrightarrow> (ucast v :: u8) \<le> 100" for v :: u32 by (simp add: ucast_le_100 not_less)
  ultimately show ?thesis
    unfolding read_rpi_def s1_def [symmetric] Let_def
    using s1 ucast_le_100 [OF c] by (auto split: option.split)
qed

lemma disk_keeps_psi: "psi_ok (snd (snd (read_root_disk v f t s))) = psi_ok s"
  by (auto simp: read_root_disk_def Let_def psi_ok_def split: option.split)

lemma net_keeps_psi: "psi_ok (snd (snd (read_net_mbps f t s))) = psi_ok s"
  by (auto simp: read_net_mbps_def Let_def psi_ok_def case_prod_beta split: option.split)

lemma refresh_total:
  assumes "wf_status s" and "ncpus_ok os"
  shows "\<exists>s'. refresh_snapshot os s = Some s' \<and> wf_status s' \<and> sc_snap_time_ms s' = now_ms (os_monotonic os 3)"
proof -
  obtain l1 l5 where l: "read_loadavg (os_loadavg os) = (l1, l5)" by fastforce
  obtain us io s1 where 1: "read_root_disk (os_statvfs os) (os_stat os 2) (now_ms (os_monotonic os 1)) s = (us, io, s1)"
    by (cases "read_root_disk (os_statvfs os) (os_stat os 2) (now_ms (os_monotonic os 1)) s") auto
  obtain i ou s2 where 2: "read_net_mbps (os_netdev os) (now_ms (os_monotonic os 2)) s1 = (i, ou, s2)"
    by (cases "read_net_mbps (os_netdev os) (now_ms (os_monotonic os 2)) s1") auto
  have "psi_ok s2"
    using assms(1) disk_keeps_psi [of "os_statvfs os" "os_stat os 2" "now_ms (os_monotonic os 1)" s] 1
      net_keeps_psi [of "os_netdev os" "now_ms (os_monotonic os 2)" s1] 2 by (simp add: wf_status_psi)
  from read_rpi_total [OF this assms(2)] obtain r s3 where "read_rpi os l1 s2 = Some (r, s3)" "r \<le> 100" "psi_ok s3" by blast
  then show ?thesis using l 1 2 by (simp add: refresh_snapshot_def wf_status_psi psi_ok_def)
qed

lemma cached_total:
  assumes "wf_status s" and "ncpus_ok os"
  shows "\<exists>s'. cached os s = Some s' \<and> wf_status s'"
  using refresh_total [OF assms] assms(1) by (auto simp: cached_def)

interpretation status: handler handler_sys_status 2 ncpus_ok
proof unfold_locales
  fix os buf f dm resp sid
  assume a: "wf_daemon dm" "2 \<le> length (resp :: bytes)" "ncpus_ok os"
  show "\<exists>n resp' dm'. handler_sys_status os buf f resp (length resp) sid dm = Some (int n, resp', dm') \<and>
      answered resp n resp' \<and> wf_daemon dm'"
  proof (cases "23 \<le> length resp")
    case True
    obtain s' where "cached os (dm_status dm) = Some s'" "wf_status s'"
      using cached_total [of "dm_status dm" os] a by (auto simp: wf_daemon_def)
    then show ?thesis using status_eq [OF True] a answered_front [of "status_answer (sc_snap s')" resp] True
      by (intro exI [of _ 23]) (simp add: wf_daemon_def)
  next
    case False
    then show ?thesis using a answered_sw [of resp SW_SYS_ERR]
      by (intro exI [of _ 2]) (simp add: handler_sys_status_def STATUS_RESP_LEN_def reply_eq)
  qed
next
  fix os buf f resp sz sid dm n resp' dm'
  assume "handler_sys_status os buf f resp sz sid dm = Some (n, resp', dm')"
  then show "dm_calls dm' = dm_calls dm \<or> fr_sec f = APDU_SEC_SIGNED"
    by (auto simp: handler_sys_status_def Let_def bind_Some_iff dest: reply_calls split: if_splits)
qed simp

section \<open>Properties\<close>



end
