(* ===== verification/SysProcs.thy ===== *)
theory SysProcs
  imports SysStatus "HOL-Library.Multiset"
begin

unbundle bit_operations_syntax

text \<open>
  The SYS_PROCS handler (src/src/asyd/handlers/sys_procs.c): the five processes that used most processor
  time since the previous call. Scan number 0 is the blocking first sample, scan number 1 the current one;
  each reads \<^verbatim>\<open>/proc/stat\<close> and the process directories. An over-read of a stat line is undefined behaviour.
\<close>

definition PROCS_RESP_LEN :: nat where [code_defs]: "PROCS_RESP_LEN = 44"
definition SLOT_SIZE :: nat where [code_defs]: "SLOT_SIZE = 8"
definition TOP_N :: nat where [code_defs]: "TOP_N = 5"
definition MAX_PROCS_SCAN :: nat where [code_defs]: "MAX_PROCS_SCAN = 512"

record proc_info =
  pi_pid :: u32
  pi_delta :: u64
  pi_mem_pct :: u8
  pi_status_flag :: u8

definition zero_info :: proc_info where
  "zero_info = \<lparr>pi_pid = 0, pi_delta = 0, pi_mem_pct = 0, pi_status_flag = 0\<rparr>"

section \<open>Reading the process table\<close>

definition read_total_jiffies :: "bytes option \<Rightarrow> u64" where
  "read_total_jiffies stat =
     (case stat of None \<Rightarrow> 1
      | Some f \<Rightarrow>
          let vs = map num_of (fst (scanf fmt_cpu f))
          in if length vs = 8 then vs ! 0 + vs ! 1 + vs ! 2 + vs ! 3 + vs ! 4 + vs ! 5 + vs ! 6 + vs ! 7 else 1)"

definition read_mem_total_kb :: "bytes option \<Rightarrow> u64" where
  "read_mem_total_kb file =
     (case file of None \<Rightarrow> 1
      | Some f \<Rightarrow> (case mem_lookup (ascii ''MemTotal:'') f of
                     Some val \<Rightarrow> if val \<noteq> 0 then val else 1
                   | None \<Rightarrow> 1))"

text \<open>What follows the last occurrence of a character.\<close>

definition strrchr_next :: "bytes \<Rightarrow> u8 \<Rightarrow> bytes option" where
  "strrchr_next s c = (if c \<in> set s then Some (rev (takeWhile (\<lambda>x. x \<noteq> c) (rev s))) else None)"

primrec skip_fields :: "nat \<Rightarrow> bytes \<Rightarrow> bytes option" where
  "skip_fields 0 rp = Some rp"
| "skip_fields (Suc n) rp =
     (if length (sscanf [Scan_ws, Scan_uint 64] rp) < 1 then None
      else skip_fields n (dropWhile (\<lambda>c. c \<noteq> 32) (dropWhile (\<lambda>c. c = 32) rp)))"

text \<open>The state letter and the processor time, none when the line does not have them.\<close>

definition parse_proc_stat :: "bytes option \<Rightarrow> (u8 \<times> u64) option option" where
  "parse_proc_stat file =
     (case Option.bind file (fgets 512) of None \<Rightarrow> Some None
      | Some (line, _) \<Rightarrow>
          (case strrchr_next (cstr line) 41 of None \<Rightarrow> Some None
           | Some rp \<Rightarrow>
               (case dropWhile (\<lambda>c. c = 32) rp of
                  [] \<Rightarrow> None
                | state # rp \<Rightarrow>
                    (case skip_fields 10 rp of None \<Rightarrow> Some None
                     | Some rp \<Rightarrow>
                         let vs = sscanf [Scan_ws, Scan_uint 64, Scan_ws, Scan_uint 64] rp
                         in if length vs < 2 then Some None
                            else Some (Some (state, num_of (vs ! 0) + num_of (vs ! 1)))))))"

text \<open>The user id and the resident memory seen so far, with the flags of the two.\<close>

function status_loop :: "bytes \<Rightarrow> u64 \<Rightarrow> u64 \<Rightarrow> bool \<Rightarrow> bool \<Rightarrow> u64 \<times> u64" where
  "status_loop f uid rss got_uid got_rss =
     (case fgets 256 f of
        None \<Rightarrow> (uid, rss)
      | Some (line, f') \<Rightarrow>
          let u = sscanf (map Scan_lit (ascii ''Uid:'') @ [Scan_ws, Scan_uint 32]) line;
              r = sscanf (map Scan_lit (ascii ''VmRSS:'') @ [Scan_ws, Scan_uint 64]) line;
              uid = (if length u = 1 then num_of (u ! 0) else uid);
              rss = (if length r = 1 then num_of (r ! 0) else rss);
              got_uid = (got_uid \<or> length u = 1);
              got_rss = (got_rss \<or> length r = 1)
          in if got_uid \<and> got_rss then (uid, rss) else status_loop f' uid rss got_uid got_rss)"
  by pat_completeness auto
termination
  by (relation "measure (\<lambda>(f, _). length f)") (auto dest: fgets_progress)

declare status_loop.simps [simp del]

definition parse_proc_status :: "bytes option \<Rightarrow> bool \<times> u64" where
  "parse_proc_status file =
     (case file of None \<Rightarrow> (False, 0)
      | Some f \<Rightarrow> (case status_loop f 9999 0 False False of (uid, rss) \<Rightarrow> (uid = 0, rss)))"

definition atoi_u32 :: "bytes \<Rightarrow> u32" where
  "atoi_u32 s = (let n = dec_value (takeWhile is_digit s) in if n < 2 ^ 63 then of_int n else - 1)"

definition make_snap :: "u32 \<Rightarrow> u8 \<Rightarrow> u64 \<Rightarrow> bool \<Rightarrow> u64 \<Rightarrow> u64 \<Rightarrow> proc_snap" where
  "make_snap pid state jiffies privileged vmrss_kb mem_total_kb =
     (let flags = (if state = 90 then 0x01 else 0) OR (if state = 68 then 0x02 else 0) OR (if privileged then 0x04 else 0);
          mp = (if vmrss_kb > 0 \<and> mem_total_kb > 0 then vmrss_kb * 100 div mem_total_kb else 0)
      in \<lparr>ps_pid = pid, ps_jiffies = jiffies, ps_mem_pct = (if mp > 255 then 255 else ucast mp), ps_status_flag = flags\<rparr>)"

fun scan_entries ::
    "nat \<Rightarrow> u64 \<Rightarrow> (bytes \<times> bytes option \<times> bytes option) list \<Rightarrow> proc_snap list \<Rightarrow> u16 \<Rightarrow>
     (proc_snap list \<times> u16) option" where
  "scan_entries mx mem_total_kb [] dst total_procs = Some (dst, total_procs)"
| "scan_entries mx mem_total_kb ((d_name, stat, status) # es) dst total_procs =
     (if d_name = [] \<or> \<not> is_digit (hd d_name) then scan_entries mx mem_total_kb es dst total_procs
      else
        let pid = atoi_u32 d_name
        in if pid = 0 then scan_entries mx mem_total_kb es dst total_procs
           else
             let total_procs = total_procs + 1
             in if mx \<le> length dst then scan_entries mx mem_total_kb es dst total_procs
                else
                  case parse_proc_stat stat of
                    None \<Rightarrow> None
                  | Some None \<Rightarrow> scan_entries mx mem_total_kb es dst total_procs
                  | Some (Some (state, jiffies)) \<Rightarrow>
                      let (privileged, vmrss_kb) = parse_proc_status status
                      in scan_entries mx mem_total_kb es
                           (dst @ [make_snap pid state jiffies privileged vmrss_kb mem_total_kb]) total_procs)"

text \<open>The count or -1, the snapshot, the processor total and the number of processes.\<close>

definition scan_proc :: "os \<Rightarrow> nat \<Rightarrow> nat \<Rightarrow> u64 \<Rightarrow> (int \<times> proc_snap list \<times> u64 \<times> u16) option" where
  "scan_proc os k mx mem_total_kb =
     (let total = read_total_jiffies (os_stat os k)
      in case os_proc os k of
           None \<Rightarrow> Some (- 1, [], total, 0)
         | Some es \<Rightarrow>
             map_option (\<lambda>(dst, n). (int (length dst), dst, total, n)) (scan_entries mx mem_total_kb es [] 0))"

section \<open>The five busiest\<close>

fun shift_down :: "proc_info list \<Rightarrow> nat \<Rightarrow> nat \<Rightarrow> proc_info list" where
  "shift_down tops 0 pos = tops"
| "shift_down tops (Suc i) pos = (if Suc i > pos then shift_down (tops[Suc i := tops ! i]) i pos else tops)"

definition insert_top :: "proc_info list \<times> nat \<Rightarrow> proc_info \<Rightarrow> proc_info list \<times> nat" where
  "insert_top tc p =
     (let (tops, count) = tc;
          pos = (case find_first (\<lambda>e. pi_delta p > pi_delta e) (take count tops) of Some i \<Rightarrow> i | None \<Rightarrow> count)
      in if pos \<ge> TOP_N then (tops, count)
         else
           let fin = (if count < TOP_N then count else TOP_N - 1);
               tops = (shift_down tops fin pos)[pos := p]
           in (tops, if count < TOP_N then count + 1 else count))"

text \<open>The entry of one process of the previous snapshot, if it still runs.\<close>

definition proc_delta :: "proc_snap list \<Rightarrow> proc_snap \<Rightarrow> proc_info option" where
  "proc_delta snap2 s =
     (let pid = ps_pid s;
          (jiffies_t2, mem_pct, flags) =
            (case find_first (\<lambda>c. ps_pid c = pid) snap2 of
               Some j \<Rightarrow> (ps_jiffies (snap2 ! j), ps_mem_pct (snap2 ! j), ps_status_flag (snap2 ! j))
             | None \<Rightarrow> (0, ps_mem_pct s, ps_status_flag s))
      in if jiffies_t2 = 0 then None
         else
           let delta = (if jiffies_t2 \<ge> ps_jiffies s then jiffies_t2 - ps_jiffies s else 0)
           in Some \<lparr>pi_pid = pid, pi_delta = delta, pi_mem_pct = mem_pct, pi_status_flag = flags\<rparr>)"

primrec top_loop :: "proc_snap list \<Rightarrow> proc_snap list \<Rightarrow> proc_info list \<times> nat \<Rightarrow> proc_info list \<times> nat" where
  "top_loop snap2 [] tc = tc"
| "top_loop snap2 (s # prev) tc =
     top_loop snap2 prev (case proc_delta snap2 s of None \<Rightarrow> tc | Some p \<Rightarrow> insert_top tc p)"

definition cpu_x100 :: "u64 \<Rightarrow> u64 \<Rightarrow> u64 \<Rightarrow> u16" where
  "cpu_x100 delta ncpus total_delta =
     (let v = delta * 10000 * ncpus div total_delta;
          v = (if v > 10000 * ncpus then 10000 * ncpus else v);
          v = (if v > 0xFFFF then 0xFFFF else v)
      in ucast v)"

primrec write_slots ::
    "nat \<Rightarrow> nat \<Rightarrow> proc_info list \<Rightarrow> nat \<Rightarrow> u64 \<Rightarrow> u64 \<Rightarrow> bytes \<Rightarrow> bytes option" where
  "write_slots 0 i tops top_count ncpus total_delta resp = Some resp"
| "write_slots (Suc n) i tops top_count ncpus total_delta resp =
     (let slot = 2 + i * SLOT_SIZE
      in if i \<ge> top_count \<or> pi_pid (tops ! i) = 0 then write_slots n (i + 1) tops top_count ncpus total_delta resp
         else do {
           resp \<leftarrow> wr_range resp slot (put_u32 (pi_pid (tops ! i)));
           resp \<leftarrow> wr_range resp (slot + 4) (put_u16 (cpu_x100 (pi_delta (tops ! i)) ncpus total_delta));
           resp \<leftarrow> wr_range resp (slot + 6) [pi_mem_pct (tops ! i)];
           resp \<leftarrow> wr_range resp (slot + 7) [pi_status_flag (tops ! i)];
           write_slots n (i + 1) tops top_count ncpus total_delta resp
         })"

definition handler_sys_procs :: handler where
  "handler_sys_procs os buf req resp sz session_id dm =
     (if sz < PROCS_RESP_LEN then reply resp SW_SYS_ERR dm
      else do {
        let mem_total_kb = read_mem_total_kb (os_meminfo os);
        ps \<leftarrow> (if pc_n_prev (dm_procs dm) = 0
               then map_option (\<lambda>(n, dst, total, _). \<lparr>pc_prev = dst, pc_n_prev = n, pc_total_prev = total\<rparr>)
                      (scan_proc os 0 MAX_PROCS_SCAN mem_total_kb)
               else Some (dm_procs dm));
        if pc_n_prev (dm_procs dm) = 0 \<and> pc_n_prev ps < 0 then reply resp SW_SYS_ERR (dm\<lparr>dm_procs := ps\<rparr>)
        else do {
          (n_curr, snap2, total_curr, total_procs) \<leftarrow> scan_proc os 1 MAX_PROCS_SCAN mem_total_kb;
          if n_curr < 0 then reply resp SW_SYS_ERR (dm\<lparr>dm_procs := ps\<rparr>)
          else do {
            let total_delta = total_curr - pc_total_prev ps;
            let total_delta = (if total_delta = 0 then 1 else total_delta);
            let (tops, top_count) = top_loop snap2 (take (nat (pc_n_prev ps)) (pc_prev ps)) (replicate TOP_N zero_info, 0);
            let ps = \<lparr>pc_prev = snap2, pc_n_prev = n_curr, pc_total_prev = total_curr\<rparr>;
            let ncpus = (if os_ncpus os < 1 then 1 else os_ncpus os);
            resp \<leftarrow> wr_range resp 0 (replicate PROCS_RESP_LEN 0);
            resp \<leftarrow> wr_range resp 0 (put_u16 total_procs);
            resp \<leftarrow> write_slots TOP_N 0 tops top_count (of_int ncpus) total_delta resp;
            resp \<leftarrow> wr_range resp 42 [0x90];
            resp \<leftarrow> wr_range resp 43 [0x00];
            Some (int PROCS_RESP_LEN, resp, dm\<lparr>dm_procs := ps\<rparr>)
          }
        }
      })"

section \<open>The insertion keeps the five largest\<close>

text \<open>Insertion into a list of any length: before the first strictly smaller entry.\<close>

definition ins_desc :: "proc_info \<Rightarrow> proc_info list \<Rightarrow> proc_info list" where
  "ins_desc p xs = takeWhile (\<lambda>e. pi_delta p \<le> pi_delta e) xs @ p # dropWhile (\<lambda>e. pi_delta p \<le> pi_delta e) xs"

definition busy_key :: "proc_info \<Rightarrow> int" where
  "busy_key p = - uint (pi_delta p)"

lemma busy_key_le: "busy_key a \<le> busy_key b \<longleftrightarrow> pi_delta b \<le> pi_delta a"
  by (simp add: busy_key_def word_le_def)

lemma find_first_takeWhile:
  "(case find_first P xs of Some i \<Rightarrow> i | None \<Rightarrow> length xs) = length (takeWhile (\<lambda>x. \<not> P x) xs)"
proof (induction xs)
  case (Cons x xs)
  then show ?case by (cases "find_first P xs") auto
qed simp

lemma shift_down_length [simp]: "length (shift_down t i pos) = length t"
  by (induction t i pos rule: shift_down.induct) auto

lemma shift_down_nth:
  "i < length t \<Longrightarrow> j < length t \<Longrightarrow>
   shift_down t i pos ! j = (if pos < j \<and> j \<le> i then t ! (j - 1) else t ! j)"
proof (induction t i pos rule: shift_down.induct)
  case (2 t i pos)
  then show ?case by (auto simp: nth_list_update le_Suc_eq)
qed simp

lemma ins_desc_simps [simp]:
  "ins_desc p [] = [p]"
  "ins_desc p (x # xs) = (if pi_delta p \<le> pi_delta x then x # ins_desc p xs else p # x # xs)"
  by (simp_all add: ins_desc_def)

lemma take_ins_desc: "take n (ins_desc p (take n xs)) = take n (ins_desc p xs)"
proof (induction xs arbitrary: n)
  case (Cons x xs)
  show ?case
  proof (cases n)
    case (Suc m)
    have "take (Suc m) (p # x # take m xs) = take (Suc m) (p # x # xs)" by (cases m) simp_all
    then show ?thesis using Cons.IH [of m] Suc by simp
  qed simp
qed simp

lemma ins_desc_length [simp]: "length (ins_desc p xs) = Suc (length xs)"
  by (induction xs) auto

text \<open>The array operation is that insertion, cut to the five slots.\<close>

lemma insert_top_take:
  assumes "length t = 5" and "c \<le> 5" and "insert_top (t, c) p = (t', c')"
  shows "length t' = 5" and "c' = min 5 (Suc c)" and "take c' t' = take 5 (ins_desc p (take c t))"
proof -
  define pos where "pos = length (takeWhile (\<lambda>e. pi_delta p \<le> pi_delta e) (take c t))"
  have lc: "length (take c t) = c" using assms(1,2) by simp
  have pos: "pos \<le> c" using length_takeWhile_le [of _ "take c t"] lc by (simp add: pos_def)
  have "(case find_first (\<lambda>e. pi_delta p > pi_delta e) (take c t) of Some i \<Rightarrow> i | None \<Rightarrow> c) = pos"
    using find_first_takeWhile [where P = "\<lambda>e. pi_delta p > pi_delta e" and xs = "take c t"] unfolding lc pos_def not_less .
  then have it: "insert_top (t, c) p = (if pos \<ge> 5 then (t, c) else
      ((shift_down t (if c < 5 then c else 4) pos)[pos := p], if c < 5 then c + 1 else c))"
    by (simp add: insert_top_def TOP_N_def)
  show "length t' = 5" "c' = min 5 (Suc c)" using it assms pos by (auto split: if_splits)
  show "take c' t' = take 5 (ins_desc p (take c t))"
  proof (cases "pos \<ge> 5")
    case True
    then have c: "c = 5" using pos assms(2) by simp
    have "take 5 (ins_desc p (take c t)) = take 5 (takeWhile (\<lambda>e. pi_delta p \<le> pi_delta e) (take c t))"
      using True by (simp add: ins_desc_def pos_def)
    also have "\<dots> = take 5 (take c t)"
      using True by (metis c lc le_antisym length_takeWhile_le pos_def takeWhile_eq_take take_all_iff)
    finally show ?thesis using it assms(3) True c by simp
  next
    case False
    let ?f = "if c < 5 then c else 4" and ?n = "if c < 5 then c + 1 else c"
    have t': "t' = (shift_down t ?f pos)[pos := p]" "c' = ?n" using it assms(3) False by auto
    have i: "ins_desc p (take c t) = take pos t @ p # drop pos (take c t)"
      unfolding ins_desc_def pos_def
      using takeWhile_eq_take [of "\<lambda>e. pi_delta p \<le> pi_delta e" "take c t"]
        dropWhile_eq_drop [of "\<lambda>e. pi_delta p \<le> pi_delta e" "take c t"] pos
      by (metis min.absorb1 pos_def take_take)
    have l: "length (take c' t') = min 5 (Suc c)" using t' assms(1,2) by auto
    show ?thesis
    proof (rule nth_equalityI)
      show "length (take c' t') = length (take 5 (ins_desc p (take c t)))" using l lc by simp
      fix j assume j: "j < length (take c' t')"
      then have j5: "j < 5" "j \<le> c" using l by auto
      have "t' ! j = (if j = pos then p else if pos < j then t ! (j - 1) else t ! j)"
        using t' j5 assms(1,2) False by (auto simp: shift_down_nth nth_list_update)
      moreover have "ins_desc p (take c t) ! j = (if j = pos then p else if pos < j then t ! (j - 1) else t ! j)"
        using j5 pos assms(1,2) unfolding i by (auto simp: nth_append nth_Cons' min_def)
      ultimately show "take c' t' ! j = take 5 (ins_desc p (take c t)) ! j" using j j5 by simp
    qed
  qed
qed

lemma top_fold:
  assumes "foldl insert_top (replicate 5 zero_info, 0) ps = (t, c)"
  shows "length t = 5 \<and> c = min 5 (length ps) \<and> take c t = take 5 (foldl (\<lambda>xs p. ins_desc p xs) [] ps)"
  using assms
proof (induction ps arbitrary: t c rule: rev_induct)
  case (snoc p ps)
  obtain t0 c0 where 0: "foldl insert_top (replicate 5 zero_info, 0) ps = (t0, c0)" by fastforce
  note ih = snoc.IH [OF 0]
  have "insert_top (t0, c0) p = (t, c)" using snoc.prems 0 by simp
  from insert_top_take [OF _ _ this] ih show ?case
    using take_ins_desc [of 5 p "foldl (\<lambda>xs p. ins_desc p xs) [] ps"] by auto
qed auto

text \<open>Inserting one after the other is the stable sort by decreasing time.\<close>

definition by_delta :: "proc_info list \<Rightarrow> proc_info list" where
  "by_delta ps = sort_key busy_key ps"

lemma ins_desc_mset: "mset (ins_desc p xs) = mset (xs @ [p])"
  by (induction xs) auto

lemma ins_desc_sorted: "sorted (map busy_key xs) \<Longrightarrow> sorted (map busy_key (ins_desc p xs))"
proof (induction xs)
  case (Cons x xs)
  have "set (ins_desc p xs) = insert p (set xs)"
    using ins_desc_mset [of p xs] by (metis mset_append set_append set_mset_mset list.set(1,2) Un_insert_right sup_bot_right)
  then show ?case using Cons by (auto simp: busy_key_le not_le)
qed simp

lemma ins_desc_stable:
  "sorted (map busy_key xs) \<Longrightarrow>
   filter (\<lambda>x. busy_key k = busy_key x) (ins_desc p xs) = filter (\<lambda>x. busy_key k = busy_key x) (xs @ [p])"
proof (induction xs)
  case (Cons x xs)
  show ?case
  proof (cases "pi_delta p \<le> pi_delta x")
    case False
    have "busy_key p < busy_key y" if "y \<in> set (x # xs)" for y
      using that False Cons.prems busy_key_le [of x p] by auto
    then have "filter (\<lambda>y. busy_key k = busy_key y) (x # xs) = []" if "busy_key k = busy_key p"
      unfolding filter_empty_conv using that by (metis less_irrefl)
    then show ?thesis using False by auto
  qed (use Cons in auto)
qed simp

lemma foldl_ins_desc: "foldl (\<lambda>xs p. ins_desc p xs) [] ps = by_delta ps"
proof -
  let ?f = "foldl (\<lambda>xs p. ins_desc p xs) []"
  have s: "sorted (map busy_key (?f ps))" for ps
    by (induction ps rule: rev_induct) (simp_all add: ins_desc_sorted)
  have "mset (?f ps) = mset ps"
    by (induction ps rule: rev_induct) (simp_all add: ins_desc_mset)
  moreover have "filter (\<lambda>x. busy_key k = busy_key x) (?f ps) = filter (\<lambda>x. busy_key k = busy_key x) ps" for k
    by (induction ps rule: rev_induct) (simp_all add: ins_desc_stable s)
  ultimately show ?thesis using s unfolding by_delta_def by (intro properties_for_sort_key [symmetric])
qed

lemma top_loop_fold: "top_loop snap2 prev tc = foldl insert_top tc (List.map_filter (proc_delta snap2) prev)"
  by (induction prev arbitrary: tc) (auto simp: List.map_filter_simps split: option.split)

text \<open>The array the loop builds is the front of the sorted list.\<close>

lemma top_loop_sorted:
  assumes "top_loop snap2 prev (replicate TOP_N zero_info, 0) = (t, c)"
  shows "length t = 5" and "c \<le> 5" and "take c t = take 5 (by_delta (List.map_filter (proc_delta snap2) prev))"
proof -
  from assms have "foldl insert_top (replicate 5 zero_info, 0) (List.map_filter (proc_delta snap2) prev) = (t, c)"
    by (simp only: top_loop_fold TOP_N_def)
  from top_fold [OF this] have r: "length t = 5" "c = min 5 (length (List.map_filter (proc_delta snap2) prev))"
    "take c t = take 5 (by_delta (List.map_filter (proc_delta snap2) prev))"
    unfolding foldl_ins_desc by blast+
  from r(1,3) show "length t = 5" "take c t = take 5 (by_delta (List.map_filter (proc_delta snap2) prev))" .
  from r(2) show "c \<le> 5" by simp
qed

section \<open>The answer\<close>

definition slot_bytes :: "u64 \<Rightarrow> u64 \<Rightarrow> proc_info \<Rightarrow> bytes" where
  "slot_bytes ncpus total_delta p =
     (if pi_pid p = 0 then replicate 8 0
      else put_u32 (pi_pid p) @ put_u16 (cpu_x100 (pi_delta p) ncpus total_delta) @ [pi_mem_pct p, pi_status_flag p])"

lemma slot_bytes_length [simp]: "length (slot_bytes ncpus td p) = 8"
  by (simp add: slot_bytes_def)

lemma slots_length [simp]: "length (concat (map (slot_bytes ncpus td) ps)) = 8 * length ps"
  by (induction ps) simp_all

lemma write_slots_eq:
  assumes "44 \<le> length resp"
  shows "length d = 2 + i * 8 \<Longrightarrow> i + n \<le> 5 \<Longrightarrow> c \<le> length t \<Longrightarrow>
   write_slots n i t c ncpus td (filled 44 d resp) =
     Some (filled 44 (d @ concat (map (slot_bytes ncpus td) (take (min n (c - i)) (drop i t)))) resp)"
proof (induction n arbitrary: i d)
  case (Suc n)
  show ?case
  proof (cases "i < c")
    case False
    then have "write_slots n (i + 1) t c ncpus td (filled 44 (d @ replicate 8 0) resp) =
        Some (filled 44 (d @ replicate 8 0) resp)"
      using Suc.IH [of "d @ replicate 8 0" "i + 1"] Suc.prems by simp
    moreover have "filled 44 d resp = filled 44 (d @ replicate 8 0) resp"
      by (rule fill_skip) (use Suc.prems in simp)
    ultimately show ?thesis using False by (simp add: Let_def)
  next
    case True
    then have c: "min (Suc n) (c - i) = Suc (min n (c - (i + 1)))" by simp
    have d: "drop i t = t ! i # drop (i + 1) t" using True Suc.prems by (simp add: Cons_nth_drop_Suc)
    let ?s = "slot_bytes ncpus td (t ! i)"
    have ih: "write_slots n (i + 1) t c ncpus td (filled 44 (d @ ?s) resp) =
        Some (filled 44 ((d @ ?s) @ concat (map (slot_bytes ncpus td) (take (min n (c - (i + 1))) (drop (i + 1) t)))) resp)"
      by (rule Suc.IH) (use Suc.prems in simp_all)
    show ?thesis
    proof (cases "pi_pid (t ! i) = 0")
      case True
      have "filled 44 d resp = filled 44 (d @ ?s) resp"
        using fill_skip [of d 8 44 resp] Suc.prems True by (simp add: slot_bytes_def)
      then show ?thesis using ih \<open>i < c\<close> True unfolding c d by (simp add: Let_def)
    next
      case False
      let ?p = "put_u32 (pi_pid (t ! i))" and ?q = "put_u16 (cpu_x100 (pi_delta (t ! i)) ncpus td)"
      let ?m = "[pi_mem_pct (t ! i)]" and ?f = "[pi_status_flag (t ! i)]"
      have "filled 44 (d @ ?s) resp = filled 44 ((((d @ ?p) @ ?q) @ ?m) @ ?f) resp"
        using False by (simp add: slot_bytes_def)
      moreover have "wr_range (filled 44 d resp) (2 + i * SLOT_SIZE) ?p = Some (filled 44 (d @ ?p) resp)"
        "wr_range (filled 44 (d @ ?p) resp) (2 + i * SLOT_SIZE + 4) ?q = Some (filled 44 ((d @ ?p) @ ?q) resp)"
        "wr_range (filled 44 ((d @ ?p) @ ?q) resp) (2 + i * SLOT_SIZE + 6) ?m = Some (filled 44 (((d @ ?p) @ ?q) @ ?m) resp)"
        "wr_range (filled 44 (((d @ ?p) @ ?q) @ ?m) resp) (2 + i * SLOT_SIZE + 7) ?f =
          Some (filled 44 ((((d @ ?p) @ ?q) @ ?m) @ ?f) resp)"
        by (rule fill_next; use Suc.prems in \<open>simp add: SLOT_SIZE_def\<close>)+
      ultimately show ?thesis using ih \<open>i < c\<close> False unfolding c d by (simp add: Let_def)
    qed
  qed
qed simp

definition procs_answer :: "u16 \<Rightarrow> u64 \<Rightarrow> u64 \<Rightarrow> proc_info list \<Rightarrow> bytes" where
  "procs_answer procs ncpus total_delta busiest =
     put_u16 procs @ concat (map (slot_bytes ncpus total_delta) busiest) @ replicate (40 - 8 * length busiest) 0 @
     put_u16 SW_OK"

lemma procs_answer_length: "length busiest \<le> 5 \<Longrightarrow> length (procs_answer procs ncpus td busiest) = 44"
  by (simp add: procs_answer_def)

text \<open>The snapshot the deltas are taken against: the previous one, or the blocking first sample.\<close>

definition baseline :: "os \<Rightarrow> procs_state \<Rightarrow> procs_state option" where
  "baseline os ps =
     (if pc_n_prev ps = 0
      then map_option (\<lambda>(n, dst, total, _). \<lparr>pc_prev = dst, pc_n_prev = n, pc_total_prev = total\<rparr>)
             (scan_proc os 0 MAX_PROCS_SCAN (read_mem_total_kb (os_meminfo os)))
      else Some ps)"

definition busiest :: "procs_state \<Rightarrow> proc_snap list \<Rightarrow> proc_info list" where
  "busiest ps snap2 = take 5 (by_delta (List.map_filter (proc_delta snap2) (take (nat (pc_n_prev ps)) (pc_prev ps))))"

definition online_cpus :: "os \<Rightarrow> u64" where
  "online_cpus os = of_int (if os_ncpus os < 1 then 1 else os_ncpus os)"

definition total_delta :: "u64 \<Rightarrow> u64 \<Rightarrow> u64" where
  "total_delta prev now = (if now - prev = 0 then 1 else now - prev)"

lemma procs_eq:
  assumes "44 \<le> length resp" and "baseline os (dm_procs dm) = Some ps" and "\<not> (pc_n_prev (dm_procs dm) = 0 \<and> pc_n_prev ps < 0)"
    and "scan_proc os 1 MAX_PROCS_SCAN (read_mem_total_kb (os_meminfo os)) = Some (n, snap2, now, procs)" and "0 \<le> n"
  shows "handler_sys_procs os buf req resp (length resp) sid dm =
    Some (44, procs_answer procs (online_cpus os) (total_delta (pc_total_prev ps) now) (busiest ps snap2) @ drop 44 resp,
      dm\<lparr>dm_procs := \<lparr>pc_prev = snap2, pc_n_prev = n, pc_total_prev = now\<rparr>\<rparr>)"
proof -
  obtain t c where tc: "top_loop snap2 (take (nat (pc_n_prev ps)) (pc_prev ps)) (replicate TOP_N zero_info, 0) = (t, c)"
    by fastforce
  note top = top_loop_sorted [OF tc]
  let ?nc = "of_int (if os_ncpus os < 1 then 1 else os_ncpus os) :: u64"
  let ?td = "if now - pc_total_prev ps = 0 then 1 else now - pc_total_prev ps"
  let ?b = "busiest ps snap2" and ?s = "slot_bytes ?nc ?td"
  have b: "length ?b \<le> 5" by (simp add: busiest_def)
  have "take (min TOP_N (c - 0)) (drop 0 t) = ?b"
    using top by (simp add: TOP_N_def busiest_def min_absorb2)
  then have w: "write_slots TOP_N 0 t c ?nc ?td (filled 44 (put_u16 procs) resp) =
      Some (filled 44 (put_u16 procs @ concat (map ?s ?b)) resp)"
    using write_slots_eq [OF assms(1), of "put_u16 procs" 0 TOP_N c t ?nc ?td] top by (simp add: TOP_N_def)
  have z: "filled 44 (put_u16 procs @ concat (map ?s ?b)) resp =
      filled 44 ((put_u16 procs @ concat (map ?s ?b)) @ replicate (40 - 8 * length ?b) 0) resp"
    by (rule fill_skip) (use b in simp)
  have l: "length ((put_u16 procs @ concat (map ?s ?b)) @ replicate (40 - 8 * length ?b) 0) = 42" using b by simp
  have e: "filled 44 (((put_u16 procs @ concat (map ?s ?b)) @ replicate (40 - 8 * length ?b) 0) @ [0x90, 0]) resp =
      procs_answer procs ?nc ?td ?b @ drop 44 resp"
    by (subst fill_end) (use b in \<open>simp_all add: procs_answer_def put_SW_OK\<close>)
  have w1: "wr_range (filled 44 (put_u16 procs @ concat (map ?s ?b)) resp) 42 [0x90] =
      Some (filled 44 (((put_u16 procs @ concat (map ?s ?b)) @ replicate (40 - 8 * length ?b) 0) @ [0x90]) resp)"
    unfolding z by (rule fill_next) (use l in simp_all)
  have w2: "wr_range (filled 44 (((put_u16 procs @ concat (map ?s ?b)) @ replicate (40 - 8 * length ?b) 0) @ [0x90]) resp)
      43 [0] = Some (procs_answer procs ?nc ?td ?b @ drop 44 resp)"
    unfolding e [symmetric] by (subst fill_next) (use l in simp_all)
  have w0: "wr_range (filled 44 [] resp) 0 (put_u16 procs) = Some (filled 44 (put_u16 procs) resp)"
    by (simp add: fill_next)
  have n: "\<not> n < 0" and r: "\<not> length resp < 44" and f: "wr_range resp 0 (replicate 44 0) = Some (filled 44 [] resp)"
    using assms(1,5) by (simp_all add: fill_start)
  show ?thesis
    unfolding handler_sys_procs_def online_cpus_def total_delta_def Let_def
    using assms(2,3) w0 w w1 w2
    by (simp only: r f n if_False baseline_def [symmetric] assms(2,4) Option.bind.bind_lunit prod.case tc PROCS_RESP_LEN_def of_nat_numeral)
qed

section \<open>The contract\<close>

text \<open>What the code relies on in \<^verbatim>\<open>/proc\<close>: after the last closing parenthesis of a stat line there is a
  state letter. Without it the parser reads past the end of the line.\<close>

definition stat_ok :: "bytes option \<Rightarrow> bool" where
  "stat_ok file =
     (case Option.bind file (fgets 512) of None \<Rightarrow> True
      | Some (line, _) \<Rightarrow>
          (case strrchr_next (cstr line) 41 of None \<Rightarrow> True | Some rp \<Rightarrow> list_ex (\<lambda>c. c \<noteq> 32) rp))"

definition procs_ok :: "os \<Rightarrow> bool" where
  "procs_ok os \<longleftrightarrow> (\<forall>k es. os_proc os k = Some es \<longrightarrow> (\<forall>e\<in>set es. stat_ok (fst (snd e))))"

lemma parse_proc_stat_total: "stat_ok file \<Longrightarrow> parse_proc_stat file \<noteq> None"
  by (auto simp: stat_ok_def parse_proc_stat_def list_ex_iff dropWhile_eq_Nil_conv Let_def split: option.splits list.splits)

lemma scan_entries_total:
  assumes "\<forall>e\<in>set es. stat_ok (fst (snd e))" and "length dst \<le> mx"
  shows "\<exists>dst' procs'. scan_entries mx mem es dst procs = Some (dst', procs') \<and> length dst' \<le> mx"
  using assms
proof (induction mx mem es dst procs rule: scan_entries.induct)
  case (2 mx mem d_name stat status es dst procs)
  show ?case
  proof (cases "d_name = [] \<or> \<not> is_digit (hd d_name) \<or> atoi_u32 d_name = 0 \<or> mx \<le> length dst")
    case True
    then show ?thesis using 2 by (auto simp: Let_def)
  next
    case False
    have "parse_proc_stat stat \<noteq> None" using 2(6) by (simp add: parse_proc_stat_total)
    moreover obtain pr rss where "parse_proc_status status = (pr, rss)" by fastforce
    ultimately show ?thesis using False 2 by (auto simp: Let_def split: option.split)
  qed
qed simp

lemma scan_proc_total:
  assumes "procs_ok os"
  obtains (failed) now where "os_proc os k = None" "scan_proc os k MAX_PROCS_SCAN mem = Some (- 1, [], now, 0)"
  | (scanned) dst now procs where "os_proc os k \<noteq> None"
      "scan_proc os k MAX_PROCS_SCAN mem = Some (int (length dst), dst, now, procs)" "length dst \<le> 512"
proof (cases "os_proc os k")
  case None
  then show thesis using failed by (simp add: scan_proc_def)
next
  case (Some es)
  then obtain dst procs where "scan_entries MAX_PROCS_SCAN mem es [] 0 = Some (dst, procs)" "length dst \<le> 512"
    using scan_entries_total [of es "[]" MAX_PROCS_SCAN mem 0] assms
    by (auto simp: procs_ok_def MAX_PROCS_SCAN_def)
  then show thesis using scanned Some by (simp add: scan_proc_def)
qed

lemma procs_unreadable:
  assumes "44 \<le> length resp" and "baseline os (dm_procs dm) = Some ps"
    and "pc_n_prev (dm_procs dm) = 0 \<and> pc_n_prev ps < 0 \<or>
      scan_proc os 1 MAX_PROCS_SCAN (read_mem_total_kb (os_meminfo os)) = Some (- 1, [], now, 0)"
  shows "handler_sys_procs os buf req resp (length resp) sid dm = reply resp SW_SYS_ERR (dm\<lparr>dm_procs := ps\<rparr>)"
proof -
  have r: "\<not> length resp < PROCS_RESP_LEN" using assms(1) by (simp add: PROCS_RESP_LEN_def)
  have n: "(- 1 :: int) < 0" by simp
  show ?thesis
  proof (cases "pc_n_prev (dm_procs dm) = 0 \<and> pc_n_prev ps < 0")
    case True
    show ?thesis unfolding handler_sys_procs_def Let_def baseline_def [symmetric] assms(2) Option.bind.bind_lunit
      using True r by (simp only: if_True if_False simp_thms)
  next
    case False
    then have s: "scan_proc os 1 MAX_PROCS_SCAN (read_mem_total_kb (os_meminfo os)) = Some (- 1, [], now, 0)"
      using assms(3) by blast
    show ?thesis unfolding handler_sys_procs_def Let_def
      by (simp only: r if_False baseline_def [symmetric] assms(2) Option.bind.bind_lunit False s prod.case n if_True)
  qed
qed

lemma procs_cases:
  assumes "procs_ok os" and "wf_procs (dm_procs dm)" and "2 \<le> length resp"
  obtains (failed) sw ps where "handler_sys_procs os buf req resp (length resp) sid dm =
      Some (2, put_u16 sw @ drop 2 resp, dm\<lparr>dm_procs := ps\<rparr>)" "wf_procs ps"
      "length resp < 44 \<or> os_proc os 1 = None \<or> pc_n_prev (dm_procs dm) = 0 \<and> os_proc os 0 = None"
  | (answered) ps snap2 now procs where "baseline os (dm_procs dm) = Some ps" "wf_procs ps"
      "scan_proc os 1 MAX_PROCS_SCAN (read_mem_total_kb (os_meminfo os)) = Some (int (length snap2), snap2, now, procs)"
      "length snap2 \<le> 512" "44 \<le> length resp"
      "handler_sys_procs os buf req resp (length resp) sid dm =
        Some (44, procs_answer procs (online_cpus os) (total_delta (pc_total_prev ps) now) (busiest ps snap2) @ drop 44 resp,
          dm\<lparr>dm_procs := \<lparr>pc_prev = snap2, pc_n_prev = int (length snap2), pc_total_prev = now\<rparr>\<rparr>)"
proof (cases "44 \<le> length resp")
  case False
  then show thesis using failed [of SW_SYS_ERR "dm_procs dm"] assms(2,3)
    by (simp add: handler_sys_procs_def PROCS_RESP_LEN_def reply_eq)
next
  case True
  let ?mem = "read_mem_total_kb (os_meminfo os)" and ?d = "dm_procs dm"
  obtain ps where ps: "baseline os ?d = Some ps" "wf_procs ps"
    "pc_n_prev ?d = 0 \<and> pc_n_prev ps < 0 \<longrightarrow> pc_n_prev ?d = 0 \<and> os_proc os 0 = None"
  proof (rule scan_proc_total [OF assms(1), of 0 ?mem])
    fix now assume "os_proc os 0 = None" "scan_proc os 0 MAX_PROCS_SCAN ?mem = Some (- 1, [], now, 0)"
    then show thesis
      by (cases "pc_n_prev ?d = 0") (use assms(2) in \<open>auto intro!: that simp: baseline_def wf_procs_def\<close>)
  next
    fix dst now procs assume "os_proc os 0 \<noteq> None"
      "scan_proc os 0 MAX_PROCS_SCAN ?mem = Some (int (length dst), dst, now, procs)" "length dst \<le> 512"
    then show thesis
      by (cases "pc_n_prev ?d = 0") (use assms(2) in \<open>auto intro!: that simp: baseline_def wf_procs_def\<close>)
  qed
  show thesis
  proof (cases "pc_n_prev ?d = 0 \<and> pc_n_prev ps < 0")
    case neg: True
    then have "handler_sys_procs os buf req resp (length resp) sid dm = reply resp SW_SYS_ERR (dm\<lparr>dm_procs := ps\<rparr>)"
      using procs_unreadable [OF True ps(1)] by blast
    then show thesis using failed [of SW_SYS_ERR ps] ps(2,3) neg assms(3) by (simp add: reply_eq)
  next
    case nonneg: False
    show thesis
    proof (rule scan_proc_total [OF assms(1), of 1 ?mem])
      fix now assume s: "os_proc os 1 = None" "scan_proc os 1 MAX_PROCS_SCAN ?mem = Some (- 1, [], now, 0)"
      then have "handler_sys_procs os buf req resp (length resp) sid dm = reply resp SW_SYS_ERR (dm\<lparr>dm_procs := ps\<rparr>)"
        using procs_unreadable [OF True ps(1)] by blast
      then show thesis using failed [of SW_SYS_ERR ps] ps(2) s(1) assms(3) by (simp add: reply_eq)
    next
      fix snap2 now procs assume s: "scan_proc os 1 MAX_PROCS_SCAN ?mem = Some (int (length snap2), snap2, now, procs)"
        "length snap2 \<le> 512"
      then show thesis using answered [OF ps(1,2) s True] procs_eq [OF True ps(1) nonneg s(1)] by simp
    qed
  qed
qed

lemma procs_calls:
  assumes "handler_sys_procs os buf req resp sz sid dm = Some (n, resp', dm')"
  shows "dm_calls dm' = dm_calls dm"
  using assms unfolding handler_sys_procs_def Let_def case_prod_beta
  by (auto simp: bind_Some_iff split: if_splits dest: reply_calls)

interpretation procs: handler handler_sys_procs 2 procs_ok
proof unfold_locales
  fix os buf f dm resp sid
  assume a: "procs_ok os" "wf_daemon dm" "2 \<le> length (resp :: bytes)"
  then have w: "wf_procs (dm_procs dm)" by (simp add: wf_daemon_def)
  show "\<exists>n resp' dm'. handler_sys_procs os buf f resp (length resp) sid dm = Some (int n, resp', dm') \<and>
      answered resp n resp' \<and> wf_daemon dm'"
  proof (rule procs_cases [OF a(1) w a(3), where buf = buf and req = f and sid = sid])
    fix sw ps assume "handler_sys_procs os buf f resp (length resp) sid dm =
      Some (2, put_u16 sw @ drop 2 resp, dm\<lparr>dm_procs := ps\<rparr>)" "wf_procs ps"
    then show ?thesis using a(2) answered_sw [OF a(3), of sw] by (intro exI [of _ 2]) (simp add: wf_daemon_def)
  next
    fix ps snap2 now procs assume h: "handler_sys_procs os buf f resp (length resp) sid dm =
        Some (44, procs_answer procs (online_cpus os) (total_delta (pc_total_prev ps) now) (busiest ps snap2) @ drop 44 resp,
          dm\<lparr>dm_procs := \<lparr>pc_prev = snap2, pc_n_prev = int (length snap2), pc_total_prev = now\<rparr>\<rparr>)"
      and n: "length snap2 \<le> 512" "44 \<le> length resp"
    have "length (procs_answer procs (online_cpus os) (total_delta (pc_total_prev ps) now) (busiest ps snap2)) = 44"
      by (simp add: procs_answer_length busiest_def)
    then show ?thesis using h a(2) n answered_front [of "procs_answer procs (online_cpus os)
        (total_delta (pc_total_prev ps) now) (busiest ps snap2)" resp]
      by (intro exI [of _ 44]) (simp add: wf_daemon_def wf_procs_def)
  qed
next
  fix os buf f resp sz sid dm n resp' dm'
  assume "handler_sys_procs os buf f resp sz sid dm = Some (n, resp', dm')"
  then show "dm_calls dm' = dm_calls dm \<or> fr_sec f = APDU_SEC_SIGNED"
    by (simp add: procs_calls)
qed simp

section \<open>Properties\<close>

text \<open>C39. The list of the busiest processes is right: when the process table can be read, the answer holds
  the number of processes and, of the processes of the previous snapshot that still run, the first five of
  the stable sort by decreasing processor time since that snapshot; fewer when there are fewer, and the
  rest of the 40 bytes is zero. The new snapshot replaces the previous one. So the bounded insertion into
  the array of five is equivalent to sorting everything and cutting.\<close>

theorem top_processes:
  assumes "procs_ok os" and "wf_procs (dm_procs dm)" and "44 \<le> length resp"
    and "os_proc os 1 \<noteq> None" and "pc_n_prev (dm_procs dm) = 0 \<Longrightarrow> os_proc os 0 \<noteq> None"
  shows "\<exists>ps snap2 now procs top.
    baseline os (dm_procs dm) = Some ps \<and>
    scan_proc os 1 MAX_PROCS_SCAN (read_mem_total_kb (os_meminfo os)) = Some (int (length snap2), snap2, now, procs) \<and>
    top = take 5 (sort_key (\<lambda>p. - uint (pi_delta p))
      (List.map_filter (proc_delta snap2) (take (nat (pc_n_prev ps)) (pc_prev ps)))) \<and>
    handler_sys_procs os buf req resp (length resp) sid dm =
      Some (44, put_u16 procs @ concat (map (slot_bytes (online_cpus os) (total_delta (pc_total_prev ps) now)) top) @
          replicate (40 - 8 * length top) 0 @ [0x90, 0x00] @ drop 44 resp,
        dm\<lparr>dm_procs := \<lparr>pc_prev = snap2, pc_n_prev = int (length snap2), pc_total_prev = now\<rparr>\<rparr>)"
proof -
  have r: "2 \<le> length resp" using assms(3) by simp
  have k: "busy_key = (\<lambda>p. - uint (pi_delta p))" by (rule ext) (simp add: busy_key_def)
  show ?thesis
    by (rule procs_cases [OF assms(1,2) r, where buf = buf and req = req and sid = sid])
      (use assms(3-5) in \<open>auto simp: procs_answer_def busiest_def by_delta_def k put_SW_OK\<close>)
qed

text \<open>Two processes with 10 and 35 units since the previous snapshot: the second is listed first.\<close>

definition demo_proc :: os where
  "demo_proc = quiet_os\<lparr>os_proc := (\<lambda>_. Some
     [(ascii ''7'', Some (ascii ''7 (a) R 1 1 1 1 1 1 1 1 1 1 5 6''), None),
      (ascii ''self'', None, None),
      (ascii ''9'', Some (ascii ''9 (b c) D 1 1 1 1 1 1 1 1 1 1 30 6''), None)])\<rparr>"

definition demo_prev :: procs_state where
  "demo_prev = \<lparr>pc_prev = [\<lparr>ps_pid = 7, ps_jiffies = 1, ps_mem_pct = 0, ps_status_flag = 0\<rparr>,
     \<lparr>ps_pid = 9, ps_jiffies = 1, ps_mem_pct = 0, ps_status_flag = 0\<rparr>], pc_n_prev = 2, pc_total_prev = 0\<rparr>"

lemma demo_scan:
  "scan_proc demo_proc 1 MAX_PROCS_SCAN (read_mem_total_kb (os_meminfo demo_proc)) =
     Some (2, [\<lparr>ps_pid = 7, ps_jiffies = 11, ps_mem_pct = 0, ps_status_flag = 0\<rparr>,
       \<lparr>ps_pid = 9, ps_jiffies = 36, ps_mem_pct = 0, ps_status_flag = 2\<rparr>], 1, 2)"
  by code_simp

lemma demo_procs_ok: "procs_ok demo_proc"
proof -
  have "list_all (\<lambda>e. stat_ok (fst (snd e))) (the (os_proc demo_proc 0))" by code_simp
  then show ?thesis by (simp add: procs_ok_def demo_proc_def)
qed

theorem top_processes_witness:
  "handler_sys_procs demo_proc [] zero_frame (replicate 44 0) 44 0 ((initial_daemon 1 2)\<lparr>dm_procs := demo_prev\<rparr>) =
     Some (44, put_u16 2 @ put_u32 9 @ put_u16 10000 @ [0, 2] @ put_u32 7 @ put_u16 10000 @ [0, 0] @ replicate 24 0 @ [0x90, 0],
       (initial_daemon 1 2)\<lparr>dm_procs :=
         \<lparr>pc_prev = [\<lparr>ps_pid = 7, ps_jiffies = 11, ps_mem_pct = 0, ps_status_flag = 0\<rparr>,
            \<lparr>ps_pid = 9, ps_jiffies = 36, ps_mem_pct = 0, ps_status_flag = 2\<rparr>], pc_n_prev = 2, pc_total_prev = 1\<rparr>\<rparr>)"
proof -
  let ?snap2 = "[\<lparr>ps_pid = 7, ps_jiffies = 11, ps_mem_pct = 0, ps_status_flag = 0\<rparr>,
    \<lparr>ps_pid = 9, ps_jiffies = 36, ps_mem_pct = 0, ps_status_flag = 2\<rparr>]"
  have top: "take 5 (sort_key (\<lambda>p. - uint (pi_delta p)) (List.map_filter (proc_delta ?snap2) (pc_prev demo_prev))) =
      [\<lparr>pi_pid = 9, pi_delta = 35, pi_mem_pct = 0, pi_status_flag = 2\<rparr>,
       \<lparr>pi_pid = 7, pi_delta = 10, pi_mem_pct = 0, pi_status_flag = 0\<rparr>]"
    by code_simp
  have two: "length (List.map_filter (proc_delta ?snap2) (pc_prev demo_prev)) = 2"
    by code_simp
  have slots: "map (slot_bytes (online_cpus demo_proc) (total_delta 0 1))
      [\<lparr>pi_pid = 9, pi_delta = 35, pi_mem_pct = 0, pi_status_flag = 2\<rparr>,
       \<lparr>pi_pid = 7, pi_delta = 10, pi_mem_pct = 0, pi_status_flag = 0\<rparr>] =
      [put_u32 9 @ put_u16 10000 @ [0, 2], put_u32 7 @ put_u16 10000 @ [0, 0]]"
    by code_simp
  have w: "wf_procs demo_prev" and n: "pc_n_prev demo_prev = 2" "pc_total_prev demo_prev = 0" "length (pc_prev demo_prev) = 2"
    by (simp_all add: demo_prev_def wf_procs_def)
  have o: "os_proc demo_proc 1 \<noteq> None" by (simp add: demo_proc_def)
  have r: "44 \<le> length (replicate 44 (0 :: u8))" by simp
  show ?thesis
    using top_processes [OF demo_procs_ok, of "(initial_daemon 1 2)\<lparr>dm_procs := demo_prev\<rparr>" "replicate 44 0" "[]" zero_frame 0]
      w n o r demo_scan top two slots
    by (auto simp: baseline_def)
qed

end
