(* ===== verification/TaskQuery.thy ===== *)
theory TaskQuery
  imports Device
begin

text \<open>The TASK_QUERY handler (src/src/asyd/handlers/task_query.c): the outcome of an outstanding task.\<close>

definition QSTATUS_PENDING :: u8 where [code_defs]: "QSTATUS_PENDING = 0x00"
definition QSTATUS_SUCCESS :: u8 where [code_defs]: "QSTATUS_SUCCESS = 0x01"
definition QSTATUS_FAILED :: u8 where [code_defs]: "QSTATUS_FAILED = 0x02"
definition QSTATUS_TIMEOUT :: u8 where [code_defs]: "QSTATUS_TIMEOUT = 0x03"
definition QSTATUS_CANCELLED :: u8 where [code_defs]: "QSTATUS_CANCELLED = 0x04"
definition QSTATUS_NOT_FOUND :: u8 where [code_defs]: "QSTATUS_NOT_FOUND = 0xFF"

definition to_wire :: "task_status \<Rightarrow> u8" where
  "to_wire s =
     (case s of
        TASK_PENDING \<Rightarrow> QSTATUS_PENDING
      | TASK_SUCCESS \<Rightarrow> QSTATUS_SUCCESS
      | TASK_FAILED \<Rightarrow> QSTATUS_FAILED
      | TASK_TIMEOUT \<Rightarrow> QSTATUS_TIMEOUT
      | TASK_CANCELLED \<Rightarrow> QSTATUS_CANCELLED
      | _ \<Rightarrow> QSTATUS_NOT_FOUND)"

definition handler_task_query :: handler where
  "handler_task_query os buf req resp sz session_id dm =
     (if unat (fr_data_len req) < 4 then reply resp SW_WRONG_LEN dm
      else do {
        d \<leftarrow> frame_data buf req 0 4;
        let handle = be32 (d ! 0) (d ! 1) (d ! 2) (d ! 3);
        let tp = task_pool_sweep_timeouts (os_time os) (dm_tasks dm);
        case task_pool_find_handle handle session_id tp of
          None \<Rightarrow> do {
            resp \<leftarrow> wr_range resp 0 [QSTATUS_NOT_FOUND];
            (n, resp) \<leftarrow> sw_write resp 1 SW_OK;
            Some (n + 1, resp, dm\<lparr>dm_tasks := tp\<rparr>)
          }
        | Some i \<Rightarrow> do {
            let e = tp_entries tp ! i;
            let wire = to_wire (te_status e);
            resp \<leftarrow> wr_range resp 0 [wire];
            let tp = (if te_status e \<noteq> TASK_PENDING then task_pool_free handle tp else tp);
            (n, resp) \<leftarrow> sw_write resp 1 SW_OK;
            Some (n + 1, resp, dm\<lparr>dm_tasks := tp\<rparr>)
          }
      })"

text \<open>What a query of a handle answers and leaves, on the pool after the sweep.\<close>

definition query_result :: "u32 \<Rightarrow> u16 \<Rightarrow> task_pool \<Rightarrow> u8 \<times> task_pool" where
  "query_result h sid tp =
     (case task_pool_find_handle h sid tp of
        None \<Rightarrow> (QSTATUS_NOT_FOUND, tp)
      | Some i \<Rightarrow> (to_wire (te_status (tp_entries tp ! i)),
          if te_status (tp_entries tp ! i) = TASK_PENDING then tp else task_pool_free h tp))"

lemma answer1:
  assumes "3 \<le> length resp"
  shows "Option.bind (wr_range resp 0 [b]) (\<lambda>r. Option.bind (sw_write r 1 sw) (\<lambda>(n, r). Some (n + 1, r, dm))) =
    Some (3, (b # put_u16 sw) @ drop 3 resp, dm)"
  using assms wr_range_prefix [of "[b]" resp] sw_write_after [of "[b]" 1 resp sw] by (simp add: numeral_3_eq_3)

lemma data4:
  assumes "frame_in buf f" and "4 \<le> unat (fr_data_len f)"
  shows "frame_data buf f 0 4 = Some (take 4 (payload buf f))"
  using frame_data_payload [OF assms(1), of 0 4] assms(2) by simp

lemma query_eq:
  assumes "frame_in buf f" and "4 \<le> unat (fr_data_len f)" and "3 \<le> length resp"
  shows "handler_task_query os buf f resp sz sid dm =
    (case query_result (get_u32 (take 4 (payload buf f))) sid (task_pool_sweep_timeouts (os_time os) (dm_tasks dm)) of
       (b, tp) \<Rightarrow> Some (3, (b # put_u16 SW_OK) @ drop 3 resp, dm\<lparr>dm_tasks := tp\<rparr>))"
  using assms(2) answer1 [OF assms(3)]
  by (auto simp: handler_task_query_def data4 [OF assms(1,2)] Let_def query_result_def get_u32_def split: option.split)

lemma query_result_wf: "wf_pool tp \<Longrightarrow> wf_pool (snd (query_result h sid tp))"
  by (auto simp: query_result_def intro: wf_pool_free split: option.split)

interpretation query: handler handler_task_query 3 "\<lambda>_. True"
proof unfold_locales
  fix os buf f dm resp sid
  assume a: "frame_in buf f" "wf_daemon dm" "3 \<le> length (resp :: bytes)"
  show "\<exists>n resp' dm'. handler_task_query os buf f resp (length resp) sid dm = Some (int n, resp', dm') \<and>
      answered resp n resp' \<and> wf_daemon dm'"
  proof (cases "4 \<le> unat (fr_data_len f)")
    case False
    then show ?thesis using a answered_sw [of resp SW_WRONG_LEN]
      by (intro exI [of _ 2]) (auto simp: handler_task_query_def reply_eq)
  next
    case True
    let ?tp = "task_pool_sweep_timeouts (os_time os) (dm_tasks dm)"
    obtain b tp where q: "query_result (get_u32 (take 4 (payload buf f))) sid ?tp = (b, tp)" by fastforce
    have "wf_pool tp"
      using query_result_wf [of ?tp "get_u32 (take 4 (payload buf f))" sid] q wf_pool_sweep a(2)
      by (simp add: wf_daemon_def)
    then show ?thesis
      using query_eq [OF a(1) True a(3), of os "length resp" sid dm] q a answered_front [of "b # put_u16 SW_OK" resp]
      by (intro exI [of _ 3]) (simp add: wf_daemon_def)
  qed
next
  fix os buf f resp sz sid dm n resp' dm'
  assume "handler_task_query os buf f resp sz sid dm = Some (n, resp', dm')"
  then have "dm_calls dm' = dm_calls dm"
    by (auto simp: handler_task_query_def Let_def reply_def bind_Some_iff split: if_splits option.splits)
  then show "dm_calls dm' = dm_calls dm \<or> fr_sec f = APDU_SEC_SIGNED" ..
qed simp

end
