(* ===== verification/ProcThrottle.thy ===== *)
theory ProcThrottle
  imports Device
begin

text \<open>
  The PROC_THROTTLE handler (src/src/asyd/handlers/proc_throttle.c): stop or resume one process. The
  signal and error numbers are those of Linux.
\<close>

definition OFF_PID :: nat where [code_defs]: "OFF_PID = 4"
definition PROC_THROTTLE_DATA_LEN :: nat where [code_defs]: "PROC_THROTTLE_DATA_LEN = 8"

definition SIGCONT :: int where "SIGCONT = 18"
definition SIGSTOP :: int where "SIGSTOP = 19"
definition EPERM :: int where [code_defs]: "EPERM = 1"
definition ESRCH :: int where [code_defs]: "ESRCH = 3"
definition EINVAL :: int where [code_defs]: "EINVAL = 22"

definition handler_proc_throttle :: handler where
  "handler_proc_throttle os buf req resp sz session_id dm =
     (if fr_sec req \<noteq> APDU_SEC_SIGNED then reply resp SW_ACCESS_DENIED dm
      else if unat (fr_data_len req) < PROC_THROTTLE_DATA_LEN then reply resp SW_WRONG_LEN dm
      else if fr_p1 req \<noteq> 0x00 \<and> fr_p1 req \<noteq> 0x01 then reply resp SW_WRONG_DATA dm
      else do {
        d \<leftarrow> frame_data buf req OFF_PID 4;
        let pid = be32 (d ! 0) (d ! 1) (d ! 2) (d ! 3);
        if pid = 0 then reply resp SW_WRONG_DATA dm
        else
          let sig = (if fr_p1 req = 0x01 then SIGCONT else SIGSTOP);
              dm = dm\<lparr>dm_calls := dm_calls dm @ [Sys_kill (sint pid) sig]\<rparr>
          in case os_kill os (sint pid) sig of
               Some errno \<Rightarrow>
                 if errno = ESRCH \<or> errno = EINVAL then reply resp SW_WRONG_DATA dm
                 else if errno = EPERM then reply resp SW_ACCESS_DENIED dm
                 else reply resp SW_SYS_ERR dm
             | None \<Rightarrow> reply resp SW_OK dm
      })"

text \<open>The process a request names: the data bytes after the sequence number.\<close>

definition throttle_pid :: "bytes \<Rightarrow> apdu_frame \<Rightarrow> u32" where
  "throttle_pid buf f = get_u32 (take 4 (drop 4 (payload buf f)))"

definition throttle_valid :: "bytes \<Rightarrow> apdu_frame \<Rightarrow> bool" where
  "throttle_valid buf f \<longleftrightarrow> fr_sec f = APDU_SEC_SIGNED \<and> 8 \<le> unat (fr_data_len f) \<and> fr_p1 f \<in> {0, 1} \<and> throttle_pid buf f \<noteq> 0"

definition throttle_sig :: "apdu_frame \<Rightarrow> int" where
  "throttle_sig f = (if fr_p1 f = 1 then SIGCONT else SIGSTOP)"

lemma throttle_data:
  assumes "frame_in buf f" and "8 \<le> unat (fr_data_len f)"
  obtains d where "frame_data buf f 4 4 = Some d" "be32 (d ! 0) (d ! 1) (d ! 2) (d ! 3) = throttle_pid buf f"
proof -
  have "frame_data buf f 4 4 = Some (take 4 (drop 4 (payload buf f)))"
    using frame_data_payload [OF assms(1), of 4 4] assms(2) by simp
  then show thesis using that by (simp add: throttle_pid_def get_u32_def)
qed

lemma throttle_eq:
  assumes "frame_in buf f" and "2 \<le> length resp"
  shows "\<exists>sw. handler_proc_throttle os buf f resp sz sid dm =
      Some (2, put_u16 sw @ drop 2 resp,
        if throttle_valid buf f
        then dm\<lparr>dm_calls := dm_calls dm @ [Sys_kill (sint (throttle_pid buf f)) (throttle_sig f)]\<rparr> else dm) \<and>
    (sw = SW_OK \<longleftrightarrow> throttle_valid buf f \<and> os_kill os (sint (throttle_pid buf f)) (throttle_sig f) = None)"
proof (cases "fr_sec f = APDU_SEC_SIGNED \<and> 8 \<le> unat (fr_data_len f) \<and> fr_p1 f \<in> {0, 1}")
  case False
  then show ?thesis
    by (auto simp: handler_proc_throttle_def reply_eq assms(2) throttle_valid_def PROC_THROTTLE_DATA_LEN_def
        SW_ACCESS_DENIED_def SW_WRONG_LEN_def SW_WRONG_DATA_def SW_OK_def)
next
  case True
  then have n: "8 \<le> unat (fr_data_len f)" by simp
  obtain d where d: "frame_data buf f 4 4 = Some d" "be32 (d ! 0) (d ! 1) (d ! 2) (d ! 3) = throttle_pid buf f"
    by (rule throttle_data [OF assms(1) n])
  have g: "fr_sec f = APDU_SEC_SIGNED" "\<not> unat (fr_data_len f) < PROC_THROTTLE_DATA_LEN"
    "\<not> (fr_p1 f \<noteq> 0x00 \<and> fr_p1 f \<noteq> 0x01)"
    using True by (auto simp: PROC_THROTTLE_DATA_LEN_def)
  let ?pid = "throttle_pid buf f" and ?sig = "throttle_sig f"
  let ?dm = "dm\<lparr>dm_calls := dm_calls dm @ [Sys_kill (sint ?pid) ?sig]\<rparr>"
  have h: "handler_proc_throttle os buf f resp sz sid dm =
      (if ?pid = 0 then reply resp SW_WRONG_DATA dm
       else case os_kill os (sint ?pid) ?sig of
               Some errno \<Rightarrow>
                 if errno = ESRCH \<or> errno = EINVAL then reply resp SW_WRONG_DATA ?dm
                 else if errno = EPERM then reply resp SW_ACCESS_DENIED ?dm
                 else reply resp SW_SYS_ERR ?dm
             | None \<Rightarrow> reply resp SW_OK ?dm)"
    unfolding handler_proc_throttle_def throttle_sig_def
    by (simp only: g if_False not_True_eq_False simp_thms OFF_PID_def d Option.bind.bind_lunit Let_def)
  have v: "throttle_valid buf f \<longleftrightarrow> ?pid \<noteq> 0" using True by (simp add: throttle_valid_def)
  have sw: "SW_WRONG_DATA \<noteq> SW_OK" "SW_ACCESS_DENIED \<noteq> SW_OK" "SW_SYS_ERR \<noteq> SW_OK"
    by (simp_all add: code_defs)
  show ?thesis unfolding h v using sw
    by (cases "?pid = 0"; cases "os_kill os (sint ?pid) ?sig") (simp_all add: reply_eq assms(2) be16.enc_inject)
qed

interpretation throttle: handler handler_proc_throttle 2 "\<lambda>_. True"
proof unfold_locales
  fix os buf f dm resp sid
  assume "frame_in buf f" "wf_daemon dm" "2 \<le> length (resp :: bytes)"
  moreover from this obtain sw where "handler_proc_throttle os buf f resp (length resp) sid dm =
      Some (2, put_u16 sw @ drop 2 resp, if throttle_valid buf f
        then dm\<lparr>dm_calls := dm_calls dm @ [Sys_kill (sint (throttle_pid buf f)) (throttle_sig f)]\<rparr> else dm)"
    using throttle_eq by blast
  ultimately show "\<exists>n resp' dm'. handler_proc_throttle os buf f resp (length resp) sid dm = Some (int n, resp', dm') \<and>
      answered resp n resp' \<and> wf_daemon dm'"
    using answered_sw [of resp sw] by (intro exI [of _ 2]) (auto simp: wf_daemon_def)
next
  fix os buf f resp sz sid dm n resp' dm'
  assume "handler_proc_throttle os buf f resp sz sid dm = Some (n, resp', dm')"
  then show "dm_calls dm' = dm_calls dm \<or> fr_sec f = APDU_SEC_SIGNED"
    using reply_calls [of resp SW_ACCESS_DENIED dm n resp' dm']
    by (cases "fr_sec f = APDU_SEC_SIGNED", blast) (simp add: handler_proc_throttle_def)
qed simp

section \<open>Properties\<close>



end
