(* ===== verification/SvcRestart.thy ===== *)
theory SvcRestart
  imports TaskQuery
begin

text \<open>
  The SVC_RESTART handler (src/src/asyd/handlers/svc_restart.c): start a unit restart in a child process
  and track it in the task pool. The child's argument is logged as the restarted unit.
\<close>

definition OFF_SVC_NAME :: nat where [code_defs]: "OFF_SVC_NAME = 4"
definition MIN_DATA_LEN :: nat where [code_defs]: "MIN_DATA_LEN = 5"
definition ENOMEM :: int where [code_defs]: "ENOMEM = 12"

definition svc_char :: "u8 \<Rightarrow> bool" where
  "svc_char c \<longleftrightarrow> 97 \<le> c \<and> c \<le> 122 \<or> 48 \<le> c \<and> c \<le> 57 \<or> c = 95 \<or> c = 45 \<or> c = 46"

definition svc_name_valid :: "bytes \<Rightarrow> bool" where
  "svc_name_valid name =
     (let len = length name
      in if len < 1 \<or> TASK_SVC_NAME_MAX < len then False
         else if \<not> list_all svc_char name then False
         else if 8 < len \<and> drop (len - 8) name = ascii ''.service'' then False
         else True)"

definition handler_svc_restart :: handler where
  "handler_svc_restart os buf req resp sz session_id dm =
     (if fr_sec req \<noteq> APDU_SEC_SIGNED then reply resp SW_ACCESS_DENIED dm
      else if unat (fr_data_len req) < MIN_DATA_LEN then reply resp SW_WRONG_LEN dm
      else do {
        let name_len = unat (fr_data_len req) - OFF_SVC_NAME;
        name \<leftarrow> frame_data buf req OFF_SVC_NAME name_len;
        if \<not> svc_name_valid name then reply resp SW_WRONG_DATA dm
        else do {
          name_buf \<leftarrow> wr_range (replicate (TASK_SVC_NAME_MAX + 1) 0) 0 (name @ [0]);
          let dm = dm\<lparr>dm_tasks := task_pool_sweep_timeouts (os_time os) (dm_tasks dm)\<rparr>;
          let handle = task_pool_find_pending session_id name_buf (dm_tasks dm);
          if handle \<noteq> 0 then do {
            resp \<leftarrow> wr_range resp 0 (put_u32 handle);
            (n, resp) \<leftarrow> sw_write resp 4 SW_OK;
            Some (n + 4, resp, dm)
          }
          else if task_pool_available (dm_tasks dm) = 0 then reply resp SW_BLOCKED dm
          else
            case os_fork os of
              Inl errno \<Rightarrow>
                if errno = ENOMEM then reply resp SW_SYS_ERR_NOMEM dm else reply resp SW_SYS_ERR dm
            | Inr pid \<Rightarrow> do {
                let svc_full = take (TASK_SVC_NAME_MAX + 9 - 1) (cstr name_buf @ ascii ''.service'');
                let (handle, tp) = task_pool_alloc (os_rand_r os) (os_time os) session_id name_buf pid (dm_tasks dm);
                let dm = dm\<lparr>dm_tasks := tp, dm_calls := dm_calls dm @ [Sys_restart svc_full]\<rparr>;
                if handle = 0 then reply resp SW_BLOCKED dm
                else do {
                  resp \<leftarrow> wr_range resp 0 (put_u32 handle);
                  (n, resp) \<leftarrow> sw_write resp 4 SW_OK;
                  Some (n + 4, resp, dm)
                }
              }
        }
      })"

section \<open>The handler on its branches\<close>

text \<open>The service name of a request, and the buffer it is copied to.\<close>

definition svc_name :: "bytes \<Rightarrow> apdu_frame \<Rightarrow> bytes" where
  "svc_name buf f = drop 4 (payload buf f)"

definition name_buffer :: "bytes \<Rightarrow> bytes" where
  "name_buffer name = name @ replicate (TASK_SVC_NAME_MAX + 1 - length name) 0"

definition restart_valid :: "bytes \<Rightarrow> apdu_frame \<Rightarrow> bool" where
  "restart_valid buf f \<longleftrightarrow> fr_sec f = APDU_SEC_SIGNED \<and> 5 \<le> unat (fr_data_len f) \<and> svc_name_valid (svc_name buf f)"

lemma svc_char_nonzero: "svc_char c \<Longrightarrow> c \<noteq> 0"
  by (auto simp: svc_char_def)

lemma svc_name_validD:
  assumes "svc_name_valid name"
  shows "1 \<le> length name" and "length name \<le> 64" and "list_all svc_char name" and "0 \<notin> set name"
  using assms svc_char_nonzero
  by (auto simp: svc_name_valid_def Let_def TASK_SVC_NAME_MAX_def list_all_iff Suc_le_eq split: if_splits)

lemma cstr_name_buffer: "svc_name_valid name \<Longrightarrow> cstr (name_buffer name) = name"
  using svc_name_validD(4) [of name] by (simp add: name_buffer_def cstr_append_zeros)

lemma write_name_buffer:
  assumes "svc_name_valid name"
  shows "wr_range (replicate (TASK_SVC_NAME_MAX + 1) 0) 0 (name @ [0]) = Some (name_buffer name)"
proof -
  have l: "length name \<le> 64" by (rule svc_name_validD(2) [OF assms])
  then have "wr_range (replicate 65 0) 0 (name @ [0]) = Some ((name @ [0]) @ drop (length (name @ [0])) (replicate 65 0))"
    by (intro wr_range_prefix) simp
  moreover have "replicate (65 - length name) (0 :: u8) = 0 # replicate (64 - length name) 0"
    using l by (simp add: Suc_diff_le [symmetric] flip: replicate_Suc)
  ultimately show ?thesis using l by (simp add: name_buffer_def TASK_SVC_NAME_MAX_def)
qed

lemma answer4:
  assumes "6 \<le> length resp"
  shows "Option.bind (wr_range resp 0 (put_u32 h)) (\<lambda>r. Option.bind (sw_write r 4 sw) (\<lambda>(n, r). Some (n + 4, r, dm))) =
    Some (6, (put_u32 h @ put_u16 sw) @ drop 6 resp, dm)"
  using assms wr_range_prefix [of "put_u32 h" resp] sw_write_after [of "put_u32 h" 4 resp sw] by simp

text \<open>What a valid request answers and leaves: the reused handle, the transient refusal, the failed fork, the new task.\<close>

definition restart_result :: "os \<Rightarrow> u16 \<Rightarrow> bytes \<Rightarrow> daemon \<Rightarrow> bytes \<times> daemon" where
  "restart_result os sid name dm =
     (let dm = dm\<lparr>dm_tasks := task_pool_sweep_timeouts (os_time os) (dm_tasks dm)\<rparr>;
          h = task_pool_find_pending sid (name_buffer name) (dm_tasks dm)
      in if h \<noteq> 0 then (put_u32 h @ put_u16 SW_OK, dm)
         else if task_pool_available (dm_tasks dm) = 0 then (put_u16 SW_BLOCKED, dm)
         else case os_fork os of
                Inl errno \<Rightarrow> (put_u16 (if errno = ENOMEM then SW_SYS_ERR_NOMEM else SW_SYS_ERR), dm)
              | Inr pid \<Rightarrow>
                  (case task_pool_alloc (os_rand_r os) (os_time os) sid (name_buffer name) pid (dm_tasks dm) of
                     (h, tp) \<Rightarrow> (put_u32 h @ put_u16 SW_OK,
                       dm\<lparr>dm_tasks := tp, dm_calls := dm_calls dm @ [Sys_restart (name @ ascii ''.service'')]\<rparr>)))"

lemma alloc_available:
  assumes "task_pool_available tp \<noteq> 0"
  shows "fst (task_pool_alloc rand_r now sid name pid tp) \<noteq> 0"
  using assms by (cases "find_first (\<lambda>e. te_status e = TASK_EMPTY) (tp_entries tp)")
    (simp_all add: task_pool_available_def alloc_Some make_handle_nonzero alloc_rnd_nonzero)

lemma restart_valid_eq:
  assumes "frame_in buf f" and "restart_valid buf f" and "6 \<le> length resp"
  shows "handler_svc_restart os buf f resp sz sid dm =
    (case restart_result os sid (svc_name buf f) dm of
       (d, dm) \<Rightarrow> Some (int (length d), d @ drop (length d) resp, dm))"
proof -
  let ?name = "svc_name buf f"
  have v: "svc_name_valid ?name" "fr_sec f = APDU_SEC_SIGNED" "\<not> unat (fr_data_len f) < MIN_DATA_LEN"
    using assms(2) by (auto simp: restart_valid_def MIN_DATA_LEN_def)
  have n: "5 \<le> unat (fr_data_len f)" using assms(2) by (simp add: restart_valid_def)
  have "length (payload buf f) = unat (fr_data_len f)" using payload_length [OF assms(1)] n by auto
  then have d: "frame_data buf f 4 (unat (fr_data_len f) - 4) = Some ?name"
    using frame_data_payload [OF assms(1), of 4 "unat (fr_data_len f) - 4"] n by (simp add: svc_name_def)
  have full: "take (TASK_SVC_NAME_MAX + 9 - 1) (cstr (name_buffer ?name) @ ascii ''.service'') = ?name @ ascii ''.service''"
    using svc_name_validD(2) [OF v(1)] by (simp add: cstr_name_buffer [OF v(1)] TASK_SVC_NAME_MAX_def)
  have r: "2 \<le> length resp" using assms(3) by simp
  let ?tp = "task_pool_sweep_timeouts (os_time os) (dm_tasks dm)"
  show ?thesis
    unfolding handler_svc_restart_def restart_result_def Let_def OFF_SVC_NAME_def
    using alloc_available [of ?tp "os_rand_r os" "os_time os" sid "name_buffer ?name"]
    by (simp only: v d write_name_buffer [OF v(1)] full Option.bind.bind_lunit simp_thms if_False if_True)
       (auto simp: answer4 [OF assms(3)] reply_eq [OF r] case_prod_beta split: sum.split)
qed

lemma restart_invalid_eq:
  assumes "frame_in buf f" and "\<not> restart_valid buf f" and "2 \<le> length resp"
  shows "\<exists>sw. handler_svc_restart os buf f resp sz sid dm = Some (2, put_u16 sw @ drop 2 resp, dm) \<and>
    sw \<in> {SW_ACCESS_DENIED, SW_WRONG_LEN, SW_WRONG_DATA}"
proof (cases "fr_sec f = APDU_SEC_SIGNED \<and> 5 \<le> unat (fr_data_len f)")
  case False
  then show ?thesis by (auto simp: handler_svc_restart_def reply_eq assms(3) MIN_DATA_LEN_def)
next
  case True
  then have v: "\<not> svc_name_valid (svc_name buf f)" using assms(2) by (simp add: restart_valid_def)
  have "length (payload buf f) = unat (fr_data_len f)" using payload_length [OF assms(1)] True by auto
  then have d: "frame_data buf f 4 (unat (fr_data_len f) - 4) = Some (svc_name buf f)"
    using frame_data_payload [OF assms(1), of 4 "unat (fr_data_len f) - 4"] True by (simp add: svc_name_def)
  show ?thesis using True v
    by (auto simp: handler_svc_restart_def reply_eq assms(3) OFF_SVC_NAME_def MIN_DATA_LEN_def d)
qed

lemma restart_result_wf:
  assumes "wf_daemon dm"
  shows "wf_daemon (snd (restart_result os sid name dm))"
  using assms wf_pool_alloc [of "task_pool_sweep_timeouts (os_time os) (dm_tasks dm)"]
  by (auto simp: restart_result_def Let_def wf_daemon_def wf_pool_sweep split: sum.split prod.split)
     (metis snd_conv wf_pool_sweep)+

lemma restart_result_length: "length (fst (restart_result os sid name dm)) \<in> {2, 6}"
  by (auto simp: restart_result_def Let_def split: sum.split prod.split)

interpretation restart: handler handler_svc_restart 6 "\<lambda>_. True"
proof unfold_locales
  fix os buf f dm resp sid
  assume a: "frame_in buf f" "wf_daemon dm" "6 \<le> length (resp :: bytes)"
  show "\<exists>n resp' dm'. handler_svc_restart os buf f resp (length resp) sid dm = Some (int n, resp', dm') \<and>
      answered resp n resp' \<and> wf_daemon dm'"
  proof (cases "restart_valid buf f")
    case False
    then obtain sw where "handler_svc_restart os buf f resp (length resp) sid dm = Some (2, put_u16 sw @ drop 2 resp, dm)"
      using restart_invalid_eq [OF a(1), of resp os "length resp" sid dm] a(3) by auto
    then show ?thesis using a answered_sw [of resp sw] by (intro exI [of _ 2]) simp
  next
    case True
    obtain d dm' where r: "restart_result os sid (svc_name buf f) dm = (d, dm')" by fastforce
    have "length d \<in> {2, 6}" "wf_daemon dm'"
      using restart_result_length [of os sid "svc_name buf f" dm] restart_result_wf [OF a(2), of os sid "svc_name buf f"] r
      by simp_all
    then show ?thesis
      using restart_valid_eq [OF a(1) True a(3), of os "length resp" sid dm] r a(3) answered_front [of d resp]
      by (intro exI [of _ "length d"]) auto
  qed
next
  fix os buf f resp sz sid dm n resp' dm'
  assume "handler_svc_restart os buf f resp sz sid dm = Some (n, resp', dm')"
  then show "dm_calls dm' = dm_calls dm \<or> fr_sec f = APDU_SEC_SIGNED"
    using reply_calls [of resp SW_ACCESS_DENIED dm n resp' dm']
    by (cases "fr_sec f = APDU_SEC_SIGNED", blast) (simp add: handler_svc_restart_def)
qed simp

section \<open>A task from its restart to its outcome\<close>

text \<open>The occupied entry \<open>i\<close> is the only one with handle \<open>h\<close>.\<close>

definition sole :: "task_pool \<Rightarrow> nat \<Rightarrow> u32 \<Rightarrow> bool" where
  "sole tp i h \<longleftrightarrow> wf_pool tp \<and> h \<noteq> 0 \<and> i < TASK_POOL_SIZE \<and> te_handle_id (tp_entries tp ! i) = h \<and>
     te_status (tp_entries tp ! i) \<noteq> TASK_EMPTY \<and>
     (\<forall>j < TASK_POOL_SIZE. j \<noteq> i \<longrightarrow> te_status (tp_entries tp ! j) \<noteq> TASK_EMPTY \<longrightarrow> te_handle_id (tp_entries tp ! j) \<noteq> h)"

lemma find_first_unique:
  "i < length xs \<Longrightarrow> P (xs ! i) \<Longrightarrow> (\<And>j. j < length xs \<Longrightarrow> j \<noteq> i \<Longrightarrow> \<not> P (xs ! j)) \<Longrightarrow> find_first P xs = Some i"
  by (auto simp: find_first_Some)

lemma sole_length: "sole tp i h \<Longrightarrow> length (tp_entries tp) = TASK_POOL_SIZE"
  by (simp add: sole_def wf_pool_def)

lemma sole_find:
  assumes "sole tp i h"
  shows "task_pool_find_handle h sid tp = (if te_session_id (tp_entries tp ! i) = sid then Some i else None)"
proof -
  have l: "length (tp_entries tp) = TASK_POOL_SIZE" by (rule sole_length [OF assms])
  have f: "find_first (\<lambda>e. te_handle_id e = h \<and> te_status e \<noteq> TASK_EMPTY) (tp_entries tp) = Some i"
    using assms l by (intro find_first_unique) (auto simp: sole_def)
  have "wf_task (tp_entries tp ! i)" using assms wf_pool_nth by (auto simp: sole_def)
  then have "ucast (drop_bit 16 h) = te_session_id (tp_entries tp ! i)"
    using assms by (auto simp: wf_task_def sole_def split: if_splits)
  then show ?thesis using assms f by (auto simp: task_pool_find_handle_def Let_def sole_def)
qed

lemma sole_sweep:
  assumes "sole tp i h" and "now \<le> te_created_at (tp_entries tp ! i) + 30"
  shows "sole (task_pool_sweep_timeouts now tp) i h"
    and "tp_entries (task_pool_sweep_timeouts now tp) ! i = tp_entries tp ! i"
proof -
  note l = sole_length [OF assms(1)]
  have i: "i < TASK_POOL_SIZE" using assms(1) by (simp add: sole_def)
  show e: "tp_entries (task_pool_sweep_timeouts now tp) ! i = tp_entries tp ! i"
    using assms(2) i l by (simp add: task_pool_sweep_timeouts_def sweep_entry_def TASK_TIMEOUT_SEC_def)
  have "te_status (sweep_entry now x) \<noteq> TASK_EMPTY \<Longrightarrow> te_status x \<noteq> TASK_EMPTY \<and> te_handle_id (sweep_entry now x) = te_handle_id x"
    for x by (auto simp: sweep_entry_def)
  then show "sole (task_pool_sweep_timeouts now tp) i h"
    using assms(1) wf_pool_sweep l e i by (auto simp: sole_def task_pool_sweep_timeouts_def)
qed

text \<open>The exit of its child finishes the task, when no other pending task has that child.\<close>

lemma sole_exit:
  assumes "sole tp i h" and "te_status (tp_entries tp ! i) = TASK_PENDING" and "te_child_pid (tp_entries tp ! i) = pid"
    and "\<forall>j < TASK_POOL_SIZE. j \<noteq> i \<longrightarrow> te_status (tp_entries tp ! j) = TASK_PENDING \<longrightarrow> te_child_pid (tp_entries tp ! j) \<noteq> pid"
    and "st \<noteq> TASK_EMPTY"
  shows "sole (task_pool_update_by_pid pid st tp) i h"
    and "tp_entries (task_pool_update_by_pid pid st tp) ! i = (tp_entries tp ! i)\<lparr>te_status := st\<rparr>"
proof -
  note l = sole_length [OF assms(1)]
  have i: "i < TASK_POOL_SIZE" using assms(1) by (simp add: sole_def)
  have "find_first (\<lambda>e. te_child_pid e = pid \<and> te_status e = TASK_PENDING) (tp_entries tp) = Some i"
    using assms(2-4) l i by (intro find_first_unique) auto
  then have u: "tp_entries (task_pool_update_by_pid pid st tp) = (tp_entries tp)[i := (tp_entries tp ! i)\<lparr>te_status := st\<rparr>]"
    by (simp add: task_pool_update_by_pid_def)
  then show "tp_entries (task_pool_update_by_pid pid st tp) ! i = (tp_entries tp ! i)\<lparr>te_status := st\<rparr>" using i l by simp
  show "sole (task_pool_update_by_pid pid st tp) i h"
    using assms(1,5) wf_pool_update_by_pid u l i by (auto simp: sole_def)
qed

lemma sole_free:
  assumes "sole tp i h"
  shows "task_pool_find_handle h sid (task_pool_free h tp) = None"
proof -
  note l = sole_length [OF assms]
  have i: "i < TASK_POOL_SIZE" "h \<noteq> 0" "wf_pool tp" using assms by (auto simp: sole_def)
  have z: "te_status (tp_entries tp ! j) = TASK_EMPTY \<Longrightarrow> te_handle_id (tp_entries tp ! j) = 0" if "j < TASK_POOL_SIZE" for j
    using wf_pool_nth [OF i(3) that] by (simp add: wf_task_def)
  have f: "find_first (\<lambda>e. te_handle_id e = h) (tp_entries tp) = Some i"
    using assms l i z by (intro find_first_unique) (auto simp: sole_def)
  have "find_first (\<lambda>e. te_handle_id e = h \<and> te_status e \<noteq> TASK_EMPTY) ((tp_entries tp)[i := zero_task]) = None"
  proof -
    have "\<not> (te_handle_id ((tp_entries tp)[i := zero_task] ! j) = h \<and> te_status ((tp_entries tp)[i := zero_task] ! j) \<noteq> TASK_EMPTY)"
      if "j < TASK_POOL_SIZE" for j
      using assms l that by (cases "j = i") (auto simp: sole_def)
    then show ?thesis unfolding find_first_None all_set_conv_all_nth length_list_update l by blast
  qed
  then show ?thesis using f by (auto simp: task_pool_find_handle_def task_pool_free_def Let_def)
qed

lemma sweep_entries:
  assumes "\<forall>e \<in> set (tp_entries tp). te_status e \<noteq> TASK_EMPTY \<longrightarrow> te_handle_id e \<noteq> h"
  shows "\<forall>e \<in> set (tp_entries (task_pool_sweep_timeouts now tp)). te_status e \<noteq> TASK_EMPTY \<longrightarrow> te_handle_id e \<noteq> h"
  using assms by (auto simp: task_pool_sweep_timeouts_def sweep_entry_def)

lemma sweep_pids:
  assumes "\<forall>e \<in> set (tp_entries tp). te_status e = TASK_PENDING \<longrightarrow> te_child_pid e \<noteq> pid"
  shows "\<forall>e \<in> set (tp_entries (task_pool_sweep_timeouts now tp)). te_status e = TASK_PENDING \<longrightarrow> te_child_pid e \<noteq> pid"
  using assms by (auto simp: task_pool_sweep_timeouts_def sweep_entry_def)

text \<open>A restart that started a child leaves exactly one entry with the answered handle, pending, with that child.\<close>

lemma restart_started:
  assumes wf: "wf_daemon dm" and r: "restart_result os sid name dm = (d, dm1)"
    and started: "dm_calls dm1 \<noteq> dm_calls dm" and pid: "os_fork os = Inr pid"
    and fresh: "\<forall>e \<in> set (tp_entries (dm_tasks dm)). te_status e \<noteq> TASK_EMPTY \<longrightarrow> te_handle_id e \<noteq> get_u32 (take 4 d)"
    and fresh_pid: "\<forall>e \<in> set (tp_entries (dm_tasks dm)). te_status e = TASK_PENDING \<longrightarrow> te_child_pid e \<noteq> pid"
  obtains i where "sole (dm_tasks dm1) i (get_u32 (take 4 d))"
    and "te_status (tp_entries (dm_tasks dm1) ! i) = TASK_PENDING" "te_child_pid (tp_entries (dm_tasks dm1) ! i) = pid"
    and "te_session_id (tp_entries (dm_tasks dm1) ! i) = sid" "te_created_at (tp_entries (dm_tasks dm1) ! i) = os_time os"
    and "\<forall>j < TASK_POOL_SIZE. j \<noteq> i \<longrightarrow> te_status (tp_entries (dm_tasks dm1) ! j) = TASK_PENDING \<longrightarrow>
      te_child_pid (tp_entries (dm_tasks dm1) ! j) \<noteq> pid"
proof -
  define tp where "tp = task_pool_sweep_timeouts (os_time os) (dm_tasks dm)"
  have wtp: "wf_pool tp" using wf by (simp add: tp_def wf_daemon_def wf_pool_sweep)
  obtain h tp1 where al: "task_pool_alloc (os_rand_r os) (os_time os) sid (name_buffer name) pid tp = (h, tp1)" by fastforce
  have av: "task_pool_available tp \<noteq> 0" and d: "d = put_u32 h @ put_u16 SW_OK" and t1: "dm_tasks dm1 = tp1"
    using r started pid al by (auto simp: restart_result_def Let_def tp_def [symmetric] split: if_splits)
  have h0: "h \<noteq> 0" using alloc_available [OF av, of "os_rand_r os" "os_time os" sid "name_buffer name" pid] al by simp
  have hd: "get_u32 (take 4 d) = h" by (simp add: d get_put_u32)
  have fr: "\<forall>e \<in> set (tp_entries tp). te_status e \<noteq> TASK_EMPTY \<longrightarrow> te_handle_id e \<noteq> h"
    unfolding tp_def by (rule sweep_entries [OF fresh [unfolded hd]])
  obtain i where i: "task_pool_find_handle h sid tp1 = Some i" "i < TASK_POOL_SIZE"
      "tp_entries tp1 ! i = new_task sid (ucast h) pid (os_time os) (name_buffer name)"
      "\<forall>j < TASK_POOL_SIZE. j \<noteq> i \<longrightarrow> tp_entries tp1 ! j = tp_entries tp ! j"
    using find_handle_fresh [OF wtp al h0 fr] by blast
  have w1: "wf_pool tp1"
    using wf_pool_alloc [OF wtp, of "os_rand_r os" "os_time os" sid "name_buffer name" pid] al by simp
  have l: "length (tp_entries tp) = TASK_POOL_SIZE" using wtp by (simp add: wf_pool_def)
  have "sole tp1 i h"
    using w1 h0 i(2,4) find_handle_SomeD(4,5) [OF i(1)] fr l by (auto simp: sole_def)
  moreover have "\<forall>j < TASK_POOL_SIZE. j \<noteq> i \<longrightarrow> te_status (tp_entries tp1 ! j) = TASK_PENDING \<longrightarrow> te_child_pid (tp_entries tp1 ! j) \<noteq> pid"
    using i(4) l sweep_pids [OF fresh_pid, of "os_time os"] by (auto simp: tp_def)
  ultimately show thesis using that [of i] i(3) by (simp add: t1 hd new_task_def)
qed

section \<open>Properties\<close>

text \<open>A signed request to restart the unit sshd, and a query for the handle 0x0003002A.\<close>

definition demo_restart_buf :: bytes where
  "demo_restart_buf = [0x04, 0x22, 0, 0, 8, 0, 0, 0, 1] @ ascii ''sshd'' @ replicate 17 0"

definition demo_restart :: apdu_frame where
  "demo_restart = demo_signed\<lparr>fr_ins := 0x22\<rparr>"

definition demo_query :: apdu_frame where
  "demo_query = zero_frame\<lparr>fr_ins := 0x11, fr_data_len := 4, fr_data := Some 5\<rparr>"

lemma demo_restart_in: "frame_in demo_restart_buf demo_restart"
  by (simp add: frame_in_def demo_restart_def demo_restart_buf_def demo_signed_def zero_frame_def code_defs)

lemma demo_restart_valid: "restart_valid demo_restart_buf demo_restart"
  by code_simp



text \<open>C37. A restart can be followed to its outcome by its own session only. When a valid request has started
  the child pid and answered the handle h, and neither names an outstanding task already, then within 30
  seconds a query of h by the same session answers pending, a query by any other session answers not found,
  after the child's exit a query by the same session answers its success or failure, and every query after
  that answers not found.\<close>

theorem restart_then_query:
  assumes "wf_daemon dm" and "frame_in buf f" and "restart_valid buf f" and "6 \<le> length resp"
    and "handler_svc_restart os buf f resp sz sid dm = Some (n, resp1, dm1)"
    and "dm_calls dm1 \<noteq> dm_calls dm" and "os_fork os = Inr pid" and "h = get_u32 (take 4 resp1)"
    and "\<forall>e \<in> set (tp_entries (dm_tasks dm)). te_status e \<noteq> TASK_EMPTY \<longrightarrow> te_handle_id e \<noteq> h \<and> te_child_pid e \<noteq> pid"
    and "os_time os' \<le> os_time os + 30"
    and "frame_in qbuf q" and "4 \<le> unat (fr_data_len q)" and "get_u32 (take 4 (payload qbuf q)) = h" and "3 \<le> length r"
  shows "\<exists>dm2 dm3 dm4.
    handler_task_query os' qbuf q r sz' sid dm1 = Some (3, (0x00 # put_u16 SW_OK) @ drop 3 r, dm2) \<and>
    (\<forall>sid'. sid' \<noteq> sid \<longrightarrow> (\<exists>dm'. handler_task_query os' qbuf q r sz' sid' dm1 = Some (3, (0xFF # put_u16 SW_OK) @ drop 3 r, dm'))) \<and>
    handler_task_query os' qbuf q r sz' sid
      (dm1\<lparr>dm_tasks := task_pool_update_by_pid pid (if ok then TASK_SUCCESS else TASK_FAILED) (dm_tasks dm1)\<rparr>) =
      Some (3, ((if ok then 0x01 else 0x02) # put_u16 SW_OK) @ drop 3 r, dm3) \<and>
    handler_task_query os' qbuf q r sz' sid dm3 = Some (3, (0xFF # put_u16 SW_OK) @ drop 3 r, dm4)"
proof -
  obtain d where r: "restart_result os sid (svc_name buf f) dm = (d, dm1)" and rd: "resp1 = d @ drop (length d) resp"
    using restart_valid_eq [OF assms(2-4), of os sz sid dm] assms(5)
    by (cases "restart_result os sid (svc_name buf f) dm") auto
  have "length d \<in> {2, 6}" using restart_result_length [of os sid "svc_name buf f" dm] r by simp
  moreover have "length d \<noteq> 2" using r assms(6)
    by (auto simp: restart_result_def Let_def split: if_splits sum.splits prod.splits)
  ultimately have hd: "get_u32 (take 4 d) = h" by (simp add: assms(8) rd)
  have fr: "\<forall>e \<in> set (tp_entries (dm_tasks dm)). te_status e \<noteq> TASK_EMPTY \<longrightarrow> te_handle_id e \<noteq> get_u32 (take 4 d)"
    "\<forall>e \<in> set (tp_entries (dm_tasks dm)). te_status e = TASK_PENDING \<longrightarrow> te_child_pid e \<noteq> pid"
    using assms(9) hd by auto
  obtain i where i: "sole (dm_tasks dm1) i h" "te_status (tp_entries (dm_tasks dm1) ! i) = TASK_PENDING"
    "te_child_pid (tp_entries (dm_tasks dm1) ! i) = pid" "te_session_id (tp_entries (dm_tasks dm1) ! i) = sid"
    "te_created_at (tp_entries (dm_tasks dm1) ! i) = os_time os"
    "\<forall>j < TASK_POOL_SIZE. j \<noteq> i \<longrightarrow> te_status (tp_entries (dm_tasks dm1) ! j) = TASK_PENDING \<longrightarrow>
      te_child_pid (tp_entries (dm_tasks dm1) ! j) \<noteq> pid"
    by (rule restart_started [OF assms(1) r assms(6,7) fr, unfolded hd])
  let ?st = "if ok then TASK_SUCCESS else TASK_FAILED"
  let ?tp = "dm_tasks dm1" and ?tp' = "task_pool_update_by_pid pid ?st (dm_tasks dm1)"
  let ?sw = "task_pool_sweep_timeouts (os_time os')"
  have young: "os_time os' \<le> te_created_at (tp_entries ?tp ! i) + 30" using i(5) assms(10) by simp
  note s1 = sole_sweep [OF i(1) young]
  have st: "?st \<noteq> TASK_EMPTY" "?st \<noteq> TASK_PENDING" by simp_all
  note x = sole_exit [OF i(1-3,6) st(1)]
  have young': "os_time os' \<le> te_created_at (tp_entries ?tp' ! i) + 30" using x(2) young by simp
  note s2 = sole_sweep [OF x(1) young']
  note q = query_eq [OF assms(11,12,14), of os' sz', unfolded assms(13)]
  have q1: "query_result h sid' (?sw ?tp) = (if sid' = sid then 0x00 else 0xFF, ?sw ?tp)" for sid'
    using sole_find [OF s1(1), of sid'] s1(2) i(2,4) by (auto simp: query_result_def to_wire_def code_defs)
  have q2: "query_result h sid (?sw ?tp') = (if ok then 0x01 else 0x02, task_pool_free h (?sw ?tp'))"
    using sole_find [OF s2(1), of sid] s2(2) x(2) i(4) st by (auto simp: query_result_def to_wire_def code_defs)
  have gone: "task_pool_find_handle h sid (task_pool_free h (?sw ?tp')) = None" by (rule sole_free [OF s2(1)])
  have w: "wf_pool (task_pool_free h (?sw ?tp'))" using s2(1) by (simp add: sole_def wf_pool_free)
  have "task_pool_find_handle h sid (?sw (task_pool_free h (?sw ?tp'))) = None"
  proof -
    have "\<not> (\<exists>e \<in> set (tp_entries (task_pool_free h (?sw ?tp'))). te_status e \<noteq> TASK_EMPTY \<and> te_handle_id e = h \<and> te_session_id e = sid)"
      using find_handle_iff [OF w, of h sid] gone by blast
    then have "\<not> (\<exists>e \<in> set (tp_entries (?sw (task_pool_free h (?sw ?tp')))). te_status e \<noteq> TASK_EMPTY \<and> te_handle_id e = h \<and> te_session_id e = sid)"
      by (auto simp: task_pool_sweep_timeouts_def sweep_entry_def split: if_splits)
    then show ?thesis using find_handle_iff [OF wf_pool_sweep [OF w], of h sid] by blast
  qed
  then have q3: "fst (query_result h sid (?sw (task_pool_free h (?sw ?tp')))) = 0xFF"
    by (simp add: query_result_def code_defs)
  show ?thesis using q q1 q2 q3 by (auto simp: case_prod_beta)
qed

theorem restart_then_query_witness:
  "\<exists>dm2. handler_task_query quiet_os ([0, 0, 0, 0, 0] @ put_u32 0x0003002A) demo_query [0, 0, 0] 3 3
     (snd (snd (the (handler_svc_restart quiet_os demo_restart_buf demo_restart (replicate 6 0) 6 3 (initial_daemon 100 6))))) =
     Some (3, 0x00 # put_u16 SW_OK, dm2)"
proof -
  let ?dm = "initial_daemon 100 6" and ?q = "[0, 0, 0, 0, 0] @ put_u32 0x0003002A"
  let ?res = "handler_svc_restart quiet_os demo_restart_buf demo_restart (replicate 6 0) 6 3 ?dm"
  have h: "?res \<noteq> None" "get_u32 (take 4 (fst (snd (the ?res)))) = 0x0003002A" "dm_calls (snd (snd (the ?res))) \<noteq> dm_calls ?dm"
    by code_simp+
  then obtain n resp1 dm1 where r: "?res = Some (n, resp1, dm1)" by (cases "?res") auto
  have q: "frame_in ?q demo_query" "4 \<le> unat (fr_data_len demo_query)" "get_u32 (take 4 (payload ?q demo_query)) = 0x0003002A"
    by (code_simp, code_simp, code_simp)
  have e: "\<forall>e \<in> set (tp_entries (dm_tasks ?dm)). te_status e \<noteq> TASK_EMPTY \<longrightarrow> te_handle_id e \<noteq> 0x0003002A \<and> te_child_pid e \<noteq> 77"
    by (auto simp: initial_daemon_def task_pool_init_def)
  have o: "os_fork quiet_os = Inr 77" "os_time quiet_os \<le> os_time quiet_os + 30" by (simp_all add: quiet_os_def)
  have c: "dm_calls dm1 \<noteq> dm_calls ?dm" "0x0003002A = get_u32 (take 4 resp1)" using h r by simp_all
  show ?thesis
    using restart_then_query [OF wf_initial_daemon demo_restart_in demo_restart_valid _ r c(1) o(1) c(2) e o(2) q, of "[0, 0, 0]" 3] r
    by auto
qed

end
