(* ===== verification/Dispatcher.thy ===== *)
theory Dispatcher
  imports SysProcs TaskQuery ProcThrottle SvcRestart SysHello
begin

unbundle bit_operations_syntax

text \<open>
  The instruction dispatcher (src/src/asyd/core/dispatcher.c): the capability bitmap, the two handler
  tables and the three layers of \<^verbatim>\<open>dispatch\<close>. A handler table is the list of its slots. A null pointer is
  \<open>None\<close>; writing the answer through a null pointer is undefined behaviour.
\<close>

definition core_table :: "handler option list" where
  "core_table = (replicate 32 None)
     [0x00 := Some handler_sys_caps, 0x01 := Some handler_sys_hello, 0x02 := Some handler_sys_status,
      0x03 := Some handler_sys_procs, 0x11 := Some handler_task_query]"

definition standard_table :: "handler option list" where
  "standard_table = (replicate 16 None)[0x00 := Some handler_proc_throttle, 0x02 := Some handler_svc_restart]"

definition in_caps_bitmap :: "u8 \<Rightarrow> u32" where
  "in_caps_bitmap ins =
     (if ins \<le> 0x1F then drop_bit (unat ins) CORE_CAPS_BITMAP AND 1
      else if ins \<le> 0x3F then drop_bit (unat (ins - 0x20)) EXT_CAPS_BITMAP AND 1
      else 0)"

definition dispatch ::
    "os \<Rightarrow> bytes \<Rightarrow> apdu_frame option \<Rightarrow> bytes option \<Rightarrow> nat \<Rightarrow> u16 \<Rightarrow> daemon \<Rightarrow> (int \<times> bytes \<times> daemon) option" where
  "dispatch os buf req resp_out resp_size session_id dm =
     (case resp_out of None \<Rightarrow> None
      | Some resp \<Rightarrow>
          (case req of None \<Rightarrow> reply resp SW_SYS_ERR dm
           | Some f \<Rightarrow>
               if resp_size < 2 then reply resp SW_SYS_ERR dm
               else if in_caps_bitmap (fr_ins f) = 0 then reply resp SW_NOT_FOUND dm
               else
                 let fn = (if fr_ins f \<le> 0x1F then core_table ! unat (fr_ins f)
                           else if fr_ins f \<le> 0x2F then standard_table ! unat (fr_ins f - 0x20)
                           else None)
                 in case fn of None \<Rightarrow> reply resp SW_NOT_SUPPORTED dm
                    | Some fn \<Rightarrow> do {
                        (n, resp, dm) \<leftarrow> fn os buf f resp resp_size session_id dm;
                        if n < 0 then reply resp SW_SYS_ERR dm else Some (n, resp, dm)
                      }))"

section \<open>The bitmap and the tables agree\<close>

definition served :: "u8 list" where
  "served = [0x00, 0x01, 0x02, 0x03, 0x11, 0x20, 0x22]"

definition handler_of :: "u8 \<Rightarrow> handler option" where
  "handler_of ins =
     (if ins \<le> 0x1F then core_table ! unat ins
      else if ins \<le> 0x2F then standard_table ! unat (ins - 0x20) else None)"

text \<open>A statement on all instruction codes, by cases.\<close>

definition all_u8 :: "(u8 \<Rightarrow> bool) \<Rightarrow> bool" where
  "all_u8 P = list_all (\<lambda>n. P (word_of_nat n)) [0..<256]"

lemma all_u8: "all_u8 P \<longleftrightarrow> (\<forall>x. P x)"
proof -
  have "P x" if "\<forall>n < 256. P (word_of_nat n)" for x
    using that [rule_format, of "unat x"] unsigned_less [of x, where 'a = nat] by simp
  then show ?thesis by (auto simp: all_u8_def list_all_iff)
qed

lemma bitmap_served: "in_caps_bitmap ins \<noteq> 0 \<longleftrightarrow> ins \<in> set served"
proof -
  have "all_u8 (\<lambda>ins. (in_caps_bitmap ins \<noteq> 0) = (ins \<in> set served))" by code_simp
  then show ?thesis by (simp add: all_u8)
qed

lemma tables_served: "handler_of ins \<noteq> None \<longleftrightarrow> ins \<in> set served"
proof -
  have "all_u8 (\<lambda>ins. (\<not> Option.is_none (handler_of ins)) = (ins \<in> set served))" by code_simp
  then show ?thesis by (simp add: all_u8 Option.is_none_def)
qed

lemma handler_of_served:
  "handler_of 0x00 = Some handler_sys_caps" "handler_of 0x01 = Some handler_sys_hello"
  "handler_of 0x02 = Some handler_sys_status" "handler_of 0x03 = Some handler_sys_procs"
  "handler_of 0x11 = Some handler_task_query" "handler_of 0x20 = Some handler_proc_throttle"
  "handler_of 0x22 = Some handler_svc_restart"
  by (simp_all add: handler_of_def core_table_def standard_table_def)

lemma handler_of_cases:
  assumes "handler_of ins = Some h"
  obtains "ins = 0x00" "h = handler_sys_caps" | "ins = 0x01" "h = handler_sys_hello"
  | "ins = 0x02" "h = handler_sys_status" | "ins = 0x03" "h = handler_sys_procs"
  | "ins = 0x11" "h = handler_task_query" | "ins = 0x20" "h = handler_proc_throttle"
  | "ins = 0x22" "h = handler_svc_restart"
proof -
  have "ins \<in> set served" using assms tables_served [of ins] by simp
  then show thesis using assms that by (auto simp: served_def handler_of_served)
qed

section \<open>What dispatching does\<close>

lemma dispatch_unserved:
  assumes "fr_ins f \<notin> set served" and "2 \<le> sz"
  shows "dispatch os buf (Some f) (Some resp) sz sid dm = reply resp SW_NOT_FOUND dm"
  using assms bitmap_served [of "fr_ins f"] by (simp add: dispatch_def)

lemma dispatch_served:
  assumes "handler_of (fr_ins f) = Some h" and "2 \<le> sz"
  shows "dispatch os buf (Some f) (Some resp) sz sid dm =
    Option.bind (h os buf f resp sz sid dm) (\<lambda>(n, resp, dm). if n < 0 then reply resp SW_SYS_ERR dm else Some (n, resp, dm))"
proof -
  have "in_caps_bitmap (fr_ins f) \<noteq> 0" using assms(1) bitmap_served tables_served by auto
  then show ?thesis
    using assms unfolding dispatch_def Let_def handler_of_def [symmetric]
    by (simp add: case_prod_beta)
qed

text \<open>What the handlers rely on in the operating system.\<close>

definition os_ok :: "os \<Rightarrow> bool" where
  "os_ok os \<longleftrightarrow> ncpus_ok os \<and> procs_ok os"

lemma handler_of_runs:
  assumes "handler_of ins = Some h" and "os_ok os" "frame_in buf f" "wf_daemon dm" "6 \<le> length resp"
  shows "\<exists>n resp' dm'. h os buf f resp (length resp) sid dm = Some (int n, resp', dm') \<and> answered resp n resp' \<and>
    wf_daemon dm'"
proof -
  note a = assms(2-5) [unfolded os_ok_def]
  show ?thesis using assms(1)
    by (cases rule: handler_of_cases)
      (use a in \<open>auto intro!: caps.runs hello.runs status.runs procs.runs query.runs throttle.runs restart.runs\<close>)
qed

lemma handler_of_acts_signed:
  assumes "handler_of ins = Some h" and "h os buf f resp sz sid dm = Some (n, resp', dm')"
  shows "dm_calls dm' = dm_calls dm \<or> fr_sec f = APDU_SEC_SIGNED"
  using assms(1)
  by (cases rule: handler_of_cases)
    (insert assms(2), simp_all only:, (erule caps.acts_signed hello.acts_signed status.acts_signed procs.acts_signed
      query.acts_signed throttle.acts_signed restart.acts_signed)+)

text \<open>The dispatcher keeps the contract of the handlers it calls.\<close>

interpretation dispatcher: handler "\<lambda>os buf f resp. dispatch os buf (Some f) (Some resp)" 6 os_ok
proof unfold_locales
  fix os buf f dm resp sid
  assume a: "os_ok os" "frame_in buf f" "wf_daemon dm" "6 \<le> length (resp :: bytes)"
  then have r: "2 \<le> length resp" by simp
  show "\<exists>n resp' dm'. dispatch os buf (Some f) (Some resp) (length resp) sid dm = Some (int n, resp', dm') \<and>
      answered resp n resp' \<and> wf_daemon dm'"
  proof (cases "handler_of (fr_ins f)")
    case None
    then have "fr_ins f \<notin> set served" using tables_served by blast
    then show ?thesis using dispatch_unserved [OF _ r] reply_eq [OF r] answered_sw [OF r] a(3)
      by (intro exI [of _ 2]) simp
  next
    case (Some h)
    from handler_of_runs [OF Some a, of sid] obtain n resp' dm'
      where h: "h os buf f resp (length resp) sid dm = Some (int n, resp', dm')" "answered resp n resp'" "wf_daemon dm'" by blast
    then have "dispatch os buf (Some f) (Some resp) (length resp) sid dm = Some (int n, resp', dm')"
      using dispatch_served [OF Some r] by simp
    then show ?thesis using h by blast
  qed
next
  fix os buf f resp sz sid dm n resp' dm'
  assume d: "dispatch os buf (Some f) (Some resp) sz sid dm = Some (n, resp', dm')"
  show "dm_calls dm' = dm_calls dm \<or> fr_sec f = APDU_SEC_SIGNED"
  proof (cases "2 \<le> sz")
    case False
    then show ?thesis using d reply_calls [of resp SW_SYS_ERR dm] by (auto simp: dispatch_def)
  next
    case True
    show ?thesis
    proof (cases "handler_of (fr_ins f)")
      case None
      then have "fr_ins f \<notin> set served" using tables_served by blast
      then show ?thesis using d dispatch_unserved [OF _ True] reply_calls by fastforce
    next
      case (Some h)
      from d dispatch_served [OF Some True, of os buf resp sid dm] obtain n0 resp0 dm0
        where "h os buf f resp sz sid dm = Some (n0, resp0, dm0)" "dm' = dm0"
        by (auto simp: bind_Some_iff dest!: reply_calls split: if_splits)
      then show ?thesis using handler_of_acts_signed [OF Some] by blast
    qed
  qed
qed simp

section \<open>The instructions that only report\<close>

lemma hello_calls: "handler_sys_hello os buf f resp sz sid dm = Some (n, resp', dm') \<Longrightarrow> dm_calls dm' = dm_calls dm"
  by (auto simp: handler_sys_hello_def Let_def bind_Some_iff dest: reply_calls split: if_splits)

lemma caps_calls: "handler_sys_caps os buf f resp sz sid dm = Some (n, resp', dm') \<Longrightarrow> dm_calls dm' = dm_calls dm"
  by (auto simp: handler_sys_caps_def Let_def bind_Some_iff case_prod_beta dest: reply_calls split: if_splits)

lemma status_calls: "handler_sys_status os buf f resp sz sid dm = Some (n, resp', dm') \<Longrightarrow> dm_calls dm' = dm_calls dm"
  by (auto simp: handler_sys_status_def Let_def bind_Some_iff dest: reply_calls split: if_splits)

lemma query_calls: "handler_task_query os buf f resp sz sid dm = Some (n, resp', dm') \<Longrightarrow> dm_calls dm' = dm_calls dm"
  by (auto simp: handler_task_query_def Let_def bind_Some_iff case_prod_beta dest: reply_calls split: if_splits option.splits)

lemmas reporting = hello_calls caps_calls status_calls procs_calls query_calls

lemma handler_of_acts:
  assumes "handler_of ins = Some h" and "h os buf f resp sz sid dm = Some (n, resp', dm')" and "ins \<notin> {0x20, 0x22}"
  shows "dm_calls dm' = dm_calls dm"
  using assms(1)
  by (cases rule: handler_of_cases) (insert assms(2,3), simp_all only:, (erule reporting | blast)+)

lemma dispatch_acts:
  assumes "dispatch os buf (Some f) (Some resp) sz sid dm = Some (n, resp', dm')" and "2 \<le> sz"
    and "fr_ins f \<notin> {0x20, 0x22}"
  shows "dm_calls dm' = dm_calls dm"
proof (cases "handler_of (fr_ins f)")
  case None
  then have "fr_ins f \<notin> set served" using tables_served by blast
  then show ?thesis using assms(1) dispatch_unserved [OF _ assms(2)] reply_calls by fastforce
next
  case (Some h)
  from assms(1) dispatch_served [OF Some assms(2), of os buf resp sid dm] obtain n0 resp0 dm0
    where "h os buf f resp sz sid dm = Some (n0, resp0, dm0)" "dm' = dm0"
    by (auto simp: bind_Some_iff dest!: reply_calls split: if_splits)
  then show ?thesis using handler_of_acts [OF Some _ assms(3)] by blast
qed

section \<open>Properties\<close>

text \<open>C40. Dispatching is safe for every instruction code: with a 256-byte answer buffer, a frame whose
  pointers lie in the receive buffer and a well-formed state, no path reads or writes outside a buffer or
  divides by zero; the answer has 2 to 256 bytes, the rest of the buffer is untouched, the state stays well
  formed, and a signal or a restart is issued only for a signed frame with one of the two acting
  instructions.\<close>

theorem dispatch_safe:
  assumes "os_ok os" and "frame_in buf f" and "wf_daemon dm" and "length resp = DISP_RESP_MAX"
  shows "\<exists>n resp' dm'. dispatch os buf (Some f) (Some resp) DISP_RESP_MAX sid dm = Some (int n, resp', dm') \<and>
    2 \<le> n \<and> n \<le> DISP_RESP_MAX \<and> length resp' = DISP_RESP_MAX \<and> drop n resp' = drop n resp \<and> wf_daemon dm' \<and>
    (dm_calls dm' = dm_calls dm \<or> fr_sec f = APDU_SEC_SIGNED \<and> fr_ins f \<in> {0x20, 0x22})"
proof -
  have r: "6 \<le> length resp" "2 \<le> DISP_RESP_MAX" using assms(4) by (simp_all add: DISP_RESP_MAX_def)
  from dispatcher.run_cases [OF assms(1-3) r(1), of sid] obtain n resp' dm'
    where d: "dispatch os buf (Some f) (Some resp) (length resp) sid dm = Some (int n, resp', dm')"
      "2 \<le> n" "n \<le> length resp" "length resp' = length resp" "drop n resp' = drop n resp" "wf_daemon dm'" .
  then show ?thesis
    using dispatcher.acts_signed [OF d(1)] dispatch_acts [OF d(1)] r(2) assms(4) by auto
qed

theorem dispatch_safe_witness:
  "\<exists>n resp' dm'. dispatch quiet_os [] (Some (zero_frame\<lparr>fr_ins := 0x01\<rparr>)) (Some (replicate 256 0)) DISP_RESP_MAX 0
     (initial_daemon 1 2) = Some (int n, resp', dm') \<and> 2 \<le> n \<and> wf_daemon dm'"
proof -
  have o: "os_ok quiet_os" by (simp add: os_ok_def ncpus_ok_def procs_ok_def quiet_os_def)
  have f: "frame_in [] (zero_frame\<lparr>fr_ins := 0x01\<rparr>)" by (simp add: frame_in_def zero_frame_def)
  show ?thesis using dispatch_safe [OF o f wf_initial_daemon [of 1 2], of "replicate 256 0" 0]
    by (auto simp: DISP_RESP_MAX_def)
qed

text \<open>The advertised capabilities are exactly the implemented ones: for every instruction code the
  bitmap bit is set if and only if the handler tables have an entry for it, and that is so for the seven
  instructions of the protocol. No handler is unreachable behind the bitmap, and no advertised instruction
  is answered as unsupported.\<close>

theorem dispatch_advertised:
  "(in_caps_bitmap ins \<noteq> 0 \<longleftrightarrow>
     (if ins \<le> 0x1F then core_table ! unat ins
      else if ins \<le> 0x2F then standard_table ! unat (ins - 0x20) else None) \<noteq> None) \<and>
   (in_caps_bitmap ins \<noteq> 0 \<longleftrightarrow> ins \<in> {0x00, 0x01, 0x02, 0x03, 0x11, 0x20, 0x22})"
  using bitmap_served [of ins] tables_served [of ins] unfolding handler_of_def served_def by simp

end
