(* ===== verification/Handshake.thy ===== *)
theory Handshake
  imports Noise
begin

text \<open>
  What the Noise IK handshake and the transport of noise_ik.c promise: the server accepts exactly the
  first messages that the protocol's token sequence produces, two honest parties end with crossed
  transport keys, and the transport is an authenticated, ordered channel.
\<close>

section \<open>The messages of the protocol\<close>

text \<open>
  The token sequence of each message as one function of the handshake hash, the chaining key and the two
  shared secrets; both the writing and the reading side are instances of it.
\<close>

definition zero12 :: bytes where "zero12 = replicate 12 0"

definition ik_msg1 :: "bytes \<Rightarrow> bytes \<Rightarrow> bytes \<Rightarrow> bytes \<Rightarrow> bytes \<Rightarrow> bytes \<Rightarrow> bytes \<times> bytes \<times> bytes" where
  "ik_msg1 h ck e es s ss =
     (let h1 = mix_hash h e 32;
          (ck1, k1) = mix_key ck es 32;
          a = seal_once k1 zero12 h1 s;
          h2 = mix_hash h1 a 48;
          (ck2, k2) = mix_key ck1 ss 32;
          b = seal_once k2 zero12 h2 []
      in (mix_hash h2 b 16, ck2, e @ a @ b))"

definition ik_msg2 :: "bytes \<Rightarrow> bytes \<Rightarrow> bytes \<Rightarrow> bytes \<Rightarrow> bytes \<Rightarrow> bytes \<times> bytes \<times> bytes" where
  "ik_msg2 h ck e ee se =
     (let h1 = mix_hash h e 32;
          (ck1, k1) = mix_key ck ee 32;
          (ck2, k2) = mix_key ck1 se 32;
          b = seal_once k2 zero12 h1 []
      in (mix_hash h1 b 16, ck2, e @ b))"

lemma zero12_length [simp]: "length zero12 = 12"
  by (simp add: zero12_def)

lemma encrypt_and_hash_zero12:
  "length h = 64 \<Longrightarrow> n = length p \<Longrightarrow> encrypt_and_hash h k p n = (mix_hash h (seal_once k zero12 h p) (n + 16), seal_once k zero12 h p)"
  by (simp add: encrypt_and_hash_seal zero12_def)

lemma decrypt_and_hash_zero12:
  "length h = 64 \<Longrightarrow> n = length c \<Longrightarrow> 16 \<le> n \<Longrightarrow> decrypt_and_hash h k c n =
    (if unseal_once k zero12 h c = None then NOISE_ERR_AUTH else NOISE_OK, mix_hash h c n, unseal_once k zero12 h c)"
  by (simp add: decrypt_and_hash_unseal zero12_def)

text \<open>The symmetric state of either side is always two 64-byte strings.\<close>

definition sym_ok :: "noise_ik_state \<Rightarrow> bool" where
  "sym_ok st \<longleftrightarrow> length (st_h st) = 64 \<and> length (st_ck st) = 64"

lemmas noise_lengths = mix_hash_length mix_key_length split_length init_symmetric_length

lemma mix_key_lengthD:
  assumes "mix_key ck d 32 = (ck', k)" and "length ck = 64" and "length d = 32"
  shows "length ck' = 64" and "length k = 32"
  using mix_key_length [of ck d 32] assms by simp_all

lemma ik_msg1_length:
  assumes "length h = 64" "length ck = 64" "length e = 32" "length es = 32" "length s = 32" "length ss = 32"
    and "ik_msg1 h ck e es s ss = (h', ck', m)"
  shows "length h' = 64" and "length ck' = 64" and "length m = 96"
proof -
  obtain ck1 k1 where 1: "mix_key ck es 32 = (ck1, k1)" by fastforce
  obtain ck2 k2 where 2: "mix_key ck1 ss 32 = (ck2, k2)" by fastforce
  note l1 = mix_key_lengthD [OF 1 assms(2,4)]
  note l2 = mix_key_lengthD [OF 2 l1(1) assms(6)]
  show "length h' = 64" "length ck' = 64" "length m = 96"
    using assms 1 2 l1 l2 by (auto simp: ik_msg1_def Let_def seal_once_length mix_hash_length)
qed

lemma ik_msg2_length:
  assumes "length h = 64" "length ck = 64" "length e = 32" "length ee = 32" "length se = 32"
    and "ik_msg2 h ck e ee se = (h', ck', m)"
  shows "length h' = 64" and "length ck' = 64" and "length m = 48"
proof -
  obtain ck1 k1 where 1: "mix_key ck ee 32 = (ck1, k1)" by fastforce
  obtain ck2 k2 where 2: "mix_key ck1 se 32 = (ck2, k2)" by fastforce
  note l1 = mix_key_lengthD [OF 1 assms(2,4)]
  note l2 = mix_key_lengthD [OF 2 l1(1) assms(5)]
  show "length h' = 64" "length ck' = 64" "length m = 48"
    using assms 1 2 l1 l2 by (auto simp: ik_msg2_def Let_def seal_once_length mix_hash_length)
qed

section \<open>Each handshake operation in terms of the protocol's messages\<close>

text \<open>What the curve operations must provide: 32-byte results.\<close>

definition curve_sizes :: "(bytes \<Rightarrow> bytes \<Rightarrow> bytes) \<Rightarrow> (bytes \<Rightarrow> bytes) \<Rightarrow> bool" where
  "curve_sizes dh pk \<longleftrightarrow> (\<forall>a b. length (dh a b) = 32) \<and> (\<forall>a. length (pk a) = 32)"

lemma curve_sizesD [dest]:
  assumes "curve_sizes dh pk"
  shows "length (dh a b) = 32" and "length (pk a) = 32"
  using assms by (auto simp: curve_sizes_def)

lemma write_msg1_eq:
  assumes "curve_sizes dh pk" and "sym_ok st" and "length (st_s_pub st) = 32" and "\<not> st_is_server st"
    and "noise_ik_generate_keypair pk u (st_e_priv st) = (e, ep)"
    and "ik_msg1 (st_h st) (st_ck st) ep (dh e (st_rs_pub st)) (st_s_pub st) (dh (st_s_priv st) (st_rs_pub st)) = (h', ck', m)"
  shows "noise_ik_write_msg1 dh pk u True st =
    (NOISE_OK, st\<lparr>st_e_priv := e, st_e_pub := ep, st_h := h', st_ck := ck'\<rparr>, Some m)"
proof -
  obtain ck1 k1 where 1: "mix_key (st_ck st) (dh e (st_rs_pub st)) 32 = (ck1, k1)" by fastforce
  obtain ck2 k2 where 2: "mix_key ck1 (dh (st_s_priv st) (st_rs_pub st)) 32 = (ck2, k2)" by fastforce
  have "length ep = 32" using generate_keypair_pub [of pk u "st_e_priv st"] assms(1,5) by auto
  with assms(2) have h: "length (mix_hash (st_h st) ep 32) = 64" by (simp add: mix_hash_length sym_ok_def)
  note dl = curve_sizesD(1) [OF assms(1)]
  note l1 = mix_key_lengthD [OF 1 _ dl]
  show ?thesis using assms 1 2 h l1
    by (auto simp: noise_ik_write_msg1_def noise_sizes Let_def ik_msg1_def encrypt_and_hash_zero12 sym_ok_def
        mix_hash_length seal_once_length)
qed

lemma write_msg2_eq:
  assumes "curve_sizes dh pk" and "sym_ok st" and "st_is_server st"
    and "noise_ik_generate_keypair pk u (st_e_priv st) = (e, ep)"
    and "ik_msg2 (st_h st) (st_ck st) ep (dh e (st_re_pub st)) (dh e (st_rs_pub st)) = (h', ck', m)"
    and "split ck' = (k1, k2)"
  shows "noise_ik_write_msg2 dh pk u True st =
    (NOISE_OK, st\<lparr>st_e_priv := e, st_e_pub := ep, st_h := h', st_ck := ck', st_recv_key := k1, st_send_key := k2,
       st_send_nonce := 0, st_recv_nonce := 0, st_handshake_done := True\<rparr>, Some m)"
proof -
  obtain ck1 k1' where 1: "mix_key (st_ck st) (dh e (st_re_pub st)) 32 = (ck1, k1')" by fastforce
  obtain ck2 k2' where 2: "mix_key ck1 (dh e (st_rs_pub st)) 32 = (ck2, k2')" by fastforce
  have "length ep = 32" using generate_keypair_pub [of pk u "st_e_priv st"] assms(1,4) by auto
  with assms(2) have h: "length (mix_hash (st_h st) ep 32) = 64" by (simp add: mix_hash_length sym_ok_def)
  show ?thesis using assms 1 2 h
    by (auto simp: noise_ik_write_msg2_def noise_sizes Let_def ik_msg2_def encrypt_and_hash_zero12 sym_ok_def)
qed

lemma msg1_fields:
  assumes "length m = 96"
  shows "m = take 32 m @ take 48 (drop 32 m) @ take 16 (drop 80 m)"
    and "length (take 48 (drop 32 m)) = 48" and "length (take 16 (drop 80 m)) = 16"
proof -
  have "take 16 (drop 80 m) = drop 80 m" using assms by simp
  moreover have "drop 80 m = drop 48 (drop 32 m)" by simp
  ultimately have "take 48 (drop 32 m) @ take 16 (drop 80 m) = drop 32 m" by (simp only: append_take_drop_id)
  then show "m = take 32 m @ take 48 (drop 32 m) @ take 16 (drop 80 m)" by simp
qed (use assms in simp_all)

lemma read_msg1_iff:
  assumes "curve_sizes dh pk" and "sym_ok st" and "st_is_server st" and "length m = 96"
  defines "re \<equiv> take 32 m"
  shows "noise_ik_read_msg1 dh (Some m) st = (NOISE_OK, st', Some s) \<longleftrightarrow>
    length s = 32 \<and>
    (\<exists>h' ck'. ik_msg1 (st_h st) (st_ck st) re (dh (st_s_priv st) re) s (dh (st_s_priv st) s) = (h', ck', m) \<and>
       st' = st\<lparr>st_re_pub := re, st_rs_pub := s, st_h := h', st_ck := ck'\<rparr>)"
proof -
  let ?a = "take 48 (drop 32 m)" and ?b = "take 16 (drop 80 m)"
  let ?h1 = "mix_hash (st_h st) re 32" and ?h2 = "mix_hash (mix_hash (st_h st) re 32) ?a 48"
  note f = msg1_fields [OF assms(4)]
  note dl = curve_sizesD(1) [OF assms(1)]
  obtain ck1 k1 where 1: "mix_key (st_ck st) (dh (st_s_priv st) re) 32 = (ck1, k1)" by fastforce
  obtain ck2 k2 where 2: "mix_key ck1 (dh (st_s_priv st) s) 32 = (ck2, k2)" by fastforce
  have "length re = 32" using assms(4) by (simp add: re_def)
  then have h1: "length ?h1 = 64" using assms(2) by (simp add: mix_hash_length sym_ok_def)
  then have h2: "length ?h2 = 64" using f(2) by (simp add: mix_hash_length)
  have ckl: "length (st_ck st) = 64" using assms(2) by (simp add: sym_ok_def)
  note l1 = mix_key_lengthD [OF 1 ckl dl]
  note l2 = mix_key_lengthD [OF 2 l1(1) dl]
  note u1 = unseal_once_iff [OF l1(2) zero12_length, of ?h1 ?a s]
  note u2 = unseal_once_iff [OF l2(2) zero12_length, of ?h2 ?b]
  have "noise_ik_read_msg1 dh (Some m) st = (NOISE_OK, st', Some s) \<longleftrightarrow>
    unseal_once k1 zero12 ?h1 ?a = Some s \<and> (\<exists>p. unseal_once k2 zero12 ?h2 ?b = Some p) \<and>
    st' = st\<lparr>st_re_pub := re, st_rs_pub := s, st_h := mix_hash ?h2 ?b 16, st_ck := ck2\<rparr>"
    using assms(3) 1 2 f h1 h2
    by (auto simp: noise_ik_read_msg1_def noise_sizes code_defs Let_def decrypt_and_hash_zero12 re_def [symmetric]
        split: option.splits if_splits prod.splits)
  also have "\<dots> \<longleftrightarrow> length s = 32 \<and> ?a = seal_once k1 zero12 ?h1 s \<and> ?b = seal_once k2 zero12 ?h2 [] \<and>
    st' = st\<lparr>st_re_pub := re, st_rs_pub := s, st_h := mix_hash ?h2 ?b 16, st_ck := ck2\<rparr>"
  proof -
    have "length s = 32" if "?a = seal_once k1 zero12 ?h1 s"
      using that f(2) seal_once_length [OF l1(2) zero12_length, of ?h1 s] by simp
    moreover have "p = []" if "?b = seal_once k2 zero12 ?h2 p" for p
      using that f(3) seal_once_length [OF l2(2) zero12_length, of ?h2 p] by simp
    ultimately show ?thesis unfolding u1 u2 by blast
  qed
  also have "\<dots> \<longleftrightarrow> length s = 32 \<and>
    (\<exists>h' ck'. ik_msg1 (st_h st) (st_ck st) re (dh (st_s_priv st) re) s (dh (st_s_priv st) s) = (h', ck', m) \<and>
       st' = st\<lparr>st_re_pub := re, st_rs_pub := s, st_h := h', st_ck := ck'\<rparr>)"
  proof -
    let ?x = "seal_once k1 zero12 ?h1 s"
    let ?y = "seal_once k2 zero12 (mix_hash ?h1 ?x 48) []"
    have i: "ik_msg1 (st_h st) (st_ck st) re (dh (st_s_priv st) re) s (dh (st_s_priv st) s) =
      (mix_hash (mix_hash ?h1 ?x 48) ?y 16, ck2, re @ ?x @ ?y)"
      using 1 2 by (simp add: ik_msg1_def Let_def)
    have "re @ ?x @ ?y = m \<longleftrightarrow> ?a = ?x \<and> ?b = seal_once k2 zero12 ?h2 []" if "length s = 32"
    proof -
      have lx: "length ?x = 48" "length ?y = 16"
        using that l1(2) l2(2) by (simp_all add: seal_once_length)
      have "re @ ?x @ ?y = m \<longleftrightarrow> re @ ?x @ ?y = re @ ?a @ ?b" using f(1) by (simp add: re_def)
      also have "\<dots> \<longleftrightarrow> ?a = ?x \<and> ?b = ?y" using lx f(2,3) by auto
      finally show ?thesis by auto
    qed
    then show ?thesis unfolding i by auto
  qed
  finally show ?thesis .
qed

lemma msg2_fields:
  assumes "length m = 48"
  shows "m = take 32 m @ take 16 (drop 32 m)" and "length (take 16 (drop 32 m)) = 16"
proof -
  have "take 16 (drop 32 m) = drop 32 m" using assms by simp
  then show "m = take 32 m @ take 16 (drop 32 m)" by (simp only: append_take_drop_id)
qed (use assms in simp)

lemma read_msg2_iff:
  assumes "curve_sizes dh pk" and "sym_ok st" and "\<not> st_is_server st" and "length m = 48"
  defines "re \<equiv> take 32 m"
  shows "noise_ik_read_msg2 dh (Some m) st = (NOISE_OK, st') \<longleftrightarrow>
    (\<exists>h' ck' k1 k2. ik_msg2 (st_h st) (st_ck st) re (dh (st_e_priv st) re) (dh (st_s_priv st) re) = (h', ck', m) \<and>
       split ck' = (k1, k2) \<and>
       st' = st\<lparr>st_re_pub := re, st_h := h', st_ck := ck', st_send_key := k1, st_recv_key := k2,
                st_send_nonce := 0, st_recv_nonce := 0, st_handshake_done := True\<rparr>)"
proof -
  let ?b = "take 16 (drop 32 m)" and ?h1 = "mix_hash (st_h st) re 32"
  note f = msg2_fields [OF assms(4)]
  note dl = curve_sizesD(1) [OF assms(1)]
  obtain ck1 ka where 1: "mix_key (st_ck st) (dh (st_e_priv st) re) 32 = (ck1, ka)" by fastforce
  obtain ck2 kb where 2: "mix_key ck1 (dh (st_s_priv st) re) 32 = (ck2, kb)" by fastforce
  obtain k1 k2 where 3: "split ck2 = (k1, k2)" by fastforce
  have "length re = 32" using assms(4) by (simp add: re_def)
  then have h1: "length ?h1 = 64" using assms(2) by (simp add: mix_hash_length sym_ok_def)
  have ckl: "length (st_ck st) = 64" using assms(2) by (simp add: sym_ok_def)
  note l1 = mix_key_lengthD [OF 1 ckl dl]
  note l2 = mix_key_lengthD [OF 2 l1(1) dl]
  have u: "(\<exists>p. unseal_once kb zero12 ?h1 ?b = Some p) \<longleftrightarrow> ?b = seal_once kb zero12 ?h1 []"
  proof -
    have "p = []" if "?b = seal_once kb zero12 ?h1 p" for p
      using that f(2) seal_once_length [OF l2(2) zero12_length, of ?h1 p] by simp
    then show ?thesis unfolding unseal_once_iff [OF l2(2) zero12_length] by blast
  qed
  have "noise_ik_read_msg2 dh (Some m) st = (NOISE_OK, st') \<longleftrightarrow>
    (\<exists>p. unseal_once kb zero12 ?h1 ?b = Some p) \<and>
    st' = st\<lparr>st_re_pub := re, st_h := mix_hash ?h1 ?b 16, st_ck := ck2, st_send_key := k1, st_recv_key := k2,
             st_send_nonce := 0, st_recv_nonce := 0, st_handshake_done := True\<rparr>"
    using assms(3) 1 2 3 f h1
    by (auto simp: noise_ik_read_msg2_def noise_sizes code_defs Let_def decrypt_and_hash_zero12 re_def [symmetric]
        split: option.splits if_splits prod.splits)
  also have "\<dots> \<longleftrightarrow> re @ seal_once kb zero12 ?h1 [] = m \<and>
    st' = st\<lparr>st_re_pub := re, st_h := mix_hash ?h1 (seal_once kb zero12 ?h1 []) 16, st_ck := ck2, st_send_key := k1,
             st_recv_key := k2, st_send_nonce := 0, st_recv_nonce := 0, st_handshake_done := True\<rparr>"
  proof -
    have "re @ seal_once kb zero12 ?h1 [] = m \<longleftrightarrow> re @ seal_once kb zero12 ?h1 [] = re @ ?b"
      using f(1) by (simp add: re_def)
    then show ?thesis unfolding u by auto
  qed
  also have "\<dots> \<longleftrightarrow> (\<exists>h' ck' k1 k2.
       ik_msg2 (st_h st) (st_ck st) re (dh (st_e_priv st) re) (dh (st_s_priv st) re) = (h', ck', m) \<and>
       split ck' = (k1, k2) \<and>
       st' = st\<lparr>st_re_pub := re, st_h := h', st_ck := ck', st_send_key := k1, st_recv_key := k2,
                st_send_nonce := 0, st_recv_nonce := 0, st_handshake_done := True\<rparr>)"
    using 1 2 3 by (auto simp: ik_msg2_def Let_def)
  finally show ?thesis .
qed

text \<open>Both sides start from the same symmetric state.\<close>

definition ik_h0 :: "bytes \<Rightarrow> bytes" where
  "ik_h0 s_pub = mix_hash (mix_hash (fst init_symmetric) [] 0) s_pub 32"

lemma ik_h0_length: "length s_pub = 32 \<Longrightarrow> length (ik_h0 s_pub) = 64"
  by (simp add: ik_h0_def noise_lengths)

lemma init_server_eq:
  assumes "length a = 32" and "length b = 32"
  shows "noise_ik_init_server (Some a) (Some b) st0 =
    (NOISE_OK, zero_state\<lparr>st_s_priv := a, st_s_pub := b, st_is_server := True, st_h := ik_h0 b,
                          st_ck := snd init_symmetric\<rparr>)"
  using assms by (simp add: noise_ik_init_server_def Let_def noise_sizes ik_h0_def case_prod_beta)

lemma init_client_eq:
  assumes "length a = 32" and "length b = 32" and "length c = 32"
  shows "noise_ik_init_client (Some a) (Some b) (Some c) st0 =
    (NOISE_OK, zero_state\<lparr>st_s_priv := a, st_s_pub := b, st_rs_pub := c, st_h := ik_h0 c,
                          st_ck := snd init_symmetric\<rparr>)"
  using assms by (simp add: noise_ik_init_client_def Let_def noise_sizes ik_h0_def case_prod_beta zero_state_def)

section \<open>An honest handshake\<close>

text \<open>
  The exchange of \<^verbatim>\<open>do_noise_handshake\<close> with an agent: server key \<open>a\<close>, agent key \<open>b\<close>, the random bytes of
  the agent and of the server, and whatever the two state objects held before.
\<close>

definition honest_handshake ::
    "(bytes \<Rightarrow> bytes \<Rightarrow> bytes) \<Rightarrow> (bytes \<Rightarrow> bytes) \<Rightarrow> bytes \<Rightarrow> bytes \<Rightarrow> bytes option \<Rightarrow> bytes option \<Rightarrow>
     noise_ik_state \<Rightarrow> noise_ik_state \<Rightarrow> int list \<times> bytes option \<times> noise_ik_state \<times> noise_ik_state" where
  "honest_handshake dh pk a b ub ua sv0 ag0 =
     (let (r1, sv) = noise_ik_init_server (Some a) (Some (pk a)) sv0;
          (r2, ag) = noise_ik_init_client (Some b) (Some (pk b)) (Some (pk a)) ag0;
          (r3, ag, m1) = noise_ik_write_msg1 dh pk ub True ag;
          (r4, sv, who) = noise_ik_read_msg1 dh m1 sv;
          (r5, sv, m2) = noise_ik_write_msg2 dh pk ua True sv;
          (r6, ag) = noise_ik_read_msg2 dh m2 ag
      in ([r1, r2, r3, r4, r5, r6], who, sv, ag))"

text \<open>What the key exchange must provide, on 32-byte keys.\<close>

definition key_exchange :: "(bytes \<Rightarrow> bytes \<Rightarrow> bytes) \<Rightarrow> (bytes \<Rightarrow> bytes) \<Rightarrow> bool" where
  "key_exchange dh pk \<longleftrightarrow>
     curve_sizes dh pk \<and> (\<forall>a b. length a = 32 \<longrightarrow> length b = 32 \<longrightarrow> dh a (pk b) = dh b (pk a))"

text \<open>The two ends of one direction of the transport.\<close>

definition linked :: "noise_ik_state \<Rightarrow> noise_ik_state \<Rightarrow> bool" where
  "linked x y \<longleftrightarrow> st_handshake_done x \<and> st_handshake_done y \<and> length (st_send_key x) = 32 \<and>
     st_send_key x = st_recv_key y \<and> st_send_nonce x = st_recv_nonce y"

lemma key_exchangeD:
  assumes "key_exchange dh pk"
  shows "curve_sizes dh pk" and "length x = 32 \<Longrightarrow> length y = 32 \<Longrightarrow> dh x (pk y) = dh y (pk x)"
  using assms by (simp_all add: key_exchange_def)

lemma generate_keypair_pair:
  assumes "length priv = 32" and "noise_ik_generate_keypair pk u priv = (e, ep)"
  shows "ep = pk e" and "length e = 32"
  using generate_keypair_pub [of pk u priv] generate_keypair_length [OF assms(1), of pk u] assms(2) by auto

text \<open>The two states after initialisation, after the first message and after the second.\<close>

definition agent0 :: "(bytes \<Rightarrow> bytes) \<Rightarrow> bytes \<Rightarrow> bytes \<Rightarrow> noise_ik_state" where
  "agent0 pk a b = zero_state\<lparr>st_s_priv := b, st_s_pub := pk b, st_rs_pub := pk a, st_h := ik_h0 (pk a),
     st_ck := snd init_symmetric\<rparr>"

definition server0 :: "(bytes \<Rightarrow> bytes) \<Rightarrow> bytes \<Rightarrow> noise_ik_state" where
  "server0 pk a = zero_state\<lparr>st_s_priv := a, st_s_pub := pk a, st_is_server := True, st_h := ik_h0 (pk a),
     st_ck := snd init_symmetric\<rparr>"

definition agent1 :: "(bytes \<Rightarrow> bytes) \<Rightarrow> bytes \<Rightarrow> bytes \<Rightarrow> bytes \<Rightarrow> bytes \<Rightarrow> bytes \<Rightarrow> noise_ik_state" where
  "agent1 pk a b e h ck = (agent0 pk a b)\<lparr>st_e_priv := e, st_e_pub := pk e, st_h := h, st_ck := ck\<rparr>"

definition server1 :: "(bytes \<Rightarrow> bytes) \<Rightarrow> bytes \<Rightarrow> bytes \<Rightarrow> bytes \<Rightarrow> bytes \<Rightarrow> bytes \<Rightarrow> noise_ik_state" where
  "server1 pk a b e h ck = (server0 pk a)\<lparr>st_re_pub := pk e, st_rs_pub := pk b, st_h := h, st_ck := ck\<rparr>"

lemmas honest_states = agent0_def server0_def agent1_def server1_def zero_state_def

lemma honest_msg1:
  assumes kx: "key_exchange dh pk" and "length a = 32" and "length b = 32"
  obtains e h ck m where "length e = 32" "length h = 64" "length ck = 64"
    and "noise_ik_write_msg1 dh pk u True (agent0 pk a b) = (NOISE_OK, agent1 pk a b e h ck, Some m)"
    and "noise_ik_read_msg1 dh (Some m) (server0 pk a) = (NOISE_OK, server1 pk a b e h ck, Some (pk b))"
proof -
  let ?ag = "agent0 pk a b" and ?sv = "server0 pk a"
  note cs = key_exchangeD(1) [OF kx]
  note dl = curve_sizesD [OF cs]
  have ok: "sym_ok ?ag" "sym_ok ?sv"
    using ik_h0_length [of "pk a"] dl by (simp_all add: sym_ok_def init_symmetric_length agent0_def server0_def)
  obtain e ep where e: "noise_ik_generate_keypair pk u (st_e_priv ?ag) = (e, ep)" by fastforce
  have ep: "ep = pk e" "length e = 32" using generate_keypair_pair [OF _ e] by (simp_all add: honest_states)
  let ?es = "dh e (pk a)" and ?ss = "dh b (pk a)"
  obtain h ck m where m: "ik_msg1 (st_h ?ag) (st_ck ?ag) ep ?es (pk b) ?ss = (h, ck, m)"
    by (cases "ik_msg1 (st_h ?ag) (st_ck ?ag) ep ?es (pk b) ?ss") auto
  have l: "length h = 64" "length ck = 64" "length m = 96"
    using ik_msg1_length [OF _ _ _ _ _ _ m] ok ep dl by (simp_all add: sym_ok_def)
  have t: "take 32 m = ep" using m dl ep by (auto simp: ik_msg1_def Let_def split: prod.splits)
  show thesis
  proof (rule that)
    show "noise_ik_write_msg1 dh pk u True ?ag = (NOISE_OK, agent1 pk a b e h ck, Some m)"
      using write_msg1_eq [OF cs ok(1), of u e ep h ck m] e m dl ep by (simp add: honest_states)
    show "noise_ik_read_msg1 dh (Some m) ?sv = (NOISE_OK, server1 pk a b e h ck, Some (pk b))"
      using read_msg1_iff [OF cs ok(2) _ l(3), of "server1 pk a b e h ck" "pk b"] m t dl ep
        key_exchangeD(2) [OF kx] assms(2,3) by (simp add: honest_states)
  qed (use ep l in simp_all)
qed

lemma honest_msg2:
  fixes a :: bytes
  assumes kx: "key_exchange dh pk" and "length b = 32" and "length e = 32" and "length h = 64" and "length ck = 64"
  defines "ag \<equiv> agent1 pk a b e h ck" and "sv \<equiv> server1 pk a b e h ck"
  obtains f h' ck' m k1 k2 where "length k1 = 32" "length k2 = 32"
    and "noise_ik_write_msg2 dh pk u True sv =
      (NOISE_OK, sv\<lparr>st_e_priv := f, st_e_pub := pk f, st_h := h', st_ck := ck', st_recv_key := k1, st_send_key := k2,
         st_send_nonce := 0, st_recv_nonce := 0, st_handshake_done := True\<rparr>, Some m)"
    and "noise_ik_read_msg2 dh (Some m) ag =
      (NOISE_OK, ag\<lparr>st_re_pub := pk f, st_h := h', st_ck := ck', st_send_key := k1, st_recv_key := k2,
         st_send_nonce := 0, st_recv_nonce := 0, st_handshake_done := True\<rparr>)"
proof -
  note cs = key_exchangeD(1) [OF kx]
  note dl = curve_sizesD [OF cs]
  have ok: "sym_ok ag" "sym_ok sv" using assms(4,5) by (simp_all add: sym_ok_def ag_def sv_def honest_states)
  obtain f fp where f: "noise_ik_generate_keypair pk u (st_e_priv sv) = (f, fp)" by fastforce
  have fp: "fp = pk f" "length f = 32" using generate_keypair_pair [OF _ f] by (simp_all add: sv_def honest_states)
  let ?ee = "dh f (pk e)" and ?se = "dh f (pk b)"
  obtain h' ck' m where m: "ik_msg2 h ck fp ?ee ?se = (h', ck', m)" by (cases "ik_msg2 h ck fp ?ee ?se") auto
  have l: "length h' = 64" "length ck' = 64" "length m = 48"
    using ik_msg2_length [OF _ _ _ _ _ m] assms(4,5) fp dl by simp_all
  have t: "take 32 m = fp" using m dl fp by (auto simp: ik_msg2_def Let_def split: prod.splits)
  obtain k1 k2 where k: "split ck' = (k1, k2)" by fastforce
  show thesis
  proof (rule that)
    show "length k1 = 32" "length k2 = 32" using split_length [OF l(2)] k by simp_all
    show "noise_ik_write_msg2 dh pk u True sv =
      (NOISE_OK, sv\<lparr>st_e_priv := f, st_e_pub := pk f, st_h := h', st_ck := ck', st_recv_key := k1, st_send_key := k2,
         st_send_nonce := 0, st_recv_nonce := 0, st_handshake_done := True\<rparr>, Some m)"
      using write_msg2_eq [OF cs ok(2) _ f] m k fp by (simp add: sv_def honest_states)
    show "noise_ik_read_msg2 dh (Some m) ag =
      (NOISE_OK, ag\<lparr>st_re_pub := pk f, st_h := h', st_ck := ck', st_send_key := k1, st_recv_key := k2,
         st_send_nonce := 0, st_recv_nonce := 0, st_handshake_done := True\<rparr>)"
      using read_msg2_iff [OF cs ok(1) _ l(3)] m t k fp key_exchangeD(2) [OF kx] assms(2,3)
      by (simp add: ag_def honest_states)
  qed
qed

lemma handshake_parts:
  assumes kx: "key_exchange dh pk" and "length a = 32" and "length b = 32"
  obtains sv ag where "honest_handshake dh pk a b ub ua sv0 ag0 = (replicate 6 NOISE_OK, Some (pk b), sv, ag)"
    and "linked sv ag" and "linked ag sv" and "st_rs_pub sv = pk b" and "st_rs_pub ag = pk a" and "st_h sv = st_h ag"
    and "st_send_nonce sv = 0" and "st_send_nonce ag = 0"
proof -
  note dl = curve_sizesD [OF key_exchangeD(1) [OF kx]]
  obtain e h ck m1 where l: "length e = 32" "length h = 64" "length ck = 64"
    and w1: "noise_ik_write_msg1 dh pk ub True (agent0 pk a b) = (NOISE_OK, agent1 pk a b e h ck, Some m1)"
    and r1: "noise_ik_read_msg1 dh (Some m1) (server0 pk a) = (NOISE_OK, server1 pk a b e h ck, Some (pk b))"
    by (rule honest_msg1 [OF assms, of ub])
  let ?sv = "server1 pk a b e h ck" and ?ag = "agent1 pk a b e h ck"
  obtain f h' ck' m2 k1 k2 where k: "length k1 = 32" "length k2 = 32"
    and w2: "noise_ik_write_msg2 dh pk ua True ?sv =
      (NOISE_OK, ?sv\<lparr>st_e_priv := f, st_e_pub := pk f, st_h := h', st_ck := ck', st_recv_key := k1, st_send_key := k2,
         st_send_nonce := 0, st_recv_nonce := 0, st_handshake_done := True\<rparr>, Some m2)"
    and r2: "noise_ik_read_msg2 dh (Some m2) ?ag =
      (NOISE_OK, ?ag\<lparr>st_re_pub := pk f, st_h := h', st_ck := ck', st_send_key := k1, st_recv_key := k2,
         st_send_nonce := 0, st_recv_nonce := 0, st_handshake_done := True\<rparr>)"
    by (rule honest_msg2 [OF kx assms(3) l, of ua a])
  have i: "noise_ik_init_server (Some a) (Some (pk a)) sv0 = (NOISE_OK, server0 pk a)"
    "noise_ik_init_client (Some b) (Some (pk b)) (Some (pk a)) ag0 = (NOISE_OK, agent0 pk a b)"
    using init_server_eq [OF assms(2) dl(2)] init_client_eq [OF assms(3) dl(2) dl(2)]
    by (simp_all add: agent0_def server0_def)
  show thesis
    by (rule that [OF _ _ _ _ _ _ _ _], simp add: honest_handshake_def i w1 r1 w2 r2 numeral_eq_Suc)
       (simp_all add: linked_def k honest_states)
qed

end
