(* ===== verification/Transport.thy ===== *)
theory Transport
  imports Handshake
begin

text \<open>
  The transport of noise_ik.c as a channel: a locale for two ends that share a key and a message
  counter, its interpretation on the modelled encryption and decryption, and the properties of the
  handshake and of the channel it opens.
\<close>

section \<open>The interface of an authenticated channel\<close>

text \<open>
  \<open>link x y\<close>: what \<open>x\<close> sends is what \<open>y\<close> expects. Sending and receiving serve one direction and leave
  the other alone; a receiver accepts only what the linked sender would send next, and a rejected
  message changes nothing.
\<close>

locale channel =
  fixes link :: "'s \<Rightarrow> 's \<Rightarrow> bool"
    and send :: "'m \<Rightarrow> 's \<Rightarrow> 's \<times> 'c"
    and recv :: "'c \<Rightarrow> 's \<Rightarrow> 's \<times> 'm option"
  assumes recv_send: "link x y \<Longrightarrow> send p x = (x', c) \<Longrightarrow> \<exists>y'. recv c y = (y', Some p) \<and> link x' y'"
    and send_other: "link y x \<Longrightarrow> send p x = (x', c) \<Longrightarrow> link y x'"
    and recv_other: "link y x \<Longrightarrow> recv c y = (y', r) \<Longrightarrow> link y' x"
    and recv_auth: "link x y \<Longrightarrow> recv c y = (y', Some p) \<Longrightarrow> \<exists>x'. send p x = (x', c)"
    and recv_reject: "recv c y = (y', None) \<Longrightarrow> y' = y"
begin

primrec sends :: "'m list \<Rightarrow> 's \<Rightarrow> 's \<times> 'c list" where
  "sends [] x = (x, [])"
| "sends (p # ps) x = (let (x, c) = send p x; (x, cs) = sends ps x in (x, c # cs))"

text \<open>What is accepted of a stream of cipher texts, each with the message it gave.\<close>

primrec recvs :: "'c list \<Rightarrow> 's \<Rightarrow> 's \<times> ('c \<times> 'm) list" where
  "recvs [] y = (y, [])"
| "recvs (c # cs) y =
     (let (y, r) = recv c y; (y, acc) = recvs cs y in (y, (case r of None \<Rightarrow> acc | Some p \<Rightarrow> (c, p) # acc)))"

text \<open>A dialogue: each message with its direction, and what its receiver gets.\<close>

primrec talk :: "(bool \<times> 'm) list \<Rightarrow> 's \<Rightarrow> 's \<Rightarrow> 'm option list" where
  "talk [] x y = []"
| "talk (e # es) x y =
     (if fst e then (let (x, c) = send (snd e) x; (y, r) = recv c y in r # talk es x y)
      else (let (y, c) = send (snd e) y; (x, r) = recv c x in r # talk es x y))"

lemma delivery:
  assumes "link x y" and "sends ps x = (x', cs)"
  shows "\<exists>y'. recvs cs y = (y', zip cs ps) \<and> link x' y'"
  using assms
proof (induction ps arbitrary: x y x' cs)
  case (Cons p ps)
  obtain x1 c where s: "send p x = (x1, c)" by fastforce
  obtain y1 where r: "recv c y = (y1, Some p)" and l: "link x1 y1" using recv_send [OF Cons.prems(1) s] by blast
  obtain x2 cs2 where ss: "sends ps x1 = (x2, cs2)" by fastforce
  with Cons.IH [OF l ss] s r Cons.prems(2) show ?case by auto
qed auto

lemma integrity:
  assumes "link x y" and "recvs cs y = (y', acc)"
  shows "\<exists>x'. sends (map snd acc) x = (x', map fst acc) \<and> link x' y'"
  using assms
proof (induction cs arbitrary: x y y' acc)
  case (Cons c cs)
  obtain y1 r where r: "recv c y = (y1, r)" by fastforce
  obtain y2 acc2 where rs: "recvs cs y1 = (y2, acc2)" by fastforce
  show ?case
  proof (cases r)
    case None
    then have "y1 = y" using r recv_reject by blast
    then show ?thesis using Cons r rs None by simp
  next
    case (Some p)
    then obtain x1 where s: "send p x = (x1, c)" using recv_auth Cons.prems(1) r by blast
    then have "link x1 y1" using recv_send [OF Cons.prems(1) s] r Some by auto
    from Cons.IH [OF this rs] s r rs Cons.prems(2) Some show ?thesis by (auto simp: Let_def)
  qed
qed auto

lemma dialogue: "link x y \<Longrightarrow> link y x \<Longrightarrow> talk es x y = map (\<lambda>e. Some (snd e)) es"
proof (induction es arbitrary: x y)
  case (Cons e es)
  have step: "\<exists>y'. recv c y = (y', Some p) \<and> link x' y' \<and> link y' x'"
    if "link x y" "link y x" "send p x = (x', c)" for x y x' c p
    using recv_send [OF that(1,3)] send_other [OF that(2,3)] recv_other by blast
  obtain x1 c where s: "send (snd e) x = (x1, c)" by fastforce
  obtain y1 d where t: "send (snd e) y = (y1, d)" by fastforce
  show ?case
    using step [OF Cons.prems s] step [OF Cons.prems(2,1) t] Cons.IH s t by (auto simp: Let_def)
qed simp

end

section \<open>The transport is such a channel\<close>

definition chan_send :: "bytes \<Rightarrow> noise_ik_state \<Rightarrow> noise_ik_state \<times> bytes" where
  "chan_send p st = (case noise_ik_encrypt p (length p) True st of (_, st', out) \<Rightarrow>
     (st', case out of None \<Rightarrow> [] | Some c \<Rightarrow> c))"

definition chan_recv :: "bytes \<Rightarrow> noise_ik_state \<Rightarrow> noise_ik_state \<times> bytes option" where
  "chan_recv c st = (case noise_ik_decrypt (Some c) (length c) True st of (rc, st', out) \<Rightarrow>
     (st', if rc = NOISE_OK then out else None))"

lemma nonce12_length [simp]: "length (nonce12_of n) = 12"
  by (simp add: nonce12_of_def)

lemma encrypt_eq:
  "st_handshake_done st \<Longrightarrow> noise_ik_encrypt p (length p) True st =
    (NOISE_OK, st\<lparr>st_send_nonce := st_send_nonce st + 1\<rparr>, Some (seal_once (st_send_key st) (nonce12_of (st_send_nonce st)) [] p))"
  using aead_write_eq [of _ "[]" p]
  by (simp add: noise_ik_encrypt_def Let_def seal_once_def aead_seal_def case_prod_beta)

lemma decrypt_eq:
  assumes "st_handshake_done st"
  shows "noise_ik_decrypt (Some c) (length c) True st =
    (case unseal_once (st_recv_key st) (nonce12_of (st_recv_nonce st)) [] c of
       None \<Rightarrow> (NOISE_ERR_AUTH, st, None)
     | Some p \<Rightarrow> (NOISE_OK, st\<lparr>st_recv_nonce := st_recv_nonce st + 1\<rparr>, Some p))"
proof (cases "length c < 16")
  case True
  then show ?thesis using assms by (simp add: noise_ik_decrypt_def noise_sizes unseal_once_def)
next
  case False
  let ?ctx = "crypto_aead_init_ietf (st_recv_key st) (nonce12_of (st_recv_nonce st))"
  have "length (drop (length c - 16) c) = 16" using False by simp
  note r = aead_read_eq [OF this, of ?ctx "[]" "take (length c - 16) c"]
  have "length (take (length c - 16) c) = length c - 16" by simp
  with r show ?thesis using False assms
    by (simp add: noise_ik_decrypt_def unseal_once_def aead_unseal_def noise_sizes Let_def case_prod_beta)
qed

lemma unseal_seal_once [simp]:
  "length k = 32 \<Longrightarrow> length n = 12 \<Longrightarrow> unseal_once k n ad (seal_once k n ad p) = Some p"
  by (simp add: unseal_once_iff)

interpretation noise: channel linked chan_send chan_recv
proof unfold_locales
  fix x y x' p c assume "linked x y" "chan_send p x = (x', c)"
  then show "\<exists>y'. chan_recv c y = (y', Some p) \<and> linked x' y'"
    by (auto simp: linked_def chan_send_def chan_recv_def encrypt_eq decrypt_eq)
next
  fix x y x' p c assume "linked y x" "chan_send p x = (x', c)"
  then show "linked y x'" by (auto simp: linked_def chan_send_def encrypt_eq)
next
  fix x y y' c r assume "linked y x" "chan_recv c y = (y', r)"
  then show "linked y' x" by (auto simp: linked_def chan_recv_def decrypt_eq split: option.splits)
next
  fix x y y' p c assume "linked x y" "chan_recv c y = (y', Some p)"
  then show "\<exists>x'. chan_send p x = (x', c)"
    using unseal_once_iff [of "st_recv_key y" "nonce12_of (st_recv_nonce y)" "[]" c p]
    by (auto simp: linked_def chan_send_def chan_recv_def encrypt_eq decrypt_eq NOISE_OK_def NOISE_ERR_AUTH_def
        split: option.splits)
next
  fix y y' c assume "chan_recv c y = (y', None)"
  then show "y' = y"
    by (cases "st_handshake_done y")
       (auto simp: chan_recv_def decrypt_eq NOISE_OK_def NOISE_ERR_AUTH_def split: option.splits,
        simp add: noise_ik_decrypt_def)
qed

section \<open>Nonces\<close>

lemma nonce12_of_inject:
  assumes "nonce12_of m = nonce12_of n"
  shows "m = n"
proof (rule bit_word_eqI)
  fix i assume i: "i < LENGTH(64)"
  have j: "i div 8 < 8" using i by (simp add: less_mult_imp_div_less)
  have "\<forall>x\<in>{0..<8}. (ucast (drop_bit (8 * x) m) :: u8) = ucast (drop_bit (8 * x) n)"
    using assms by (simp add: nonce12_of_def)
  then have "(ucast (drop_bit (8 * (i div 8)) m) :: u8) = ucast (drop_bit (8 * (i div 8)) n)"
    using j by simp
  then have "bit (ucast (drop_bit (8 * (i div 8)) m) :: u8) (i mod 8) =
      bit (ucast (drop_bit (8 * (i div 8)) n) :: u8) (i mod 8)"
    by simp
  moreover have "8 * (i div 8) + i mod 8 = i" by simp
  ultimately show "bit m i = bit n i" by (simp add: bit_ucast_iff bit_drop_bit_eq)
qed

lemma sends_eq:
  assumes "st_handshake_done st"
  shows "noise.sends ps st = (st\<lparr>st_send_nonce := st_send_nonce st + of_nat (length ps)\<rparr>,
    map (\<lambda>i. seal_once (st_send_key st) (nonce12_of (st_send_nonce st + of_nat i)) [] (ps ! i)) [0..<length ps])"
  using assms
proof (induction ps arbitrary: st)
  case (Cons p ps)
  let ?st = "st\<lparr>st_send_nonce := st_send_nonce st + 1\<rparr>"
  have "chan_send p st = (?st, seal_once (st_send_key st) (nonce12_of (st_send_nonce st)) [] p)"
    using Cons.prems by (simp add: chan_send_def encrypt_eq)
  then show ?case using Cons.IH [of ?st] Cons.prems
    by (simp add: map_upt_Suc add.assoc del: upt_Suc)
qed simp

section \<open>Properties\<close>

text \<open>C27. Honest parties agree: with any commutative key exchange on 32-byte keys, whatever the random
  device delivers (or when it cannot be opened) and whatever the state objects held before, all six
  operations of the handshake return success, the server learns the agent's static key, both ends hold
  the same handshake hash, are ready for transport, have nonces 0, and each end's sending key is the
  other's receiving key.\<close>

theorem handshake_agreement:
  assumes "key_exchange dh pk" and "length a = 32" and "length b = 32"
  shows "case honest_handshake dh pk a b ub ua sv0 ag0 of (codes, who, sv, ag) \<Rightarrow>
    codes = replicate 6 NOISE_OK \<and> who = Some (pk b) \<and> st_rs_pub sv = pk b \<and> st_rs_pub ag = pk a \<and>
    st_h sv = st_h ag \<and> st_handshake_done sv \<and> st_handshake_done ag \<and>
    st_send_key sv = st_recv_key ag \<and> st_recv_key sv = st_send_key ag \<and>
    st_send_nonce sv = 0 \<and> st_recv_nonce sv = 0 \<and> st_send_nonce ag = 0 \<and> st_recv_nonce ag = 0"
  by (rule handshake_parts [OF assms, of ub ua sv0 ag0]) (simp add: linked_def)

text \<open>A key exchange for the witnesses: exclusive or of keys padded to 32 bytes.\<close>

definition toy_pk :: "bytes \<Rightarrow> bytes" where
  "toy_pk a = map (\<lambda>i. if i < length a then a ! i else 0) [0..<32]"

definition toy_dh :: "bytes \<Rightarrow> bytes \<Rightarrow> bytes" where
  "toy_dh a b = map2 (XOR) (toy_pk a) (toy_pk b)"

lemma toy_key_exchange: "key_exchange toy_dh toy_pk"
proof -
  have "toy_dh a (toy_pk b) = toy_dh b (toy_pk a)" if "length a = 32" "length b = 32" for a b :: bytes
    using that by (intro nth_equalityI) (simp_all add: toy_dh_def toy_pk_def xor.commute)
  then show ?thesis by (simp add: key_exchange_def curve_sizes_def) (simp add: toy_dh_def toy_pk_def)
qed

theorem handshake_agreement_witness:
  "fst (honest_handshake toy_dh toy_pk (replicate 32 1) (replicate 32 2) (Some (replicate 32 9)) None
      zero_state zero_state) = replicate 6 NOISE_OK"
  using handshake_agreement [OF toy_key_exchange, of "replicate 32 1" "replicate 32 2" "Some (replicate 32 9)" None
      zero_state zero_state]
  by (simp add: case_prod_beta)

text \<open>C28. The server accepts a first message exactly when it is the one the protocol's token sequence
  makes of some 32-byte static key: success with key s means that the 96 bytes are the ephemeral key,
  s sealed under the key and hash that follow from it, and the empty payload sealed under the key that
  follows from the second exchange with s; then the state holds that ephemeral key, s, and the hash and
  chaining key of the protocol.\<close>

theorem read_msg1_exact:
  assumes "curve_sizes dh pk" and "st_is_server st" and "length (st_h st) = 64" and "length (st_ck st) = 64"
    and "length m = 96"
  shows "noise_ik_read_msg1 dh (Some m) st = (NOISE_OK, st', Some s) \<longleftrightarrow>
    length s = 32 \<and>
    (\<exists>h' ck'. ik_msg1 (st_h st) (st_ck st) (take 32 m) (dh (st_s_priv st) (take 32 m)) s (dh (st_s_priv st) s) = (h', ck', m) \<and>
       st' = st\<lparr>st_re_pub := take 32 m, st_rs_pub := s, st_h := h', st_ck := ck'\<rparr>)"
  using read_msg1_iff [OF assms(1) _ assms(2,5)] assms(3,4) by (simp add: sym_ok_def)

theorem read_msg1_exact_witness:
  "(\<exists>st' s. noise_ik_read_msg1 toy_dh (Some (replicate 96 0)) (zero_state\<lparr>st_is_server := True\<rparr>) = (NOISE_OK, st', Some s)) \<longleftrightarrow>
   (\<exists>s h ck. length s = 32 \<and> ik_msg1 (replicate 64 0) (replicate 64 0) (replicate 32 0) (replicate 32 0) s
      (toy_dh (replicate 32 0) s) = (h, ck, replicate 96 0))"
proof -
  have d: "toy_dh (replicate 32 0) (replicate 32 0) = replicate 32 0"
    by (intro nth_equalityI) (simp_all add: toy_dh_def toy_pk_def)
  have c: "curve_sizes toy_dh toy_pk" using toy_key_exchange by (simp add: key_exchange_def)
  show ?thesis
    using d by (subst read_msg1_exact [OF c]) (auto simp: zero_state_def)
qed

text \<open>C29. After an honest handshake every dialogue gets through: whatever messages the two ends send, in
  whatever order the directions alternate, each is decrypted by the other end to exactly what was sent.\<close>

theorem session_dialogue:
  assumes "key_exchange dh pk" and "length a = 32" and "length b = 32"
    and "honest_handshake dh pk a b ub ua sv0 ag0 = (codes, who, sv, ag)"
  shows "noise.talk es sv ag = map (\<lambda>e. Some (snd e)) es"
  by (rule handshake_parts [OF assms(1-3), of ub ua sv0 ag0]) (use assms(4) noise.dialogue in simp)

theorem session_dialogue_witness:
  "\<exists>sv ag. noise.talk [(True, [1]), (True, []), (False, [2, 3])] sv ag = [Some [1], Some [], Some [2, 3]]"
proof -
  obtain codes who sv ag where "honest_handshake toy_dh toy_pk (replicate 32 1) (replicate 32 2) None None
      zero_state zero_state = (codes, who, sv, ag)"
    by (cases "honest_handshake toy_dh toy_pk (replicate 32 1) (replicate 32 2) None None zero_state zero_state") auto
  from session_dialogue [OF toy_key_exchange _ _ this, of "[(True, [1]), (True, []), (False, [2, 3])]"]
  show ?thesis by auto
qed

text \<open>C30. No forgery, replay, loss or reordering is accepted without breaking the cipher: whatever stream
  of byte strings reaches the receiving end, the accepted ones are, in order, exactly what the linked
  sender's encryption produces for the messages that were accepted, starting from its current nonce, and
  the two ends are linked again afterwards. Everything else is dropped without a trace in the state.\<close>

theorem transport_integrity:
  assumes "linked x y" and "noise.recvs cs y = (y', acc)"
  shows "\<exists>x'. noise.sends (map snd acc) x = (x', map fst acc) \<and> linked x' y'"
  by (rule noise.integrity [OF assms])

theorem transport_integrity_witness:
  "\<exists>acc x'. noise.sends (map snd acc) (zero_state\<lparr>st_handshake_done := True\<rparr>) = (x', map fst acc)"
proof -
  let ?st = "zero_state\<lparr>st_handshake_done := True\<rparr>"
  obtain y acc where r: "noise.recvs [[1, 2, 3], replicate 20 0] ?st = (y, acc)" by fastforce
  have "linked ?st ?st" by (simp add: linked_def zero_state_def)
  from transport_integrity [OF this r] show ?thesis by blast
qed

text \<open>C31. A key is never used twice with one nonce before 2^64 messages: the i-th cipher text of a run
  of encryptions is sealed under the sending key with the nonce counter advanced by i, and the 12-byte
  nonces of up to 2^64 messages are pairwise different.\<close>

theorem transport_nonces_fresh:
  assumes "st_handshake_done st" and "length ps \<le> 2 ^ 64"
  shows "\<exists>ns. distinct ns \<and> length ns = length ps \<and>
    snd (noise.sends ps st) = map2 (\<lambda>n p. seal_once (st_send_key st) n [] p) ns ps"
proof -
  let ?n = "\<lambda>i. nonce12_of (st_send_nonce st + of_nat i)"
  have "inj_on ?n {0..<length ps}"
  proof (rule inj_onI)
    fix i j assume "i \<in> {0..<length ps}" "j \<in> {0..<length ps}" and e: "?n i = ?n j"
    then have "i < 2 ^ 64" "j < 2 ^ 64" using assms(2) by auto
    moreover have "(of_nat i :: u64) = of_nat j" using nonce12_of_inject [OF e] by simp
    ultimately show "i = j" by (simp add: word_of_nat_eq_iff take_bit_nat_eq_self)
  qed
  then have "distinct (map ?n [0..<length ps])" by (simp add: distinct_map)
  moreover have "snd (noise.sends ps st) =
      map2 (\<lambda>n p. seal_once (st_send_key st) n [] p) (map ?n [0..<length ps]) ps"
    by (intro nth_equalityI) (simp_all add: sends_eq [OF assms(1)])
  ultimately show ?thesis by (intro exI [of _ "map ?n [0..<length ps]"]) simp
qed

theorem transport_nonces_fresh_witness:
  "\<exists>ns. distinct ns \<and> length ns = 2 \<and>
    snd (noise.sends [[1], [1]] (zero_state\<lparr>st_handshake_done := True\<rparr>)) =
    map2 (\<lambda>n p. seal_once (replicate 32 0) n [] p) ns [[1], [1]]"
  using transport_nonces_fresh [of "zero_state\<lparr>st_handshake_done := True\<rparr>" "[[1], [1]]"]
  by (simp add: zero_state_def flip: numeral_2_eq_2)

text \<open>C32. Misuse of the Noise interface is an error value that changes nothing: a null pointer gives the
  parameter error, the wrong role or a handshake that is not finished gives the state error, both leave
  the state as it was and write no output; otherwise a writing operation succeeds, a reading one succeeds
  or reports an authentication failure, and a failed decryption leaves the state and the output untouched.\<close>

theorem noise_error_paths:
  "(if m = None then noise_ik_read_msg1 dh m st = (NOISE_ERR_PARAM, st, None)
    else if \<not> st_is_server st then noise_ik_read_msg1 dh m st = (NOISE_ERR_STATE, st, None)
    else fst (noise_ik_read_msg1 dh m st) \<in> {NOISE_OK, NOISE_ERR_AUTH}) \<and>
   (if m = None then noise_ik_read_msg2 dh m st = (NOISE_ERR_PARAM, st)
    else if st_is_server st then noise_ik_read_msg2 dh m st = (NOISE_ERR_STATE, st)
    else fst (noise_ik_read_msg2 dh m st) \<in> {NOISE_OK, NOISE_ERR_AUTH}) \<and>
   (if \<not> out then noise_ik_write_msg1 dh pk u out st = (NOISE_ERR_PARAM, st, None)
    else if st_is_server st then noise_ik_write_msg1 dh pk u out st = (NOISE_ERR_STATE, st, None)
    else fst (noise_ik_write_msg1 dh pk u out st) = NOISE_OK) \<and>
   (if \<not> out then noise_ik_write_msg2 dh pk u out st = (NOISE_ERR_PARAM, st, None)
    else if \<not> st_is_server st then noise_ik_write_msg2 dh pk u out st = (NOISE_ERR_STATE, st, None)
    else fst (noise_ik_write_msg2 dh pk u out st) = NOISE_OK) \<and>
   (if \<not> out then noise_ik_encrypt p (length p) out st = (NOISE_ERR_PARAM, st, None)
    else if \<not> st_handshake_done st then noise_ik_encrypt p (length p) out st = (NOISE_ERR_STATE, st, None)
    else fst (noise_ik_encrypt p (length p) out st) = NOISE_OK) \<and>
   (if \<not> out then noise_ik_decrypt (Some c) (length c) out st = (NOISE_ERR_PARAM, st, None)
    else if \<not> st_handshake_done st then noise_ik_decrypt (Some c) (length c) out st = (NOISE_ERR_STATE, st, None)
    else noise_ik_decrypt (Some c) (length c) out st = (NOISE_ERR_AUTH, st, None) \<or>
      fst (noise_ik_decrypt (Some c) (length c) out st) = NOISE_OK)"
proof -
  have d: "fst (decrypt_and_hash h k x n) \<in> {NOISE_OK, NOISE_ERR_AUTH}" for h k x n
    by (simp add: decrypt_and_hash_def Let_def case_prod_beta)
  have d': "rc = NOISE_OK \<or> rc = NOISE_ERR_AUTH" if "decrypt_and_hash h k x n = (rc, y)" for rc h k x n y
    using d [of h k x n] that by simp
  have "m = None \<or> \<not> st_is_server st \<or> fst (noise_ik_read_msg1 dh m st) \<in> {NOISE_OK, NOISE_ERR_AUTH}"
    by (auto simp: noise_ik_read_msg1_def Let_def dest: d' split: option.splits prod.splits)
  moreover have "m = None \<or> st_is_server st \<or> fst (noise_ik_read_msg2 dh m st) \<in> {NOISE_OK, NOISE_ERR_AUTH}"
    by (auto simp: noise_ik_read_msg2_def Let_def dest: d' split: option.splits prod.splits)
  moreover have "\<not> st_handshake_done st \<or> noise_ik_decrypt (Some c) (length c) True st = (NOISE_ERR_AUTH, st, None) \<or>
      fst (noise_ik_decrypt (Some c) (length c) True st) = NOISE_OK"
    by (simp add: decrypt_eq split: option.split)
  moreover have "m = None \<Longrightarrow> noise_ik_read_msg1 dh m st = (NOISE_ERR_PARAM, st, None)"
    "m = None \<Longrightarrow> noise_ik_read_msg2 dh m st = (NOISE_ERR_PARAM, st)"
    "m \<noteq> None \<Longrightarrow> \<not> st_is_server st \<Longrightarrow> noise_ik_read_msg1 dh m st = (NOISE_ERR_STATE, st, None)"
    "m \<noteq> None \<Longrightarrow> st_is_server st \<Longrightarrow> noise_ik_read_msg2 dh m st = (NOISE_ERR_STATE, st)"
    by (auto simp: noise_ik_read_msg1_def noise_ik_read_msg2_def)
  moreover have "fst (noise_ik_write_msg1 dh pk u True st) = NOISE_OK" if "\<not> st_is_server st"
    using that by (simp add: noise_ik_write_msg1_def Let_def case_prod_beta)
  moreover have "fst (noise_ik_write_msg2 dh pk u True st) = NOISE_OK" if "st_is_server st"
    using that by (simp add: noise_ik_write_msg2_def Let_def case_prod_beta)
  moreover have "\<not> out \<Longrightarrow> noise_ik_write_msg1 dh pk u out st = (NOISE_ERR_PARAM, st, None)"
    "\<not> out \<Longrightarrow> noise_ik_write_msg2 dh pk u out st = (NOISE_ERR_PARAM, st, None)"
    "\<not> out \<Longrightarrow> noise_ik_encrypt p (length p) out st = (NOISE_ERR_PARAM, st, None)"
    "\<not> out \<Longrightarrow> noise_ik_decrypt (Some c) (length c) out st = (NOISE_ERR_PARAM, st, None)"
    "out \<Longrightarrow> st_is_server st \<Longrightarrow> noise_ik_write_msg1 dh pk u out st = (NOISE_ERR_STATE, st, None)"
    "out \<Longrightarrow> \<not> st_is_server st \<Longrightarrow> noise_ik_write_msg2 dh pk u out st = (NOISE_ERR_STATE, st, None)"
    "out \<Longrightarrow> \<not> st_handshake_done st \<Longrightarrow> noise_ik_encrypt p (length p) out st = (NOISE_ERR_STATE, st, None)"
    "out \<Longrightarrow> \<not> st_handshake_done st \<Longrightarrow> noise_ik_decrypt (Some c) (length c) out st = (NOISE_ERR_STATE, st, None)"
    by (simp_all add: noise_ik_write_msg1_def noise_ik_write_msg2_def noise_ik_encrypt_def noise_ik_decrypt_def)
  ultimately show ?thesis using encrypt_eq [of st p] by (cases "m = None"; cases out) auto
qed

end
