(* ===== verification/Whitelist.thy ===== *)
theory Whitelist
  imports CStdio Noise
begin

unbundle bit_operations_syntax

text \<open>
  The whitelist of agent keys (src/src/asyd/core/whitelist.c and whitelist.h): the parser of the key
  file, the membership check and the wipe. The key file is an argument, none when it cannot be opened;
  \<open>creatable\<close> says whether opening it for writing succeeds then. A line being parsed is the string from
  the pointer up to its NUL.
\<close>

definition WHITELIST_MAX_AGENTS :: nat where [code_defs]: "WHITELIST_MAX_AGENTS = 64"
definition WHITELIST_LABEL_SIZE :: nat where [code_defs]: "WHITELIST_LABEL_SIZE = 32"
definition WL_OK :: int where [code_defs]: "WL_OK = 0"
definition WL_ERR_DENIED :: int where [code_defs]: "WL_ERR_DENIED = - 1"
definition WL_ERR_IO :: int where [code_defs]: "WL_ERR_IO = - 2"

record agent_entry =
  ag_pub :: bytes
  ag_label :: bytes

record whitelist =
  wl_entries :: "agent_entry list"
  wl_count :: nat

definition zero_agent :: agent_entry where
  "zero_agent = \<lparr>ag_pub = replicate 32 0, ag_label = replicate 32 0\<rparr>"

definition zero_whitelist :: whitelist where
  "zero_whitelist = \<lparr>wl_entries = replicate WHITELIST_MAX_AGENTS zero_agent, wl_count = 0\<rparr>"

section \<open>Hexadecimal keys\<close>

definition hex_nibble :: "u8 \<Rightarrow> int" where
  "hex_nibble c =
     (if 48 \<le> c \<and> c \<le> 57 then uint c - 48
      else if 97 \<le> c \<and> c \<le> 102 then uint c - 97 + 10
      else if 65 \<le> c \<and> c \<le> 70 then uint c - 65 + 10
      else - 1)"

text \<open>The result code, and the key buffer with what was written before an error.\<close>

primrec hex_decode_loop :: "nat \<Rightarrow> nat \<Rightarrow> bytes \<Rightarrow> bytes \<Rightarrow> int \<times> bytes" where
  "hex_decode_loop 0 i hex buf = (0, buf)"
| "hex_decode_loop (Suc n) i hex buf =
     (let hi = hex_nibble (hex ! (2 * i));
          lo = hex_nibble (hex ! (2 * i + 1))
      in if hi < 0 \<or> lo < 0 then (- 1, buf)
         else hex_decode_loop n (i + 1) hex (buf[i := word_of_int (push_bit 4 hi OR lo)]))"

definition hex_decode32 :: "bytes \<Rightarrow> bytes \<Rightarrow> int \<times> bytes" where
  "hex_decode32 hex buf = hex_decode_loop NOISE_KEY_SIZE 0 hex buf"

section \<open>Loading\<close>

definition is_blank :: "u8 \<Rightarrow> bool" where
  "is_blank c \<longleftrightarrow> c = 32 \<or> c = 9"

definition load_line :: "bytes \<Rightarrow> whitelist \<Rightarrow> whitelist" where
  "load_line line wl =
     (let p = dropWhile is_blank (cstr line)
      in if p = [] \<or> hd p = 35 \<or> hd p = 10 then wl
         else if strlen p < 64 then wl
         else
           let n = wl_count wl;
               e = wl_entries wl ! n;
               (rc, pub) = hex_decode32 p (ag_pub e);
               e = e\<lparr>ag_pub := pub\<rparr>
           in if rc \<noteq> 0 then wl\<lparr>wl_entries := (wl_entries wl)[n := e]\<rparr>
              else
                let label = takeWhile (\<lambda>c. c \<noteq> 10 \<and> c \<noteq> 13) (dropWhile is_blank (drop 64 p));
                    llen = (if WHITELIST_LABEL_SIZE \<le> length label then WHITELIST_LABEL_SIZE - 1 else length label);
                    e = (if label \<noteq> []
                         then e\<lparr>ag_label := take llen label @ 0 # drop (llen + 1) (ag_label e)\<rparr> else e)
                in wl\<lparr>wl_entries := (wl_entries wl)[n := e], wl_count := n + 1\<rparr>)"

function load_lines :: "bytes \<Rightarrow> whitelist \<Rightarrow> whitelist" where
  "load_lines f wl =
     (case fgets 128 f of
        None \<Rightarrow> wl
      | Some (line, f') \<Rightarrow>
          if wl_count wl < WHITELIST_MAX_AGENTS then load_lines f' (load_line line wl) else wl)"
  by pat_completeness auto
termination
  by (relation "measure (\<lambda>(f, _). length f)") (auto dest: fgets_progress)

declare load_lines.simps [simp del]

text \<open>The file written when there is none.\<close>

definition whitelist_template :: bytes where
  "whitelist_template =
     ascii ''# /etc/asyd/authorized_agents '' @ [0xE2, 0x80, 0x94] @ ascii '' authorized agent public keys'' @ [10] @
     ascii ''#'' @ [10] @
     ascii ''# One entry per line:'' @ [10] @
     ascii ''#   <64-char hex Curve25519 pubkey>  [optional-label]'' @ [10] @
     ascii ''#'' @ [10] @
     ascii ''# Example:'' @ [10] @
     ascii ''#   9d0c10df7237b1cf77380ae676ee500fe4da9873476c2e46378cad5e3cc2ba52  my-agent'' @ [10] @
     ascii ''#'' @ [10] @
     ascii ''# To add an agent, run asys_keygen.py on the client, then copy'' @ [10] @
     ascii ''# the printed Fingerprint hex to this file:'' @ [10] @
     ascii ''#   echo '' @ [34] @ ascii ''<pubkey_hex>  <label>'' @ [34] @ ascii '' >> /etc/asyd/authorized_agents'' @ [10]"

text \<open>The result code, the whitelist, and what is written to a newly created key file.\<close>

definition whitelist_load :: "whitelist option \<Rightarrow> bytes option \<Rightarrow> bool \<Rightarrow> int \<times> whitelist option \<times> bytes option" where
  "whitelist_load wl file creatable =
     (case wl of None \<Rightarrow> (WL_ERR_IO, None, None) | Some _ \<Rightarrow>
      let wl = zero_whitelist
      in case file of
           None \<Rightarrow> (WL_OK, Some wl, if creatable then Some whitelist_template else None)
         | Some f \<Rightarrow> (WL_OK, Some (load_lines f wl), None))"

section \<open>Check and wipe\<close>

definition whitelist_check :: "whitelist option \<Rightarrow> bytes option \<Rightarrow> int" where
  "whitelist_check wl pub =
     (case (wl, pub) of
        (Some wl, Some pub) \<Rightarrow>
          (case find_first (\<lambda>e. crypto_verify32 (ag_pub e) pub = 0) (take (wl_count wl) (wl_entries wl)) of
             Some _ \<Rightarrow> WL_OK | None \<Rightarrow> WL_ERR_DENIED)
      | _ \<Rightarrow> WL_ERR_DENIED)"

definition whitelist_wipe :: "whitelist option \<Rightarrow> whitelist option" where
  "whitelist_wipe wl = map_option (\<lambda>_. zero_whitelist) wl"

section \<open>What the loader computes\<close>

text \<open>The key a piece of the file contributes: its first 64 characters after blanks, when all are hex digits.\<close>

definition is_hex :: "u8 \<Rightarrow> bool" where
  "is_hex c \<longleftrightarrow> hex_nibble c \<ge> 0"

definition hex_bytes :: "bytes \<Rightarrow> bytes" where
  "hex_bytes hex = map (\<lambda>i. word_of_int (push_bit 4 (hex_nibble (hex ! (2 * i))) OR hex_nibble (hex ! (2 * i + 1)))) [0..<32]"

definition line_key :: "bytes \<Rightarrow> bytes option" where
  "line_key line =
     (let p = dropWhile is_blank (cstr line)
      in if 64 \<le> length p \<and> (\<forall>c \<in> set (take 64 p). is_hex c) then Some (hex_bytes p) else None)"

definition file_keys :: "bytes \<Rightarrow> bytes list" where
  "file_keys f = take WHITELIST_MAX_AGENTS (List.map_filter line_key (lines_of 128 f))"

definition wf_whitelist :: "whitelist \<Rightarrow> bool" where
  "wf_whitelist wl \<longleftrightarrow> length (wl_entries wl) = WHITELIST_MAX_AGENTS \<and> wl_count wl \<le> WHITELIST_MAX_AGENTS \<and>
     (\<forall>e \<in> set (wl_entries wl). length (ag_pub e) = 32 \<and> length (ag_label e) = 32)"

definition wl_keys :: "whitelist \<Rightarrow> bytes list" where
  "wl_keys wl = map ag_pub (take (wl_count wl) (wl_entries wl))"

lemma hex_decode_loop_ok:
  assumes "i + n \<le> length buf" and "\<forall>j < n. is_hex (hex ! (2 * (i + j))) \<and> is_hex (hex ! (2 * (i + j) + 1))"
  shows "hex_decode_loop n i hex buf = (0, take i buf @
    map (\<lambda>j. word_of_int (push_bit 4 (hex_nibble (hex ! (2 * j))) OR hex_nibble (hex ! (2 * j + 1)))) [i..<i + n] @
    drop (i + n) buf)"
  using assms
proof (induction n arbitrary: i buf)
  case (Suc n)
  have h: "is_hex (hex ! (2 * i))" "is_hex (hex ! (2 * i + 1))" using Suc.prems(2) by (auto dest: spec [of _ 0])
  have t: "\<forall>j < n. is_hex (hex ! (2 * (i + 1 + j))) \<and> is_hex (hex ! (2 * (i + 1 + j) + 1))"
  proof (intro allI impI)
    fix j assume "j < n"
    then have "Suc j < Suc n" by simp
    from Suc.prems(2) [rule_format, OF this] show "is_hex (hex ! (2 * (i + 1 + j))) \<and> is_hex (hex ! (2 * (i + 1 + j) + 1))"
      by simp
  qed
  let ?b = "buf[i := word_of_int (push_bit 4 (hex_nibble (hex ! (2 * i))) OR hex_nibble (hex ! (2 * i + 1)))]"
  have "i + 1 + n \<le> length ?b" using Suc.prems(1) by simp
  from Suc.IH [OF this t] h Suc.prems(1) show ?case
    by (simp add: is_hex_def take_Suc_nth upt_conv_Cons del: upt_Suc)
qed simp

lemma hex_decode_loop_bad:
  assumes "j < n" and "\<not> is_hex (hex ! (2 * (i + j))) \<or> \<not> is_hex (hex ! (2 * (i + j) + 1))"
  shows "fst (hex_decode_loop n i hex buf) = - 1"
  using assms
proof (induction n arbitrary: i j buf)
  case (Suc n)
  show ?case
  proof (cases j)
    case 0
    then show ?thesis using Suc.prems(2) by (auto simp: is_hex_def Let_def)
  next
    case (Suc k)
    then show ?thesis using Suc.IH [of k "i + 1"] Suc.prems by (simp add: Let_def)
  qed
qed simp

lemma hex_decode_loop_length: "length (snd (hex_decode_loop n i hex buf)) = length buf"
  by (induction n arbitrary: i buf) (simp_all add: Let_def)

lemma hex_decode32_length: "length (snd (hex_decode32 hex buf)) = length buf"
  by (simp add: hex_decode32_def hex_decode_loop_length)

lemma all_hex_pairs:
  "64 \<le> length hex \<Longrightarrow> (\<forall>c \<in> set (take 64 hex). is_hex c) \<longleftrightarrow> (\<forall>j < 32. is_hex (hex ! (2 * j)) \<and> is_hex (hex ! (2 * j + 1)))"
proof
  assume l: "64 \<le> length hex" and a: "\<forall>c \<in> set (take 64 hex). is_hex c"
  then have n: "is_hex (hex ! k)" if "k < 64" for k
    using that by (metis in_set_conv_nth length_take min.absorb2 nth_take)
  show "\<forall>j < 32. is_hex (hex ! (2 * j)) \<and> is_hex (hex ! (2 * j + 1))" by (auto intro!: n)
next
  assume l: "64 \<le> length hex" and a: "\<forall>j < 32. is_hex (hex ! (2 * j)) \<and> is_hex (hex ! (2 * j + 1))"
  have "is_hex (hex ! k)" if "k < 64" for k
  proof -
    have "k div 2 < 32" using that by simp
    with a have "is_hex (hex ! (2 * (k div 2)))" "is_hex (hex ! (2 * (k div 2) + 1))" by auto
    moreover have "k = 2 * (k div 2) \<or> k = 2 * (k div 2) + 1" by presburger
    ultimately show ?thesis by metis
  qed
  then show "\<forall>c \<in> set (take 64 hex). is_hex c" by (auto simp: in_set_conv_nth)
qed

lemma hex_decode32_iff:
  assumes "64 \<le> length hex" and "length buf = 32"
  shows "hex_decode32 hex buf = (0, hex_bytes hex) \<longleftrightarrow> (\<forall>c \<in> set (take 64 hex). is_hex c)"
    and "fst (hex_decode32 hex buf) = 0 \<longleftrightarrow> (\<forall>c \<in> set (take 64 hex). is_hex c)"
proof -
  have y: "hex_decode32 hex buf = (0, hex_bytes hex)" if "\<forall>c \<in> set (take 64 hex). is_hex c"
    using that hex_decode_loop_ok [of 0 32 buf hex] assms
    by (simp add: all_hex_pairs hex_decode32_def noise_sizes hex_bytes_def)
  have n: "fst (hex_decode32 hex buf) = - 1" if bad: "\<not> (\<forall>c \<in> set (take 64 hex). is_hex c)"
  proof -
    from bad obtain j where "j < 32" "\<not> is_hex (hex ! (2 * j)) \<or> \<not> is_hex (hex ! (2 * j + 1))"
      using all_hex_pairs [OF assms(1)] by blast
    then show ?thesis using hex_decode_loop_bad [of j 32 hex 0 buf] by (simp add: hex_decode32_def noise_sizes)
  qed
  show "hex_decode32 hex buf = (0, hex_bytes hex) \<longleftrightarrow> (\<forall>c \<in> set (take 64 hex). is_hex c)"
    using y n by fastforce
  show "fst (hex_decode32 hex buf) = 0 \<longleftrightarrow> (\<forall>c \<in> set (take 64 hex). is_hex c)"
    using y n by fastforce
qed

lemma not_is_hex: "\<not> is_hex 35" "\<not> is_hex 10" "\<not> is_hex 0" "\<not> is_hex 32"
  by (simp_all add: is_hex_def hex_nibble_def)

lemma cstr_strlen: "0 \<notin> set p \<Longrightarrow> strlen p = length p"
  by (simp add: strlen_def cstr_id)

lemma cstr_dropWhile_no_nul: "0 \<notin> set (dropWhile P (cstr s))"
  using cstr_no_nul [of s] set_dropWhileD by fastforce

lemma line_key_length: "line_key l = Some k \<Longrightarrow> length k = 32"
  by (auto simp: line_key_def hex_bytes_def Let_def split: if_splits)

lemma load_line_none:
  assumes "wf_whitelist wl" and "wl_count wl < WHITELIST_MAX_AGENTS" and "line_key l = None"
  shows "wf_whitelist (load_line l wl)" and "wl_keys (load_line l wl) = wl_keys wl"
    and "wl_count (load_line l wl) = wl_count wl"
proof -
  define p where "p = dropWhile is_blank (cstr l)"
  let ?e = "wl_entries wl ! wl_count wl"
  have n: "wl_count wl < length (wl_entries wl)" using assms(1,2) by (simp add: wf_whitelist_def)
  then have e: "length (ag_pub ?e) = 32" "length (ag_label ?e) = 32" using assms(1) by (auto simp: wf_whitelist_def)
  have sl: "strlen p = length p" using cstr_strlen [of p] cstr_dropWhile_no_nul [of is_blank l] by (simp add: p_def)
  have "load_line l wl = wl \<or> (\<exists>pub. length pub = 32 \<and>
      load_line l wl = wl\<lparr>wl_entries := (wl_entries wl)[wl_count wl := ?e\<lparr>ag_pub := pub\<rparr>]\<rparr>)"
  proof (cases "p = [] \<or> hd p = 35 \<or> hd p = 10 \<or> length p < 64")
    case True
    then show ?thesis using sl by (auto simp: load_line_def Let_def p_def)
  next
    case False
    then have nh: "\<not> (\<forall>c \<in> set (take 64 p). is_hex c)"
      using assms(3) by (simp add: line_key_def p_def [symmetric] Let_def split: if_splits)
    obtain rc pub where d: "hex_decode32 p (ag_pub ?e) = (rc, pub)" by fastforce
    have "rc \<noteq> 0" using hex_decode32_iff(2) [of p "ag_pub ?e"] nh False e d by simp
    moreover have "length pub = 32" using hex_decode32_length [of p "ag_pub ?e"] e d by simp
    ultimately show ?thesis using False sl d by (auto simp: load_line_def Let_def p_def [symmetric])
  qed
  then show "wf_whitelist (load_line l wl)" "wl_keys (load_line l wl) = wl_keys wl"
    "wl_count (load_line l wl) = wl_count wl"
    using assms(1) e set_update_subset_insert [of "wl_entries wl" "wl_count wl"]
    by (fastforce simp: wf_whitelist_def wl_keys_def)+
qed

lemma load_line_some:
  assumes "wf_whitelist wl" and "wl_count wl < WHITELIST_MAX_AGENTS" and "line_key l = Some k"
  shows "wf_whitelist (load_line l wl)" and "wl_keys (load_line l wl) = wl_keys wl @ [k]"
    and "wl_count (load_line l wl) = wl_count wl + 1"
proof -
  define p where "p = dropWhile is_blank (cstr l)"
  let ?n = "wl_count wl" and ?e = "wl_entries wl ! wl_count wl"
  have n: "?n < length (wl_entries wl)" using assms(1,2) by (simp add: wf_whitelist_def)
  then have e: "length (ag_pub ?e) = 32" "length (ag_label ?e) = 32" using assms(1) by (auto simp: wf_whitelist_def)
  have sl: "strlen p = length p" using cstr_strlen [of p] cstr_dropWhile_no_nul [of is_blank l] by (simp add: p_def)
  have k: "64 \<le> length p" "\<forall>c \<in> set (take 64 p). is_hex c" "k = hex_bytes p"
    using assms(3) by (auto simp: line_key_def p_def [symmetric] Let_def split: if_splits)
  have d: "hex_decode32 p (ag_pub ?e) = (0, k)" using hex_decode32_iff(1) [of p "ag_pub ?e"] k e by simp
  have hp: "p \<noteq> []" "hd p \<noteq> 35" "hd p \<noteq> 10"
  proof -
    show ne: "p \<noteq> []" using k(1) by auto
    then have "hd p \<in> set (take 64 p)" by (cases p) auto
    then show "hd p \<noteq> 35" "hd p \<noteq> 10" using k(2) not_is_hex by metis+
  qed
  define lab where "lab = takeWhile (\<lambda>c. c \<noteq> 10 \<and> c \<noteq> 13) (dropWhile is_blank (drop 64 p))"
  define ll where "ll = (if WHITELIST_LABEL_SIZE \<le> length lab then WHITELIST_LABEL_SIZE - 1 else length lab)"
  define e' where "e' = (if lab \<noteq> []
      then ?e\<lparr>ag_pub := k, ag_label := take ll lab @ 0 # drop (ll + 1) (ag_label ?e)\<rparr> else ?e\<lparr>ag_pub := k\<rparr>)"
  have l: "load_line l wl = wl\<lparr>wl_entries := (wl_entries wl)[?n := e'], wl_count := ?n + 1\<rparr>"
    using hp k(1) sl d by (simp add: load_line_def Let_def p_def [symmetric] lab_def [symmetric] ll_def [symmetric] e'_def)
  have "ll < 32" "ll \<le> length lab" by (auto simp: ll_def WHITELIST_LABEL_SIZE_def)
  then have el: "length (ag_pub e') = 32" "length (ag_label e') = 32" "ag_pub e' = k"
    using e hex_decode32_length [of p "ag_pub ?e"] d by (auto simp: e'_def)
  show "wl_count (load_line l wl) = wl_count wl + 1" by (simp add: l)
  show "wf_whitelist (load_line l wl)"
    using assms(1,2) el set_update_subset_insert [of "wl_entries wl" ?n e'] by (auto simp: l wf_whitelist_def)
  show "wl_keys (load_line l wl) = wl_keys wl @ [k]"
    using n el(3) by (simp add: l wl_keys_def take_Suc_nth)
qed

lemma load_lines_correct:
  assumes "wf_whitelist wl"
  shows "wf_whitelist (load_lines f wl) \<and>
    wl_keys (load_lines f wl) = take WHITELIST_MAX_AGENTS (wl_keys wl @ List.map_filter line_key (lines_of 128 f))"
  using assms
proof (induction f wl rule: load_lines.induct)
  case (1 f wl)
  have kl: "length (wl_keys wl) = wl_count wl" "wl_count wl \<le> WHITELIST_MAX_AGENTS"
    using "1.prems" by (auto simp: wl_keys_def wf_whitelist_def)
  show ?case
  proof (cases "fgets 128 f")
    case None
    then have "lines_of 128 f = []" by (simp add: lines_of.simps)
    then show ?thesis using None "1.prems" kl by (subst load_lines.simps, subst (2) load_lines.simps) simp
  next
    case (Some lf)
    obtain l f' where lf: "lf = (l, f')" by fastforce
    have ls: "lines_of 128 f = l # lines_of 128 f'" using Some lf by (intro lines_of_fgets) auto
    show ?thesis
    proof (cases "wl_count wl < WHITELIST_MAX_AGENTS")
      case False
      then show ?thesis using Some lf kl "1.prems" by (subst load_lines.simps, subst (2) load_lines.simps) simp
    next
      case True
      have e: "load_lines f wl = load_lines f' (load_line l wl)" using Some lf True by (simp add: load_lines.simps)
      show ?thesis
      proof (cases "line_key l")
        case None
        then show ?thesis using "1.IH" [OF Some lf [symmetric] True] load_line_none [OF "1.prems" True None]
          by (simp add: e ls List.map_filter_def)
      next
        case (Some k)
        then show ?thesis using "1.IH" [OF \<open>fgets 128 f = Some lf\<close> lf [symmetric] True] load_line_some [OF "1.prems" True Some]
          by (simp add: e ls List.map_filter_def)
      qed
    qed
  qed
qed

lemma wf_zero_whitelist: "wf_whitelist zero_whitelist"
  by (auto simp: wf_whitelist_def zero_whitelist_def zero_agent_def WHITELIST_MAX_AGENTS_def)

lemma load_keys:
  assumes "whitelist_load (Some wl0) (Some f) b = (rc, Some wl, out)"
  shows "rc = WL_OK" and "out = None" and "wf_whitelist wl" and "wl_keys wl = file_keys f"
  using assms load_lines_correct [OF wf_zero_whitelist, of f]
  by (auto simp: whitelist_load_def Let_def file_keys_def wl_keys_def zero_whitelist_def)

lemma check_iff:
  assumes "wf_whitelist wl" and "length pub = 32"
  shows "whitelist_check (Some wl) (Some pub) = (if pub \<in> set (wl_keys wl) then WL_OK else WL_ERR_DENIED)"
proof -
  let ?es = "take (wl_count wl) (wl_entries wl)"
  have "crypto_verify32 (ag_pub e) pub = 0 \<longleftrightarrow> ag_pub e = pub" if "e \<in> set ?es" for e
  proof -
    have "length (ag_pub e) = 32" using assms(1) that by (auto simp: wf_whitelist_def dest: in_set_takeD)
    then show ?thesis using verify32 [of "ag_pub e" pub] assms(2) by simp
  qed
  then have "find_first (\<lambda>e. crypto_verify32 (ag_pub e) pub = 0) ?es = None \<longleftrightarrow> pub \<notin> ag_pub ` set ?es"
    by (auto simp: find_first_None)
  then show ?thesis by (auto simp: whitelist_check_def wl_keys_def split: option.split)
qed

section \<open>Written files\<close>

text \<open>A key file as an administrator writes it: lower-case hexadecimal, a blank, a label.\<close>

definition hex_digit :: "u8 \<Rightarrow> u8" where
  "hex_digit n = (if n < 10 then 48 + n else 87 + n)"

definition hex_text :: "bytes \<Rightarrow> bytes" where
  "hex_text k = concat (map (\<lambda>b. [hex_digit (b div 16), hex_digit (b mod 16)]) k)"

definition entry_line :: "bytes \<Rightarrow> bytes \<Rightarrow> bytes" where
  "entry_line k label = hex_text k @ 32 # label @ [10]"

lemma nibble_cases: "(n :: u8) < 16 \<Longrightarrow> n \<in> set (map word_of_nat [0..<16])"
  by (intro image_eqI [of _ word_of_nat "unat n", THEN subst [OF list.set_map [symmetric], of "\<lambda>x. n \<in> x"]])
     (simp_all add: word_less_nat_alt)

lemma hex_nibble_digit_all: "\<forall>n \<in> set (map word_of_nat [0..<16]). hex_nibble (hex_digit n) = uint n"
  by code_simp

lemma hex_nibble_digit: "n < 16 \<Longrightarrow> hex_nibble (hex_digit n) = uint n"
  using hex_nibble_digit_all nibble_cases by blast

lemma hex_text_length [simp]: "length (hex_text k) = 2 * length k"
  by (induction k) (simp_all add: hex_text_def)

lemma hex_text_nth:
  "i < length k \<Longrightarrow> hex_text k ! (2 * i) = hex_digit (k ! i div 16)"
  "i < length k \<Longrightarrow> hex_text k ! (2 * i + 1) = hex_digit (k ! i mod 16)"
proof (induction k arbitrary: i)
  case (Cons b k)
  case 1
  then show ?case using Cons.IH(1) by (cases i) (simp_all add: hex_text_def)
next
  case (Cons b k)
  case 2
  then show ?case using Cons.IH(2) by (cases i) (simp_all add: hex_text_def)
qed simp_all

lemma nibbles: "(b :: u8) div 16 < 16" "b mod 16 < 16"
  by (simp_all add: word_less_nat_alt unat_div unat_mod less_mult_imp_div_less unsigned_less [of b, where 'a = nat, simplified])

lemma join_nibbles: "word_of_int (push_bit 4 (uint ((b :: u8) div 16)) OR uint (b mod 16)) = b"
proof -
  have d: "b div 16 = drop_bit 4 b" by (simp add: drop_bit_eq_div)
  have m: "b mod 16 = take_bit 4 b" by (simp add: take_bit_eq_mod)
  show ?thesis unfolding d m
    by (rule bit_word_eqI) (auto simp: bit_simps)
qed

lemma hex_text_key:
  assumes "length k = 32"
  shows "hex_bytes (hex_text k @ r) = k" and "\<forall>c \<in> set (hex_text k). is_hex c"
proof -
  show "hex_bytes (hex_text k @ r) = k"
    using assms hex_text_nth [where k = k]
    by (intro nth_equalityI) (simp_all add: hex_bytes_def nth_append hex_nibble_digit nibbles join_nibbles)
  show "\<forall>c \<in> set (hex_text k). is_hex c"
    by (auto simp: hex_text_def is_hex_def hex_nibble_digit nibbles)
qed

lemma hex_not_blank: "is_hex c \<Longrightarrow> \<not> is_blank c \<and> c \<noteq> 0 \<and> c \<noteq> 10"
  by (auto simp: is_hex_def hex_nibble_def is_blank_def split: if_splits)

lemma line_key_entry:
  assumes "length k = 32" and "0 \<notin> set label"
  shows "line_key (entry_line k label) = Some k"
proof -
  let ?l = "entry_line k label"
  note h = hex_text_key [OF assms(1)]
  have "0 \<notin> set ?l" using h(2) assms(2) hex_not_blank by (auto simp: entry_line_def)
  then have c: "cstr ?l = ?l" by (rule cstr_id)
  have "hex_text k \<noteq> []" using assms(1) by (metis hex_text_length length_0_conv mult_is_0 zero_neq_numeral)
  then obtain x xs where x: "hex_text k = x # xs" by (cases "hex_text k") auto
  then have "\<not> is_blank x" using h(2) hex_not_blank by simp
  then have d: "dropWhile is_blank ?l = ?l" using x by (simp add: entry_line_def)
  have "take 64 ?l = hex_text k" using assms(1) by (simp add: entry_line_def)
  then show ?thesis using h assms(1) by (simp add: line_key_def c d) (simp add: entry_line_def)
qed

text \<open>A 32-byte key and a label that fits the line buffer.\<close>

definition entry_ok :: "bytes \<Rightarrow> bytes \<Rightarrow> bool" where
  "entry_ok k label \<longleftrightarrow> length k = 32 \<and> length label \<le> 61 \<and> 0 \<notin> set label \<and> 10 \<notin> set label"

lemma file_keys_entries:
  assumes "\<forall>e \<in> set es. entry_ok (fst e) (snd e)"
  shows "List.map_filter line_key (lines_of 128 (concat (map (\<lambda>(k, l). entry_line k l) es))) = map fst es"
  using assms
proof (induction es)
  case (Cons e es)
  obtain k l where e: "e = (k, l)" by fastforce
  have p: "length k = 32" "length l \<le> 61" "0 \<notin> set l" "10 \<notin> set l" using Cons.prems e by (auto simp: entry_ok_def)
  have n: "10 \<notin> set (hex_text k @ 32 # l)" using hex_text_key(2) [OF p(1)] hex_not_blank p(4) by auto
  have "lines_of 128 (entry_line k l @ r) = entry_line k l # lines_of 128 r" for r
    using lines_of_line [OF n, of 128 r] p(1,2) by (simp add: entry_line_def)
  then show ?case using Cons.IH Cons.prems line_key_entry [OF p(1,3)] e by (simp add: List.map_filter_def)
qed (simp add: List.map_filter_def)

lemma comment_line: "line_key (35 # l) = None"
  by (simp add: line_key_def Let_def cstr_def is_blank_def not_is_hex)

definition template_lines :: "bytes list" where
  "template_lines =
    [ascii ''# /etc/asyd/authorized_agents '' @ [0xE2, 0x80, 0x94] @ ascii '' authorized agent public keys'',
     ascii ''#'', ascii ''# One entry per line:'', ascii ''#   <64-char hex Curve25519 pubkey>  [optional-label]'',
     ascii ''#'', ascii ''# Example:'',
     ascii ''#   9d0c10df7237b1cf77380ae676ee500fe4da9873476c2e46378cad5e3cc2ba52  my-agent'',
     ascii ''#'', ascii ''# To add an agent, run asys_keygen.py on the client, then copy'',
     ascii ''# the printed Fingerprint hex to this file:'',
     ascii ''#   echo '' @ [34] @ ascii ''<pubkey_hex>  <label>'' @ [34] @ ascii '' >> /etc/asyd/authorized_agents'']"

lemma template_lines_ok:
  "list_all (\<lambda>l. 10 \<notin> set l \<and> length l + 2 \<le> 128 \<and> l \<noteq> [] \<and> hd l = 35) template_lines"
  by code_simp

lemma file_keys_template: "file_keys whitelist_template = []"
proof -
  have t: "whitelist_template = concat (map (\<lambda>l. l @ [10]) template_lines)"
    by (simp add: whitelist_template_def template_lines_def)
  have p: "10 \<notin> set l \<and> length l + 2 \<le> 128 \<and> l \<noteq> [] \<and> hd l = 35" if "l \<in> set template_lines" for l
    using template_lines_ok that by (auto simp: list_all_iff)
  then have "lines_of 128 whitelist_template = map (\<lambda>l. l @ [10]) template_lines"
    unfolding t by (intro lines_of_lines) auto
  moreover have "line_key (l @ [10]) = None" if "l \<in> set template_lines" for l
  proof -
    obtain x where "l = 35 # x" using p [of l] \<open>l \<in> set template_lines\<close> by (cases l) auto
    then show ?thesis by (simp add: comment_line)
  qed
  then have "List.map_filter line_key (map (\<lambda>l. l @ [10]) template_lines) = []"
    by (auto simp: List.map_filter_def filter_empty_conv)
  ultimately show ?thesis by (simp add: file_keys_def)
qed

section \<open>Properties\<close>

text \<open>C33. The whitelist admits exactly the keys of the file: after loading, an agent's 32-byte key passes
  the constant-time check if and only if it is one of the first 64 keys among the pieces of at most 127
  characters in which the file is read, a piece giving a key when, after blanks, it starts with 64
  hexadecimal digits.\<close>

theorem whitelist_admits_exactly:
  assumes "whitelist_load (Some wl0) (Some f) creatable = (rc, Some wl, out)" and "length pub = 32"
  shows "rc = WL_OK \<and> wl_count wl \<le> WHITELIST_MAX_AGENTS \<and>
    whitelist_check (Some wl) (Some pub) = (if pub \<in> set (file_keys f) then WL_OK else WL_ERR_DENIED)"
  using check_iff [OF load_keys(3) [OF assms(1)] assms(2)] load_keys [OF assms(1)]
  by (simp add: wf_whitelist_def)

theorem whitelist_admits_exactly_witness:
  "whitelist_check (fst (snd (whitelist_load (Some zero_whitelist) (Some (entry_line (replicate 32 7) [])) False)))
     (Some (replicate 32 7)) = WL_OK"
proof -
  let ?f = "entry_line (replicate 32 7) []"
  obtain rc wl out where l: "whitelist_load (Some zero_whitelist) (Some ?f) False = (rc, Some wl, out)"
    by (simp add: whitelist_load_def Let_def)
  have "file_keys ?f = [replicate 32 7]"
    using file_keys_entries [of "[(replicate 32 7, [])]"] by (simp add: file_keys_def entry_ok_def WHITELIST_MAX_AGENTS_def)
  then show ?thesis using whitelist_admits_exactly [OF l, of "replicate 32 7"] l by simp
qed

text \<open>A file written as documented is read back: for at most 64 entries, each the lower-case
  hexadecimal form of a 32-byte key, a blank and a label of at most 61 characters without line ends or
  NUL, loading succeeds and exactly the written keys are admitted.\<close>

theorem whitelist_file_roundtrip:
  assumes "\<forall>e \<in> set es. entry_ok (fst e) (snd e)"
    and "length es \<le> 64" and "length pub = 32"
  shows "\<exists>wl. whitelist_load (Some wl0) (Some (concat (map (\<lambda>(k, l). entry_line k l) es))) creatable = (WL_OK, Some wl, None) \<and>
    (whitelist_check (Some wl) (Some pub) = WL_OK \<longleftrightarrow> pub \<in> fst ` set es)"
proof -
  let ?f = "concat (map (\<lambda>(k, l). entry_line k l) es)"
  obtain wl where l: "whitelist_load (Some wl0) (Some ?f) creatable = (WL_OK, Some wl, None)"
    by (simp add: whitelist_load_def Let_def)
  have "file_keys ?f = map fst es"
    using assms(2) by (simp only: file_keys_def file_keys_entries [OF assms(1)]) (simp add: WHITELIST_MAX_AGENTS_def)
  then show ?thesis
    using check_iff [OF load_keys(3) [OF l] assms(3)] load_keys(4) [OF l] l
    by (auto simp: WL_OK_def WL_ERR_DENIED_def)
qed

theorem whitelist_file_roundtrip_witness:
  "whitelist_check (fst (snd (whitelist_load (Some zero_whitelist)
     (Some (entry_line (replicate 32 1) [] @ entry_line (replicate 32 0xAB) [109, 101])) False))) (Some (replicate 32 0xAB)) = WL_OK"
  using whitelist_file_roundtrip [of "[(replicate 32 1, []), (replicate 32 0xAB, [109, 101])]" "replicate 32 0xAB" zero_whitelist False]
  by (auto simp: entry_ok_def)

text \<open>Default deny: before any administrator has acted nobody is admitted. When the key file does
  not exist loading succeeds with an empty list, the file that is then created is read back as an empty
  list, a wiped list is empty, and null pointers are refused.\<close>

theorem whitelist_default_deny:
  assumes "length pub = 32"
  shows "whitelist_load (Some wl0) None creatable = (WL_OK, Some zero_whitelist, if creatable then Some whitelist_template else None) \<and>
    whitelist_check (Some zero_whitelist) (Some pub) = WL_ERR_DENIED \<and>
    whitelist_check (whitelist_wipe (Some wl0)) (Some pub) = WL_ERR_DENIED \<and>
    whitelist_check (fst (snd (whitelist_load (Some wl0) (Some whitelist_template) False))) (Some pub) = WL_ERR_DENIED \<and>
    whitelist_check None (Some pub) = WL_ERR_DENIED \<and> whitelist_check (Some wl0) None = WL_ERR_DENIED \<and>
    fst (whitelist_load None (Some f) creatable) = WL_ERR_IO"
proof -
  have z: "whitelist_check (Some zero_whitelist) (Some pub) = WL_ERR_DENIED"
    using check_iff [OF wf_zero_whitelist assms] by (simp add: wl_keys_def zero_whitelist_def)
  obtain wl where l: "whitelist_load (Some wl0) (Some whitelist_template) False = (WL_OK, Some wl, None)"
    by (simp add: whitelist_load_def Let_def)
  have "whitelist_check (Some wl) (Some pub) = WL_ERR_DENIED"
    using check_iff [OF load_keys(3) [OF l] assms] load_keys(4) [OF l] by (simp add: file_keys_template)
  with z l show ?thesis by (simp add: whitelist_load_def whitelist_wipe_def whitelist_check_def Let_def)
qed

theorem whitelist_default_deny_witness:
  "whitelist_check (whitelist_wipe (Some zero_whitelist)) (Some (replicate 32 0)) = WL_ERR_DENIED"
  using whitelist_default_deny [of "replicate 32 0" zero_whitelist False "[]"] by simp

end
