(* ===== verification/Session.thy ===== *)
theory Session
  imports Dispatcher Transport Whitelist
begin

unbundle bit_operations_syntax

text \<open>
  One client connection of the daemon (\<^verbatim>\<open>handle_client\<close> of src/src/asyd/asyd.c and the functions it
  calls). A socket is what successive \<^verbatim>\<open>recv\<close> calls will find (a list of segments; an empty segment, or the
  end of the list, is an end of file, a timeout or an error), what was sent, and how many bytes each
  \<^verbatim>\<open>send\<close> accepts. The curve, the random device and the operating system's readings are arguments as in the
  theories below. The log lines are not represented, but the frames that are dispatched are: the trace of a
  session holds each of them with the receive buffer it points into, its answer's length and status word.
\<close>

section \<open>The socket\<close>

record conn =
  cn_in :: "bytes list"
  cn_out :: "bytes list"
  cn_accepts :: "nat \<Rightarrow> int"

text \<open>At most \<open>n\<close> bytes of the first segment; nothing means a return value that is not positive.\<close>

definition recv :: "nat \<Rightarrow> bytes list \<Rightarrow> bytes \<times> bytes list" where
  "recv n segs =
     (case segs of
        [] \<Rightarrow> ([], [])
      | s # ss \<Rightarrow> (take n s, if length s \<le> n then ss else drop n s # ss))"

lemma recv_shrinks: "recv n segs = (r, segs') \<Longrightarrow> concat segs = r @ concat segs'"
  by (auto simp: recv_def split: list.splits if_splits)

lemma recv_length: "recv n segs = (r, segs') \<Longrightarrow> length r \<le> n"
  by (auto simp: recv_def split: list.splits if_splits)

text \<open>The buffer after \<open>n\<close> bytes have arrived, none when a call fails before.\<close>

function recv_loop :: "nat \<Rightarrow> bytes \<Rightarrow> bytes list \<Rightarrow> bytes option \<times> bytes list" where
  "recv_loop n buf segs =
     (if length buf < n
      then
        let (r, segs) = recv (n - length buf) segs
        in if r = [] then (None, segs) else recv_loop n (buf @ r) segs
      else (Some buf, segs))"
  by pat_completeness auto
termination
  by (relation "measure (\<lambda>(n, buf, _). n - length buf)") (auto simp: diff_less_mono2)

declare recv_loop.simps [simp del]

definition recv_exact :: "nat \<Rightarrow> conn \<Rightarrow> bytes option \<times> conn" where
  "recv_exact n cn = (case recv_loop n [] (cn_in cn) of (r, segs) \<Rightarrow> (r, cn\<lparr>cn_in := segs\<rparr>))"

lemma recv_loop_Some:
  "recv_loop n buf segs = (Some b, segs') \<Longrightarrow> length buf \<le> n \<Longrightarrow>
   length b = n \<and> buf @ concat segs = b @ concat segs'"
proof (induction n buf segs rule: recv_loop.induct)
  case (1 n buf segs)
  show ?case
  proof (cases "length buf < n")
    case True
    obtain r segs1 where r: "recv (n - length buf) segs = (r, segs1)" by fastforce
    then have "r \<noteq> []" "recv_loop n (buf @ r) segs1 = (Some b, segs')"
      using "1.prems"(1) True by (auto simp: recv_loop.simps [of n buf segs] split: if_splits)
    with "1.IH" [OF True r [symmetric] refl] recv_length [OF r] recv_shrinks [OF r] True show ?thesis by auto
  next
    case False
    then show ?thesis using "1.prems" by (simp add: recv_loop.simps [of n buf segs])
  qed
qed

text \<open>What is read is the front of the stream, however it arrives in segments.\<close>

lemma recv_exact_Some:
  assumes "recv_exact n cn = (Some b, cn')"
  shows "length b = n" and "concat (cn_in cn) = b @ concat (cn_in cn')" and "cn_out cn' = cn_out cn"
  using assms recv_loop_Some [of n "[]" "cn_in cn" b "cn_in cn'"]
  by (auto simp: recv_exact_def split: prod.splits)

text \<open>The return value of \<^verbatim>\<open>send\<close>: the number of bytes accepted, negative on an error.\<close>

definition send :: "bytes \<Rightarrow> conn \<Rightarrow> int \<times> conn" where
  "send data cn =
     (let n = min (cn_accepts cn (length (cn_out cn))) (int (length data))
      in (n, cn\<lparr>cn_out := cn_out cn @ [take (nat n) data]\<rparr>))"

section \<open>State\<close>

record session_ctx =
  cx_session_id :: u16
  cx_noise :: noise_ik_state
  cx_agent_pub :: bytes
  cx_epoch_id :: bytes
  cx_last_seen_seq :: u32

definition zero_ctx :: session_ctx where
  "zero_ctx = \<lparr>cx_session_id = 0, cx_noise = zero_state, cx_agent_pub = replicate 32 0, cx_epoch_id = replicate 4 0,
     cx_last_seen_seq = 0\<rparr>"

text \<open>The process-wide state a connection uses: the static variables of asyd.c, the parser pool, the
  state of the handlers.\<close>

record server =
  sv_priv :: bytes
  sv_pub :: bytes
  sv_whitelist :: whitelist
  sv_next_session_id :: u16
  sv_pool :: "apdu_parser list"
  sv_daemon :: daemon

datatype event = Dispatched (ev_frame: apdu_frame) (ev_buf: bytes) (ev_len: int) (ev_sw: u16)

section \<open>Before the handshake\<close>

definition next_session :: "server \<Rightarrow> u16 \<times> server" where
  "next_session sv =
     (let n = sv_next_session_id sv + 1
      in (sv_next_session_id sv, sv\<lparr>sv_next_session_id := (if n = 0 then 1 else n)\<rparr>))"

definition wait_for_client_magic :: "conn \<Rightarrow> int \<times> conn" where
  "wait_for_client_magic cn =
     (case recv_exact 4 cn of
        (None, cn) \<Rightarrow> (- 1, cn)
      | (Some buf, cn) \<Rightarrow>
          let magic = be32 (buf ! 0) (buf ! 1) (buf ! 2) (buf ! 3)
          in (if magic = 0x41535953 then 0 else - 1, cn))"

definition send_sw :: "u8 \<Rightarrow> u8 \<Rightarrow> session_ctx \<Rightarrow> conn \<Rightarrow> session_ctx \<times> conn" where
  "send_sw sw1 sw2 ctx cn =
     (let enc_len = 2 + NOISE_MAC_SIZE;
          (rc, st, enc) = noise_ik_encrypt [sw1, sw2] 2 True (cx_noise ctx);
          ctx = ctx\<lparr>cx_noise := st\<rparr>
      in case enc of
           None \<Rightarrow> (ctx, cn)
         | Some enc \<Rightarrow>
             if rc \<noteq> NOISE_OK then (ctx, cn)
             else
               let pfx = [of_nat (enc_len div 256), of_nat (enc_len mod 256)];
                   (_, cn) = send pfx cn;
                   (_, cn) = send enc cn
               in (ctx, cn))"

definition pre_handshake_frame :: "bytes \<Rightarrow> bytes" where
  "pre_handshake_frame server_pub = [0x41, 0x53, 0x59, 0x53, 0x01, 0x00] @ take NOISE_KEY_SIZE server_pub"

definition derive_epoch_id :: "noise_ik_state \<Rightarrow> bytes" where
  "derive_epoch_id st = take 4 (hmac_blake2b (st_recv_key st) 32 (ascii ''asys-epoch-v1'') 13)"

text \<open>From the greeting to the derived epoch identifier; whether all of it succeeded.\<close>

definition handshake ::
    "(bytes \<Rightarrow> bytes \<Rightarrow> bytes) \<Rightarrow> (bytes \<Rightarrow> bytes) \<Rightarrow> bytes option \<Rightarrow> server \<Rightarrow> session_ctx \<Rightarrow> conn \<Rightarrow>
     bool \<times> session_ctx \<times> conn" where
  "handshake dh pk urandom sv ctx cn =
     (let phf = pre_handshake_frame (sv_pub sv);
          (n, cn) = send phf cn
      in if n \<noteq> int (length phf) then (False, ctx, cn)
      else
        let (_, st) = noise_ik_init_server (Some (sv_priv sv)) (Some (sv_pub sv)) (cx_noise ctx);
            ctx = ctx\<lparr>cx_noise := st\<rparr>
        in case recv_exact NOISE_MSG1_SIZE cn of
             (None, cn) \<Rightarrow> (False, ctx, cn)
           | (Some msg1, cn) \<Rightarrow>
               let (rc, st, agent) = noise_ik_read_msg1 dh (Some msg1) (cx_noise ctx);
                   ctx = ctx\<lparr>cx_noise := st,
                             cx_agent_pub := (case agent of Some a \<Rightarrow> a | None \<Rightarrow> cx_agent_pub ctx)\<rparr>
               in if rc \<noteq> NOISE_OK then (False, ctx, cn)
                  else
                    let (_, st, msg2) = noise_ik_write_msg2 dh pk urandom True (cx_noise ctx);
                        ctx = ctx\<lparr>cx_noise := st\<rparr>;
                        msg2 = (case msg2 of Some m \<Rightarrow> m | None \<Rightarrow> []);
                        (n, cn) = send msg2 cn
                    in if n \<noteq> int NOISE_MSG2_SIZE then (False, ctx, cn)
                       else (True, ctx\<lparr>cx_epoch_id := derive_epoch_id (cx_noise ctx)\<rparr>, cn))"

text \<open>The whitelist check and a parser for the session.\<close>

definition admit :: "server \<Rightarrow> session_ctx \<Rightarrow> conn \<Rightarrow> nat option \<times> session_ctx \<times> conn \<times> server" where
  "admit sv ctx cn =
     (if whitelist_check (Some (sv_whitelist sv)) (Some (cx_agent_pub ctx)) \<noteq> WL_OK
      then (case send_sw 0x69 0x82 ctx cn of (ctx, cn) \<Rightarrow> (None, ctx, cn, sv))
      else (case apdu_pool_acquire (sv_pool sv) of (p, pool) \<Rightarrow> (p, ctx, cn, sv\<lparr>sv_pool := pool\<rparr>)))"

section \<open>The encrypted loop\<close>

text \<open>The tag and the sequence number of a frame: the status word that refuses it, or none and the
  updated context.\<close>

definition frame_gate :: "session_ctx \<Rightarrow> bytes \<Rightarrow> apdu_frame \<Rightarrow> (u16 option \<times> session_ctx) option" where
  "frame_gate ctx buf frame =
     (if fr_sec frame \<noteq> APDU_SEC_PLAIN
      then do {
        ok \<leftarrow> verify_auth_tag (cx_noise ctx) buf frame (cx_epoch_id ctx);
        if ok = 0 then Some (Some SW_ACCESS_DENIED, ctx)
        else do {
          d \<leftarrow> frame_data buf frame 0 4;
          let seq = be32 (d ! 0) (d ! 1) (d ! 2) (d ! 3);
          if seq \<le> cx_last_seen_seq ctx then Some (Some SW_REPLAY_DETECTED, ctx)
          else Some (None, ctx\<lparr>cx_last_seen_seq := seq\<rparr>)
        }
      }
      else Some (None, ctx))"

text \<open>What one iteration leaves: whether the loop goes on, the context, the response buffer, the socket,
  the server and the trace so far.\<close>

type_synonym iteration = "bool \<times> session_ctx \<times> bytes \<times> conn \<times> server \<times> event list"

text \<open>A parsed frame: gate, dispatch, consume, encrypt, send.\<close>

definition serve_frame ::
    "os \<Rightarrow> nat \<Rightarrow> apdu_frame \<Rightarrow> session_ctx \<Rightarrow> bytes \<Rightarrow> conn \<Rightarrow> server \<Rightarrow> event list \<Rightarrow> iteration option" where
  "serve_frame os i frame ctx resp cn sv tr = do {
     let p = sv_pool sv ! i;
     (refused, ctx) \<leftarrow> frame_gate ctx (pr_buf p) frame;
     case refused of
       Some sw \<Rightarrow>
         (case send_sw (ucast (drop_bit 8 sw)) (ucast (sw AND 0xFF)) ctx cn of
            (ctx, cn) \<Rightarrow> Some (False, ctx, resp, cn, sv, tr))
     | None \<Rightarrow> do {
         (resp_len, resp, dm) \<leftarrow>
           dispatch os (pr_buf p) (Some frame) (Some resp) DISP_RESP_MAX (cx_session_id ctx) (sv_daemon sv);
         hi \<leftarrow> rd resp (nat (resp_len - 2));
         lo \<leftarrow> rd resp (nat (resp_len - 1));
         p' \<leftarrow> apdu_parser_consume (Some p) (Some frame);
         p' \<leftarrow> p';
         let tr = tr @ [Dispatched frame (pr_buf p) resp_len (be16 hi lo)];
         let sv = sv\<lparr>sv_daemon := dm, sv_pool := (sv_pool sv)[i := p']\<rparr>;
         let (rc, st, enc) = noise_ik_encrypt (take (nat resp_len) resp) (nat resp_len) True (cx_noise ctx);
         let ctx = ctx\<lparr>cx_noise := st\<rparr>;
         case enc of None \<Rightarrow> Some (False, ctx, resp, cn, sv, tr) | Some enc \<Rightarrow>
         if rc \<noteq> NOISE_OK then Some (False, ctx, resp, cn, sv, tr)
         else do {
           let enc_len = nat resp_len + NOISE_MAC_SIZE;
           let (n, cn) = send [of_nat (enc_len div 256), of_nat (enc_len mod 256)] cn;
           if n \<noteq> 2 then Some (False, ctx, resp, cn, sv, tr)
           else do {
             let (n, cn) = send enc cn;
             Some (n = int enc_len, ctx, resp, cn, sv, tr)
           }
         }
       }
   }"

text \<open>The reply to what the parser says, for a parser that has been given the plain text.\<close>

definition serve_parsed ::
    "os \<Rightarrow> nat \<Rightarrow> session_ctx \<Rightarrow> bytes \<Rightarrow> conn \<Rightarrow> server \<Rightarrow> event list \<Rightarrow> iteration option" where
  "serve_parsed os i ctx resp cn sv tr = do {
     (rc, frame) \<leftarrow> apdu_parser_try_parse (Some (sv_pool sv ! i)) (Some zero_frame);
     if rc = APDU_NEED_MORE then Some (True, ctx, resp, cn, sv, tr)
     else if rc = APDU_ERR_VERSION
     then (case send_sw 0x6E 0x00 ctx cn of (ctx, cn) \<Rightarrow> Some (False, ctx, resp, cn, sv, tr))
     else if rc = APDU_ERR_RFU \<or> rc = APDU_ERR_EXT_LC \<or> rc = APDU_ERR_LENGTH
     then (case send_sw 0x67 0x00 ctx cn of (ctx, cn) \<Rightarrow> Some (False, ctx, resp, cn, sv, tr))
     else if rc \<noteq> APDU_FRAME_READY then Some (False, ctx, resp, cn, sv, tr)
     else do { frame \<leftarrow> frame; serve_frame os i frame ctx resp cn sv tr }
   }"

text \<open>One turn of the loop of a session that owns parser \<open>i\<close>. The frame object is not initialised in the
  source; the parser fills it before it is read.\<close>

definition serve_once ::
    "os \<Rightarrow> nat \<Rightarrow> session_ctx \<Rightarrow> bytes \<Rightarrow> conn \<Rightarrow> server \<Rightarrow> event list \<Rightarrow> iteration option" where
  "serve_once os i ctx resp cn sv tr =
     (case recv_exact 2 cn of
        (None, cn) \<Rightarrow> Some (False, ctx, resp, cn, sv, tr)
      | (Some len_buf, cn) \<Rightarrow>
          let ciphertext_len = unat (be16 (len_buf ! 0) (len_buf ! 1))
          in if ciphertext_len < NOISE_MAC_SIZE \<or> APDU_MAX_FRAME_SIZE + NOISE_MAC_SIZE < ciphertext_len
             then Some (False, ctx, resp, cn, sv, tr)
             else
               case recv_exact ciphertext_len cn of
                 (None, cn) \<Rightarrow> Some (False, ctx, resp, cn, sv, tr)
               | (Some cipher, cn) \<Rightarrow>
                   let p = sv_pool sv ! i;
                       (dst, max_plain) = apdu_parser_recv_ptr p;
                       plain_len = ciphertext_len - NOISE_MAC_SIZE
                   in if max_plain < plain_len then Some (False, ctx, resp, cn, sv, tr)
                      else
                        let (rc, st, plain) = noise_ik_decrypt (Some cipher) ciphertext_len True (cx_noise ctx);
                            ctx = ctx\<lparr>cx_noise := st\<rparr>
                        in if rc \<noteq> NOISE_OK then Some (False, ctx, resp, cn, sv, tr)
                           else do {
                             plain \<leftarrow> plain;
                             buf \<leftarrow> wr_range (pr_buf p) dst plain;
                             let p = apdu_parser_recv_commit (p\<lparr>pr_buf := buf\<rparr>) plain_len;
                             serve_parsed os i ctx resp cn (sv\<lparr>sv_pool := (sv_pool sv)[i := p]\<rparr>) tr
                           })"

section \<open>Termination of the loop\<close>

text \<open>What is still to be read.\<close>

definition pending :: "conn \<Rightarrow> nat" where
  "pending cn = length (concat (cn_in cn))"

lemma recv_exact_pending: "recv_exact n cn = (Some b, cn') \<Longrightarrow> pending cn = n + pending cn'"
  using recv_exact_Some [of n cn b cn'] by (simp add: pending_def)

lemma send_pending [simp]: "pending (snd (send d cn)) = pending cn"
  by (simp add: send_def Let_def pending_def)

lemma send_sw_pending [simp]: "pending (snd (send_sw a b ctx cn)) = pending cn"
  by (simp add: send_sw_def Let_def case_prod_beta split: option.split)

lemma serve_frame_pending:
  assumes "serve_frame os i frame ctx resp cn sv tr = Some (go, ctx', resp', cn', sv', tr')"
  shows "pending cn' = pending cn"
  using assms unfolding serve_frame_def Let_def case_prod_beta
  by (auto simp: bind_Some_iff case_prod_beta split: option.splits if_splits)

lemma serve_parsed_pending:
  assumes "serve_parsed os i ctx resp cn sv tr = Some (go, ctx', resp', cn', sv', tr')"
  shows "pending cn' = pending cn"
  using assms unfolding serve_parsed_def case_prod_beta
  by (auto simp: bind_Some_iff dest: serve_frame_pending split: if_splits)

lemma serve_once_pending:
  assumes "serve_once os i ctx resp cn sv tr = Some (True, ctx', resp', cn', sv', tr')"
  shows "pending cn' < pending cn"
  using assms unfolding serve_once_def Let_def
  by (auto simp: bind_Some_iff dest!: recv_exact_pending serve_parsed_pending split: option.splits if_splits prod.splits)

text \<open>The loop until a turn ends it; \<open>k\<close> counts the turns, the operating system's readings differ in each.\<close>

function serve_loop ::
    "(nat \<Rightarrow> os) \<Rightarrow> nat \<Rightarrow> nat \<Rightarrow> session_ctx \<Rightarrow> bytes \<Rightarrow> conn \<Rightarrow> server \<Rightarrow> event list \<Rightarrow>
     (session_ctx \<times> conn \<times> server \<times> event list) option" where
  "serve_loop os k i ctx resp cn sv tr =
     (case serve_once (os k) i ctx resp cn sv tr of
        None \<Rightarrow> None
      | Some (go, ctx, resp, cn, sv, tr) \<Rightarrow>
          if go then serve_loop os (k + 1) i ctx resp cn sv tr else Some (ctx, cn, sv, tr))"
  by pat_completeness auto
termination
  by (relation "measure (\<lambda>(_, _, _, _, _, cn, _, _). pending cn)") (auto dest: serve_once_pending)

declare serve_loop.simps [simp del]

section \<open>The whole connection\<close>

definition cleanup :: "nat option \<Rightarrow> session_ctx \<Rightarrow> server \<Rightarrow> session_ctx \<times> server" where
  "cleanup p ctx sv =
     (let ctx = ctx\<lparr>cx_noise := noise_ik_wipe (cx_noise ctx)\<rparr>;
          sv = (case p of None \<Rightarrow> sv | Some _ \<Rightarrow> sv\<lparr>sv_pool := apdu_pool_release p (sv_pool sv)\<rparr>);
          dm = sv_daemon sv
      in (ctx, sv\<lparr>sv_daemon := dm\<lparr>dm_tasks := task_pool_release_session (cx_session_id ctx) (dm_tasks dm)\<rparr>\<rparr>))"

text \<open>The result: the context, the socket, the server, the trace. \<open>resp\<close> is what the local answer buffer
  holds at first.\<close>

definition handle_client ::
    "(bytes \<Rightarrow> bytes \<Rightarrow> bytes) \<Rightarrow> (bytes \<Rightarrow> bytes) \<Rightarrow> bytes option \<Rightarrow> (nat \<Rightarrow> os) \<Rightarrow> bytes \<Rightarrow> conn \<Rightarrow> server \<Rightarrow>
     (session_ctx \<times> conn \<times> server \<times> event list) option" where
  "handle_client dh pk urandom os resp cn sv =
     (let (sid, sv) = next_session sv;
          ctx = zero_ctx\<lparr>cx_session_id := sid\<rparr>;
          (rc, cn) = wait_for_client_magic cn
      in if rc \<noteq> 0 then Some (ctx, cn, sv, [])
      else
        let (ok, ctx, cn) = handshake dh pk urandom sv ctx cn
        in if \<not> ok then (case cleanup None ctx sv of (ctx, sv) \<Rightarrow> Some (ctx, cn, sv, []))
        else
          let (p, ctx, cn, sv) = admit sv ctx cn
          in case p of
               None \<Rightarrow> (case cleanup None ctx sv of (ctx, sv) \<Rightarrow> Some (ctx, cn, sv, []))
             | Some i \<Rightarrow> do {
                 (ctx, cn, sv, tr) \<leftarrow> serve_loop os 0 i ctx resp cn sv [];
                 (case cleanup p ctx sv of (ctx, sv) \<Rightarrow> Some (ctx, cn, sv, tr))
               })"

end
