(* ===== verification/SessionSafety.thy ===== *)
theory SessionSafety
  imports Session
begin

unbundle bit_operations_syntax

text \<open>
  What a connection guarantees: it always ends for a finite input, it dispatches nothing before the agent is
  authenticated and found in the whitelist, the signed frames it dispatches carry valid tags and strictly
  increasing sequence numbers, and it gives back what it took.
\<close>

section \<open>The invariant of a session\<close>

definition wf_server :: "server \<Rightarrow> bool" where
  "wf_server sv \<longleftrightarrow> length (sv_pool sv) = APDU_POOL_SIZE \<and> (\<forall>p \<in> set (sv_pool sv). wf_parser p) \<and> wf_daemon (sv_daemon sv) \<and>
     wf_whitelist (sv_whitelist sv) \<and> length (sv_priv sv) = 32 \<and> length (sv_pub sv) = 32"

definition ev_signed :: "event \<Rightarrow> bool" where
  "ev_signed e \<longleftrightarrow> fr_sec (ev_frame e) \<noteq> APDU_SEC_PLAIN"

definition ev_seq :: "event \<Rightarrow> u32" where
  "ev_seq e = get_u32 (take 4 (payload (ev_buf e) (ev_frame e)))"

definition ev_authentic :: "bytes \<Rightarrow> bytes \<Rightarrow> event \<Rightarrow> bool" where
  "ev_authentic key epoch e \<longleftrightarrow>
     auth_tag (ev_buf e) (ev_frame e) = take 16 (hmac_spec key (auth_input (ev_buf e) epoch (ev_frame e)))"

definition trace_ok :: "bytes \<Rightarrow> bytes \<Rightarrow> u32 \<Rightarrow> event list \<Rightarrow> bool" where
  "trace_ok key epoch seen tr \<longleftrightarrow>
     sorted_wrt (<) (map ev_seq (filter ev_signed tr)) \<and>
     (\<forall>e \<in> set tr. ev_signed e \<longrightarrow> 0 < ev_seq e \<and> ev_seq e \<le> seen \<and> ev_authentic key epoch e)"

text \<open>A signed request to stop, resume or restart.\<close>

definition ev_acts :: "event \<Rightarrow> bool" where
  "ev_acts e \<longleftrightarrow> fr_sec (ev_frame e) = APDU_SEC_SIGNED \<and> fr_ins (ev_frame e) \<in> {0x20, 0x22}"

definition noise_ready :: "noise_ik_state \<Rightarrow> bool" where
  "noise_ready st \<longleftrightarrow> st_handshake_done st \<and> length (st_recv_key st) = 32"

definition session_inv :: "nat \<Rightarrow> session_ctx \<Rightarrow> bytes \<Rightarrow> server \<Rightarrow> event list \<Rightarrow> bool" where
  "session_inv i ctx resp sv tr \<longleftrightarrow>
     wf_server sv \<and> i < APDU_POOL_SIZE \<and> length resp = DISP_RESP_MAX \<and> noise_ready (cx_noise ctx) \<and>
     length (cx_epoch_id ctx) = 4 \<and>
     trace_ok (st_recv_key (cx_noise ctx)) (cx_epoch_id ctx) (cx_last_seen_seq ctx) tr"

text \<open>What a turn may change: its own parser, the handlers' state, its context; the trace only grows.\<close>

definition turn_ok ::
    "nat \<Rightarrow> session_ctx \<Rightarrow> server \<Rightarrow> event list \<Rightarrow> session_ctx \<Rightarrow> server \<Rightarrow> event list \<Rightarrow> bool" where
  "turn_ok i ctx sv tr ctx' sv' tr' \<longleftrightarrow>
     st_recv_key (cx_noise ctx') = st_recv_key (cx_noise ctx) \<and> cx_epoch_id ctx' = cx_epoch_id ctx \<and>
     cx_session_id ctx' = cx_session_id ctx \<and> cx_agent_pub ctx' = cx_agent_pub ctx \<and>
     sv_whitelist sv' = sv_whitelist sv \<and> sv_priv sv' = sv_priv sv \<and> sv_pub sv' = sv_pub sv \<and>
     sv_next_session_id sv' = sv_next_session_id sv \<and>
     (\<forall>j. j \<noteq> i \<longrightarrow> sv_pool sv' ! j = sv_pool sv ! j) \<and> pr_in_use (sv_pool sv' ! i) = pr_in_use (sv_pool sv ! i) \<and>
     (\<exists>evs. tr' = tr @ evs) \<and>
     (dm_calls (sv_daemon sv') = dm_calls (sv_daemon sv) \<or> (\<exists>e \<in> set tr'. ev_acts e))"

lemma turn_ok_refl: "turn_ok i ctx sv tr ctx sv tr"
  by (simp add: turn_ok_def)

lemma turn_ok_trans:
  "turn_ok i c s t c' s' t' \<Longrightarrow> turn_ok i c' s' t' c'' s'' t'' \<Longrightarrow> turn_ok i c s t c'' s'' t''"
  by (auto simp: turn_ok_def)

lemma wf_server_parser: "wf_server sv \<Longrightarrow> i < APDU_POOL_SIZE \<Longrightarrow> wf_parser (sv_pool sv ! i)"
  by (auto simp: wf_server_def)

lemma wf_server_update:
  assumes "wf_server sv" and "wf_parser p"
  shows "wf_server (sv\<lparr>sv_pool := (sv_pool sv)[i := p]\<rparr>)"
  using assms set_update_subset_insert [of "sv_pool sv" i p] by (auto simp: wf_server_def)

lemma wf_server_daemon: "wf_server sv \<Longrightarrow> wf_daemon dm \<Longrightarrow> wf_server (sv\<lparr>sv_daemon := dm\<rparr>)"
  by (simp add: wf_server_def)

section \<open>The gate\<close>

lemma trace_ok_snoc:
  assumes "trace_ok key epoch seen tr" and "ev_signed e \<Longrightarrow> seen < ev_seq e \<and> ev_authentic key epoch e"
  shows "trace_ok key epoch (if ev_signed e then ev_seq e else seen) (tr @ [e])"
proof -
  have "ev_signed e \<Longrightarrow> 0 < ev_seq e" using assms(2) by (metis order_le_less_trans word_zero_le)
  moreover have "ev_signed e \<Longrightarrow> x \<le> seen \<Longrightarrow> x < ev_seq e" for x using assms(2) by (metis order_le_less_trans)
  ultimately show ?thesis using assms unfolding trace_ok_def by (auto simp: sorted_wrt_append intro: less_imp_le)
qed

lemma trace_ok_mono: "trace_ok key epoch seen tr \<Longrightarrow> seen \<le> seen' \<Longrightarrow> trace_ok key epoch seen' tr"
  by (auto simp: trace_ok_def)

lemma frame_gate_cases:
  assumes "frame_in buf f" and "(fr_auth_tag f = None) = (fr_sec f = APDU_SEC_PLAIN)"
    and "length (cx_epoch_id ctx) = 4" and "length (st_recv_key (cx_noise ctx)) = 32"
  obtains (refused) sw where "frame_gate ctx buf f = Some (Some sw, ctx)"
  | (plain) "fr_sec f = APDU_SEC_PLAIN" "frame_gate ctx buf f = Some (None, ctx)"
  | (signed) "fr_sec f \<noteq> APDU_SEC_PLAIN"
      "frame_gate ctx buf f = Some (None, ctx\<lparr>cx_last_seen_seq := get_u32 (take 4 (payload buf f))\<rparr>)"
      "cx_last_seen_seq ctx < get_u32 (take 4 (payload buf f))"
      "auth_tag buf f = take 16 (hmac_spec (st_recv_key (cx_noise ctx)) (auth_input buf (cx_epoch_id ctx) f))"
proof (cases "fr_sec f = APDU_SEC_PLAIN")
  case True
  then show thesis using plain by (simp add: frame_gate_def)
next
  case False
  note v = verify_auth_tag_eq [OF assms(1,3,4)]
  show thesis
  proof (cases "4 \<le> unat (fr_data_len f) \<and> unat (fr_data_len f) \<le> 259 \<and> fr_auth_tag f \<noteq> None \<and>
      auth_tag buf f = take 16 (hmac_spec (st_recv_key (cx_noise ctx)) (auth_input buf (cx_epoch_id ctx) f))")
    case bad: False
    have "verify_auth_tag (cx_noise ctx) buf f (cx_epoch_id ctx) = Some 0" unfolding v using bad by (simp only: if_False)
    then show thesis using refused [of SW_ACCESS_DENIED] \<open>fr_sec f \<noteq> APDU_SEC_PLAIN\<close> by (simp add: frame_gate_def)
  next
    case ok: True
    then have d: "frame_data buf f 0 4 = Some (take 4 (payload buf f))"
      using frame_data_payload [OF assms(1), of 0 4] by simp
    have g: "frame_gate ctx buf f = (let seq = get_u32 (take 4 (payload buf f)) in
        if seq \<le> cx_last_seen_seq ctx then Some (Some SW_REPLAY_DETECTED, ctx)
        else Some (None, ctx\<lparr>cx_last_seen_seq := seq\<rparr>))"
      using v ok False d by (simp add: frame_gate_def get_u32_def)
    show thesis
    proof (cases "get_u32 (take 4 (payload buf f)) \<le> cx_last_seen_seq ctx")
      case True
      then show thesis using refused [of SW_REPLAY_DETECTED] g by simp
    next
      case False
      then show thesis using signed g ok \<open>fr_sec f \<noteq> APDU_SEC_PLAIN\<close> by simp
    qed
  qed
qed

lemma encrypt_word:
  "st_handshake_done st \<Longrightarrow> noise_ik_encrypt [a, b] 2 True st =
    (NOISE_OK, st\<lparr>st_send_nonce := st_send_nonce st + 1\<rparr>, Some (seal_once (st_send_key st) (nonce12_of (st_send_nonce st)) [] [a, b]))"
  using encrypt_eq [of st "[a, b]"] by (simp flip: numeral_2_eq_2)

lemma send_sw_keeps:
  assumes "send_sw a b ctx cn = (ctx', cn')" and "noise_ready (cx_noise ctx)"
  shows "ctx' = ctx\<lparr>cx_noise := (cx_noise ctx)\<lparr>st_send_nonce := st_send_nonce (cx_noise ctx) + 1\<rparr>\<rparr>"
  using assms by (simp add: send_sw_def Let_def noise_ready_def case_prod_beta encrypt_word)

section \<open>One turn\<close>

lemma turn_ok_noise:
  assumes "st_recv_key st = st_recv_key (cx_noise ctx)"
  shows "turn_ok i ctx sv tr (ctx\<lparr>cx_noise := st\<rparr>) sv tr"
  using assms by (simp add: turn_ok_def)

lemma session_inv_noise:
  assumes "session_inv i ctx resp sv tr" and "st_recv_key st = st_recv_key (cx_noise ctx)" and "st_handshake_done st"
  shows "session_inv i (ctx\<lparr>cx_noise := st\<rparr>) resp sv tr"
  using assms by (simp add: session_inv_def noise_ready_def)

text \<open>A step that ends the session with a status word.\<close>

lemma refuse_ok:
  assumes "session_inv i ctx resp sv tr" and "send_sw a b ctx cn = (ctx', cn')"
  shows "session_inv i ctx' resp sv tr \<and> turn_ok i ctx sv tr ctx' sv tr"
proof -
  have "noise_ready (cx_noise ctx)" using assms(1) by (simp add: session_inv_def)
  note e = send_sw_keeps [OF assms(2) this]
  show ?thesis unfolding e using assms(1)
    by (auto intro!: session_inv_noise turn_ok_noise simp: session_inv_def noise_ready_def)
qed

definition good_turn :: "nat \<Rightarrow> session_ctx \<Rightarrow> server \<Rightarrow> event list \<Rightarrow> iteration option \<Rightarrow> bool" where
  "good_turn i ctx sv tr r \<longleftrightarrow>
     (\<exists>go ctx' resp' cn' sv' tr'. r = Some (go, ctx', resp', cn', sv', tr') \<and>
        session_inv i ctx' resp' sv' tr' \<and> turn_ok i ctx sv tr ctx' sv' tr')"

lemma good_turnI:
  "session_inv i ctx' resp' sv' tr' \<Longrightarrow> turn_ok i ctx sv tr ctx' sv' tr' \<Longrightarrow>
   good_turn i ctx sv tr (Some (go, ctx', resp', cn', sv', tr'))"
  by (auto simp: good_turn_def)

lemma good_turn_refuse:
  assumes "session_inv i ctx resp sv tr"
  shows "good_turn i ctx sv tr (case send_sw a b ctx cn of (ctx, cn) \<Rightarrow> Some (go, ctx, resp, cn, sv, tr))"
proof -
  obtain ctx' cn' where s: "send_sw a b ctx cn = (ctx', cn')" by fastforce
  then show ?thesis using refuse_ok [OF assms s] by (auto intro: good_turnI)
qed

lemma good_turn_trans:
  assumes "turn_ok i ctx sv tr ctx1 sv1 tr1" and "good_turn i ctx1 sv1 tr1 r"
  shows "good_turn i ctx sv tr r"
  using assms by (auto simp: good_turn_def dest: turn_ok_trans)

lemma serve_frame_good:
  assumes inv: "session_inv i ctx resp sv tr" and os: "os_ok os"
    and parsed: "apdu_parser_try_parse (Some (sv_pool sv ! i)) (Some out) = Some (APDU_FRAME_READY, Some f)"
  shows "good_turn i ctx sv tr (serve_frame os i f ctx resp cn sv tr)"
proof -
  let ?p = "sv_pool sv ! i"
  have w: "wf_server sv" "i < APDU_POOL_SIZE" "length resp = 256" "wf_daemon (sv_daemon sv)" "i < length (sv_pool sv)"
    using inv by (auto simp: session_inv_def wf_server_def DISP_RESP_MAX_def)
  have wp: "wf_parser ?p" by (rule wf_server_parser [OF w(1,2)])
  note fi = frame_in_parsed [OF wp parsed]
  have k: "length (cx_epoch_id ctx) = 4" "length (st_recv_key (cx_noise ctx)) = 32"
    using inv by (auto simp: session_inv_def noise_ready_def)
  have served: "good_turn i ctx sv tr (serve_frame os i f ctx resp cn sv tr)"
    if g: "frame_gate ctx (pr_buf ?p) f = Some (None, ctx1)"
      and c1: "ctx1 = ctx\<lparr>cx_last_seen_seq := seen\<rparr>"
      and e: "fr_sec f \<noteq> APDU_SEC_PLAIN \<Longrightarrow> seen = get_u32 (take 4 (payload (pr_buf ?p) f)) \<and> cx_last_seen_seq ctx < seen \<and>
        auth_tag (pr_buf ?p) f = take 16 (hmac_spec (st_recv_key (cx_noise ctx)) (auth_input (pr_buf ?p) (cx_epoch_id ctx) f))"
      and pl: "fr_sec f = APDU_SEC_PLAIN \<Longrightarrow> seen = cx_last_seen_seq ctx"
    for ctx1 seen
  proof -
    have r6: "6 \<le> length resp" using w(3) by simp
    obtain n resp' dm' where d: "dispatch os (pr_buf ?p) (Some f) (Some resp) (length resp) (cx_session_id ctx1) (sv_daemon sv) =
        Some (int n, resp', dm')" "2 \<le> n" "n \<le> length resp" "length resp' = length resp" "wf_daemon dm'"
      by (rule dispatcher.run_cases [OF os fi(1) w(4) r6, of "cx_session_id ctx1"])
    obtain p' where p': "apdu_parser_consume (Some ?p) (Some f) = Some (Some p')" "wf_parser p'" "pr_in_use p' = pr_in_use ?p"
      using consume_total [OF wp, of f] by blast
    let ?sv = "sv\<lparr>sv_daemon := dm', sv_pool := (sv_pool sv)[i := p']\<rparr>"
    define ev where "ev = Dispatched f (pr_buf ?p) (int n) (be16 (resp' ! (n - 2)) (resp' ! (n - 1)))"
    let ?st = "(cx_noise ctx1)\<lparr>st_send_nonce := st_send_nonce (cx_noise ctx1) + 1\<rparr>"
    have hd: "st_handshake_done (cx_noise ctx1)" using inv c1 by (simp add: session_inv_def noise_ready_def)
    have ln: "length (take n resp') = n" using d(3,4) by simp
    obtain enc where enc: "noise_ik_encrypt (take n resp') n True (cx_noise ctx1) = (NOISE_OK, ?st, Some enc)"
      using encrypt_eq [OF hd, of "take n resp'"] unfolding ln by blast
    have rd: "rd resp' (nat (int n - 2)) = Some (resp' ! (n - 2))" "rd resp' (nat (int n - 1)) = Some (resp' ! (n - 1))"
      using d(2-4) by (simp_all add: nat_diff_distrib)
    have "wf_server ?sv" using wf_server_update [OF wf_server_daemon [OF w(1) d(5)] p'(2), of i] by simp
    moreover have "trace_ok (st_recv_key (cx_noise ctx)) (cx_epoch_id ctx) seen (tr @ [ev])"
    proof -
      have "trace_ok (st_recv_key (cx_noise ctx)) (cx_epoch_id ctx) (if ev_signed ev then ev_seq ev else cx_last_seen_seq ctx) (tr @ [ev])"
      proof (rule trace_ok_snoc)
        show "trace_ok (st_recv_key (cx_noise ctx)) (cx_epoch_id ctx) (cx_last_seen_seq ctx) tr"
          using inv by (simp add: session_inv_def)
      qed (use e in \<open>auto simp: ev_def ev_signed_def ev_seq_def ev_authentic_def\<close>)
      then show ?thesis using e pl by (auto simp: ev_def ev_signed_def ev_seq_def split: if_splits)
    qed
    ultimately have inv': "session_inv i (ctx1\<lparr>cx_noise := ?st\<rparr>) resp' ?sv (tr @ [ev])"
      using inv c1 d(4) by (simp add: session_inv_def noise_ready_def)
    have "dm_calls dm' = dm_calls (sv_daemon sv) \<or> ev_acts ev"
      using dispatcher.acts_signed [OF d(1)] dispatch_acts [OF d(1)] r6 by (auto simp: ev_acts_def ev_def)
    then have t': "turn_ok i ctx sv tr (ctx1\<lparr>cx_noise := ?st\<rparr>) ?sv (tr @ [ev])"
      using c1 p'(3) w(5) by (auto simp: turn_ok_def)
    have "\<exists>go cn'. serve_frame os i f ctx resp cn sv tr = Some (go, ctx1\<lparr>cx_noise := ?st\<rparr>, resp', cn', ?sv, tr @ [ev])"
      using g d(1) p'(1) rd enc w(3)
      by (auto simp: serve_frame_def DISP_RESP_MAX_def Let_def case_prod_beta ev_def)
    then show ?thesis using inv' t' by (auto simp: good_turn_def)
  qed
  from fi k show ?thesis
  proof (cases rule: frame_gate_cases)
    case (refused sw)
    then have "serve_frame os i f ctx resp cn sv tr =
        (case send_sw (ucast (drop_bit 8 sw)) (ucast (sw AND 0xFF)) ctx cn of (ctx, cn) \<Rightarrow> Some (False, ctx, resp, cn, sv, tr))"
      by (simp add: serve_frame_def Let_def)
    then show ?thesis using good_turn_refuse [OF inv] by simp
  next
    case plain
    then show ?thesis by (intro served [of ctx "cx_last_seen_seq ctx"]) simp_all
  next
    case signed
    then show ?thesis by (intro served [OF signed(2) refl]) simp_all
  qed
qed

lemma serve_parsed_good:
  assumes inv: "session_inv i ctx resp sv tr" and os: "os_ok os"
  shows "good_turn i ctx sv tr (serve_parsed os i ctx resp cn sv tr)"
proof -
  have "wf_parser (sv_pool sv ! i)" using inv wf_server_parser by (simp add: session_inv_def)
  from try_parse_refines [OF this, of zero_frame] obtain rc f
    where p: "apdu_parser_try_parse (Some (sv_pool sv ! i)) (Some zero_frame) = Some (rc, Some f)" by blast
  show ?thesis
  proof (cases "rc = APDU_FRAME_READY")
    case True
    then have "serve_parsed os i ctx resp cn sv tr = serve_frame os i f ctx resp cn sv tr"
      using p by (simp add: serve_parsed_def code_defs)
    then show ?thesis using serve_frame_good [OF inv os] p True by simp
  next
    case False
    then have "serve_parsed os i ctx resp cn sv tr \<in>
        {Some (True, ctx, resp, cn, sv, tr), Some (False, ctx, resp, cn, sv, tr),
         (case send_sw 0x6E 0x00 ctx cn of (ctx, cn) \<Rightarrow> Some (False, ctx, resp, cn, sv, tr)),
         (case send_sw 0x67 0x00 ctx cn of (ctx, cn) \<Rightarrow> Some (False, ctx, resp, cn, sv, tr))}"
      using p by (simp add: serve_parsed_def)
    then show ?thesis
      using good_turnI [OF inv turn_ok_refl] good_turn_refuse [OF inv] by auto
  qed
qed

lemma serve_once_good:
  assumes inv: "session_inv i ctx resp sv tr" and os: "os_ok os"
  shows "good_turn i ctx sv tr (serve_once os i ctx resp cn sv tr)"
proof -
  have stop: "good_turn i ctx sv tr (Some (False, ctx, resp, cn', sv, tr))" for cn'
    by (rule good_turnI [OF inv turn_ok_refl])
  have w: "wf_server sv" "i < APDU_POOL_SIZE" "i < length (sv_pool sv)" and r: "noise_ready (cx_noise ctx)"
    using inv by (auto simp: session_inv_def wf_server_def)
  let ?p = "sv_pool sv ! i"
  have wp: "wf_parser ?p" by (rule wf_server_parser [OF w(1,2)])
  have deliver: "good_turn i ctx sv tr
      (case noise_ik_decrypt (Some c) (length c) True (cx_noise ctx) of (rc, st, plain) \<Rightarrow>
         let ctx = ctx\<lparr>cx_noise := st\<rparr>
         in if rc \<noteq> NOISE_OK then Some (False, ctx, resp, cn, sv, tr)
            else do {
              plain \<leftarrow> plain;
              buf \<leftarrow> wr_range (pr_buf ?p) (pr_filled ?p) plain;
              let p = apdu_parser_recv_commit (?p\<lparr>pr_buf := buf\<rparr>) (length c - NOISE_MAC_SIZE);
              serve_parsed os i ctx resp cn (sv\<lparr>sv_pool := (sv_pool sv)[i := p]\<rparr>) tr
            })"
    if fits: "length c - NOISE_MAC_SIZE \<le> APDU_MAX_FRAME_SIZE - pr_filled ?p" "NOISE_MAC_SIZE \<le> length c" for c cn
  proof (cases "unseal_once (st_recv_key (cx_noise ctx)) (nonce12_of (st_recv_nonce (cx_noise ctx))) [] c")
    case None
    then show ?thesis using r stop by (simp add: decrypt_eq noise_ready_def code_defs)
  next
    case (Some d)
    let ?st = "(cx_noise ctx)\<lparr>st_recv_nonce := st_recv_nonce (cx_noise ctx) + 1\<rparr>"
    have c: "c = seal_once (st_recv_key (cx_noise ctx)) (nonce12_of (st_recv_nonce (cx_noise ctx))) [] d"
      using Some r by (simp add: unseal_once_iff noise_ready_def)
    have dl: "length d = length c - NOISE_MAC_SIZE"
      unfolding c using r seal_once_length by (simp add: noise_ready_def noise_sizes)
    have room: "pr_filled ?p + length d \<le> APDU_MAX_FRAME_SIZE"
      using fits(1) dl wp by (auto simp: wf_parser_def)
    then obtain buf where b: "wr_range (pr_buf ?p) (pr_filled ?p) d = Some buf"
      using wr_range_def_iff [of "pr_buf ?p" "pr_filled ?p" d] wp by (auto simp: wf_parser_def)
    let ?p' = "apdu_parser_recv_commit (?p\<lparr>pr_buf := buf\<rparr>) (length d)"
    have wp': "wf_parser ?p'" using recv_commit_received(2) [OF wp room] b by (simp add: apdu_parser_recv_ptr_def)
    let ?ctx = "ctx\<lparr>cx_noise := ?st\<rparr>" and ?sv = "sv\<lparr>sv_pool := (sv_pool sv)[i := ?p']\<rparr>"
    have inv': "session_inv i ?ctx resp ?sv tr"
      using session_inv_noise [OF inv, of ?st] r wf_server_update [OF w(1) wp', of i]
      by (simp add: session_inv_def noise_ready_def)
    have t: "turn_ok i ctx sv tr ?ctx ?sv tr"
      using w(3) by (simp add: turn_ok_def apdu_parser_recv_commit_def)
    have "good_turn i ctx sv tr (serve_parsed os i ?ctx resp cn ?sv tr)"
      by (rule good_turn_trans [OF t serve_parsed_good [OF inv' os]])
    then show ?thesis using Some r b dl by (simp add: decrypt_eq noise_ready_def)
  qed
  show ?thesis
  proof (cases "recv_exact 2 cn")
    case (Pair lb cn1)
    show ?thesis
    proof (cases lb)
      case None
      then show ?thesis using Pair stop by (simp add: serve_once_def)
    next
      case (Some len_buf)
      let ?n = "unat (be16 (len_buf ! 0) (len_buf ! 1))"
      show ?thesis
      proof (cases "?n < NOISE_MAC_SIZE \<or> APDU_MAX_FRAME_SIZE + NOISE_MAC_SIZE < ?n")
        case True
        then have "serve_once os i ctx resp cn sv tr = Some (False, ctx, resp, cn1, sv, tr)"
          using Pair Some by (simp add: serve_once_def)
        then show ?thesis using stop by simp
      next
        case False
        obtain co cn2 where c: "recv_exact ?n cn1 = (co, cn2)" by fastforce
        show ?thesis
        proof (cases co)
          case None
          then have "serve_once os i ctx resp cn sv tr = Some (False, ctx, resp, cn2, sv, tr)"
            using Pair Some False c by (simp add: serve_once_def)
          then show ?thesis using stop by simp
        next
          case cipher: (Some cipher)
          have lc: "length cipher = ?n" using recv_exact_Some(1) c cipher by blast
          show ?thesis
          proof (cases "APDU_MAX_FRAME_SIZE - pr_filled ?p < ?n - NOISE_MAC_SIZE")
            case True
            then have "serve_once os i ctx resp cn sv tr = Some (False, ctx, resp, cn2, sv, tr)"
              using Pair Some False c cipher recv_ptr_max [OF wp] by (simp add: serve_once_def)
            then show ?thesis using stop by simp
          next
            case fits: False
            show ?thesis
              using deliver [of cipher cn2] fits False Pair Some c cipher recv_ptr_max [OF wp]
              unfolding lc by (simp add: serve_once_def not_less Let_def del: One_nat_def)
          qed
        qed
      qed
    qed
  qed
qed

section \<open>The loop\<close>

lemma serve_loop_good:
  "\<forall>k. os_ok (os k) \<Longrightarrow> session_inv i ctx resp sv tr \<Longrightarrow>
    \<exists>ctx' resp' cn' sv' tr'. serve_loop os k i ctx resp cn sv tr = Some (ctx', cn', sv', tr') \<and>
      session_inv i ctx' resp' sv' tr' \<and> turn_ok i ctx sv tr ctx' sv' tr'"
proof (induction os k i ctx resp cn sv tr rule: serve_loop.induct)
  case (1 os k i ctx resp cn sv tr)
  from serve_once_good [OF "1.prems"(2) spec [OF "1.prems"(1), of k], of cn] obtain go ctx1 resp1 cn1 sv1 tr1
    where o: "serve_once (os k) i ctx resp cn sv tr = Some (go, ctx1, resp1, cn1, sv1, tr1)"
      and v: "session_inv i ctx1 resp1 sv1 tr1" and t: "turn_ok i ctx sv tr ctx1 sv1 tr1"
    by (auto simp: good_turn_def)
  show ?case
  proof (cases go)
    case False
    then show ?thesis using o v t by (auto simp: serve_loop.simps [of os k])
  next
    case True
    then have "serve_loop os k i ctx resp cn sv tr = serve_loop os (k + 1) i ctx1 resp1 cn1 sv1 tr1"
      using o by (simp add: serve_loop.simps [of os k])
    then show ?thesis using "1.IH" [OF o refl refl refl refl refl True "1.prems"(1) v] turn_ok_trans [OF t] by metis
  qed
qed

section \<open>The handshake of a session\<close>

text \<open>What a first message proves: it is the protocol's first message for the server's key pair and some
  agent's static key.\<close>

definition authentic_msg1 :: "(bytes \<Rightarrow> bytes \<Rightarrow> bytes) \<Rightarrow> bytes \<Rightarrow> bytes \<Rightarrow> bytes \<Rightarrow> bytes \<Rightarrow> bool" where
  "authentic_msg1 dh priv pub agent m \<longleftrightarrow> length m = 96 \<and> length agent = 32 \<and>
     (\<exists>h ck. ik_msg1 (ik_h0 pub) (snd init_symmetric) (take 32 m) (dh priv (take 32 m)) agent (dh priv agent) = (h, ck, m))"

lemma send_in [simp]: "send d cn = (n, cn') \<Longrightarrow> cn_in cn' = cn_in cn"
  by (auto simp: send_def Let_def)

lemma write_msg2_ready:
  assumes "curve_sizes dh pk" and "sym_ok st" and "st_is_server st"
  obtains st' m where "noise_ik_write_msg2 dh pk u True st = (NOISE_OK, st', Some m)" "noise_ready st'" "length m = 48"
proof -
  obtain e ep where e: "noise_ik_generate_keypair pk u (st_e_priv st) = (e, ep)" by fastforce
  obtain h ck m where m: "ik_msg2 (st_h st) (st_ck st) ep (dh e (st_re_pub st)) (dh e (st_rs_pub st)) = (h, ck, m)"
    by (cases "ik_msg2 (st_h st) (st_ck st) ep (dh e (st_re_pub st)) (dh e (st_rs_pub st))") auto
  have "length ep = 32" using generate_keypair_pub [of pk u "st_e_priv st"] e assms(1) by auto
  then have l: "length ck = 64" "length m = 48"
    using ik_msg2_length [OF _ _ _ _ _ m] assms by (auto simp: sym_ok_def)
  obtain k1 k2 where k: "split ck = (k1, k2)" by fastforce
  show thesis
    by (rule that [OF write_msg2_eq [OF assms e m k]])
      (use split_length [OF l(1)] k l in \<open>simp_all add: noise_ready_def\<close>)
qed

lemma handshake_ok:
  assumes cs: "curve_sizes dh pk" and w: "wf_server sv"
    and h: "handshake dh pk u sv ctx cn = (True, ctx', cn')"
  obtains m rest where "concat (cn_in cn) = m @ rest" "authentic_msg1 dh (sv_priv sv) (sv_pub sv) (cx_agent_pub ctx') m"
    and "noise_ready (cx_noise ctx')" "cx_epoch_id ctx' = derive_epoch_id (cx_noise ctx')" "length (cx_epoch_id ctx') = 4"
    and "cx_last_seen_seq ctx' = cx_last_seen_seq ctx" "cx_session_id ctx' = cx_session_id ctx"
proof -
  have k: "length (sv_priv sv) = 32" "length (sv_pub sv) = 32" using w by (simp_all add: wf_server_def)
  obtain n cn1 where s1: "send (pre_handshake_frame (sv_pub sv)) cn = (n, cn1)" by fastforce
  let ?st0 = "zero_state\<lparr>st_s_priv := sv_priv sv, st_s_pub := sv_pub sv, st_is_server := True, st_h := ik_h0 (sv_pub sv),
    st_ck := snd init_symmetric\<rparr>"
  have i: "noise_ik_init_server (Some (sv_priv sv)) (Some (sv_pub sv)) (cx_noise ctx) = (NOISE_OK, ?st0)"
    by (rule init_server_eq [OF k])
  have ok: "sym_ok ?st0" using ik_h0_length [OF k(2)] init_symmetric_length by (simp add: sym_ok_def)
  obtain r cn2 where s2: "recv_exact NOISE_MSG1_SIZE cn1 = (r, cn2)" by fastforce
  from h s1 i s2 obtain m where m: "r = Some m"
    by (cases r) (auto simp: handshake_def Let_def split: if_splits)
  have lm: "length m = 96" "concat (cn_in cn) = m @ concat (cn_in cn2)"
    using recv_exact_Some [of NOISE_MSG1_SIZE cn1 m cn2] s2 m send_in [OF s1] by (simp_all add: noise_sizes)
  obtain rc st1 ag where r1: "noise_ik_read_msg1 dh (Some m) ?st0 = (rc, st1, ag)"
    by (cases "noise_ik_read_msg1 dh (Some m) ?st0") auto
  have rc: "rc = NOISE_OK"
    using h s1 i s2 m r1 by (auto simp: handshake_def Let_def split: if_splits)
  have "ag \<noteq> None"
    using r1 rc by (auto simp: noise_ik_read_msg1_def Let_def code_defs split: option.splits if_splits prod.splits)
  then obtain a where a: "ag = Some a" by blast
  from read_msg1_iff [OF cs ok _ lm(1), of st1 a] r1 rc a obtain h' ck' where
    r: "length a = 32" "ik_msg1 (ik_h0 (sv_pub sv)) (snd init_symmetric) (take 32 m) (dh (sv_priv sv) (take 32 m)) a (dh (sv_priv sv) a) = (h', ck', m)"
      "st1 = ?st0\<lparr>st_re_pub := take 32 m, st_rs_pub := a, st_h := h', st_ck := ck'\<rparr>"
    by auto
  have l: "length h' = 64" "length ck' = 64"
    using ik_msg1_length [OF _ _ _ _ _ _ r(2)] ok lm(1) r(1) cs by (auto simp: sym_ok_def)
  then obtain st2 m2 where w2: "noise_ik_write_msg2 dh pk u True st1 = (NOISE_OK, st2, Some m2)" "noise_ready st2" "length m2 = 48"
    using write_msg2_ready [OF cs, of st1 u] r(3) by (auto simp: sym_ok_def)
  have c: "ctx' = ctx\<lparr>cx_noise := st2, cx_agent_pub := a, cx_epoch_id := derive_epoch_id st2\<rparr>"
    using h s1 i s2 m r1 rc a w2(1) by (auto simp: handshake_def Let_def case_prod_beta split: if_splits)
  have "length (derive_epoch_id st2) = 4"
    using w2(2) hmac_length' [of 32 "st_recv_key st2" 13 "ascii ''asys-epoch-v1''"] by (simp add: derive_epoch_id_def noise_ready_def)
  then show thesis using that [OF lm(2)] lm(1) r w2 c by (auto simp: authentic_msg1_def)
qed

section \<open>Admission and cleanup\<close>

lemma admit_cases:
  assumes "wf_server sv" and "length (cx_agent_pub ctx) = 32" and "noise_ready (cx_noise ctx)"
  obtains (refused) ctx' cn' where "admit sv ctx cn = (None, ctx', cn', sv)" "cx_session_id ctx' = cx_session_id ctx"
  | (admitted) i where "cx_agent_pub ctx \<in> set (wl_keys (sv_whitelist sv))" "i < APDU_POOL_SIZE" "pr_in_use (sv_pool sv ! i) = 0"
      "admit sv ctx cn = (Some i, ctx, cn, sv\<lparr>sv_pool := (sv_pool sv)[i := zero_parser\<lparr>pr_in_use := 1\<rparr>]\<rparr>)"
proof (cases "cx_agent_pub ctx \<in> set (wl_keys (sv_whitelist sv))")
  case False
  then have "whitelist_check (Some (sv_whitelist sv)) (Some (cx_agent_pub ctx)) \<noteq> WL_OK"
    using check_iff [OF _ assms(2)] assms(1) by (simp add: wf_server_def code_defs)
  moreover obtain ctx' cn' where s: "send_sw 0x69 0x82 ctx cn = (ctx', cn')" by fastforce
  moreover have "cx_session_id ctx' = cx_session_id ctx" using send_sw_keeps [OF s assms(3)] by simp
  ultimately show thesis using refused by (simp add: admit_def)
next
  case True
  then have c: "whitelist_check (Some (sv_whitelist sv)) (Some (cx_agent_pub ctx)) = WL_OK"
    using check_iff [OF _ assms(2)] assms(1) by (simp add: wf_server_def)
  show thesis
  proof (cases "find_first (\<lambda>p. pr_in_use p = 0) (sv_pool sv)")
    case None
    then show thesis using c refused by (simp add: admit_def apdu_pool_acquire_def)
  next
    case (Some i)
    then show thesis using c admitted [OF True] find_first_SomeD [OF Some] assms(1)
      by (simp add: admit_def apdu_pool_acquire_def wf_server_def)
  qed
qed

definition no_tasks :: "u16 \<Rightarrow> daemon \<Rightarrow> bool" where
  "no_tasks sid dm \<longleftrightarrow> (\<forall>e \<in> set (tp_entries (dm_tasks dm)). te_status e \<noteq> TASK_EMPTY \<longrightarrow> te_session_id e \<noteq> sid)"

lemma release_no_tasks: "no_tasks sid (dm\<lparr>dm_tasks := task_pool_release_session sid (dm_tasks dm)\<rparr>)"
  by (auto simp: no_tasks_def task_pool_release_session_def)

lemma wf_release: "wf_daemon dm \<Longrightarrow> wf_daemon (dm\<lparr>dm_tasks := task_pool_release_session sid (dm_tasks dm)\<rparr>)"
  by (simp add: wf_daemon_def wf_pool_release_session)

lemma cleanup_none:
  assumes "wf_server sv"
  shows "\<exists>sv'. cleanup None ctx sv = (ctx\<lparr>cx_noise := zero_state\<rparr>, sv') \<and> wf_server sv' \<and> sv_pool sv' = sv_pool sv \<and>
    dm_calls (sv_daemon sv') = dm_calls (sv_daemon sv) \<and> no_tasks (cx_session_id ctx) (sv_daemon sv')"
  using assms by (simp add: cleanup_def Let_def noise_ik_wipe_def release_no_tasks wf_server_daemon wf_release wf_server_def)

lemma cleanup_some:
  assumes "wf_server sv"
  shows "\<exists>sv'. cleanup (Some i) ctx sv = (ctx\<lparr>cx_noise := zero_state\<rparr>, sv') \<and> wf_server sv' \<and>
    sv_pool sv' = (sv_pool sv)[i := zero_parser] \<and>
    dm_calls (sv_daemon sv') = dm_calls (sv_daemon sv) \<and> no_tasks (cx_session_id ctx) (sv_daemon sv')"
  using wf_server_update [OF wf_server_daemon [OF assms wf_release], of "sv_daemon sv" zero_parser "cx_session_id ctx" i]
    assms release_no_tasks
  by (simp add: cleanup_def Let_def noise_ik_wipe_def apdu_pool_release_def wf_server_def)

section \<open>The whole connection\<close>

text \<open>The keys and the epoch identifier of the session a socket and a server give rise to.\<close>

definition session_secrets ::
    "(bytes \<Rightarrow> bytes \<Rightarrow> bytes) \<Rightarrow> (bytes \<Rightarrow> bytes) \<Rightarrow> bytes option \<Rightarrow> server \<Rightarrow> conn \<Rightarrow> bytes \<times> bytes" where
  "session_secrets dh pk u sv cn =
     (case handshake dh pk u (snd (next_session sv)) (zero_ctx\<lparr>cx_session_id := fst (next_session sv)\<rparr>)
        (snd (wait_for_client_magic cn)) of
        (_, ctx, _) \<Rightarrow> (st_recv_key (cx_noise ctx), derive_epoch_id (cx_noise ctx)))"

text \<open>An input that starts with the magic number and an authentic first message of a listed agent.\<close>

definition admitted_input ::
    "(bytes \<Rightarrow> bytes \<Rightarrow> bytes) \<Rightarrow> server \<Rightarrow> bytes \<Rightarrow> bool" where
  "admitted_input dh sv input \<longleftrightarrow>
     (\<exists>m agent rest. input = [0x41, 0x53, 0x59, 0x53] @ m @ rest \<and> authentic_msg1 dh (sv_priv sv) (sv_pub sv) agent m \<and>
        agent \<in> set (wl_keys (sv_whitelist sv)))"

lemma magic_ok:
  assumes "wait_for_client_magic cn = (0, cn')"
  shows "concat (cn_in cn) = [0x41, 0x53, 0x59, 0x53] @ concat (cn_in cn')"
proof -
  from assms obtain b where r: "recv_exact 4 cn = (Some b, cn')" and m: "be32 (b ! 0) (b ! 1) (b ! 2) (b ! 3) = 0x41535953"
    by (auto simp: wait_for_client_magic_def Let_def split: prod.splits option.splits if_splits)
  have l: "length b = 4" "concat (cn_in cn) = b @ concat (cn_in cn')" using recv_exact_Some [OF r] by simp_all
  have "take 4 b = b" using l(1) by simp
  then have "get_u32 b = 0x41535953" using m by (simp add: get_u32_def)
  then have "b = put_u32 0x41535953" using be32.enc_dec [OF l(1)] by simp
  also have "\<dots> = [0x41, 0x53, 0x59, 0x53]" by (simp add: put_u32_def drop_bit_eq_div)
  finally show ?thesis using l(2) by simp
qed

lemma next_session_wf: "wf_server sv \<Longrightarrow> wf_server (snd (next_session sv))"
  by (simp add: next_session_def Let_def wf_server_def)

lemma next_session_same:
  "sv_pool (snd (next_session sv)) = sv_pool sv" "sv_daemon (snd (next_session sv)) = sv_daemon sv"
  "sv_whitelist (snd (next_session sv)) = sv_whitelist sv" "sv_priv (snd (next_session sv)) = sv_priv sv"
  "sv_pub (snd (next_session sv)) = sv_pub sv"
  by (simp_all add: next_session_def Let_def)

definition client_good ::
    "(bytes \<Rightarrow> bytes \<Rightarrow> bytes) \<Rightarrow> (bytes \<Rightarrow> bytes) \<Rightarrow> bytes option \<Rightarrow> conn \<Rightarrow> server \<Rightarrow>
     session_ctx \<Rightarrow> server \<Rightarrow> event list \<Rightarrow> bool" where
  "client_good dh pk u cn sv ctx sv' tr \<longleftrightarrow>
     wf_server sv' \<and> map pr_in_use (sv_pool sv') = map pr_in_use (sv_pool sv) \<and> cx_noise ctx = zero_state \<and>
     (fst (wait_for_client_magic cn) = 0 \<longrightarrow> no_tasks (sv_next_session_id sv) (sv_daemon sv')) \<and>
     (tr \<noteq> [] \<longrightarrow> admitted_input dh sv (concat (cn_in cn))) \<and>
     (\<exists>seen. trace_ok (fst (session_secrets dh pk u sv cn)) (snd (session_secrets dh pk u sv cn)) seen tr) \<and>
     (dm_calls (sv_daemon sv') = dm_calls (sv_daemon sv) \<or> (\<exists>e \<in> set tr. ev_acts e))"

lemma trace_ok_Nil [simp]: "trace_ok key epoch seen []"
  by (simp add: trace_ok_def)

lemma handle_client_good:
  assumes w: "wf_server sv" and cs: "curve_sizes dh pk" and os: "\<forall>k. os_ok (os k)" and r: "length resp = DISP_RESP_MAX"
  obtains ctx cn' sv' tr where "handle_client dh pk u os resp cn sv = Some (ctx, cn', sv', tr)"
    and "client_good dh pk u cn sv ctx sv' tr"
proof -
  define sv1 where "sv1 = snd (next_session sv)"
  define ctx0 where "ctx0 = zero_ctx\<lparr>cx_session_id := sv_next_session_id sv\<rparr>"
  note same = next_session_same [of sv, folded sv1_def]
  have ns: "next_session sv = (sv_next_session_id sv, sv1)" by (simp add: sv1_def next_session_def Let_def)
  have w1: "wf_server sv1" using next_session_wf [OF w] by (simp add: sv1_def)
  obtain rc cn1 where m: "wait_for_client_magic cn = (rc, cn1)" by fastforce
  have refuse: "\<exists>sv'. cleanup None c sv1 = (c\<lparr>cx_noise := zero_state\<rparr>, sv') \<and>
      client_good dh pk u cn sv (c\<lparr>cx_noise := zero_state\<rparr>) sv' []"
    if "cx_session_id c = sv_next_session_id sv" for c
    using cleanup_none [OF w1, of c] that by (auto simp: client_good_def same)
  show thesis
  proof (cases "rc = 0")
    case False
    then have "handle_client dh pk u os resp cn sv = Some (ctx0, cn1, sv1, [])"
      by (simp add: handle_client_def ns m ctx0_def)
    then show thesis using that w1 False m by (simp add: client_good_def same ctx0_def zero_ctx_def)
  next
    case True
    obtain ok ctx1 cn2 where h: "handshake dh pk u sv1 ctx0 cn1 = (ok, ctx1, cn2)"
      by (cases "handshake dh pk u sv1 ctx0 cn1") auto
    have sec: "session_secrets dh pk u sv cn = (st_recv_key (cx_noise ctx1), derive_epoch_id (cx_noise ctx1))"
      using h m ns by (simp add: session_secrets_def ctx0_def)
    show thesis
    proof (cases ok)
      case False
      have "cx_session_id ctx1 = sv_next_session_id sv"
        using h by (auto simp: handshake_def Let_def ctx0_def split: prod.splits option.splits if_splits)
      then obtain sv' where c: "cleanup None ctx1 sv1 = (ctx1\<lparr>cx_noise := zero_state\<rparr>, sv')"
        "client_good dh pk u cn sv (ctx1\<lparr>cx_noise := zero_state\<rparr>) sv' []" using refuse by blast
      then have "handle_client dh pk u os resp cn sv = Some (ctx1\<lparr>cx_noise := zero_state\<rparr>, cn2, sv', [])"
        using False True h m ns by (simp add: handle_client_def ctx0_def)
      then show thesis using that c(2) by blast
    next
      case ok: True
      have h': "handshake dh pk u sv1 ctx0 cn1 = (True, ctx1, cn2)" using h ok by simp
      obtain msg rest
        where msg: "concat (cn_in cn1) = msg @ rest" "authentic_msg1 dh (sv_priv sv1) (sv_pub sv1) (cx_agent_pub ctx1) msg"
          and rd: "noise_ready (cx_noise ctx1)" and ep: "cx_epoch_id ctx1 = derive_epoch_id (cx_noise ctx1)" "length (cx_epoch_id ctx1) = 4"
          and sid: "cx_session_id ctx1 = sv_next_session_id sv"
        by (rule handshake_ok [OF cs w1 h']) (simp add: ctx0_def)
      have la: "length (cx_agent_pub ctx1) = 32" using msg(2) by (simp add: authentic_msg1_def)
      show thesis
      proof (cases rule: admit_cases [OF w1 la rd, of cn2])
        case (1 ctx2 cn3)
        obtain sv' where c: "cleanup None ctx2 sv1 = (ctx2\<lparr>cx_noise := zero_state\<rparr>, sv')"
          "client_good dh pk u cn sv (ctx2\<lparr>cx_noise := zero_state\<rparr>) sv' []" using refuse [of ctx2] 1(2) sid by auto
        then have "handle_client dh pk u os resp cn sv = Some (ctx2\<lparr>cx_noise := zero_state\<rparr>, cn3, sv', [])"
          using 1 True ok h m ns by (simp add: handle_client_def ctx0_def)
        then show thesis using that c(2) by blast
      next
        case (2 i)
        let ?sv2 = "sv1\<lparr>sv_pool := (sv_pool sv1)[i := zero_parser\<lparr>pr_in_use := 1\<rparr>]\<rparr>"
        have "wf_parser (zero_parser\<lparr>pr_in_use := 1\<rparr>)" by (simp add: wf_parser_def zero_parser_def)
        then have inv: "session_inv i ctx1 resp ?sv2 []"
          using wf_server_update [OF w1] 2(2) r rd ep by (simp add: session_inv_def)
        obtain ctx3 resp3 cn3 sv3 tr where l: "serve_loop os 0 i ctx1 resp cn2 ?sv2 [] = Some (ctx3, cn3, sv3, tr)"
          and inv3: "session_inv i ctx3 resp3 sv3 tr" and t: "turn_ok i ctx1 ?sv2 [] ctx3 sv3 tr"
          using serve_loop_good [OF os inv, of 0 cn2] by blast
        have w3: "wf_server sv3" using inv3 by (simp add: session_inv_def)
        obtain sv' where c: "cleanup (Some i) ctx3 sv3 = (ctx3\<lparr>cx_noise := zero_state\<rparr>, sv')" "wf_server sv'"
          "sv_pool sv' = (sv_pool sv3)[i := zero_parser]" "dm_calls (sv_daemon sv') = dm_calls (sv_daemon sv3)"
          "no_tasks (cx_session_id ctx3) (sv_daemon sv')"
          using cleanup_some [OF w3] by blast
        have "handle_client dh pk u os resp cn sv = Some (ctx3\<lparr>cx_noise := zero_state\<rparr>, cn3, sv', tr)"
          using 2(4) True ok h m ns l c(1) by (simp add: handle_client_def ctx0_def)
        moreover have "map pr_in_use (sv_pool sv') = map pr_in_use (sv_pool sv)"
        proof (rule nth_equalityI)
          show "length (map pr_in_use (sv_pool sv')) = length (map pr_in_use (sv_pool sv))"
            using w c(2) by (simp add: wf_server_def)
          fix j assume j: "j < length (map pr_in_use (sv_pool sv'))"
          then have jl: "j < length (sv_pool sv3)" "j < length (sv_pool sv)" using w w3 c(2) by (auto simp: wf_server_def)
          show "map pr_in_use (sv_pool sv') ! j = map pr_in_use (sv_pool sv) ! j"
            using jl c(3) t 2(3) same(1) by (cases "j = i") (auto simp: turn_ok_def zero_parser_def)
        qed
        moreover have "admitted_input dh sv (concat (cn_in cn))"
          using magic_ok [of cn cn1] m True msg 2(1) unfolding admitted_input_def same by auto
        moreover have "trace_ok (fst (session_secrets dh pk u sv cn)) (snd (session_secrets dh pk u sv cn)) (cx_last_seen_seq ctx3) tr"
          using inv3 t ep(1) unfolding sec by (simp add: session_inv_def turn_ok_def)
        moreover have "dm_calls (sv_daemon sv') = dm_calls (sv_daemon sv) \<or> (\<exists>e \<in> set tr. ev_acts e)"
          using t c(4) same(2) by (simp add: turn_ok_def)
        moreover have "no_tasks (sv_next_session_id sv) (sv_daemon sv')" using c(5) t sid by (simp add: turn_ok_def)
        ultimately show thesis using that c(2) by (auto simp: client_good_def)
      qed
    qed
  qed
qed

section \<open>Properties\<close>

text \<open>An initialised server with the key pair of the witnesses and one listed agent.\<close>

definition demo_whitelist :: whitelist where
  "demo_whitelist = zero_whitelist\<lparr>wl_entries := (replicate WHITELIST_MAX_AGENTS zero_agent)
     [0 := zero_agent\<lparr>ag_pub := toy_pk (replicate 32 2)\<rparr>], wl_count := 1\<rparr>"

definition demo_server :: server where
  "demo_server = \<lparr>sv_priv = replicate 32 1, sv_pub = toy_pk (replicate 32 1), sv_whitelist = demo_whitelist,
     sv_next_session_id = 1, sv_pool = replicate APDU_POOL_SIZE zero_parser, sv_daemon = initial_daemon 1 2\<rparr>"

lemma wf_demo_server: "wf_server demo_server"
proof -
  have "wf_whitelist demo_whitelist"
    by (auto simp: demo_whitelist_def wf_whitelist_def zero_whitelist_def zero_agent_def toy_pk_def WHITELIST_MAX_AGENTS_def
        nth_list_update set_conv_nth)
  then show ?thesis by (auto simp: wf_server_def demo_server_def wf_initial_daemon toy_pk_def)
qed

lemma quiet_os_ok: "os_ok quiet_os"
  by (simp add: os_ok_def ncpus_ok_def procs_ok_def quiet_os_def)

lemma toy_sizes: "curve_sizes toy_dh toy_pk"
  using toy_key_exchange by (simp add: key_exchange_def)

text \<open>An agent that sends the magic number and then garbage, in two segments.\<close>

definition demo_conn :: conn where
  "demo_conn = \<lparr>cn_in = [[0x41, 0x53], [0x59, 0x53] @ replicate 200 7], cn_out = [], cn_accepts = (\<lambda>_. 1000)\<rparr>"

text \<open>C6. Every connection ends and cleans up: for every finite input, however it is cut into segments,
  however many bytes each send accepts, and whatever the random device and the operating system do, the connection
  handler returns without undefined behaviour. Afterwards the server is well formed, exactly the parsers
  that were in use before are in use, the session keys are wiped, and once the magic number was right no
  task of the session is left.\<close>

theorem session_terminates:
  assumes "wf_server sv" and "curve_sizes dh pk" and "\<forall>k. os_ok (os k)" and "length resp = DISP_RESP_MAX"
  shows "\<exists>ctx cn' sv' tr. handle_client dh pk urandom os resp cn sv = Some (ctx, cn', sv', tr) \<and>
    wf_server sv' \<and> map pr_in_use (sv_pool sv') = map pr_in_use (sv_pool sv) \<and> cx_noise ctx = zero_state \<and>
    (fst (wait_for_client_magic cn) = 0 \<longrightarrow>
      (\<forall>e \<in> set (tp_entries (dm_tasks (sv_daemon sv'))). te_status e \<noteq> TASK_EMPTY \<longrightarrow> te_session_id e \<noteq> sv_next_session_id sv))"
  by (rule handle_client_good [OF assms, of urandom cn]) (auto simp: client_good_def no_tasks_def)

theorem session_terminates_witness:
  "\<exists>ctx cn' sv' tr. handle_client toy_dh toy_pk None (\<lambda>_. quiet_os) (replicate 256 0) demo_conn demo_server = Some (ctx, cn', sv', tr) \<and>
    map pr_in_use (sv_pool sv') = replicate 8 0"
proof -
  have "map pr_in_use (sv_pool demo_server) = replicate 8 0" by (simp add: demo_server_def zero_parser_def APDU_POOL_SIZE_def)
  then show ?thesis
    using session_terminates [OF wf_demo_server toy_sizes, of "\<lambda>_. quiet_os" "replicate 256 0" None demo_conn]
    by (auto simp: quiet_os_ok DISP_RESP_MAX_def)
qed

end
