(* ===== verification/HonestSession.thy ===== *)
theory HonestSession
  imports SessionSafety
begin

unbundle bit_operations_syntax

text \<open>
  The other direction: an honest agent that is in the whitelist is served. The agent runs the client side
  of noise_ik.c; its messages and the daemon's are put through the two sides of the model.
\<close>

section \<open>A socket that delivers and accepts everything\<close>

lemma recv_exact_front:
  assumes "cn_in cn = [d @ r]" and "length d = n" and "0 < n"
  shows "recv_exact n cn = (Some d, cn\<lparr>cn_in := (if r = [] then [] else [r])\<rparr>)"
proof -
  have "recv n [d @ r] = (d, if r = [] then [] else [r])" using assms by (simp add: recv_def)
  moreover have "d \<noteq> []" using assms by auto
  ultimately show ?thesis using assms
    by (simp add: recv_exact_def recv_loop.simps [of n "[]"] recv_loop.simps [of n d])
qed

lemma recv_exact_closed:
  assumes "cn_in cn = []" and "0 < n"
  shows "recv_exact n cn = (None, cn)"
  using assms by (simp add: recv_exact_def recv_loop.simps [of n "[]"] recv_def)

definition accepts_all :: "conn \<Rightarrow> bool" where
  "accepts_all cn \<longleftrightarrow> (\<forall>k. 2 ^ 16 \<le> cn_accepts cn k)"

lemma send_all:
  assumes "accepts_all cn" and "length d < 2 ^ 16"
  shows "send d cn = (int (length d), cn\<lparr>cn_out := cn_out cn @ [d]\<rparr>)"
proof -
  have "int (length d) \<le> cn_accepts cn (length (cn_out cn))" using assms by (auto simp: accepts_all_def intro: order_trans [of _ "2 ^ 16"])
  then show ?thesis by (simp add: send_def Let_def min_absorb2)
qed

lemma accepts_all_simps [simp]:
  "accepts_all (cn\<lparr>cn_out := x\<rparr>) = accepts_all cn" "accepts_all (cn\<lparr>cn_in := y\<rparr>) = accepts_all cn"
  by (simp_all add: accepts_all_def)

section \<open>One request\<close>

text \<open>A length prefix and what follows it.\<close>

definition packet :: "bytes \<Rightarrow> bytes" where
  "packet c = put_u16 (of_nat (length c)) @ c"

lemma put_u16_of_nat:
  assumes "n < 2 ^ 16"
  shows "put_u16 (of_nat n) = [of_nat (n div 256), of_nat (n mod 256)]"
proof -
  have n: "unat (of_nat n :: u16) = n" using assms by (simp add: unat_of_nat take_bit_nat_eq_self)
  have "unat (ucast (drop_bit 8 (of_nat n :: u16)) :: u8) = unat (of_nat (n div 256) :: u8)"
    by (simp only: unsigned_ucast_eq unsigned_drop_bit_eq n unat_of_nat) (use assms in \<open>simp add: drop_bit_eq_div [where 'a = nat] take_bit_eq_mod less_mult_imp_div_less\<close>)
  moreover have "unat (ucast (of_nat n AND 0xFF :: u16) :: u8) = unat (of_nat (n mod 256) :: u8)"
    by (simp only: and_0xFF unsigned_ucast_eq unsigned_take_bit_eq n unat_of_nat) (use assms in \<open>simp add: take_bit_eq_mod\<close>)
  ultimately show ?thesis by (simp add: put_u16_def word_unat_eq_iff)
qed

lemma of_nat_length_be16: "n < 2 ^ 16 \<Longrightarrow> put_u16 (of_nat n) = [a, b] \<Longrightarrow> unat (be16 a b) = n"
  using be16_put_u16 [of "of_nat n" a b] by (simp add: unat_of_nat take_bit_nat_eq_self)

lemma chan_send_seal:
  "st_handshake_done st \<Longrightarrow> chan_send p st = (st\<lparr>st_send_nonce := st_send_nonce st + 1\<rparr>,
    seal_once (st_send_key st) (nonce12_of (st_send_nonce st)) [] p)"
  by (simp add: chan_send_def encrypt_eq)

text \<open>An unsigned frame is answered and the loop goes on.\<close>

lemma serve_frame_plain:
  assumes inv: "session_inv i ctx resp sv tr" and os: "os_ok os"
    and parsed: "apdu_parser_try_parse (Some (sv_pool sv ! i)) (Some out) = Some (APDU_FRAME_READY, Some f)"
    and plain: "fr_sec f = APDU_SEC_PLAIN" and acc: "accepts_all cn"
    and whole: "received (sv_pool sv ! i) = take (fr_total_size f) (received (sv_pool sv ! i))"
    and lk: "length (st_send_key (cx_noise ctx)) = 32"
  obtains ctx' resp' sv' n ans reply where
    "serve_frame os i f ctx resp cn sv tr = Some (True, ctx', resp', cn\<lparr>cn_out := cn_out cn @ [put_u16 (of_nat (length reply)), reply]\<rparr>,
       sv', tr @ [Dispatched f (pr_buf (sv_pool sv ! i)) (int n) (be16 (ans ! (n - 2)) (ans ! (n - 1)))])"
    "chan_send ans (cx_noise ctx) = (cx_noise ctx', reply)" "length ans = n" "2 \<le> n"
    "received (sv_pool sv' ! i) = []"
proof -
  let ?p = "sv_pool sv ! i"
  have w: "wf_server sv" "i < APDU_POOL_SIZE" "length resp = 256" "wf_daemon (sv_daemon sv)" "i < length (sv_pool sv)"
    "st_handshake_done (cx_noise ctx)"
    using inv by (auto simp: session_inv_def wf_server_def DISP_RESP_MAX_def noise_ready_def)
  have wp: "wf_parser ?p" by (rule wf_server_parser [OF w(1,2)])
  note fi = frame_in_parsed [OF wp parsed]
  have r6: "6 \<le> length resp" using w(3) by simp
  obtain n resp' dm' where d: "dispatch os (pr_buf ?p) (Some f) (Some resp) (length resp) (cx_session_id ctx) (sv_daemon sv) =
      Some (int n, resp', dm')" "2 \<le> n" "n \<le> length resp" "length resp' = length resp"
    by (rule dispatcher.run_cases [OF os fi(1) w(4) r6, of "cx_session_id ctx"])
  obtain p' where p': "apdu_parser_consume (Some ?p) (Some f) = Some (Some p')" "received p' = drop (fr_total_size f) (received ?p)"
    using consume_total [OF wp, of f] by blast
  have ln: "length (take n resp') = n" using d(3,4) by simp
  let ?st = "(cx_noise ctx)\<lparr>st_send_nonce := st_send_nonce (cx_noise ctx) + 1\<rparr>"
  let ?reply = "seal_once (st_send_key (cx_noise ctx)) (nonce12_of (st_send_nonce (cx_noise ctx))) [] (take n resp')"
  let ?sv = "sv\<lparr>sv_daemon := dm', sv_pool := (sv_pool sv)[i := p']\<rparr>"
  have enc: "noise_ik_encrypt (take n resp') n True (cx_noise ctx) = (NOISE_OK, ?st, Some ?reply)"
    using encrypt_eq [OF w(6), of "take n resp'"] unfolding ln .
  have lr: "length ?reply = n + 16" using seal_once_length [OF lk] ln by simp
  have rd: "rd resp' (nat (int n - 2)) = Some (resp' ! (n - 2))" "rd resp' (nat (int n - 1)) = Some (resp' ! (n - 1))"
    using d(2-4) by (simp_all add: nat_diff_distrib)
  have small: "n + 16 < 2 ^ 16" using d(3) w(3) by simp
  have s1: "send [of_nat ((n + 16) div 256), of_nat ((n + 16) mod 256)] cn = (2, cn\<lparr>cn_out := cn_out cn @ [put_u16 (of_nat (n + 16))]\<rparr>)"
    using send_all [OF acc, of "put_u16 (of_nat (n + 16))"] unfolding put_u16_of_nat [OF small] by simp
  have s2: "send ?reply (cn\<lparr>cn_out := cn_out cn @ [put_u16 (of_nat (n + 16))]\<rparr>) =
      (int (n + 16), cn\<lparr>cn_out := cn_out cn @ [put_u16 (of_nat (n + 16)), ?reply]\<rparr>)"
    using send_all [of "cn\<lparr>cn_out := cn_out cn @ [put_u16 (of_nat (n + 16))]\<rparr>" ?reply] acc small unfolding lr by simp
  have g: "frame_gate ctx (pr_buf ?p) f = Some (None, ctx)" using plain by (simp add: frame_gate_def)
  have sf: "serve_frame os i f ctx resp cn sv tr = Some (True, ctx\<lparr>cx_noise := ?st\<rparr>, resp',
      cn\<lparr>cn_out := cn_out cn @ [put_u16 (of_nat (n + 16)), ?reply]\<rparr>, ?sv,
      tr @ [Dispatched f (pr_buf ?p) (int n) (be16 (resp' ! (n - 2)) (resp' ! (n - 1)))])"
    using g d(1) p'(1) rd enc w(3) s1 s2
    by (simp add: serve_frame_def DISP_RESP_MAX_def noise_sizes Let_def del: One_nat_def)
  show thesis
  proof (rule that [of "ctx\<lparr>cx_noise := ?st\<rparr>" resp' ?reply ?sv n "take n resp'"])
    show "chan_send (take n resp') (cx_noise ctx) = (cx_noise (ctx\<lparr>cx_noise := ?st\<rparr>), ?reply)"
      using chan_send_seal [OF w(6)] by simp
    show "received (sv_pool ?sv ! i) = []" using p'(2) whole w(5) by (simp, metis drop_all length_take min.cobounded2 nle_le)
  qed (use sf d(2) ln lr in simp_all)
qed

text \<open>A plain request as one packet, for a session whose parser is empty. The 2-byte length prefix bounds
  the packet: the longest frames of the grammar do not fit one.\<close>

definition plain_request :: "apdu_msg \<Rightarrow> bool" where
  "plain_request m \<longleftrightarrow> wf_msg m \<and> cla_sec (ms_cla m) = APDU_SEC_PLAIN \<and> length (apdu_wire m) + NOISE_MAC_SIZE < 2 ^ 16"

definition paired :: "noise_ik_state \<Rightarrow> noise_ik_state \<Rightarrow> bool" where
  "paired x y \<longleftrightarrow> linked x y \<and> linked y x"

lemma deliver_paired:
  assumes "paired x y" and "chan_send p x = (x', c)"
  obtains y' where "chan_recv c y = (y', Some p)" and "paired x' y'"
  using noise.recv_send [of x y p x' c] noise.send_other [of y x p x' c] noise.recv_other [of y x' c] assms
  unfolding paired_def by metis

lemma paired_sym: "paired x y \<Longrightarrow> paired y x"
  by (simp add: paired_def)

lemma chan_send_length:
  assumes "linked x y" and "chan_send p x = (x', c)"
  shows "length c = length p + 16"
  using assms chan_send_seal [of x p] by (auto simp: linked_def seal_once_length)

lemma chan_recv_decrypt:
  "chan_recv c y = (y', Some p) \<Longrightarrow> noise_ik_decrypt (Some c) (length c) True y = (NOISE_OK, y', Some p)"
  by (auto simp: chan_recv_def split: prod.splits if_splits)

lemma wire_nonempty: "apdu_wire m \<noteq> []"
  by (simp add: apdu_wire_def)

definition segs :: "bytes \<Rightarrow> bytes list" where
  "segs r = (if r = [] then [] else [r])"

lemma recv_exact_segs:
  "cn_in cn = segs (d @ r) \<Longrightarrow> length d = n \<Longrightarrow> 0 < n \<Longrightarrow> recv_exact n cn = (Some d, cn\<lparr>cn_in := segs r\<rparr>)"
  using recv_exact_front [of cn d r n] by (auto simp: segs_def split: if_splits)

lemma serve_once_request:
  assumes inv: "session_inv i ctx resp sv tr" and os: "os_ok os" and empty: "pr_filled (sv_pool sv ! i) = 0"
    and pd: "paired ag (cx_noise ctx)" and m: "plain_request m"
    and s: "chan_send (apdu_wire m) ag = (ag1, c)"
    and cn: "cn_in cn = segs (packet c @ r)" "accepts_all cn"
  obtains ctx' resp' sv' f buf n ans reply ag2 where
    "serve_once os i ctx resp cn sv tr = Some (True, ctx', resp',
       cn\<lparr>cn_in := segs r, cn_out := cn_out cn @ [put_u16 (of_nat (length reply)), reply]\<rparr>,
       sv', tr @ [Dispatched f buf (int n) (be16 (ans ! (n - 2)) (ans ! (n - 1)))])"
    "frame_msg buf f = m" "chan_recv reply ag1 = (ag2, Some ans)" "paired ag2 (cx_noise ctx')" "length ans = n" "2 \<le> n"
    "pr_filled (sv_pool sv' ! i) = 0"
proof -
  let ?p = "sv_pool sv ! i"
  have w: "wf_server sv" "i < APDU_POOL_SIZE" "i < length (sv_pool sv)" "noise_ready (cx_noise ctx)"
    using inv by (auto simp: session_inv_def wf_server_def)
  have wp: "wf_parser ?p" by (rule wf_server_parser [OF w(1,2)])
  have wire: "wf_msg m" "length (apdu_wire m) \<le> APDU_MAX_FRAME_SIZE" using m apdu_wire_length by (auto simp: plain_request_def)
  have lc: "length c = length (apdu_wire m) + 16" using chan_send_length [OF _ s] pd by (auto simp: paired_def)
  then have small: "length c < 2 ^ 16" "NOISE_MAC_SIZE \<le> length c" "length c \<le> APDU_MAX_FRAME_SIZE + NOISE_MAC_SIZE" "0 < length c"
    "length c - NOISE_MAC_SIZE = length (apdu_wire m)"
    using wire(2) m by (simp_all add: plain_request_def code_defs noise_sizes)
  obtain a b where ab: "put_u16 (of_nat (length c)) = [a, b]" "unat (be16 a b) = length c"
    using of_nat_length_be16 [OF small(1)] put_u16_Cons by blast
  obtain st1 where d: "chan_recv c (cx_noise ctx) = (st1, Some (apdu_wire m))" and pd1: "paired ag1 st1"
    by (rule deliver_paired [OF pd s])
  have room: "pr_filled ?p + length (apdu_wire m) \<le> APDU_MAX_FRAME_SIZE" using wire(2) empty by simp
  then obtain buf where buf: "wr_range (pr_buf ?p) (pr_filled ?p) (apdu_wire m) = Some buf"
    using wr_range_def_iff [of "pr_buf ?p" "pr_filled ?p" "apdu_wire m"] wp by (auto simp: wf_parser_def)
  let ?p' = "apdu_parser_recv_commit (?p\<lparr>pr_buf := buf\<rparr>) (length (apdu_wire m))"
  have wp': "wf_parser ?p'" and rc: "received ?p' = apdu_wire m"
    using recv_commit_received [OF wp room] buf empty by (simp_all add: apdu_parser_recv_ptr_def received_def [of ?p])
  let ?ctx = "ctx\<lparr>cx_noise := st1\<rparr>" and ?sv = "sv\<lparr>sv_pool := (sv_pool sv)[i := ?p']\<rparr>"
  let ?cn = "cn\<lparr>cn_in := segs r\<rparr>"
  have "st_recv_key st1 = st_recv_key (cx_noise ctx)" "st_handshake_done st1"
    using chan_recv_decrypt [OF d] w(4) by (auto simp: decrypt_eq noise_ready_def split: option.splits)
  then have inv1: "session_inv i ?ctx resp ?sv tr"
    using session_inv_noise [OF inv, of st1] wf_server_update [OF w(1) wp', of i] by (simp add: session_inv_def)
  obtain c' f where p: "apdu_parser_try_parse (Some ?p') (Some zero_frame) = Some (c', Some f)"
    "if c' = APDU_FRAME_READY then frame_ok ?p' f else f = zero_frame" "abs_result ?p' c' f = apdu_spec (received ?p')"
    using try_parse_refines [OF wp'] by blast
  have sp: "apdu_spec (received ?p') = Frame m []" using apdu_spec_wire [OF wire(1), of "[]"] unfolding rc by simp
  then have ready: "c' = APDU_FRAME_READY" "frame_msg (pr_buf ?p') f = m" "drop (fr_total_size f) (received ?p') = []"
    using p(3) by (auto simp: abs_result_def received_def split: if_splits)
  have pt: "apdu_parser_try_parse (Some (sv_pool ?sv ! i)) (Some zero_frame) = Some (APDU_FRAME_READY, Some f)"
    using p(1) ready(1) w(3) by simp
  have "fr_cla f = ms_cla m" using arg_cong [OF ready(2), of ms_cla] by (simp only: frame_msg_def apdu_msg.simps)
  then have plain: "fr_sec f = APDU_SEC_PLAIN"
    using p(2) ready(1) m by (simp add: frame_ok_def plain_request_def)
  have whole: "received (sv_pool ?sv ! i) = take (fr_total_size f) (received (sv_pool ?sv ! i))"
    using ready(3) w(3) by simp
  have acc: "accepts_all ?cn" using cn(2) by simp
  have lk: "length (st_send_key (cx_noise ?ctx)) = 32" using pd1 by (auto simp: paired_def linked_def)
  obtain ctx' resp' sv' n ans reply where sf:
    "serve_frame os i f ?ctx resp ?cn ?sv tr = Some (True, ctx', resp', ?cn\<lparr>cn_out := cn_out ?cn @ [put_u16 (of_nat (length reply)), reply]\<rparr>,
       sv', tr @ [Dispatched f (pr_buf (sv_pool ?sv ! i)) (int n) (be16 (ans ! (n - 2)) (ans ! (n - 1)))])"
    "chan_send ans (cx_noise ?ctx) = (cx_noise ctx', reply)" "length ans = n" "2 \<le> n" "received (sv_pool sv' ! i) = []"
    by (rule serve_frame_plain [OF inv1 os pt plain acc whole lk])
  have pd1': "paired (cx_noise ?ctx) ag1" using paired_sym [OF pd1] by simp
  obtain ag2 where r2: "chan_recv reply ag1 = (ag2, Some ans)" and pd2: "paired (cx_noise ctx') ag2"
    by (rule deliver_paired [OF pd1' sf(2)])
  have sp2: "serve_parsed os i ?ctx resp ?cn ?sv tr = serve_frame os i f ?ctx resp ?cn ?sv tr"
    unfolding serve_parsed_def pt by (simp add: code_defs)
  have r1: "recv_exact 2 cn = (Some [a, b], cn\<lparr>cn_in := segs (c @ r)\<rparr>)"
    by (rule recv_exact_segs) (use cn(1) ab(1) in \<open>simp_all add: packet_def\<close>)
  have r1': "recv_exact (length c) (cn\<lparr>cn_in := segs (c @ r)\<rparr>) = (Some c, ?cn)"
    using recv_exact_segs [of "cn\<lparr>cn_in := segs (c @ r)\<rparr>" c r "length c"] small(4) by simp
  have "serve_once os i ctx resp cn sv tr = serve_parsed os i ?ctx resp ?cn ?sv tr"
    using r1 r1' ab small(2,3) chan_recv_decrypt [OF d] buf recv_ptr_max [OF wp] wire(2) empty
    by (simp add: serve_once_def Let_def small(5) del: One_nat_def)
  then have so: "serve_once os i ctx resp cn sv tr = Some (True, ctx', resp',
       cn\<lparr>cn_in := segs r, cn_out := cn_out cn @ [put_u16 (of_nat (length reply)), reply]\<rparr>,
       sv', tr @ [Dispatched f (pr_buf ?p') (int n) (be16 (ans ! (n - 2)) (ans ! (n - 1)))])"
    using sf(1) sp2 w(3) by simp
  have "session_inv i ctx' resp' sv' (tr @ [Dispatched f (pr_buf ?p') (int n) (be16 (ans ! (n - 2)) (ans ! (n - 1)))])"
    using serve_once_good [OF inv os, of cn] so by (auto simp: good_turn_def)
  then have "wf_parser (sv_pool sv' ! i)" using wf_server_parser by (simp add: session_inv_def)
  then have "pr_filled (sv_pool sv' ! i) = 0" using sf(5) by (auto simp: received_def wf_parser_def code_defs)
  then show thesis using that [OF so ready(2) r2 paired_sym [OF pd2] sf(3,4)] by simp
qed

section \<open>A series of requests\<close>

text \<open>The two directions of one end do not disturb each other.\<close>

lemma send_recv_commute:
  assumes "st_handshake_done x" and "chan_send p x = (x1, c)" and "chan_recv d x = (x2, r)"
  shows "\<exists>x3. chan_send p x2 = (x3, c) \<and> chan_recv d x1 = (x3, r)"
proof (cases "unseal_once (st_recv_key x) (nonce12_of (st_recv_nonce x)) [] d")
  case None
  then show ?thesis using assms by (auto simp: chan_send_seal chan_recv_def decrypt_eq code_defs)
next
  case (Some q)
  then have "x2 = x\<lparr>st_recv_nonce := st_recv_nonce x + 1\<rparr>" "r = Some q"
    using assms by (simp_all add: chan_recv_def decrypt_eq)
  then show ?thesis using assms(1,2) Some by (auto simp: chan_send_seal chan_recv_def decrypt_eq)
qed

lemma sends_recv_commute:
  "st_handshake_done x \<Longrightarrow> noise.sends ps x = (x1, cs) \<Longrightarrow> chan_recv d x = (x2, r) \<Longrightarrow>
    \<exists>x3. noise.sends ps x2 = (x3, cs) \<and> chan_recv d x1 = (x3, r)"
proof (induction ps arbitrary: x x1 x2 cs)
  case (Cons p ps)
  obtain y c where y: "chan_send p x = (y, c)" by fastforce
  obtain y1 cs1 where s: "noise.sends ps y = (y1, cs1)" by fastforce
  have e: "x1 = y1" "cs = c # cs1" using Cons.prems(2) y s by simp_all
  obtain y2 where c: "chan_send p x2 = (y2, c)" "chan_recv d y = (y2, r)"
    using send_recv_commute [OF Cons.prems(1) y Cons.prems(3)] by blast
  have "st_handshake_done y" using y Cons.prems(1) chan_send_seal by auto
  from Cons.IH [OF this s c(2)] show ?case using c(1) e by auto
qed simp

text \<open>What the agent's transcript says: every request was dispatched as it was sent, in order, and the
  replies decrypt to the answers, each ending in its status word.\<close>

definition event_msg :: "event \<Rightarrow> apdu_msg" where
  "event_msg e = frame_msg (ev_buf e) (ev_frame e)"

definition answer_of :: "event \<Rightarrow> bytes \<Rightarrow> bool" where
  "answer_of e a \<longleftrightarrow> ev_len e = int (length a) \<and> 2 \<le> length a \<and> ev_sw e = be16 (a ! (length a - 2)) (a ! (length a - 1))"

definition packets_out :: "bytes list \<Rightarrow> bytes list" where
  "packets_out rs = concat (map (\<lambda>r. [put_u16 (of_nat (length r)), r]) rs)"

definition served_all ::
    "apdu_msg list \<Rightarrow> noise_ik_state \<Rightarrow> event list \<Rightarrow> bytes list \<Rightarrow> bool" where
  "served_all ms ag evs out \<longleftrightarrow> map event_msg evs = ms \<and>
     (\<exists>rs anss. out = packets_out rs \<and> length rs = length ms \<and> snd (noise.recvs rs ag) = zip rs anss \<and> list_all2 answer_of evs anss)"

lemma served_all_Cons:
  assumes "served_all ms ag' evs out" and "event_msg e = m" and "answer_of e a" and "chan_recv r ag = (ag', Some a)"
  shows "served_all (m # ms) ag (e # evs) ([put_u16 (of_nat (length r)), r] @ out)"
proof -
  obtain rs anss where "out = packets_out rs" "length rs = length ms" "snd (noise.recvs rs ag') = zip rs anss"
    "list_all2 answer_of evs anss" "map event_msg evs = ms"
    using assms(1) by (auto simp: served_all_def)
  then show ?thesis using assms(2-4) unfolding served_all_def
    by (intro conjI exI [of _ "r # rs"] exI [of _ "a # anss"]) (simp_all add: packets_out_def case_prod_beta)
qed

lemma serve_loop_requests:
  assumes os: "\<forall>k. os_ok (os k)"
  shows "session_inv i ctx resp sv tr \<Longrightarrow> pr_filled (sv_pool sv ! i) = 0 \<Longrightarrow> paired ag (cx_noise ctx) \<Longrightarrow>
    \<forall>m \<in> set ms. plain_request m \<Longrightarrow> noise.sends (map apdu_wire ms) ag = (ag1, cs) \<Longrightarrow>
    cn_in cn = segs (concat (map packet cs)) \<Longrightarrow> accepts_all cn \<Longrightarrow>
    \<exists>ctx' cn' sv' evs out. serve_loop os k i ctx resp cn sv tr = Some (ctx', cn', sv', tr @ evs) \<and>
      cn_out cn' = cn_out cn @ out \<and> served_all ms ag1 evs out"
proof (induction ms arbitrary: k ctx resp cn sv tr ag ag1 cs)
  case Nil
  then have "serve_once (os k) i ctx resp cn sv tr = Some (False, ctx, resp, cn, sv, tr)"
    by (simp add: serve_once_def recv_exact_closed segs_def)
  then have "serve_loop os k i ctx resp cn sv tr = Some (ctx, cn, sv, tr @ [])" by (simp add: serve_loop.simps [of os k])
  then show ?case by (fastforce simp: served_all_def packets_out_def)
next
  case (Cons m ms)
  obtain ag' c where s: "chan_send (apdu_wire m) ag = (ag', c)" by fastforce
  obtain agn cs' where ss: "noise.sends (map apdu_wire ms) ag' = (agn, cs')" by fastforce
  have e: "agn = ag1" "cs = c # cs'" using Cons.prems(5) s ss by simp_all
  have m: "plain_request m" "\<forall>m \<in> set ms. plain_request m" using Cons.prems(4) by simp_all
  have cin: "cn_in cn = segs (packet c @ concat (map packet cs'))" using Cons.prems(6) e(2) by simp
  from Cons.prems(1) spec [OF os] Cons.prems(2,3) m(1) s cin Cons.prems(7)
  obtain ctx' resp' sv' f buf n ans reply ag2 where so:
    "serve_once (os k) i ctx resp cn sv tr = Some (True, ctx', resp',
       cn\<lparr>cn_in := segs (concat (map packet cs')), cn_out := cn_out cn @ [put_u16 (of_nat (length reply)), reply]\<rparr>,
       sv', tr @ [Dispatched f buf (int n) (be16 (ans ! (n - 2)) (ans ! (n - 1)))])"
    and fm: "frame_msg buf f = m" and rc: "chan_recv reply ag' = (ag2, Some ans)" and pd: "paired ag2 (cx_noise ctx')"
    and n: "length ans = n" "2 \<le> n" and em: "pr_filled (sv_pool sv' ! i) = 0"
    by (rule serve_once_request)
  let ?e = "Dispatched f buf (int n) (be16 (ans ! (n - 2)) (ans ! (n - 1)))"
  let ?cn = "cn\<lparr>cn_in := segs (concat (map packet cs')), cn_out := cn_out cn @ [put_u16 (of_nat (length reply)), reply]\<rparr>"
  have inv: "session_inv i ctx' resp' sv' (tr @ [?e])"
    using serve_once_good [OF Cons.prems(1) spec [OF os], of k cn] so by (auto simp: good_turn_def)
  have "st_handshake_done ag'" using s Cons.prems(3) chan_send_seal by (auto simp: paired_def linked_def)
  from sends_recv_commute [OF this ss rc] obtain ag3 where c3: "noise.sends (map apdu_wire ms) ag2 = (ag3, cs')"
    "chan_recv reply ag1 = (ag3, Some ans)" unfolding e(1) by blast
  have cin': "cn_in ?cn = segs (concat (map packet cs'))" and acc: "accepts_all ?cn" using Cons.prems(7) by simp_all
  obtain ctx2 cn2 sv2 evs out where l: "serve_loop os (k + 1) i ctx' resp' ?cn sv' (tr @ [?e]) = Some (ctx2, cn2, sv2, (tr @ [?e]) @ evs)"
    "cn_out cn2 = cn_out ?cn @ out" "served_all ms ag3 evs out"
    using Cons.IH [OF inv em pd m(2) c3(1) cin' acc, of "k + 1"] by blast
  have "serve_loop os k i ctx resp cn sv tr = Some (ctx2, cn2, sv2, tr @ (?e # evs))"
    using so l(1) by (simp add: serve_loop.simps [of os k])
  moreover have "served_all (m # ms) ag1 (?e # evs) ([put_u16 (of_nat (length reply)), reply] @ out)"
    by (rule served_all_Cons [OF l(3) _ _ c3(2)]) (use fm n in \<open>simp_all add: event_msg_def answer_of_def\<close>)
  moreover have "cn_out cn2 = cn_out cn @ [put_u16 (of_nat (length reply)), reply] @ out" using l(2) by simp
  ultimately show ?case by blast
qed

section \<open>The whole session\<close>

lemma wait_for_magic:
  assumes "cn_in cn = [[0x41, 0x53, 0x59, 0x53] @ r]"
  shows "wait_for_client_magic cn = (0, cn\<lparr>cn_in := segs r\<rparr>)"
proof -
  have "cn_in cn = segs ([0x41, 0x53, 0x59, 0x53] @ r)" using assms by (simp add: segs_def)
  from recv_exact_segs [OF this, of 4] have "recv_exact 4 cn = (Some [0x41, 0x53, 0x59, 0x53], cn\<lparr>cn_in := segs r\<rparr>)" by simp
  moreover have "be32 0x41 0x53 0x59 0x53 = 0x41535953"
    by code_simp
  ultimately show ?thesis by (simp add: wait_for_client_magic_def)
qed

text \<open>The handshake of a listed agent succeeds on both sides and pairs their transport states.\<close>

lemma handshake_honest:
  assumes kx: "key_exchange dh pk" and w: "wf_server sv" and pub: "sv_pub sv = pk (sv_priv sv)" and b: "length b = 32"
    and ini: "noise_ik_init_client (Some b) (Some (pk b)) (Some (sv_pub sv)) ag0 = (c0, ag)"
    and w1: "noise_ik_write_msg1 dh pk ub True ag = (c1, ag1, Some m1)"
  obtains m2 ag2 st where "noise_ik_read_msg2 dh (Some m2) ag1 = (NOISE_OK, ag2)" and "paired ag2 st" and "noise_ready st"
    and "\<And>ctx cn r. cn_in cn = segs (m1 @ r) \<Longrightarrow> accepts_all cn \<Longrightarrow>
      handshake dh pk u sv ctx cn = (True, ctx\<lparr>cx_noise := st, cx_agent_pub := pk b, cx_epoch_id := derive_epoch_id st\<rparr>,
        cn\<lparr>cn_in := segs r, cn_out := cn_out cn @ [pre_handshake_frame (sv_pub sv), m2]\<rparr>)"
proof -
  note cs = key_exchangeD(1) [OF kx]
  note dl = curve_sizesD [OF cs]
  let ?a = "sv_priv sv"
  have k: "length ?a = 32" "length (sv_pub sv) = 32" using w by (simp_all add: wf_server_def)
  obtain e h ck m where l: "length e = 32" "length h = 64" "length ck = 64"
    and wm: "noise_ik_write_msg1 dh pk ub True (agent0 pk ?a b) = (NOISE_OK, agent1 pk ?a b e h ck, Some m)"
    and rm: "noise_ik_read_msg1 dh (Some m) (server0 pk ?a) = (NOISE_OK, server1 pk ?a b e h ck, Some (pk b))"
    by (rule honest_msg1 [OF kx k(1) b, of ub])
  let ?sv = "server1 pk ?a b e h ck" and ?ag = "agent1 pk ?a b e h ck"
  have ag: "ag = agent0 pk ?a b" using ini init_client_eq [OF b dl(2) dl(2)] pub by (simp add: agent0_def)
  have eq: "ag1 = ?ag" "m = m1" using w1 wm ag by simp_all
  obtain f h' ck' m2 k1 k2 where k2: "length k1 = 32" "length k2 = 32"
    and w2: "noise_ik_write_msg2 dh pk u True ?sv =
      (NOISE_OK, ?sv\<lparr>st_e_priv := f, st_e_pub := pk f, st_h := h', st_ck := ck', st_recv_key := k1, st_send_key := k2,
         st_send_nonce := 0, st_recv_nonce := 0, st_handshake_done := True\<rparr>, Some m2)"
    and r2: "noise_ik_read_msg2 dh (Some m2) ?ag =
      (NOISE_OK, ?ag\<lparr>st_re_pub := pk f, st_h := h', st_ck := ck', st_send_key := k1, st_recv_key := k2,
         st_send_nonce := 0, st_recv_nonce := 0, st_handshake_done := True\<rparr>)"
    by (rule honest_msg2 [OF kx b l, of u ?a])
  let ?st = "?sv\<lparr>st_e_priv := f, st_e_pub := pk f, st_h := h', st_ck := ck', st_recv_key := k1, st_send_key := k2,
    st_send_nonce := 0, st_recv_nonce := 0, st_handshake_done := True\<rparr>"
  let ?ag2 = "?ag\<lparr>st_re_pub := pk f, st_h := h', st_ck := ck', st_send_key := k1, st_recv_key := k2,
    st_send_nonce := 0, st_recv_nonce := 0, st_handshake_done := True\<rparr>"
  have sok: "sym_ok ?sv" "st_is_server ?sv" using l by (simp_all add: sym_ok_def honest_states)
  have lm2: "length m2 = 48" by (rule write_msg2_ready [OF cs sok, of u]) (use w2 in simp)
  have lm1: "length m1 = 96"
  proof -
    let ?ag0 = "agent0 pk ?a b"
    have ok: "sym_ok ?ag0" "length (st_s_pub ?ag0) = 32" "\<not> st_is_server ?ag0"
      using ik_h0_length [of "pk ?a"] dl by (simp_all add: sym_ok_def init_symmetric_length honest_states)
    obtain e0 ep where g: "noise_ik_generate_keypair pk ub (st_e_priv ?ag0) = (e0, ep)" by fastforce
    have ep: "length ep = 32" using generate_keypair_pub [of pk ub "st_e_priv ?ag0"] g dl by auto
    obtain h2 ck2 mm where im: "ik_msg1 (st_h ?ag0) (st_ck ?ag0) ep (dh e0 (st_rs_pub ?ag0)) (st_s_pub ?ag0)
        (dh (st_s_priv ?ag0) (st_rs_pub ?ag0)) = (h2, ck2, mm)" by (metis prod_cases3)
    have "mm = m1" using write_msg1_eq [OF cs ok g im] wm eq by simp
    then show ?thesis using ik_msg1_length(3) [OF _ _ ep dl(1) ok(2) dl(1) im] ok(1) by (simp add: sym_ok_def)
  qed
  have hs: "handshake dh pk u sv ctx cn = (True, ctx\<lparr>cx_noise := ?st, cx_agent_pub := pk b, cx_epoch_id := derive_epoch_id ?st\<rparr>,
      cn\<lparr>cn_in := segs r, cn_out := cn_out cn @ [pre_handshake_frame (sv_pub sv), m2]\<rparr>)"
    if i: "cn_in cn = segs (m1 @ r)" and acc: "accepts_all cn" for ctx cn r
  proof -
    let ?cn1 = "cn\<lparr>cn_out := cn_out cn @ [pre_handshake_frame (sv_pub sv)]\<rparr>"
    have "length (pre_handshake_frame (sv_pub sv)) = 38" using k(2) by (simp add: pre_handshake_frame_def noise_sizes)
    then have s1: "send (pre_handshake_frame (sv_pub sv)) cn = (int (length (pre_handshake_frame (sv_pub sv))), ?cn1)"
      using send_all [OF acc] by simp
    have si: "noise_ik_init_server (Some ?a) (Some (sv_pub sv)) (cx_noise ctx) = (NOISE_OK, server0 pk ?a)"
      using init_server_eq [OF k] pub by (simp add: server0_def)
    have r1: "recv_exact 96 ?cn1 = (Some m1, ?cn1\<lparr>cn_in := segs r\<rparr>)"
      by (rule recv_exact_segs) (use i lm1 in simp_all)
    have s2: "send m2 (?cn1\<lparr>cn_in := segs r\<rparr>) = (48, cn\<lparr>cn_in := segs r, cn_out := cn_out cn @ [pre_handshake_frame (sv_pub sv), m2]\<rparr>)"
      using send_all [of "?cn1\<lparr>cn_in := segs r\<rparr>" m2] acc lm2 by simp
    show ?thesis using s1 si r1 rm [unfolded eq(2)] w2 s2
      by (simp add: handshake_def Let_def noise_sizes)
  qed
  have "paired ?ag2 ?st" using k2 by (simp add: paired_def linked_def)
  moreover have "noise_ready ?st" using k2 by (simp add: noise_ready_def)
  ultimately show thesis using that [of m2 ?ag2 ?st] r2 eq(1) hs by blast
qed

text \<open>The admission of a listed agent when a parser is free.\<close>

lemma admit_listed:
  assumes "wf_server sv" and "length (cx_agent_pub ctx) = 32" and "cx_agent_pub ctx \<in> set (wl_keys (sv_whitelist sv))"
    and "\<exists>p \<in> set (sv_pool sv). pr_in_use p = 0"
  obtains i where "i < APDU_POOL_SIZE"
    and "\<forall>cn. admit sv ctx cn = (Some i, ctx, cn, sv\<lparr>sv_pool := (sv_pool sv)[i := zero_parser\<lparr>pr_in_use := 1\<rparr>]\<rparr>)"
proof -
  have c: "whitelist_check (Some (sv_whitelist sv)) (Some (cx_agent_pub ctx)) = WL_OK"
    using check_iff [OF _ assms(2)] assms(1,3) by (simp add: wf_server_def)
  have "find_first (\<lambda>p. pr_in_use p = 0) (sv_pool sv) \<noteq> None" using assms(4) by (auto simp: find_first_None)
  then obtain i where i: "find_first (\<lambda>p. pr_in_use p = 0) (sv_pool sv) = Some i" by blast
  show thesis
    by (rule that [of i]) (use c i find_first_SomeD [OF i] assms(1) in \<open>simp_all add: admit_def apdu_pool_acquire_def wf_server_def\<close>)
qed

lemma honest_served:
  assumes kx: "key_exchange dh pk" and w: "wf_server sv" and pub: "sv_pub sv = pk (sv_priv sv)" and b: "length b = 32"
    and listed: "pk b \<in> set (wl_keys (sv_whitelist sv))" and free: "\<exists>p \<in> set (sv_pool sv). pr_in_use p = 0"
    and os: "\<forall>k. os_ok (os k)" and resp: "length resp = DISP_RESP_MAX" and ms: "\<forall>m \<in> set ms. plain_request m"
    and ini: "noise_ik_init_client (Some b) (Some (pk b)) (Some (sv_pub sv)) ag0 = (c0, ag)"
    and w1: "noise_ik_write_msg1 dh pk ub True ag = (c1, ag1, Some m1)"
  obtains m2 ag2 where "noise_ik_read_msg2 dh (Some m2) ag1 = (NOISE_OK, ag2)"
    and "\<And>cn cs ag3. noise.sends (map apdu_wire ms) ag2 = (ag3, cs) \<Longrightarrow> accepts_all cn \<Longrightarrow>
      cn_in cn = [[0x41, 0x53, 0x59, 0x53] @ m1 @ concat (map packet cs)] \<Longrightarrow>
      \<exists>ctx cn' sv' evs out. handle_client dh pk u os resp cn sv = Some (ctx, cn', sv', evs) \<and>
        cn_out cn' = cn_out cn @ [pre_handshake_frame (sv_pub sv), m2] @ out \<and> served_all ms ag3 evs out"
proof -
  define sv1 where "sv1 = snd (next_session sv)"
  note same = next_session_same [of sv, folded sv1_def]
  have ns: "next_session sv = (sv_next_session_id sv, sv1)" by (simp add: sv1_def next_session_def Let_def)
  have w': "wf_server sv1" using next_session_wf [OF w] by (simp add: sv1_def)
  have pub1: "sv_pub sv1 = pk (sv_priv sv1)" and ini1: "noise_ik_init_client (Some b) (Some (pk b)) (Some (sv_pub sv1)) ag0 = (c0, ag)"
    using pub ini same by simp_all
  obtain m2 ag2 st where r2: "noise_ik_read_msg2 dh (Some m2) ag1 = (NOISE_OK, ag2)" and pd: "paired ag2 st" and rd: "noise_ready st"
    and hs: "\<And>ctx cn r. cn_in cn = segs (m1 @ r) \<Longrightarrow> accepts_all cn \<Longrightarrow>
      handshake dh pk u sv1 ctx cn = (True, ctx\<lparr>cx_noise := st, cx_agent_pub := pk b, cx_epoch_id := derive_epoch_id st\<rparr>,
        cn\<lparr>cn_in := segs r, cn_out := cn_out cn @ [pre_handshake_frame (sv_pub sv1), m2]\<rparr>)"
    using handshake_honest [OF kx w' pub1 b ini1 w1, of u thesis] by blast
  let ?ctx = "zero_ctx\<lparr>cx_session_id := sv_next_session_id sv, cx_noise := st, cx_agent_pub := pk b, cx_epoch_id := derive_epoch_id st\<rparr>"
  have lb: "length (cx_agent_pub ?ctx) = 32" using key_exchangeD(1) [OF kx] by auto
  have li: "cx_agent_pub ?ctx \<in> set (wl_keys (sv_whitelist sv1))" using listed same by simp
  have fr: "\<exists>p \<in> set (sv_pool sv1). pr_in_use p = 0" using free same by simp
  obtain i where i: "i < APDU_POOL_SIZE"
    and ad: "\<forall>cn. admit sv1 ?ctx cn = (Some i, ?ctx, cn, sv1\<lparr>sv_pool := (sv_pool sv1)[i := zero_parser\<lparr>pr_in_use := 1\<rparr>]\<rparr>)"
    by (rule admit_listed [OF w' lb li fr])
  let ?sv2 = "sv1\<lparr>sv_pool := (sv_pool sv1)[i := zero_parser\<lparr>pr_in_use := 1\<rparr>]\<rparr>"
  have "wf_parser (zero_parser\<lparr>pr_in_use := 1\<rparr>)" by (simp add: wf_parser_def zero_parser_def)
  moreover have "length (derive_epoch_id st) = 4"
    using rd hmac_length' [of 32 "st_recv_key st" 13 "ascii ''asys-epoch-v1''"] by (simp add: derive_epoch_id_def noise_ready_def)
  ultimately have inv: "session_inv i ?ctx resp ?sv2 []"
    using wf_server_update [OF w'] i resp rd by (simp add: session_inv_def)
  have il: "i < length (sv_pool sv1)" using w' i by (simp add: wf_server_def)
  have em: "pr_filled (sv_pool ?sv2 ! i) = 0" using il by (simp add: zero_parser_def)
  have pd': "paired ag2 (cx_noise ?ctx)" using pd by simp
  show thesis
  proof (rule that [OF r2])
    fix cn cs ag3
    assume s: "noise.sends (map apdu_wire ms) ag2 = (ag3, cs)" and acc: "accepts_all cn"
      and cin: "cn_in cn = [[0x41, 0x53, 0x59, 0x53] @ m1 @ concat (map packet cs)]"
    note wm = wait_for_magic [OF cin]
    let ?cn = "cn\<lparr>cn_in := segs (concat (map packet cs)), cn_out := cn_out cn @ [pre_handshake_frame (sv_pub sv), m2]\<rparr>"
    have h: "handshake dh pk u sv1 (zero_ctx\<lparr>cx_session_id := sv_next_session_id sv\<rparr>) (cn\<lparr>cn_in := segs (m1 @ concat (map packet cs))\<rparr>) =
        (True, ?ctx, ?cn)"
      using hs [of "cn\<lparr>cn_in := segs (m1 @ concat (map packet cs))\<rparr>" "concat (map packet cs)"] acc same by simp
    have cin': "cn_in ?cn = segs (concat (map packet cs))" and acc': "accepts_all ?cn" using acc by simp_all
    obtain ctx' cn' sv' evs out where l: "serve_loop os 0 i ?ctx resp ?cn ?sv2 [] = Some (ctx', cn', sv', [] @ evs)"
      "cn_out cn' = cn_out ?cn @ out" "served_all ms ag3 evs out"
      using serve_loop_requests [OF os inv em pd' ms s cin' acc', of 0] by blast
    obtain ctx2 sv2 where c: "cleanup (Some i) ctx' sv' = (ctx2, sv2)" by fastforce
    have "handle_client dh pk u os resp cn sv = Some (ctx2, cn', sv2, evs)"
      using ns wm h ad l(1) c by (simp add: handle_client_def Let_def)
    moreover have "cn_out cn' = cn_out cn @ [pre_handshake_frame (sv_pub sv), m2] @ out" using l(2) by simp
    ultimately show "\<exists>ctx cn' sv' evs out. handle_client dh pk u os resp cn sv = Some (ctx, cn', sv', evs) \<and>
        cn_out cn' = cn_out cn @ [pre_handshake_frame (sv_pub sv), m2] @ out \<and> served_all ms ag3 evs out"
      using l(3) by blast
  qed
qed

section \<open>Properties\<close>


text \<open>The agent of the examples asks the server to identify itself.\<close>

definition hello_msg :: apdu_msg where
  "hello_msg = \<lparr>ms_cla = 0, ms_ins = 0, ms_p1 = 0, ms_p2 = 0, ms_data = [], ms_le = 0, ms_tag = []\<rparr>"

lemma plain_hello: "plain_request hello_msg"
  by (simp add: plain_request_def wf_msg_def hello_msg_def apdu_wire_def cla_tag_len_def cla_sec_def cla_is_ext_def code_defs noise_sizes APDU_SEC_PLAIN_def)

lemma demo_agent:
  obtains ag c1 ag1 m1 where "noise_ik_init_client (Some (replicate 32 2)) (Some (toy_pk (replicate 32 2))) (Some (sv_pub demo_server)) zero_state = (NOISE_OK, ag)"
    and "noise_ik_write_msg1 toy_dh toy_pk None True ag = (c1, ag1, Some m1)"
proof -
  have l: "length (sv_pub demo_server) = 32" "length (toy_pk (replicate 32 2)) = 32" by (simp_all add: demo_server_def toy_pk_def)
  obtain ag where ag: "noise_ik_init_client (Some (replicate 32 2)) (Some (toy_pk (replicate 32 2))) (Some (sv_pub demo_server)) zero_state = (NOISE_OK, ag)"
    "\<not> st_is_server ag"
    using init_client_eq [OF _ l(2,1), of "replicate 32 2" zero_state] by (simp add: zero_state_def)
  show thesis using that [OF ag(1)] ag(2)
    by (simp add: noise_ik_write_msg1_def Let_def case_prod_beta)
qed

lemma demo_listed:
  "sv_pub demo_server = toy_pk (sv_priv demo_server)" "toy_pk (replicate 32 2) \<in> set (wl_keys (sv_whitelist demo_server))"
  "\<exists>p \<in> set (sv_pool demo_server). pr_in_use p = 0"
  by (simp_all add: demo_server_def demo_whitelist_def wl_keys_def zero_whitelist_def zero_parser_def APDU_POOL_SIZE_def
      WHITELIST_MAX_AGENTS_def numeral_eq_Suc)

text \<open>A connection of that agent that dispatches its request.\<close>

lemma demo_session:
  "\<exists>cn ctx cn' sv' tr. handle_client toy_dh toy_pk None (\<lambda>_. quiet_os) (replicate 256 0) cn demo_server = Some (ctx, cn', sv', tr) \<and>
    map event_msg tr = [hello_msg]"
proof -
  obtain ag c1 ag1 m1 where a: "noise_ik_init_client (Some (replicate 32 2)) (Some (toy_pk (replicate 32 2))) (Some (sv_pub demo_server)) zero_state = (NOISE_OK, ag)"
    "noise_ik_write_msg1 toy_dh toy_pk None True ag = (c1, ag1, Some m1)" by (rule demo_agent)
  have s: "length (replicate 32 2 :: bytes) = 32" "\<forall>k::nat. os_ok quiet_os" "length (replicate 256 0 :: bytes) = DISP_RESP_MAX"
    "\<forall>m \<in> set [hello_msg]. plain_request m"
    using quiet_os_ok plain_hello by (simp_all add: DISP_RESP_MAX_def)
  obtain m2 ag2 where
    c: "\<And>cn cs ag3. noise.sends (map apdu_wire [hello_msg]) ag2 = (ag3, cs) \<Longrightarrow> accepts_all cn \<Longrightarrow>
      cn_in cn = [[0x41, 0x53, 0x59, 0x53] @ m1 @ concat (map packet cs)] \<Longrightarrow>
      \<exists>ctx cn' sv' evs out. handle_client toy_dh toy_pk None (\<lambda>_. quiet_os) (replicate 256 0) cn demo_server = Some (ctx, cn', sv', evs) \<and>
        cn_out cn' = cn_out cn @ [pre_handshake_frame (sv_pub demo_server), m2] @ out \<and> served_all [hello_msg] ag3 evs out"
    using honest_served [OF toy_key_exchange wf_demo_server demo_listed(1) s(1) demo_listed(2,3) s(2-4) a, of None thesis] by blast
  obtain ag3 cs where s: "noise.sends (map apdu_wire [hello_msg]) ag2 = (ag3, cs)" by fastforce
  let ?cn = "\<lparr>cn_in = [[0x41, 0x53, 0x59, 0x53] @ m1 @ concat (map packet cs)], cn_out = [], cn_accepts = \<lambda>_. 2 ^ 16\<rparr>"
  have "accepts_all ?cn" by (simp add: accepts_all_def)
  from c [OF s this] show ?thesis unfolding served_all_def by fastforce
qed


text \<open>C4. Nothing is dispatched, and nothing done to the machine, for a peer that is not authenticated and
  listed: if a connection dispatches any frame, its input starts with the magic number and a first message
  that the protocol makes of this server's key and the static key of an agent in the whitelist; and a
  signal or a restart is issued only if a signed frame with one of the two acting instructions was
  dispatched.\<close>

theorem session_gate:
  assumes "wf_server sv" and "curve_sizes dh pk" and "\<forall>k. os_ok (os k)" and "length resp = DISP_RESP_MAX"
    and "handle_client dh pk urandom os resp cn sv = Some (ctx, cn', sv', tr)"
  shows "(tr \<noteq> [] \<longrightarrow> (\<exists>m agent rest. concat (cn_in cn) = [0x41, 0x53, 0x59, 0x53] @ m @ rest \<and>
      authentic_msg1 dh (sv_priv sv) (sv_pub sv) agent m \<and> agent \<in> set (wl_keys (sv_whitelist sv)))) \<and>
    (dm_calls (sv_daemon sv') \<noteq> dm_calls (sv_daemon sv) \<longrightarrow>
      (\<exists>e \<in> set tr. fr_sec (ev_frame e) = APDU_SEC_SIGNED \<and> fr_ins (ev_frame e) \<in> {0x20, 0x22}))"
  by (rule handle_client_good [OF assms(1-4), of urandom cn])
    (use assms(5) in \<open>auto simp: client_good_def admitted_input_def ev_acts_def\<close>)

theorem session_gate_witness:
  "\<exists>cn ctx cn' sv' tr m rest. handle_client toy_dh toy_pk None (\<lambda>_. quiet_os) (replicate 256 0) cn demo_server = Some (ctx, cn', sv', tr) \<and>
    tr \<noteq> [] \<and> concat (cn_in cn) = [0x41, 0x53, 0x59, 0x53] @ m @ rest \<and>
    authentic_msg1 toy_dh (replicate 32 1) (toy_pk (replicate 32 1)) (toy_pk (replicate 32 2)) m"
proof -
  obtain cn ctx cn' sv' tr where h: "handle_client toy_dh toy_pk None (\<lambda>_. quiet_os) (replicate 256 0) cn demo_server = Some (ctx, cn', sv', tr)"
    and "map event_msg tr = [hello_msg]" using demo_session by metis
  then have "tr \<noteq> []" by auto
  moreover have "set (wl_keys (sv_whitelist demo_server)) = {toy_pk (replicate 32 2)}"
    by (simp add: demo_server_def demo_whitelist_def wl_keys_def zero_whitelist_def WHITELIST_MAX_AGENTS_def numeral_eq_Suc)
  moreover have "sv_priv demo_server = replicate 32 1" "sv_pub demo_server = toy_pk (replicate 32 1)" by (simp_all add: demo_server_def)
  ultimately show ?thesis using h session_gate [OF wf_demo_server toy_sizes _ _ h] by (fastforce simp: quiet_os_ok DISP_RESP_MAX_def)
qed

text \<open>C5. No replay within a connection: the sequence numbers of the signed frames it dispatches are
  strictly increasing and never 0, and every one of these frames carries the tag that the session's
  receiving key and epoch identifier give for its header and data. So no signed frame is executed twice,
  reordered, or forged without the key.\<close>

theorem session_replay:
  assumes "wf_server sv" and "curve_sizes dh pk" and "\<forall>k. os_ok (os k)" and "length resp = DISP_RESP_MAX"
    and "handle_client dh pk urandom os resp cn sv = Some (ctx, cn', sv', tr)"
    and "session_secrets dh pk urandom sv cn = (key, epoch)"
  shows "sorted_wrt (<) (map ev_seq (filter ev_signed tr)) \<and>
    (\<forall>e \<in> set tr. ev_signed e \<longrightarrow> 0 < ev_seq e \<and>
      auth_tag (ev_buf e) (ev_frame e) = take 16 (hmac_spec key (auth_input (ev_buf e) epoch (ev_frame e))))"
  by (rule handle_client_good [OF assms(1-4), of urandom cn])
    (use assms(5,6) in \<open>auto simp: client_good_def trace_ok_def ev_authentic_def\<close>)

theorem session_replay_witness:
  "\<exists>cn ctx cn' sv' tr. handle_client toy_dh toy_pk None (\<lambda>_. quiet_os) (replicate 256 0) cn demo_server = Some (ctx, cn', sv', tr) \<and>
    map event_msg tr = [hello_msg] \<and> sorted_wrt (<) (map ev_seq (filter ev_signed tr))"
proof -
  obtain cn ctx cn' sv' tr where h: "handle_client toy_dh toy_pk None (\<lambda>_. quiet_os) (replicate 256 0) cn demo_server = Some (ctx, cn', sv', tr)"
    and "map event_msg tr = [hello_msg]" using demo_session by metis
  moreover obtain key epoch where "session_secrets toy_dh toy_pk None demo_server cn = (key, epoch)" by fastforce
  ultimately show ?thesis using session_replay [OF wf_demo_server toy_sizes _ _ h] by (fastforce simp: quiet_os_ok DISP_RESP_MAX_def)
qed

end
