(* ===== verification/Startup.thy ===== *)
theory Startup
  imports Whitelist
begin

unbundle bit_operations_syntax

text \<open>
  What asyd.c does before it serves: the command line and the key pair, and its small helpers. The results
  of successive \<^verbatim>\<open>getopt_long\<close> calls are a list of option letters with their arguments. The two key files
  are a state that loading reads and generating writes; whether the directory is accessible, whether opening a
  file for writing succeeds and how many bytes a write accepts are arguments. Messages are not represented.
\<close>

section \<open>Helpers\<close>

text \<open>The fingerprint of a key in a log line: its first 8 bytes in hexadecimal, with the terminating NUL.\<close>

definition hex_digit :: "u8 \<Rightarrow> u8" where
  "hex_digit n = (if n < 10 then 48 + n else 87 + n)"

definition hex8 :: "bytes \<Rightarrow> bytes" where
  "hex8 b = concat (map (\<lambda>i. [hex_digit (drop_bit 4 (b ! i)), hex_digit (b ! i AND 0xF)]) [0..<8]) @ [0]"

definition ins_name :: "u8 \<Rightarrow> string" where
  "ins_name ins =
     (if ins = 0x00 then ''SYS_CAPS''
      else if ins = 0x01 then ''SYS_HELLO''
      else if ins = 0x02 then ''SYS_STATUS''
      else if ins = 0x03 then ''SYS_PROCS''
      else if ins = 0x11 then ''TASK_QUERY''
      else if ins = 0x20 then ''PROC_THROTTLE''
      else if ins = 0x22 then ''SVC_RESTART''
      else ''UNKNOWN'')"

definition now_us :: "int \<times> int \<Rightarrow> u64" where
  "now_us ts = of_int (fst ts) * 1000000 + of_int (snd ts div 1000)"

section \<open>The command line\<close>

record asyd_config =
  cf_port :: u16
  cf_listen :: bytes
  cf_debug :: int

text \<open>\<^verbatim>\<open>atoi\<close> of the C library: blanks, a sign, digits; the value of \<^verbatim>\<open>strtol\<close> is cut to an int.\<close>

definition strtol10 :: "bytes \<Rightarrow> int" where
  "strtol10 s =
     (let s = dropWhile is_space (cstr s);
          neg = (s \<noteq> [] \<and> hd s = 45);
          s = (if s \<noteq> [] \<and> hd s \<in> {43, 45} then tl s else s);
          n = dec_value (takeWhile is_digit s)
      in if neg then max (- n) (- (2 ^ 63)) else min n (2 ^ 63 - 1))"

definition default_config :: asyd_config where
  "default_config = \<lparr>cf_port = 7816, cf_listen = ascii ''0.0.0.0'' @ replicate 39 0, cf_debug = 0\<rparr>"

text \<open>The configuration, or the exit code of a run that ends here.\<close>

primrec parse_opts :: "(char \<times> bytes) list \<Rightarrow> asyd_config \<Rightarrow> int + asyd_config" where
  "parse_opts [] cfg = Inr cfg"
| "parse_opts (x # xs) cfg =
     (let (opt, optarg) = x
      in if opt = CHR ''p'' then
           let cfg = cfg\<lparr>cf_port := word_of_int (strtol10 optarg)\<rparr>
           in if cf_port cfg = 0 then Inl 1 else parse_opts xs cfg
         else if opt = CHR ''l'' then parse_opts xs (cfg\<lparr>cf_listen := strncpy_bytes optarg 45 @ [0]\<rparr>)
         else if opt = CHR ''d'' then parse_opts xs (cfg\<lparr>cf_debug := 1\<rparr>)
         else if opt = CHR ''V'' then Inl 0
         else if opt = CHR ''h'' then Inl 0
         else Inl 1)"

definition parse_args :: "(char \<times> bytes) list \<Rightarrow> int + asyd_config" where
  "parse_args opts = parse_opts opts default_config"

definition wf_config :: "asyd_config \<Rightarrow> bool" where
  "wf_config cfg \<longleftrightarrow> cf_port cfg \<noteq> 0 \<and> length (cf_listen cfg) = 46 \<and> last (cf_listen cfg) = 0 \<and> cf_debug cfg \<in> {0, 1}"

lemma wf_config_updates:
  assumes "wf_config cfg"
  shows "n \<noteq> 0 \<Longrightarrow> wf_config (cfg\<lparr>cf_port := n\<rparr>)" and "wf_config (cfg\<lparr>cf_listen := strncpy_bytes s 45 @ [0]\<rparr>)"
    and "wf_config (cfg\<lparr>cf_debug := 1\<rparr>)"
  using assms by (simp_all add: wf_config_def)

lemma parse_opts_wf: "wf_config cfg \<Longrightarrow> parse_opts opts cfg = Inr cfg' \<Longrightarrow> wf_config cfg'"
proof (induction opts arbitrary: cfg)
  case (Cons x xs)
  obtain c arg where x: "x = (c, arg)" by fastforce
  from Cons.prems(2) Cons.IH wf_config_updates [OF Cons.prems(1)] show ?case
    unfolding x by (auto simp: Let_def split: if_splits)
qed simp

lemma wf_default: "wf_config default_config"
  by (simp add: wf_config_def default_config_def ascii_def)

text \<open>A configuration that comes out has a usable port and a terminated address; the port was cut first.\<close>

lemma parse_args_wf: "parse_args opts = Inr cfg \<Longrightarrow> wf_config cfg"
  using parse_opts_wf [OF wf_default] by (simp add: parse_args_def)

lemma port_wraps:
  "map_sum id cf_port (parse_args [(CHR ''p'', ascii ''65616'')]) = Inr 80"
  "map_sum id cf_port (parse_args [(CHR ''p'', ascii ''-1'')]) = Inr 65535"
  "map_sum id cf_port (parse_args [(CHR ''p'', ascii ''65536'')]) = Inl 1"
  by code_simp+

section \<open>The key pair\<close>

record key_file =
  kf_data :: bytes
  kf_mode :: u16

record key_store =
  ks_priv :: "key_file option"
  ks_pub :: "key_file option"

record key_env =
  ke_access :: bool
  ke_open_priv :: bool
  ke_open_pub :: bool
  ke_write_priv :: nat
  ke_write_pub :: nat
  ke_umask :: u16

text \<open>\<^verbatim>\<open>fread\<close> into a buffer: what the file has of the requested bytes, over what was there.\<close>

definition read_into :: "nat \<Rightarrow> bytes \<Rightarrow> bytes \<Rightarrow> nat \<times> bytes" where
  "read_into n file buf = (let d = take n file in (length d, d @ drop (length d) buf))"

text \<open>Opening with \<^verbatim>\<open>O_CREAT\<close> and \<^verbatim>\<open>O_TRUNC\<close>: a new file gets the mode less the mask, an old one keeps its mode.\<close>

definition open_trunc :: "u16 \<Rightarrow> u16 \<Rightarrow> key_file option \<Rightarrow> key_file" where
  "open_trunc mode umask f =
     \<lparr>kf_data = [], kf_mode = (case f of None \<Rightarrow> mode AND NOT umask | Some f \<Rightarrow> kf_mode f)\<rparr>"

definition load_keys :: "key_store \<Rightarrow> bytes \<Rightarrow> bytes \<Rightarrow> bool \<times> bytes \<times> bytes" where
  "load_keys ks priv pub =
     (case (ks_priv ks, ks_pub ks) of
        (Some fp, Some fq) \<Rightarrow>
          let (nr, priv) = read_into NOISE_KEY_SIZE (kf_data fp) priv;
              (nq, pub) = read_into NOISE_KEY_SIZE (kf_data fq) pub
          in (nr = NOISE_KEY_SIZE \<and> nq = NOISE_KEY_SIZE, priv, pub)
      | _ \<Rightarrow> (False, priv, pub))"

text \<open>The file modes 0600 and 0644 are 384 and 420.\<close>

definition write_keys :: "key_env \<Rightarrow> key_store \<Rightarrow> bytes \<Rightarrow> bytes \<Rightarrow> int \<times> key_store" where
  "write_keys env ks priv pub =
     (if \<not> ke_open_priv env then (- 1, ks)
      else
        let f = open_trunc 384 (ke_umask env) (ks_priv ks);
            n = min (ke_write_priv env) NOISE_KEY_SIZE;
            f = f\<lparr>kf_data := take n priv\<rparr>
        in if n \<noteq> NOISE_KEY_SIZE then (- 1, ks\<lparr>ks_priv := Some f\<rparr>)
           else
             let ks = ks\<lparr>ks_priv := Some (f\<lparr>kf_mode := 384\<rparr>)\<rparr>
             in if \<not> ke_open_pub env then (- 1, ks)
                else
                  let g = open_trunc 420 (ke_umask env) (ks_pub ks);
                      n = min (ke_write_pub env) NOISE_KEY_SIZE;
                      g = g\<lparr>kf_data := take n pub\<rparr>;
                      ks = ks\<lparr>ks_pub := Some g\<rparr>
                  in if n \<noteq> NOISE_KEY_SIZE then (- 1, ks) else (0, ks))"

text \<open>The result code, the two key buffers and the files.\<close>

definition load_or_generate_keys ::
    "(bytes \<Rightarrow> bytes) \<Rightarrow> bytes option \<Rightarrow> key_env \<Rightarrow> key_store \<Rightarrow> bytes \<Rightarrow> bytes \<Rightarrow>
     int \<times> bytes \<times> bytes \<times> key_store" where
  "load_or_generate_keys pk urandom env ks priv pub =
     (if \<not> ke_access env then (- 1, priv, pub, ks)
      else
        let (loaded, priv, pub) = load_keys ks priv pub
        in if loaded then (0, priv, pub, ks)
           else
             let (priv, pub) = noise_ik_generate_keypair pk urandom priv;
                 (rc, ks) = write_keys env ks priv pub
             in (rc, priv, pub, ks))"

lemma read_into_length: "read_into n file buf = (m, b) \<Longrightarrow> length buf = n \<Longrightarrow> length b = n"
  by (auto simp: read_into_def Let_def min_def)

lemma load_keys_length:
  assumes "load_keys ks priv pub = (loaded, priv', pub')" and "length priv = 32" and "length pub = 32"
  shows "length priv' = 32" and "length pub' = 32"
  using assms by (auto simp: load_keys_def noise_sizes Let_def read_into_def min_def split: option.splits)

lemma load_keys_exact:
  assumes "ks_priv ks = Some f" "ks_pub ks = Some g" "length (kf_data f) = 32" "length (kf_data g) = 32"
    and "length priv = 32" "length pub = 32"
  shows "load_keys ks priv pub = (True, kf_data f, kf_data g)"
  using assms by (simp add: load_keys_def noise_sizes read_into_def)

lemma load_keys_true:
  assumes "load_keys ks priv0 pub0 = (True, priv, pub)" and "length priv0 = 32" "length pub0 = 32"
  obtains f g where "ks_priv ks = Some f" "ks_pub ks = Some g" "priv = take 32 (kf_data f)" "pub = take 32 (kf_data g)"
    and "32 \<le> length (kf_data f)" "32 \<le> length (kf_data g)"
  using assms by (auto simp: load_keys_def noise_sizes Let_def read_into_def min_def split: option.splits if_splits)

lemma write_keys_ok:
  assumes "write_keys env ks priv pub = (0, ks')" and "length priv = 32" and "length pub = 32"
  shows "ks_priv ks' = Some \<lparr>kf_data = priv, kf_mode = 384\<rparr>" and "map_option kf_data (ks_pub ks') = Some pub"
  using assms by (auto simp: write_keys_def Let_def noise_sizes open_trunc_def split: if_splits)

lemma generate_lengths:
  assumes "noise_ik_generate_keypair pk u priv0 = (priv, pub)" and "length priv0 = 32"
  shows "length priv = 32" and "pub = pk priv"
  using assms generate_keypair_length [of priv0 pk u] generate_keypair_pub [of pk u priv0] by auto

text \<open>A successful start has two 32-byte keys, from the files or new and consistent.\<close>

lemma keys_cases:
  assumes "load_or_generate_keys pk u env ks priv0 pub0 = (0, priv, pub, ks')"
    and "\<forall>a. length (pk a) = 32" and "length priv0 = 32" and "length pub0 = 32"
  obtains (loaded) f g where "ks' = ks" "ks_priv ks = Some f" "ks_pub ks = Some g" "priv = take 32 (kf_data f)" "pub = take 32 (kf_data g)"
      "32 \<le> length (kf_data f)" "32 \<le> length (kf_data g)"
  | (generated) g where "pub = pk priv" "length priv = 32" "ks_priv ks' = Some \<lparr>kf_data = priv, kf_mode = 384\<rparr>"
      "ks_pub ks' = Some g" "kf_data g = pub"
proof -
  obtain l p q where l: "load_keys ks priv0 pub0 = (l, p, q)" by (metis prod_cases3)
  note len = load_keys_length [OF l assms(3,4)]
  have acc: "ke_access env" using assms(1) by (auto simp: load_or_generate_keys_def split: if_splits)
  show thesis
  proof (cases l)
    case True
    then have l': "load_keys ks priv0 pub0 = (True, p, q)" using l by simp
    have "ks' = ks" "priv = p" "pub = q" using assms(1) l' acc by (simp_all add: load_or_generate_keys_def)
    then show thesis using load_keys_true [OF l' assms(3,4)] loaded by metis
  next
    case False
    obtain a b where g: "noise_ik_generate_keypair pk u p = (a, b)" by fastforce
    note gl = generate_lengths [OF g len(1)]
    have w: "write_keys env ks a b = (0, ks')" "priv = a" "pub = b"
      using assms(1) l False acc g by (auto simp: load_or_generate_keys_def split: prod.splits)
    have "length b = 32" using gl(2) assms(2) by simp
    note wk = write_keys_ok [OF w(1) gl(1) this]
    obtain h where "ks_pub ks' = Some h" "kf_data h = b" using wk(2) by auto
    then show thesis using generated [of h] wk(1) gl w by simp
  qed
qed

lemma keys_length:
  assumes "load_or_generate_keys pk u env ks priv0 pub0 = (0, priv, pub, ks')"
    and "\<forall>a. length (pk a) = 32" and "length priv0 = 32" and "length pub0 = 32"
  shows "length priv = 32" and "length pub = 32"
  using assms by (cases rule: keys_cases [OF assms]; simp)+

section \<open>Properties\<close>

text \<open>C8. The identity of the server survives a restart: whenever a start succeeds, with whatever was in the key
  files before, a later start that finds the files as this one left them succeeds with the same two keys and
  leaves the files alone, whatever its random device, its file system and its buffers are. A pair that was not
  read from the files is consistent and its private part is stored with mode 0600.\<close>

theorem keys_persist:
  assumes "load_or_generate_keys pk u env ks priv0 pub0 = (0, priv, pub, ks')"
    and "\<forall>a. length (pk a) = 32" and "length priv0 = 32" and "length pub0 = 32"
    and "ke_access env'" and "length priv1 = 32" and "length pub1 = 32"
  shows "load_or_generate_keys pk u' env' ks' priv1 pub1 = (0, priv, pub, ks') \<and>
    (ks' \<noteq> ks \<longrightarrow> pub = pk priv \<and> map_option kf_mode (ks_priv ks') = Some 384)"
proof (cases rule: keys_cases [OF assms(1-4)])
  case (1 f g)
  then show ?thesis using assms(5-7)
    by (simp add: load_or_generate_keys_def load_keys_def noise_sizes read_into_def)
next
  case (2 g)
  then show ?thesis using assms(2,5-7) load_keys_exact [of ks' "\<lparr>kf_data = priv, kf_mode = 384\<rparr>" g priv1 pub1]
    by (simp add: load_or_generate_keys_def)
qed

text \<open>The environment of a first start on an empty directory, and a curve that copies its argument.\<close>

definition fresh_env :: key_env where
  "fresh_env = \<lparr>ke_access = True, ke_open_priv = True, ke_open_pub = True, ke_write_priv = 32, ke_write_pub = 32, ke_umask = 18\<rparr>"

definition no_keys :: key_store where
  "no_keys = \<lparr>ks_priv = None, ks_pub = None\<rparr>"

definition copy_pk :: "bytes \<Rightarrow> bytes" where
  "copy_pk a = map (\<lambda>i. if i < length a then a ! i else 0) [0..<32]"

theorem keys_persist_witness:
  "\<exists>priv ks'. load_or_generate_keys copy_pk (Some (replicate 32 9)) fresh_env no_keys (replicate 32 0) (replicate 32 0) = (0, priv, copy_pk priv, ks') \<and>
    load_or_generate_keys copy_pk None (fresh_env\<lparr>ke_open_priv := False\<rparr>) ks' (replicate 32 7) (replicate 32 7) = (0, priv, copy_pk priv, ks')"
proof -
  obtain priv pub where g: "noise_ik_generate_keypair copy_pk (Some (replicate 32 9)) (replicate 32 0) = (priv, pub)" by fastforce
  note gl = generate_lengths [OF g]
  have p: "\<forall>a. length (copy_pk a) = 32" by (simp add: copy_pk_def)
  then have l: "length priv = 32" "length pub = 32" "pub = copy_pk priv" using gl by simp_all
  obtain ks' where s: "load_or_generate_keys copy_pk (Some (replicate 32 9)) fresh_env no_keys (replicate 32 0) (replicate 32 0) = (0, priv, pub, ks')"
    using g l by (simp add: load_or_generate_keys_def load_keys_def no_keys_def fresh_env_def write_keys_def noise_sizes Let_def)
  then show ?thesis
    using keys_persist [OF s p, of "fresh_env\<lparr>ke_open_priv := False\<rparr>" "replicate 32 7" "replicate 32 7" None] l(3)
    by (auto simp: fresh_env_def)
qed

end
