(* ===== verification/Daemon.thy ===== *)
theory Daemon
  imports HonestSession Startup
begin

unbundle bit_operations_syntax

text \<open>
  The process around the sessions (asyd.c): the start, the connection slots, the main loop, the signal
  handlers, the thread that keeps the status cache warm, and the client threads running side by side. A client
  thread advances in turns: the parts of \<^verbatim>\<open>handle_client\<close> between which another thread may run. Any number of
  turns of any threads, accepted connections and signals may follow each other in any order; a turn itself is
  not interrupted (the source has no lock around dispatching; what that allows beyond this model is said in the
  header of the development). Ghost fields of the state record every frame that was dispatched with the key of
  its agent, and every key that a loaded whitelist has held.
\<close>

section \<open>Connection slots\<close>

definition LISTEN_BACKLOG :: nat where [code_defs]: "LISTEN_BACKLOG = 8"
definition MAX_CLIENTS :: nat where [code_defs]: "MAX_CLIENTS = LISTEN_BACKLOG"

record client_slot =
  sl_fd :: int
  sl_peer :: bytes
  sl_in_use :: int

definition zero_slot :: client_slot where
  "zero_slot = \<lparr>sl_fd = 0, sl_peer = replicate 16 0, sl_in_use = 0\<rparr>"

text \<open>The first free slot for a connection and the address of its peer.\<close>

definition slot_acquire :: "int \<times> bytes \<Rightarrow> client_slot list \<Rightarrow> nat option \<times> client_slot list" where
  "slot_acquire c slots =
     (case find_first (\<lambda>s. sl_in_use s = 0) slots of
        None \<Rightarrow> (None, slots)
      | Some i \<Rightarrow> (Some i, slots[i := \<lparr>sl_fd = fst c, sl_peer = snd c, sl_in_use = 1\<rparr>]))"

definition slot_release :: "nat \<Rightarrow> client_slot list \<Rightarrow> client_slot list" where
  "slot_release i slots = slots[i := (slots ! i)\<lparr>sl_in_use := 0\<rparr>]"

interpretation client_slots: slot_pool "\<lambda>s :: client_slot. sl_in_use s = 0" slot_acquire slot_release
proof unfold_locales
  fix c :: "int \<times> bytes" and s :: "client_slot list"
  assume "\<forall>e \<in> set s. sl_in_use e \<noteq> 0"
  then have "find_first (\<lambda>s. sl_in_use s = 0) s = None" by (simp add: find_first_None)
  then show "slot_acquire c s = (None, s)" by (simp add: slot_acquire_def)
next
  fix c :: "int \<times> bytes" and s :: "client_slot list" and i
  assume "find_first (\<lambda>s. sl_in_use s = 0) s = Some i"
  then show "\<exists>e. sl_in_use e \<noteq> 0 \<and> slot_acquire c s = (Some i, s[i := e])"
    by (intro exI [of _ "\<lparr>sl_fd = fst c, sl_peer = snd c, sl_in_use = 1\<rparr>"]) (simp add: slot_acquire_def)
next
  fix i and s :: "client_slot list" show "\<exists>e. sl_in_use e = 0 \<and> slot_release i s = s[i := e]"
    by (intro exI [of _ "(s ! i)\<lparr>sl_in_use := 0\<rparr>"]) (simp add: slot_release_def)
qed

section \<open>A client thread\<close>

text \<open>
  Where a thread is: it has been created, it has its session number, the greeting was right, the handshake
  succeeded, it serves with a parser, it is about to clean up, \<^verbatim>\<open>handle_client\<close> has returned.
\<close>

datatype thread =
    Idle
  | Accepted conn
  | Greeting session_ctx conn
  | Handshaking session_ctx conn
  | Admitting session_ctx conn
  | Serving nat session_ctx bytes conn "event list"
  | Cleaning "nat option" session_ctx conn "event list"
  | Returned session_ctx conn "event list"

fun thread_turn ::
    "(bytes \<Rightarrow> bytes \<Rightarrow> bytes) \<Rightarrow> (bytes \<Rightarrow> bytes) \<Rightarrow> bytes option \<Rightarrow> os \<Rightarrow> bytes \<Rightarrow> thread \<Rightarrow> server \<Rightarrow>
     (thread \<times> server) option" where
  "thread_turn dh pk u os resp Idle sv = Some (Idle, sv)"
| "thread_turn dh pk u os resp (Accepted cn) sv =
     (case next_session sv of (sid, sv) \<Rightarrow> Some (Greeting (zero_ctx\<lparr>cx_session_id := sid\<rparr>) cn, sv))"
| "thread_turn dh pk u os resp (Greeting ctx cn) sv =
     (case wait_for_client_magic cn of (rc, cn) \<Rightarrow>
        Some (if rc \<noteq> 0 then Returned ctx cn [] else Handshaking ctx cn, sv))"
| "thread_turn dh pk u os resp (Handshaking ctx cn) sv =
     (case handshake dh pk u sv ctx cn of (ok, ctx, cn) \<Rightarrow>
        Some (if \<not> ok then Cleaning None ctx cn [] else Admitting ctx cn, sv))"
| "thread_turn dh pk u os resp (Admitting ctx cn) sv =
     (case admit sv ctx cn of (p, ctx, cn, sv) \<Rightarrow>
        Some (case p of None \<Rightarrow> Cleaning None ctx cn [] | Some i \<Rightarrow> Serving i ctx resp cn [], sv))"
| "thread_turn dh pk u os resp (Serving i ctx rsp cn tr) sv =
     (case serve_once os i ctx rsp cn sv tr of
        None \<Rightarrow> None
      | Some (go, ctx, rsp, cn, sv, tr) \<Rightarrow>
          Some (if go then Serving i ctx rsp cn tr else Cleaning (Some i) ctx cn tr, sv))"
| "thread_turn dh pk u os resp (Cleaning p ctx cn tr) sv =
     (case cleanup p ctx sv of (ctx, sv) \<Rightarrow> Some (Returned ctx cn tr, sv))"
| "thread_turn dh pk u os resp (Returned ctx cn tr) sv = Some (Returned ctx cn tr, sv)"

text \<open>Turns of one thread alone; the readings of the operating system differ in each.\<close>

fun turns ::
    "(bytes \<Rightarrow> bytes \<Rightarrow> bytes) \<Rightarrow> (bytes \<Rightarrow> bytes) \<Rightarrow> bytes option \<Rightarrow> (nat \<Rightarrow> os) \<Rightarrow> bytes \<Rightarrow> nat \<Rightarrow> nat \<Rightarrow> thread \<Rightarrow> server \<Rightarrow>
     (thread \<times> server) option" where
  "turns dh pk u os resp k 0 th sv = Some (th, sv)"
| "turns dh pk u os resp k (Suc n) th sv =
     (case thread_turn dh pk u (os k) resp th sv of
        None \<Rightarrow> None | Some (th, sv) \<Rightarrow> turns dh pk u os resp (k + 1) n th sv)"

lemma turns_serving:
  "serve_loop os k i ctx rsp cn sv tr = Some (ctx', cn', sv', tr') \<Longrightarrow>
    \<exists>n. turns dh pk u (\<lambda>j. os (j - 4)) resp (k + 4) n (Serving i ctx rsp cn tr) sv = Some (Cleaning (Some i) ctx' cn' tr', sv')"
proof (induction os k i ctx rsp cn sv tr rule: serve_loop.induct)
  case (1 os k i ctx rsp cn sv tr)
  from "1.prems" obtain go ctx1 rsp1 cn1 sv1 tr1 where o: "serve_once (os k) i ctx rsp cn sv tr = Some (go, ctx1, rsp1, cn1, sv1, tr1)"
    by (auto simp: serve_loop.simps [of os k] split: option.splits)
  show ?case
  proof (cases go)
    case True
    then have "serve_loop os (k + 1) i ctx1 rsp1 cn1 sv1 tr1 = Some (ctx', cn', sv', tr')"
      using "1.prems" o by (simp add: serve_loop.simps [of os k])
    from "1.IH" [OF o refl refl refl refl refl True this] obtain n where
      "turns dh pk u (\<lambda>j. os (j - 4)) resp (k + 1 + 4) n (Serving i ctx1 rsp1 cn1 tr1) sv1 = Some (Cleaning (Some i) ctx' cn' tr', sv')" by blast
    then have "turns dh pk u (\<lambda>j. os (j - 4)) resp (k + 4) (Suc n) (Serving i ctx rsp cn tr) sv = Some (Cleaning (Some i) ctx' cn' tr', sv')"
      using o True by simp
    then show ?thesis by blast
  next
    case False
    then have "turns dh pk u (\<lambda>j. os (j - 4)) resp (k + 4) (Suc 0) (Serving i ctx rsp cn tr) sv = Some (Cleaning (Some i) ctx' cn' tr', sv')"
      using "1.prems" o by (simp add: serve_loop.simps [of os k])
    then show ?thesis by blast
  qed
qed

lemma turns_add:
  "turns dh pk u os resp k (m + n) th sv =
    (case turns dh pk u os resp k m th sv of None \<Rightarrow> None | Some (th, sv) \<Rightarrow> turns dh pk u os resp (k + m) n th sv)"
  by (induction m arbitrary: k th sv) (auto split: option.splits)

text \<open>The turns of a thread that runs alone are the connection handler.\<close>

lemma turns_handle_client:
  assumes "handle_client dh pk u os resp cn sv = Some (ctx, cn', sv', tr)"
  shows "\<exists>n. turns dh pk u (\<lambda>j. os (j - 4)) resp 0 n (Accepted cn) sv = Some (Returned ctx cn' tr, sv')"
proof -
  let ?t = "turns dh pk u (\<lambda>j. os (j - 4)) resp"
  obtain sid sv1 where ns: "next_session sv = (sid, sv1)" by fastforce
  obtain rc cn1 where m: "wait_for_client_magic cn = (rc, cn1)" by fastforce
  let ?ctx0 = "zero_ctx\<lparr>cx_session_id := sid\<rparr>"
  obtain ok ctx1 cn2 where h: "handshake dh pk u sv1 ?ctx0 cn1 = (ok, ctx1, cn2)" by (metis prod_cases3)
  obtain p ctx2 cn3 sv2 where a: "admit sv1 ctx1 cn2 = (p, ctx2, cn3, sv2)" by (metis prod_cases4)
  consider (magic) "rc \<noteq> 0" | (hs) "rc = 0" "\<not> ok" | (refused) "rc = 0" "ok" "p = None" | (serve) i where "rc = 0" "ok" "p = Some i"
    by (cases p) auto
  then show ?thesis
  proof cases
    case magic
    then have "?t 0 2 (Accepted cn) sv = Some (Returned ctx cn' tr, sv')"
      using assms ns m by (simp add: handle_client_def numeral_eq_Suc)
    then show ?thesis by blast
  next
    case hs
    then have "?t 0 4 (Accepted cn) sv = Some (Returned ctx cn' tr, sv')"
      using assms ns m h by (simp add: handle_client_def numeral_eq_Suc case_prod_beta)
    then show ?thesis by blast
  next
    case refused
    then have "?t 0 5 (Accepted cn) sv = Some (Returned ctx cn' tr, sv')"
      using assms ns m h a by (simp add: handle_client_def numeral_eq_Suc case_prod_beta)
    then show ?thesis by blast
  next
    case serve
    then obtain ctx3 cn4 sv3 tr3 where l: "serve_loop os 0 i ctx2 resp cn3 sv2 [] = Some (ctx3, cn4, sv3, tr3)"
      using assms ns m h a by (cases "serve_loop os 0 i ctx2 resp cn3 sv2 []") (auto simp: handle_client_def)
    moreover obtain ctx4 sv4 where "cleanup (Some i) ctx3 sv3 = (ctx4, sv4)" by fastforce
    ultimately have l: "serve_loop os 0 i ctx2 resp cn3 sv2 [] = Some (ctx3, cn', sv3, tr)" and c: "cleanup (Some i) ctx3 sv3 = (ctx, sv')"
      using assms serve ns m h a by (simp_all add: handle_client_def)
    have s: "?t 0 4 (Accepted cn) sv = Some (Serving i ctx2 resp cn3 [], sv2)"
      using serve ns m h a by (simp add: numeral_eq_Suc)
    from turns_serving [OF l, of dh pk u resp] obtain n where
      n: "?t (0 + 4) n (Serving i ctx2 resp cn3 []) sv2 = Some (Cleaning (Some i) ctx3 cn' tr, sv3)" by auto
    have "?t 0 (4 + n) (Accepted cn) sv = Some (Cleaning (Some i) ctx3 cn' tr, sv3)"
      unfolding turns_add s using n by simp
    then have "?t 0 (4 + n + 1) (Accepted cn) sv = Some (Returned ctx cn' tr, sv')"
      unfolding turns_add [of _ _ _ _ _ _ "4 + n"] using c by simp
    then show ?thesis by blast
  qed
qed

section \<open>The process\<close>

record system =
  sy_server :: server
  sy_slots :: "client_slot list"
  sy_threads :: "thread list"
  sy_stop :: bool
  sy_reload :: bool
  sy_log :: "(bytes \<times> event) list"
  sy_listed :: "bytes set"

fun thread_trace :: "thread \<Rightarrow> event list" where
  "thread_trace (Serving _ _ _ _ tr) = tr"
| "thread_trace (Cleaning _ _ _ tr) = tr"
| "thread_trace (Returned _ _ tr) = tr"
| "thread_trace _ = []"

fun thread_agent :: "thread \<Rightarrow> bytes" where
  "thread_agent (Serving _ ctx _ _ _) = cx_agent_pub ctx"
| "thread_agent (Cleaning _ ctx _ _) = cx_agent_pub ctx"
| "thread_agent (Returned ctx _ _) = cx_agent_pub ctx"
| "thread_agent _ = []"

text \<open>The frame by which the status cache is kept warm.\<close>

definition warm_frame :: apdu_frame where
  "warm_frame = zero_frame\<lparr>fr_ins := 0x02\<rparr>"

definition warm_turn :: "os \<Rightarrow> bytes \<Rightarrow> server \<Rightarrow> server option" where
  "warm_turn os dummy sv =
     (case dispatch os [] (Some warm_frame) (Some dummy) (length dummy) 0 (sv_daemon sv) of
        None \<Rightarrow> None | Some (_, _, dm) \<Rightarrow> Some (sv\<lparr>sv_daemon := dm\<rparr>))"

text \<open>
  The start: an exit code, or the configuration and the process before its first \<^verbatim>\<open>accept\<close>. \<open>calls\<close> says
  which of the system calls from the creation of the warm thread to \<^verbatim>\<open>listen\<close> succeed.
\<close>

definition startup ::
    "(bytes \<Rightarrow> bytes) \<Rightarrow> bytes option \<Rightarrow> os \<Rightarrow> (char \<times> bytes) list \<Rightarrow> int \<Rightarrow> int \<Rightarrow> key_env \<Rightarrow> key_store \<Rightarrow>
     bytes option \<Rightarrow> bool \<Rightarrow> bytes \<Rightarrow> bool list \<Rightarrow> (int + asyd_config \<times> system) option" where
  "startup pk urandom os opts now pid env ks file creatable dummy calls =
     (case parse_args opts of
        Inl code \<Rightarrow> Some (Inl code)
      | Inr cfg \<Rightarrow>
          let dm = initial_daemon now pid;
              (rc, priv, pub, ks) = load_or_generate_keys pk urandom env ks (replicate NOISE_KEY_SIZE 0) (replicate NOISE_KEY_SIZE 0)
          in if rc \<noteq> 0 then Some (Inl 1)
             else
               let (rc, wl, _) = whitelist_load (Some zero_whitelist) file creatable
               in if rc \<noteq> WL_OK then Some (Inl 1)
                  else do {
                    wl \<leftarrow> wl;
                    sv \<leftarrow> warm_turn os dummy
                      \<lparr>sv_priv = priv, sv_pub = pub, sv_whitelist = wl, sv_next_session_id = 1,
                       sv_pool = replicate APDU_POOL_SIZE zero_parser, sv_daemon = dm\<rparr>;
                    if list_all id calls
                    then Some (Inr (cfg, \<lparr>sy_server = sv, sy_slots = replicate MAX_CLIENTS zero_slot,
                           sy_threads = replicate MAX_CLIENTS Idle, sy_stop = False, sy_reload = False,
                           sy_log = [], sy_listed = set (wl_keys wl)\<rparr>))
                    else Some (Inl 1)
                  })"

text \<open>An accepted connection: a slot and a thread, or rejection. \<open>created\<close>: whether \<^verbatim>\<open>pthread_create\<close> succeeds.\<close>

definition accept_client :: "bool \<Rightarrow> int \<Rightarrow> bytes \<Rightarrow> conn \<Rightarrow> system \<Rightarrow> system" where
  "accept_client created fd peer cn s =
     (case slot_acquire (fd, peer) (sy_slots s) of
        (None, slots) \<Rightarrow> s
      | (Some i, slots) \<Rightarrow>
          if \<not> created then s\<lparr>sy_slots := slot_release i slots\<rparr>
          else s\<lparr>sy_slots := slots, sy_threads := (sy_threads s)[i := Accepted cn]\<rparr>)"

definition client_turn ::
    "(bytes \<Rightarrow> bytes \<Rightarrow> bytes) \<Rightarrow> (bytes \<Rightarrow> bytes) \<Rightarrow> bytes option \<Rightarrow> os \<Rightarrow> bytes \<Rightarrow> nat \<Rightarrow> system \<Rightarrow> system option" where
  "client_turn dh pk urandom os resp i s =
     (let th = sy_threads s ! i
      in case thread_turn dh pk urandom os resp th (sy_server s) of
           None \<Rightarrow> None
         | Some (th', sv) \<Rightarrow>
             Some (s\<lparr>sy_server := sv, sy_threads := (sy_threads s)[i := th'],
               sy_log := sy_log s @ map (Pair (thread_agent th')) (drop (length (thread_trace th)) (thread_trace th'))\<rparr>))"

text \<open>After \<^verbatim>\<open>handle_client\<close> has returned the thread frees its slot and ends.\<close>

definition client_exit :: "nat \<Rightarrow> system \<Rightarrow> system" where
  "client_exit i s =
     (case sy_threads s ! i of
        Returned _ _ _ \<Rightarrow> s\<lparr>sy_slots := slot_release i (sy_slots s), sy_threads := (sy_threads s)[i := Idle]\<rparr>
      | _ \<Rightarrow> s)"

section \<open>Signals\<close>

text \<open>The children that \<^verbatim>\<open>waitpid\<close> reports, each with its exit status, none for one ended by a signal.\<close>

definition reap :: "int \<times> int option \<Rightarrow> task_pool \<Rightarrow> task_pool" where
  "reap c tp =
     (let exit_code = (case snd c of Some e \<Rightarrow> e | None \<Rightarrow> - 1)
      in task_pool_update_by_pid (fst c) (if exit_code = 0 then TASK_SUCCESS else TASK_FAILED) tp)"

definition sigchld_handler :: "(int \<times> int option) list \<Rightarrow> system \<Rightarrow> system" where
  "sigchld_handler children s =
     (let sv = sy_server s; dm = sv_daemon sv
      in s\<lparr>sy_server := sv\<lparr>sv_daemon := dm\<lparr>dm_tasks := fold reap children (dm_tasks dm)\<rparr>\<rparr>\<rparr>)"

definition handle_sighup :: "system \<Rightarrow> system" where
  "handle_sighup s = s\<lparr>sy_reload := True\<rparr>"

text \<open>The head of the main loop.\<close>

definition reload_whitelist :: "bytes option \<Rightarrow> bool \<Rightarrow> system \<Rightarrow> system" where
  "reload_whitelist file creatable s =
     (if sy_reload s
      then
        let sv = sy_server s;
            (_, wl, _) = whitelist_load (Some (sv_whitelist sv)) file creatable;
            wl = (case wl of Some w \<Rightarrow> w | None \<Rightarrow> sv_whitelist sv)
        in s\<lparr>sy_reload := False, sy_server := sv\<lparr>sv_whitelist := wl\<rparr>, sy_listed := sy_listed s \<union> set (wl_keys wl)\<rparr>
      else s)"

text \<open>Calls on a closed descriptor fail.\<close>

definition close_conn :: "conn \<Rightarrow> conn" where
  "close_conn cn = cn\<lparr>cn_in := [], cn_accepts := \<lambda>_. - 1\<rparr>"

fun close_thread :: "thread \<Rightarrow> thread" where
  "close_thread Idle = Idle"
| "close_thread (Accepted cn) = Accepted (close_conn cn)"
| "close_thread (Greeting ctx cn) = Greeting ctx (close_conn cn)"
| "close_thread (Handshaking ctx cn) = Handshaking ctx (close_conn cn)"
| "close_thread (Admitting ctx cn) = Admitting ctx (close_conn cn)"
| "close_thread (Serving i ctx rsp cn tr) = Serving i ctx rsp (close_conn cn) tr"
| "close_thread (Cleaning p ctx cn tr) = Cleaning p ctx (close_conn cn) tr"
| "close_thread (Returned ctx cn tr) = Returned ctx (close_conn cn) tr"

definition handle_signal :: "system \<Rightarrow> system" where
  "handle_signal s =
     s\<lparr>sy_stop := True,
       sy_threads := map (\<lambda>(sl, th). if sl_in_use sl \<noteq> 0 then close_thread th else th) (zip (sy_slots s) (sy_threads s))\<rparr>"

text \<open>The end of \<^verbatim>\<open>main\<close>, once the loop has seen the stop flag.\<close>

definition main_exit :: "system \<Rightarrow> system" where
  "main_exit s =
     (let sv = sy_server s
      in s\<lparr>sy_server := sv\<lparr>sv_whitelist := the (whitelist_wipe (Some (sv_whitelist sv)))\<rparr>\<rparr>)"

section \<open>Runs of the process\<close>

inductive step :: "(bytes \<Rightarrow> bytes \<Rightarrow> bytes) \<Rightarrow> (bytes \<Rightarrow> bytes) \<Rightarrow> system \<Rightarrow> system \<Rightarrow> bool" for dh pk where
  accept: "\<not> sy_stop s \<Longrightarrow> step dh pk s (accept_client created fd peer cn s)"
| turn: "i < MAX_CLIENTS \<Longrightarrow> os_ok os \<Longrightarrow> length resp = DISP_RESP_MAX \<Longrightarrow>
    client_turn dh pk urandom os resp i s = Some s' \<Longrightarrow> step dh pk s s'"
| leave: "i < MAX_CLIENTS \<Longrightarrow> step dh pk s (client_exit i s)"
| warm: "os_ok os \<Longrightarrow> length dummy = DISP_RESP_MAX \<Longrightarrow> warm_turn os dummy (sy_server s) = Some sv \<Longrightarrow>
    step dh pk s (s\<lparr>sy_server := sv\<rparr>)"
| sigchld: "step dh pk s (sigchld_handler children s)"
| sighup: "step dh pk s (handle_sighup s)"
| reload: "\<not> sy_stop s \<Longrightarrow> step dh pk s (reload_whitelist file creatable s)"
| stop: "step dh pk s (handle_signal s)"
| finish: "sy_stop s \<Longrightarrow> step dh pk s (main_exit s)"

inductive reachable :: "(bytes \<Rightarrow> bytes \<Rightarrow> bytes) \<Rightarrow> (bytes \<Rightarrow> bytes) \<Rightarrow> system \<Rightarrow> bool" for dh pk where
  start: "startup pk urandom os opts now pid env ks file creatable dummy calls = Some (Inr (cfg, s)) \<Longrightarrow>
    os_ok os \<Longrightarrow> length dummy = DISP_RESP_MAX \<Longrightarrow> reachable dh pk s"
| step: "reachable dh pk s \<Longrightarrow> step dh pk s s' \<Longrightarrow> reachable dh pk s'"

end
