(* ===== verification/DaemonSafety.thy ===== *)
theory DaemonSafety
  imports Daemon
begin

unbundle bit_operations_syntax

text \<open>
  What holds in every state of the process, whatever connects and however the threads interleave: the
  invariant of the process, the progress of every thread, the agreement of its turns with the connection
  handler, and the keys across restarts.
\<close>

section \<open>A thread by itself\<close>

definition session_ok :: "nat \<Rightarrow> session_ctx \<Rightarrow> bytes \<Rightarrow> event list \<Rightarrow> bool" where
  "session_ok i ctx rsp tr \<longleftrightarrow> i < APDU_POOL_SIZE \<and> length rsp = DISP_RESP_MAX \<and> noise_ready (cx_noise ctx) \<and>
     length (cx_epoch_id ctx) = 4 \<and> trace_ok (st_recv_key (cx_noise ctx)) (cx_epoch_id ctx) (cx_last_seen_seq ctx) tr"

lemma session_inv_ok: "session_inv i ctx rsp sv tr \<longleftrightarrow> wf_server sv \<and> session_ok i ctx rsp tr"
  by (auto simp: session_inv_def session_ok_def)

fun thread_parser :: "thread \<Rightarrow> nat option" where
  "thread_parser (Serving i _ _ _ _) = Some i"
| "thread_parser (Cleaning p _ _ _) = p"
| "thread_parser _ = None"

text \<open>No signed frame of a session is dispatched twice or out of order.\<close>

definition replay_free :: "event list \<Rightarrow> bool" where
  "replay_free tr \<longleftrightarrow> sorted_wrt (<) (map ev_seq (filter ev_signed tr))"

text \<open>\<open>L\<close> is the set of keys that have been in a whitelist.\<close>

fun thread_ok :: "bytes set \<Rightarrow> thread \<Rightarrow> bool" where
  "thread_ok L (Admitting ctx cn) \<longleftrightarrow> length (cx_agent_pub ctx) = 32 \<and> noise_ready (cx_noise ctx) \<and> length (cx_epoch_id ctx) = 4"
| "thread_ok L (Serving i ctx rsp cn tr) \<longleftrightarrow> session_ok i ctx rsp tr \<and> cx_agent_pub ctx \<in> L"
| "thread_ok L (Cleaning p ctx cn tr) \<longleftrightarrow> (\<forall>i. p = Some i \<longrightarrow> i < APDU_POOL_SIZE) \<and> replay_free tr"
| "thread_ok L (Returned ctx cn tr) \<longleftrightarrow> replay_free tr"
| "thread_ok L _ \<longleftrightarrow> True"

lemma replay_free_Nil [simp]: "replay_free []"
  by (simp add: replay_free_def)

lemma session_ok_replay_free: "session_ok i ctx rsp tr \<Longrightarrow> replay_free tr"
  by (simp add: session_ok_def trace_ok_def replay_free_def)

lemma thread_ok_replay_free: "thread_ok L th \<Longrightarrow> replay_free (thread_trace th)"
  by (cases th) (auto dest: session_ok_replay_free)

text \<open>The turns a thread has left at most.\<close>

fun turns_left :: "thread \<Rightarrow> nat" where
  "turns_left Idle = 0"
| "turns_left (Accepted cn) = pending cn + 6"
| "turns_left (Greeting ctx cn) = pending cn + 5"
| "turns_left (Handshaking ctx cn) = pending cn + 4"
| "turns_left (Admitting ctx cn) = pending cn + 3"
| "turns_left (Serving i ctx rsp cn tr) = pending cn + 2"
| "turns_left (Cleaning p ctx cn tr) = 1"
| "turns_left (Returned ctx cn tr) = 0"

definition in_use :: "server \<Rightarrow> int list" where
  "in_use sv = map pr_in_use (sv_pool sv)"

text \<open>What a turn does to the parser pool: nothing, a parser taken, a parser given back.\<close>

definition pool_effect :: "thread \<Rightarrow> server \<Rightarrow> thread \<Rightarrow> server \<Rightarrow> bool" where
  "pool_effect th sv th' sv' \<longleftrightarrow>
     thread_parser th' = thread_parser th \<and> in_use sv' = in_use sv \<or>
     thread_parser th = None \<and> (\<exists>j < APDU_POOL_SIZE. thread_parser th' = Some j \<and> in_use sv ! j = 0 \<and> in_use sv' = (in_use sv)[j := 1]) \<or>
     thread_parser th' = None \<and> (\<exists>j < APDU_POOL_SIZE. thread_parser th = Some j \<and> in_use sv' = (in_use sv)[j := 0])"

definition trace_effect :: "bytes set \<Rightarrow> thread \<Rightarrow> server \<Rightarrow> thread \<Rightarrow> server \<Rightarrow> bool" where
  "trace_effect L th sv th' sv' \<longleftrightarrow>
     (\<exists>evs. thread_trace th' = thread_trace th @ evs \<and> (evs \<noteq> [] \<longrightarrow> thread_agent th' \<in> L)) \<and>
     (thread_trace th \<noteq> [] \<longrightarrow> thread_agent th' = thread_agent th) \<and>
     (dm_calls (sv_daemon sv') = dm_calls (sv_daemon sv) \<or> (\<exists>e \<in> set (thread_trace th'). ev_acts e))"

definition turn_good :: "bytes set \<Rightarrow> thread \<Rightarrow> server \<Rightarrow> thread \<Rightarrow> server \<Rightarrow> bool" where
  "turn_good L th sv th' sv' \<longleftrightarrow>
     thread_ok L th' \<and> wf_server sv' \<and> sv_whitelist sv' = sv_whitelist sv \<and> (th' = Idle \<longleftrightarrow> th = Idle) \<and>
     pool_effect th sv th' sv' \<and> trace_effect L th sv th' sv' \<and>
     (0 < turns_left th \<longrightarrow> turns_left th' < turns_left th)"

lemma effect_same [simp]:
  "thread_parser th' = thread_parser th \<Longrightarrow> sv_pool sv' = sv_pool sv \<Longrightarrow> pool_effect th sv th' sv'"
  "thread_trace th' = [] \<Longrightarrow> thread_trace th = [] \<Longrightarrow> dm_calls (sv_daemon sv') = dm_calls (sv_daemon sv) \<Longrightarrow> trace_effect L th sv th' sv'"
  by (simp_all add: pool_effect_def trace_effect_def in_use_def)

lemma recv_exact_pending_le: "recv_exact n cn = (Some b, cn') \<Longrightarrow> pending cn' \<le> pending cn"
  using recv_exact_pending [of n cn b cn'] by simp

lemma magic_pending: "wait_for_client_magic cn = (0, cn') \<Longrightarrow> pending cn' \<le> pending cn"
  by (auto simp: wait_for_client_magic_def Let_def split: prod.splits option.splits if_splits dest: recv_exact_pending_le)

lemma handshake_pending:
  assumes "handshake dh pk u sv ctx cn = (True, ctx', cn')"
  shows "pending cn' \<le> pending cn"
proof -
  obtain n cn1 where s1: "send (pre_handshake_frame (sv_pub sv)) cn = (n, cn1)" by fastforce
  obtain r cn2 where r: "recv_exact NOISE_MSG1_SIZE cn1 = (r, cn2)" by fastforce
  have p1: "pending cn1 = pending cn" using send_pending [of "pre_handshake_frame (sv_pub sv)" cn] s1 by simp
  from assms s1 r obtain b where b: "r = Some b"
    by (cases r) (auto simp: handshake_def Let_def split: prod.splits if_splits)
  have "pending cn2 \<le> pending cn" using recv_exact_pending_le r b p1 by fastforce
  moreover have "pending cn' = pending cn2"
    using assms s1 r b send_pending by (auto simp: handshake_def Let_def case_prod_beta split: if_splits)
  ultimately show ?thesis by simp
qed

lemma admit_pending: "admit sv ctx cn = (p, ctx', cn', sv') \<Longrightarrow> pending cn' = pending cn"
  by (auto simp: admit_def split: if_splits prod.splits) (metis send_sw_pending snd_conv)

lemma wf_serverD: "wf_server sv \<Longrightarrow> length (in_use sv) = APDU_POOL_SIZE"
  by (simp add: wf_server_def in_use_def)

lemma serving_turn:
  assumes "thread_ok L (Serving i ctx rsp cn tr)" and "wf_server sv" and "os_ok os"
  shows "\<exists>th' sv'. thread_turn dh pk u os resp (Serving i ctx rsp cn tr) sv = Some (th', sv') \<and>
    turn_good L (Serving i ctx rsp cn tr) sv th' sv'"
proof -
  have inv: "session_inv i ctx rsp sv tr" and L: "cx_agent_pub ctx \<in> L" using assms by (simp_all add: session_inv_ok)
  from serve_once_good [OF inv assms(3), of cn] obtain go ctx' rsp' cn' sv' tr'
    where o: "serve_once os i ctx rsp cn sv tr = Some (go, ctx', rsp', cn', sv', tr')"
      and v: "session_inv i ctx' rsp' sv' tr'" and t: "turn_ok i ctx sv tr ctx' sv' tr'"
    by (auto simp: good_turn_def)
  let ?th = "if go then Serving i ctx' rsp' cn' tr' else Cleaning (Some i) ctx' cn' tr'"
  have w: "wf_server sv'" "session_ok i ctx' rsp' tr'" "i < APDU_POOL_SIZE" using v by (auto simp: session_inv_ok session_ok_def)
  have pool: "in_use sv' = in_use sv"
  proof (rule nth_equalityI)
    show "length (in_use sv') = length (in_use sv)" using wf_serverD [OF assms(2)] wf_serverD [OF w(1)] by simp
    fix j assume "j < length (in_use sv')"
    then show "in_use sv' ! j = in_use sv ! j"
      using t assms(2) w(1) by (cases "j = i") (auto simp: in_use_def turn_ok_def wf_server_def)
  qed
  have p: "pool_effect (Serving i ctx rsp cn tr) sv ?th sv'" using pool by (simp add: pool_effect_def)
  have tr: "trace_effect L (Serving i ctx rsp cn tr) sv ?th sv'" using t L by (auto simp: trace_effect_def turn_ok_def)
  have "thread_ok L ?th" using w t L session_ok_replay_free [OF w(2)] by (simp add: turn_ok_def)
  moreover have "turns_left ?th < turns_left (Serving i ctx rsp cn tr)"
    using serve_once_pending [of os i ctx rsp cn sv tr ctx' rsp' cn' sv' tr'] o by auto
  ultimately have "turn_good L (Serving i ctx rsp cn tr) sv ?th sv'"
    using w(1) p tr t by (auto simp: turn_good_def turn_ok_def simp del: thread_ok.simps turns_left.simps)
  then show ?thesis using o by simp
qed

lemma admitting_turn:
  assumes "thread_ok L (Admitting ctx cn)" and "wf_server sv" and "set (wl_keys (sv_whitelist sv)) \<subseteq> L" and "length resp = DISP_RESP_MAX"
  shows "\<exists>th' sv'. thread_turn dh pk u os resp (Admitting ctx cn) sv = Some (th', sv') \<and> turn_good L (Admitting ctx cn) sv th' sv'"
proof -
  have l: "length (cx_agent_pub ctx) = 32" and r: "noise_ready (cx_noise ctx)" using assms(1) by simp_all
  show ?thesis
  proof (cases rule: admit_cases [OF assms(2) l r, of cn])
    case (1 ctx' cn')
    then show ?thesis using assms(2) by (simp add: turn_good_def)
  next
    case (2 i)
    let ?p = "zero_parser\<lparr>pr_in_use := 1\<rparr>"
    let ?sv = "sv\<lparr>sv_pool := (sv_pool sv)[i := ?p]\<rparr>"
    have wp: "wf_parser ?p" by (simp add: wf_parser_def zero_parser_def)
    have w: "wf_server ?sv" using wf_server_update [OF assms(2) wp] .
    have "i < length (sv_pool sv)" using 2(2) assms(2) by (simp add: wf_server_def)
    then have u: "in_use ?sv = (in_use sv)[i := 1]" "in_use sv ! i = 0" using 2(3) by (simp_all add: in_use_def map_update)
    have "pool_effect (Admitting ctx cn) sv (Serving i ctx resp cn []) ?sv" unfolding pool_effect_def using u 2(2) by simp
    moreover have "thread_ok L (Serving i ctx resp cn [])" using assms(1,3,4) 2(1,2) by (auto simp: session_ok_def)
    ultimately show ?thesis using 2(4) w by (simp add: turn_good_def)
  qed
qed

lemma cleaning_turn:
  assumes "thread_ok L (Cleaning p ctx cn tr)" and "wf_server sv"
  shows "\<exists>th' sv'. thread_turn dh pk u os resp (Cleaning p ctx cn tr) sv = Some (th', sv') \<and> turn_good L (Cleaning p ctx cn tr) sv th' sv'"
proof (cases p)
  case None
  obtain sv' where c: "cleanup None ctx sv = (ctx\<lparr>cx_noise := zero_state\<rparr>, sv')" "wf_server sv'" "sv_pool sv' = sv_pool sv"
    "dm_calls (sv_daemon sv') = dm_calls (sv_daemon sv)" using cleanup_none [OF assms(2)] by blast
  have "sv_whitelist sv' = sv_whitelist sv" using c(1) by (auto simp: cleanup_def Let_def)
  moreover have "trace_effect L (Cleaning p ctx cn tr) sv (Returned (ctx\<lparr>cx_noise := zero_state\<rparr>) cn tr) sv'"
    using c(4) by (simp add: trace_effect_def)
  ultimately show ?thesis using None c assms(1) by (simp add: turn_good_def)
next
  case (Some i)
  obtain sv' where c: "cleanup (Some i) ctx sv = (ctx\<lparr>cx_noise := zero_state\<rparr>, sv')" "wf_server sv'" "sv_pool sv' = (sv_pool sv)[i := zero_parser]"
    "dm_calls (sv_daemon sv') = dm_calls (sv_daemon sv)" using cleanup_some [OF assms(2)] by blast
  have "sv_whitelist sv' = sv_whitelist sv" using c(1) by (auto simp: cleanup_def Let_def)
  moreover have "trace_effect L (Cleaning p ctx cn tr) sv (Returned (ctx\<lparr>cx_noise := zero_state\<rparr>) cn tr) sv'"
    using c(4) by (simp add: trace_effect_def)
  moreover have "in_use sv' = (in_use sv)[i := 0]" using c(3) by (simp add: in_use_def map_update zero_parser_def)
  then have "pool_effect (Cleaning p ctx cn tr) sv (Returned (ctx\<lparr>cx_noise := zero_state\<rparr>) cn tr) sv'"
    using Some assms(1) by (simp add: pool_effect_def)
  ultimately show ?thesis using Some c assms(1) by (simp add: turn_good_def)
qed

text \<open>Every turn is defined and keeps what a thread owes the others.\<close>

lemma thread_turn_good:
  assumes "thread_ok L th" and "wf_server sv" and "set (wl_keys (sv_whitelist sv)) \<subseteq> L"
    and "curve_sizes dh pk" and "os_ok os" and "length resp = DISP_RESP_MAX"
  shows "\<exists>th' sv'. thread_turn dh pk u os resp th sv = Some (th', sv') \<and> turn_good L th sv th' sv'"
proof (cases th)
  case (Accepted cn)
  obtain sid sv' where n: "next_session sv = (sid, sv')" by fastforce
  then show ?thesis using Accepted next_session_wf [OF assms(2)] next_session_same [of sv]
    by (simp add: turn_good_def)
next
  case (Greeting ctx cn)
  obtain rc cn' where m: "wait_for_client_magic cn = (rc, cn')" by fastforce
  then show ?thesis using Greeting assms(2) magic_pending [of cn cn'] by (auto simp: turn_good_def less_Suc_eq_le)
next
  case (Handshaking ctx cn)
  obtain ok ctx' cn' where h: "handshake dh pk u sv ctx cn = (ok, ctx', cn')" by (metis prod_cases3)
  show ?thesis
  proof (cases ok)
    case False
    then show ?thesis using Handshaking h assms(2) by (simp add: turn_good_def)
  next
    case True
    then have h': "handshake dh pk u sv ctx cn = (True, ctx', cn')" using h by simp
    have "thread_ok L (Admitting ctx' cn')"
      by (rule handshake_ok [OF assms(4,2) h']) (simp add: authentic_msg1_def)
    then show ?thesis using Handshaking h True assms(2) handshake_pending [OF h'] by (simp add: turn_good_def)
  qed
next
  case (Admitting ctx cn)
  then show ?thesis using admitting_turn assms by blast
next
  case (Serving i ctx rsp cn tr)
  then show ?thesis using serving_turn assms by blast
next
  case (Cleaning p ctx cn tr)
  then show ?thesis using cleaning_turn assms by blast
next
  case (Returned ctx cn tr)
  then show ?thesis using assms(1,2) by (simp add: turn_good_def trace_effect_def)
qed (use assms(2) in \<open>simp add: turn_good_def\<close>)

section \<open>Who holds which parser\<close>

text \<open>\<open>ps\<close> are the parsers the threads hold, \<open>us\<close> the use marks of the pool: each parser in use is held
  by exactly one thread.\<close>

definition owners_ok :: "nat option list \<Rightarrow> int list \<Rightarrow> bool" where
  "owners_ok ps us \<longleftrightarrow> length us = APDU_POOL_SIZE \<and>
     (\<forall>i j. i < length ps \<longrightarrow> ps ! i = Some j \<longrightarrow> j < APDU_POOL_SIZE \<and> us ! j \<noteq> 0) \<and>
     (\<forall>j < APDU_POOL_SIZE. us ! j \<noteq> 0 \<longrightarrow> (\<exists>i < length ps. ps ! i = Some j)) \<and>
     (\<forall>i i' j. i < length ps \<longrightarrow> i' < length ps \<longrightarrow> ps ! i = Some j \<longrightarrow> ps ! i' = Some j \<longrightarrow> i = i')"

lemma owners_take:
  assumes "owners_ok ps us" and "i < length ps" "ps ! i = None" and "j < APDU_POOL_SIZE" "us ! j = 0"
  shows "owners_ok (ps[i := Some j]) (us[j := 1])"
proof -
  have "ps ! k \<noteq> Some j" if "k < length ps" for k using assms that by (auto simp: owners_ok_def)
  then show ?thesis using assms unfolding owners_ok_def
    by (intro conjI allI impI) (auto simp: nth_list_update split: if_splits, metis option.distinct(1))
qed

lemma owners_give:
  assumes "owners_ok ps us" and "i < length ps" "ps ! i = Some j"
  shows "owners_ok (ps[i := None]) (us[j := 0])"
proof -
  have o: "ps ! k \<noteq> Some j" if "k < length ps" "k \<noteq> i" for k using assms that unfolding owners_ok_def by metis
  show ?thesis unfolding owners_ok_def
  proof (intro conjI allI impI)
    fix k l assume "k < length (ps[i := None])" "ps[i := None] ! k = Some l"
    then show "l < APDU_POOL_SIZE" "us[j := 0] ! l \<noteq> 0"
      using assms o [of k] by (auto simp: owners_ok_def nth_list_update split: if_splits)
  next
    fix l assume l: "l < APDU_POOL_SIZE" "us[j := 0] ! l \<noteq> 0"
    then have "l \<noteq> j" "us ! l \<noteq> 0" using assms(1) by (cases "l = j"; simp add: owners_ok_def)+
    then obtain k where "k < length ps" "ps ! k = Some l" using assms(1) l(1) unfolding owners_ok_def by blast
    then show "\<exists>k < length (ps[i := None]). ps[i := None] ! k = Some l"
      using \<open>l \<noteq> j\<close> assms(3) by (intro exI [of _ k]) (cases "k = i"; simp)
  next
    fix k k' l assume "k < length (ps[i := None])" "k' < length (ps[i := None])" "ps[i := None] ! k = Some l" "ps[i := None] ! k' = Some l"
    then have "k < length ps" "k' < length ps" "ps ! k = Some l" "ps ! k' = Some l" by (cases "k = i"; cases "k' = i"; simp)+
    then show "k = k'" using assms(1) unfolding owners_ok_def by blast
  qed (use assms(1) in \<open>simp add: owners_ok_def\<close>)
qed

text \<open>As many parsers as threads: a thread without one finds one free.\<close>

lemma owners_free:
  assumes "owners_ok ps us" and "length ps = APDU_POOL_SIZE" and "i < length ps" and "ps ! i = None"
  shows "\<exists>j < APDU_POOL_SIZE. us ! j = 0"
proof (rule ccontr)
  assume "\<not> ?thesis"
  then have "\<forall>j \<in> {..<APDU_POOL_SIZE}. \<exists>k. k < length ps \<and> ps ! k = Some j" using assms(1) by (auto simp: owners_ok_def)
  from bchoice [OF this] obtain f where f: "\<forall>j \<in> {..<APDU_POOL_SIZE}. f j < length ps \<and> ps ! f j = Some j" by blast
  then have "inj_on f {..<APDU_POOL_SIZE}" by (metis inj_onI option.inject)
  moreover have "f ` {..<APDU_POOL_SIZE} \<subseteq> {..<length ps} - {i}" using f assms(4) by auto
  ultimately have "card {..<APDU_POOL_SIZE} \<le> card ({..<length ps} - {i})" by (intro card_inj_on_le) auto
  then show False using assms(2,3) by (simp add: APDU_POOL_SIZE_def)
qed

section \<open>The invariant of the process\<close>

definition slots_ok :: "client_slot list \<Rightarrow> thread list \<Rightarrow> bool" where
  "slots_ok slots ths \<longleftrightarrow> length slots = MAX_CLIENTS \<and> length ths = MAX_CLIENTS \<and>
     (\<forall>i < MAX_CLIENTS. (ths ! i = Idle) = (sl_in_use (slots ! i) = 0))"

definition log_ok :: "bytes set \<Rightarrow> thread list \<Rightarrow> (bytes \<times> event) list \<Rightarrow> sys_call list \<Rightarrow> bool" where
  "log_ok L ths log calls \<longleftrightarrow>
     (\<forall>th \<in> set ths. \<forall>e \<in> set (thread_trace th). (thread_agent th, e) \<in> set log) \<and>
     fst ` set log \<subseteq> L \<and> (calls \<noteq> [] \<longrightarrow> (\<exists>e \<in> snd ` set log. ev_acts e))"

definition system_ok :: "system \<Rightarrow> bool" where
  "system_ok s \<longleftrightarrow> wf_server (sy_server s) \<and> slots_ok (sy_slots s) (sy_threads s) \<and>
     (\<forall>th \<in> set (sy_threads s). thread_ok (sy_listed s) th) \<and>
     owners_ok (map thread_parser (sy_threads s)) (in_use (sy_server s)) \<and>
     set (wl_keys (sv_whitelist (sy_server s))) \<subseteq> sy_listed s \<and>
     log_ok (sy_listed s) (sy_threads s) (sy_log s) (dm_calls (sv_daemon (sy_server s)))"

lemma set_update_ball: "(\<forall>x \<in> set xs. P x) \<Longrightarrow> P y \<Longrightarrow> \<forall>x \<in> set (xs[i := y]). P x"
  using set_update_subset_insert [of xs i y] by auto

text \<open>A thread put at the place of one that neither served nor cleaned up.\<close>

lemma system_ok_replace:
  assumes "system_ok s" and "slots_ok slots ((sy_threads s)[i := th])" and "i < MAX_CLIENTS"
    and "thread_parser (sy_threads s ! i) = None" "thread_parser th = None" "thread_ok (sy_listed s) th" "thread_trace th = []"
  shows "system_ok (s\<lparr>sy_slots := slots, sy_threads := (sy_threads s)[i := th]\<rparr>)"
proof -
  have "i < length (sy_threads s)" using assms(1,3) by (simp add: system_ok_def slots_ok_def)
  then have "map thread_parser ((sy_threads s)[i := th]) = map thread_parser (sy_threads s)"
    using assms(4,5) by (simp add: map_update list_update_same_conv)
  moreover have "log_ok (sy_listed s) ((sy_threads s)[i := th]) (sy_log s) (dm_calls (sv_daemon (sy_server s)))"
    using assms(1,7) set_update_ball [of "sy_threads s" "\<lambda>th. \<forall>e \<in> set (thread_trace th). (thread_agent th, e) \<in> set (sy_log s)" th i]
    by (auto simp: system_ok_def log_ok_def)
  ultimately show ?thesis using assms(1,2,6) set_update_ball [of "sy_threads s" "thread_ok (sy_listed s)" th i]
    by (simp add: system_ok_def)
qed

lemma accept_ok:
  assumes "system_ok s"
  shows "system_ok (accept_client created fd peer cn s)"
proof (cases "slot_acquire (fd, peer) (sy_slots s)")
  case (Pair found slots)
  show ?thesis
  proof (cases found)
    case None
    then show ?thesis using Pair assms by (simp add: accept_client_def)
  next
    case (Some i)
    note a = client_slots.acquire_some [OF Pair [unfolded Some]]
    have sl: "slots_ok (sy_slots s) (sy_threads s)" using assms by (simp add: system_ok_def)
    then have i: "i < MAX_CLIENTS" "sy_threads s ! i = Idle" "length slots = MAX_CLIENTS" "i < length (sy_threads s)"
      using a(1,2,4) by (auto simp: slots_ok_def)
    have other: "(sy_threads s ! j = Idle) = (sl_in_use (slots ! j) = 0)" if "j < MAX_CLIENTS" "j \<noteq> i" for j
      using sl a(5) that by (simp add: slots_ok_def)
    show ?thesis
    proof (cases created)
      case True
      have "slots_ok slots ((sy_threads s)[i := Accepted cn])"
        using sl i a(3) other by (auto simp: slots_ok_def nth_list_update)
      from system_ok_replace [OF assms this i(1)] show ?thesis using Pair Some True i(2) by (simp add: accept_client_def)
    next
      case False
      have "slots_ok (slot_release i slots) (sy_threads s)"
        using sl i other client_slots.release_frees [of i slots] client_slots.release_other [of _ i slots] client_slots.release_length [of i slots]
        by (simp add: slots_ok_def) metis
      then show ?thesis using Pair Some False assms by (simp add: accept_client_def system_ok_def)
    qed
  qed
qed

lemma exit_ok:
  assumes "system_ok s" and "i < MAX_CLIENTS"
  shows "system_ok (client_exit i s)"
proof (cases "sy_threads s ! i")
  case (Returned ctx cn tr)
  have sl: "slots_ok (sy_slots s) (sy_threads s)" using assms by (simp add: system_ok_def)
  then have l: "i < length (sy_slots s)" "i < length (sy_threads s)" using assms(2) by (simp_all add: slots_ok_def)
  have "slots_ok (slot_release i (sy_slots s)) ((sy_threads s)[i := Idle])"
    using sl l client_slots.release_frees [of i "sy_slots s"] client_slots.release_other [of _ i "sy_slots s"]
      client_slots.release_length [of i "sy_slots s"]
    by (auto simp: slots_ok_def nth_list_update)
  from system_ok_replace [OF assms(1) this assms(2)] show ?thesis using Returned by (simp add: client_exit_def)
qed (use assms(1) in \<open>simp_all add: client_exit_def\<close>)

lemma owners_effect:
  assumes "owners_ok ps us" and "i < length ps" "ps ! i = thread_parser th" and "us = in_use sv" and "pool_effect th sv th' sv'"
  shows "owners_ok (ps[i := thread_parser th']) (in_use sv')"
proof -
  from assms(5) consider (same) "thread_parser th' = thread_parser th" "in_use sv' = in_use sv"
    | (take) j where "thread_parser th = None" "j < APDU_POOL_SIZE" "thread_parser th' = Some j" "in_use sv ! j = 0" "in_use sv' = (in_use sv)[j := 1]"
    | (give) j where "thread_parser th' = None" "thread_parser th = Some j" "in_use sv' = (in_use sv)[j := 0]"
    by (auto simp: pool_effect_def)
  then show ?thesis
  proof cases
    case same
    then have "ps[i := thread_parser th'] = ps" using assms(3) by (simp add: list_update_same_conv assms(2))
    then show ?thesis using same assms(1,4) by simp
  next
    case take
    then show ?thesis using owners_take [OF assms(1,2)] assms(3,4) by simp
  next
    case give
    then show ?thesis using owners_give [OF assms(1,2)] assms(3,4) by simp
  qed
qed

lemma log_effect:
  assumes "log_ok L ths log calls" and "i < length ths" and "ths ! i = th" and "calls = dm_calls (sv_daemon sv)"
    and "trace_effect L th sv th' sv'"
  shows "log_ok L (ths[i := th']) (log @ map (Pair (thread_agent th')) (drop (length (thread_trace th)) (thread_trace th'))) (dm_calls (sv_daemon sv'))"
    (is "log_ok L ?ths ?log _")
proof -
  obtain evs where evs: "thread_trace th' = thread_trace th @ evs" "evs \<noteq> [] \<Longrightarrow> thread_agent th' \<in> L"
    and ag: "thread_trace th \<noteq> [] \<Longrightarrow> thread_agent th' = thread_agent th"
    and calls: "dm_calls (sv_daemon sv') = dm_calls (sv_daemon sv) \<or> (\<exists>e \<in> set (thread_trace th'). ev_acts e)"
    using assms(5) unfolding trace_effect_def by blast
  have log: "?log = log @ map (Pair (thread_agent th')) evs" using evs(1) by simp
  have th: "th \<in> set ths" using assms(2,3) nth_mem by blast
  have new: "(thread_agent th', e) \<in> set ?log" if "e \<in> set (thread_trace th')" for e
  proof (cases "e \<in> set evs")
    case False
    then have e: "e \<in> set (thread_trace th)" using that evs(1) by simp
    then have "thread_trace th \<noteq> []" by (metis empty_iff list.set(1))
    then have "thread_agent th' = thread_agent th" by (rule ag)
    then show ?thesis using e th assms(1) unfolding log by (auto simp: log_ok_def)
  qed (simp add: log)
  have "\<forall>t \<in> set ths. \<forall>e \<in> set (thread_trace t). (thread_agent t, e) \<in> set ?log" using assms(1) unfolding log by (auto simp: log_ok_def)
  then have "\<forall>t \<in> set ?ths. \<forall>e \<in> set (thread_trace t). (thread_agent t, e) \<in> set ?log"
    by (rule set_update_ball) (use new in blast)
  moreover have "fst ` set ?log \<subseteq> L"
  proof -
    have "fst ` set log \<subseteq> L" using assms(1) by (simp add: log_ok_def)
    then show ?thesis unfolding log using evs(2) by (cases "evs = []") auto
  qed
  moreover have "\<exists>e \<in> snd ` set ?log. ev_acts e" if c: "dm_calls (sv_daemon sv') \<noteq> []"
  proof (cases "\<exists>e \<in> set (thread_trace th'). ev_acts e")
    case True
    then show ?thesis using new by force
  next
    case False
    then have "calls \<noteq> []" using calls c assms(4) by simp
    then show ?thesis using assms(1) unfolding log log_ok_def by auto
  qed
  ultimately show ?thesis unfolding log_ok_def by blast
qed

lemma turn_ok_system:
  assumes inv: "system_ok s" and i: "i < MAX_CLIENTS" and cs: "curve_sizes dh pk" and os: "os_ok os" and r: "length resp = DISP_RESP_MAX"
  obtains th' sv' where "thread_turn dh pk u os resp (sy_threads s ! i) (sy_server s) = Some (th', sv')"
    and "turn_good (sy_listed s) (sy_threads s ! i) (sy_server s) th' sv'"
    and "\<exists>s'. client_turn dh pk u os resp i s = Some s' \<and> system_ok s' \<and> sy_threads s' = (sy_threads s)[i := th'] \<and> sy_server s' = sv'"
proof -
  let ?th = "sy_threads s ! i"
  have sl: "slots_ok (sy_slots s) (sy_threads s)" and w: "wf_server (sy_server s)"
    and L: "set (wl_keys (sv_whitelist (sy_server s))) \<subseteq> sy_listed s"
    using inv by (simp_all add: system_ok_def)
  have l: "i < length (sy_threads s)" using sl i by (simp add: slots_ok_def)
  have ok: "thread_ok (sy_listed s) ?th" using inv l nth_mem by (simp add: system_ok_def)
  obtain th' sv' where t: "thread_turn dh pk u os resp ?th (sy_server s) = Some (th', sv')" and g: "turn_good (sy_listed s) ?th (sy_server s) th' sv'"
    using thread_turn_good [OF ok w L cs os r] by blast
  let ?log = "sy_log s @ map (Pair (thread_agent th')) (drop (length (thread_trace ?th)) (thread_trace th'))"
  let ?s = "s\<lparr>sy_server := sv', sy_threads := (sy_threads s)[i := th'], sy_log := ?log\<rparr>"
  have c: "client_turn dh pk u os resp i s = Some ?s" using t by (simp add: client_turn_def Let_def)
  have "slots_ok (sy_slots s) ((sy_threads s)[i := th'])"
    using sl g l by (auto simp: slots_ok_def turn_good_def nth_list_update)
  moreover have "\<forall>th \<in> set ((sy_threads s)[i := th']). thread_ok (sy_listed s) th"
    by (rule set_update_ball) (use inv g in \<open>simp_all add: system_ok_def turn_good_def\<close>)
  moreover have "owners_ok (map thread_parser ((sy_threads s)[i := th'])) (in_use sv')"
    using owners_effect [of "map thread_parser (sy_threads s)" "in_use (sy_server s)" i ?th "sy_server s" th' sv'] inv g l
    by (simp add: system_ok_def turn_good_def map_update)
  moreover have "log_ok (sy_listed s) ((sy_threads s)[i := th']) ?log (dm_calls (sv_daemon sv'))"
    by (rule log_effect [OF _ l refl refl, where sv = "sy_server s"]) (use inv g in \<open>simp_all add: system_ok_def turn_good_def\<close>)
  ultimately have "system_ok ?s" using g L by (simp add: system_ok_def turn_good_def)
  then show thesis using that [OF t g] c by simp
qed

section \<open>Background work and signals\<close>

lemma warm_ok:
  assumes "wf_server sv" and "os_ok os" and "length dummy = DISP_RESP_MAX"
  obtains dm where "warm_turn os dummy sv = Some (sv\<lparr>sv_daemon := dm\<rparr>)" and "wf_daemon dm" and "dm_calls dm = dm_calls (sv_daemon sv)"
proof -
  have f: "frame_in [] warm_frame" by (simp add: frame_in_def warm_frame_def zero_frame_def)
  have w: "wf_daemon (sv_daemon sv)" and r: "6 \<le> length dummy" "2 \<le> length dummy" using assms by (simp_all add: wf_server_def DISP_RESP_MAX_def)
  obtain n resp' dm where d: "dispatch os [] (Some warm_frame) (Some dummy) (length dummy) 0 (sv_daemon sv) = Some (int n, resp', dm)" "wf_daemon dm"
    by (rule dispatcher.run_cases [OF assms(2) f w r(1), of 0])
  have "dm_calls dm = dm_calls (sv_daemon sv)" using dispatch_acts [OF d(1) r(2)] by (simp add: warm_frame_def)
  then show thesis using that [of dm] d by (simp add: warm_turn_def)
qed

lemma system_ok_daemon:
  assumes "system_ok s" and "wf_daemon dm" and "dm_calls dm = dm_calls (sv_daemon (sy_server s))"
  shows "system_ok (s\<lparr>sy_server := (sy_server s)\<lparr>sv_daemon := dm\<rparr>\<rparr>)"
  using assms wf_server_daemon by (simp add: system_ok_def in_use_def)

lemma wf_reap: "wf_pool tp \<Longrightarrow> wf_pool (fold reap children tp)"
  by (induction children arbitrary: tp) (simp_all add: reap_def Let_def wf_pool_update_by_pid)

lemma sigchld_ok: "system_ok s \<Longrightarrow> system_ok (sigchld_handler children s)"
  unfolding sigchld_handler_def Let_def
  by (rule system_ok_daemon) (auto simp: system_ok_def wf_server_def wf_daemon_def wf_reap)

lemma sighup_ok: "system_ok s \<Longrightarrow> system_ok (handle_sighup s)"
  by (simp add: system_ok_def handle_sighup_def)

lemma system_ok_whitelist:
  assumes "system_ok s" and "wf_whitelist wl" and "L = sy_listed s \<union> set (wl_keys wl)"
  shows "system_ok (s\<lparr>sy_reload := b, sy_server := (sy_server s)\<lparr>sv_whitelist := wl\<rparr>, sy_listed := L\<rparr>)"
proof -
  have "thread_ok L th" if "thread_ok (sy_listed s) th" for th using that assms(3) by (cases th) auto
  then have "\<forall>th \<in> set (sy_threads s). thread_ok L th" using assms(1) by (simp add: system_ok_def)
  then show ?thesis using assms by (auto simp: system_ok_def wf_server_def in_use_def log_ok_def)
qed

lemma loaded_whitelist:
  assumes "whitelist_load (Some wl0) f creatable = (rc, wl, out)"
  obtains w where "wl = Some w" and "wf_whitelist w"
proof (cases f)
  case None
  then show thesis using assms that wf_zero_whitelist by (auto simp: whitelist_load_def)
next
  case (Some c)
  then show thesis using assms that [of "load_lines c zero_whitelist"] load_lines_correct [OF wf_zero_whitelist, of c]
    by (simp add: whitelist_load_def)
qed

lemma reload_ok:
  assumes "system_ok s"
  shows "system_ok (reload_whitelist file creatable s)"
proof -
  obtain rc wl out where l: "whitelist_load (Some (sv_whitelist (sy_server s))) file creatable = (rc, wl, out)" by (metis prod_cases3)
  obtain w where w: "wl = Some w" "wf_whitelist w" by (rule loaded_whitelist [OF l])
  show ?thesis using system_ok_whitelist [OF assms w(2) refl, of False] l w(1) assms by (simp add: reload_whitelist_def)
qed

lemma close_thread_same [simp]:
  "thread_parser (close_thread th) = thread_parser th" "thread_trace (close_thread th) = thread_trace th"
  "thread_agent (close_thread th) = thread_agent th" "thread_ok L (close_thread th) = thread_ok L th"
  "(close_thread th = Idle) = (th = Idle)"
  by (cases th; simp)+

lemma stop_ok:
  assumes "system_ok s"
  shows "system_ok (handle_signal s)"
proof -
  define f where "f = (\<lambda>(sl :: client_slot, th). if sl_in_use sl \<noteq> 0 then close_thread th else th)"
  let ?ths = "map f (zip (sy_slots s) (sy_threads s))"
  have l: "length (sy_slots s) = length (sy_threads s)" using assms by (simp add: system_ok_def slots_ok_def)
  have n: "?ths ! i \<in> {close_thread (sy_threads s ! i), sy_threads s ! i}" if "i < length (sy_threads s)" for i
    using that l by (simp add: f_def)
  have a: "\<forall>th \<in> set ?ths. \<exists>th0 \<in> set (sy_threads s). th \<in> {close_thread th0, th0}"
    using n l by (metis in_set_conv_nth length_map length_zip min.idem)
  have "thread_parser (f x) = thread_parser (snd x)" for x by (cases x) (simp add: f_def)
  then have "map thread_parser ?ths = map thread_parser (map snd (zip (sy_slots s) (sy_threads s)))" by simp
  then have "map thread_parser ?ths = map thread_parser (sy_threads s)" by (simp only: map_snd_zip [OF l])
  moreover have "slots_ok (sy_slots s) ?ths"
    using assms n l unfolding system_ok_def slots_ok_def
    by (metis close_thread_same(5) empty_iff insert_iff length_map length_zip min.idem)
  moreover have "\<forall>th \<in> set ?ths. thread_ok (sy_listed s) th" using assms a by (fastforce simp: system_ok_def)
  moreover have "log_ok (sy_listed s) ?ths (sy_log s) (dm_calls (sv_daemon (sy_server s)))"
    using assms a by (fastforce simp: system_ok_def log_ok_def)
  ultimately show ?thesis using assms by (simp add: system_ok_def handle_signal_def f_def)
qed

lemma finish_ok:
  assumes "system_ok s"
  shows "system_ok (main_exit s)"
proof -
  have "sy_listed s = sy_listed s \<union> set (wl_keys zero_whitelist)" by (simp add: wl_keys_def zero_whitelist_def)
  from system_ok_whitelist [OF assms wf_zero_whitelist this, of "sy_reload s"] show ?thesis
    by (simp add: main_exit_def whitelist_wipe_def)
qed

section \<open>Every reachable state\<close>

lemma start_ok:
  assumes "startup pk urandom os opts now pid env ks f creatable dummy calls = Some (Inr (cfg, s))"
    and "curve_sizes dh pk" and "os_ok os" and "length dummy = DISP_RESP_MAX"
  shows "system_ok s" and "wf_config cfg"
proof -
  obtain rc priv pub ks' where k: "load_or_generate_keys pk urandom env ks (replicate 32 0) (replicate 32 0) = (rc, priv, pub, ks')"
    by (metis prod_cases4)
  obtain rw wo out where l: "whitelist_load (Some zero_whitelist) f creatable = (rw, wo, out)" by (metis prod_cases3)
  obtain w where wl: "wo = Some w" "wf_whitelist w" by (rule loaded_whitelist [OF l])
  obtain cfg' where c: "parse_args opts = Inr cfg'" using assms(1) by (auto simp: startup_def split: sum.splits)
  have rc: "rc = 0" using assms(1) c k by (auto simp: startup_def noise_sizes split: if_splits)
  let ?sv = "\<lparr>sv_priv = priv, sv_pub = pub, sv_whitelist = w, sv_next_session_id = 1,
    sv_pool = replicate APDU_POOL_SIZE zero_parser, sv_daemon = initial_daemon now pid\<rparr>"
  note kl = keys_length [OF k [unfolded rc]]
  have wf: "wf_server ?sv" using kl assms(2) wl(2) wf_initial_daemon by (simp add: wf_server_def curve_sizes_def)
  obtain dm where d: "warm_turn os dummy ?sv = Some (?sv\<lparr>sv_daemon := dm\<rparr>)" "wf_daemon dm" "dm_calls dm = dm_calls (sv_daemon ?sv)"
    by (rule warm_ok [OF wf assms(3,4)])
  have s: "cfg = cfg'" "s = \<lparr>sy_server = ?sv\<lparr>sv_daemon := dm\<rparr>, sy_slots = replicate MAX_CLIENTS zero_slot, sy_threads = replicate MAX_CLIENTS Idle,
      sy_stop = False, sy_reload = False, sy_log = [], sy_listed = set (wl_keys w)\<rparr>"
    using assms(1) c k rc l wl(1) d(1) by (auto simp: startup_def noise_sizes split: if_splits)
  have "owners_ok (map thread_parser (sy_threads s)) (in_use (sy_server s))"
    by (simp add: s(2) owners_ok_def in_use_def zero_parser_def)
  moreover have "slots_ok (sy_slots s) (sy_threads s)" by (simp add: s(2) slots_ok_def zero_slot_def)
  moreover have "wf_server (sy_server s)" using wf_server_daemon [OF wf d(2)] by (simp add: s(2))
  ultimately show "system_ok s" using d(3) by (simp add: system_ok_def log_ok_def s(2) initial_daemon_def)
  show "wf_config cfg" using c parse_opts_wf [OF wf_default] by (simp add: parse_args_def s(1))
qed

lemma step_ok:
  assumes "step dh pk s s'" and "system_ok s" and "curve_sizes dh pk"
  shows "system_ok s'"
  using assms(1,2)
proof (cases rule: step.cases)
  case (turn i os resp urandom)
  obtain s2 where "client_turn dh pk urandom os resp i s = Some s2" "system_ok s2"
    by (rule turn_ok_system [OF assms(2) turn(1) assms(3) turn(2,3), of urandom]) blast
  then show ?thesis using turn(4) by simp
next
  case (warm os dummy sv)
  obtain dm where d: "warm_turn os dummy (sy_server s) = Some ((sy_server s)\<lparr>sv_daemon := dm\<rparr>)" "wf_daemon dm"
      "dm_calls dm = dm_calls (sv_daemon (sy_server s))"
    using warm_ok [OF _ warm(2,3), of "sy_server s" thesis] assms(2) by (auto simp: system_ok_def)
  then show ?thesis using warm(1,4) system_ok_daemon [OF assms(2) d(2,3)] by simp
qed (use assms(2) in \<open>simp_all add: accept_ok exit_ok sigchld_ok reload_ok stop_ok finish_ok sighup_ok\<close>)

lemma reachable_ok:
  assumes "reachable dh pk s" and "curve_sizes dh pk"
  shows "system_ok s"
  using assms(1)
proof (induction rule: reachable.induct)
  case start
  then show ?case using start_ok(1) assms(2) by blast
qed (use step_ok assms(2) in blast)

section \<open>A listed agent always gets a parser\<close>

lemma admit_reachable:
  assumes "system_ok s" and "i < MAX_CLIENTS" and "sy_threads s ! i = Admitting ctx cn"
    and "cx_agent_pub ctx \<in> set (wl_keys (sv_whitelist (sy_server s)))"
  obtains j ctx' cn' sv' where "admit (sy_server s) ctx cn = (Some j, ctx', cn', sv')"
proof -
  have w: "wf_server (sy_server s)" and sl: "slots_ok (sy_slots s) (sy_threads s)" and
    o: "owners_ok (map thread_parser (sy_threads s)) (in_use (sy_server s))"
    using assms(1) by (simp_all add: system_ok_def)
  have l: "length (sy_threads s) = APDU_POOL_SIZE" "i < length (sy_threads s)"
    using sl assms(2) by (simp_all add: slots_ok_def MAX_CLIENTS_def LISTEN_BACKLOG_def APDU_POOL_SIZE_def)
  then have "thread_ok (sy_listed s) (sy_threads s ! i)" using assms(1) nth_mem by (simp add: system_ok_def)
  then have la: "length (cx_agent_pub ctx) = 32" using assms(3) by simp
  obtain j where "j < APDU_POOL_SIZE" "in_use (sy_server s) ! j = 0"
    using owners_free [OF o, of i] l assms(3) by auto
  then have fr: "\<exists>p \<in> set (sv_pool (sy_server s)). pr_in_use p = 0"
    using wf_serverD [OF w] by (metis in_use_def length_map nth_map nth_mem)
  show thesis by (rule admit_listed [OF w la assms(4) fr]) (drule spec [of _ cn], erule that)
qed

section \<open>The turns of a thread end\<close>

lemma turns_end:
  assumes "thread_ok L th" and "wf_server sv" and "set (wl_keys (sv_whitelist sv)) \<subseteq> L" and "th \<noteq> Idle"
    and cs: "curve_sizes dh pk" and os: "\<forall>k. os_ok (os k)" and r: "length resp = DISP_RESP_MAX"
  shows "\<exists>n \<le> turns_left th. \<exists>ctx cn tr sv'. turns dh pk u os resp k n th sv = Some (Returned ctx cn tr, sv')"
  using assms(1-4)
proof (induction "turns_left th" arbitrary: th sv k rule: less_induct)
  case less
  show ?case
  proof (cases "turns_left th = 0")
    case True
    then obtain ctx cn tr where "th = Returned ctx cn tr" using less.prems(4) by (cases th) auto
    then have "turns dh pk u os resp k 0 th sv = Some (Returned ctx cn tr, sv)" by simp
    then show ?thesis by blast
  next
    case False
    obtain th' sv' where t: "thread_turn dh pk u (os k) resp th sv = Some (th', sv')" and g: "turn_good L th sv th' sv'"
      using thread_turn_good [OF less.prems(1-3) cs _ r] os by blast
    then have d: "turns_left th' < turns_left th" "thread_ok L th'" "wf_server sv'" "set (wl_keys (sv_whitelist sv')) \<subseteq> L" "th' \<noteq> Idle"
      using False less.prems by (auto simp: turn_good_def)
    from less.hyps [OF d, of "k + 1"] obtain n ctx cn tr sv2 where n: "n \<le> turns_left th'"
      "turns dh pk u os resp (k + 1) n th' sv' = Some (Returned ctx cn tr, sv2)" by blast
    then have "turns dh pk u os resp k (Suc n) th sv = Some (Returned ctx cn tr, sv2)" "Suc n \<le> turns_left th"
      using t d(1) by simp_all
    then show ?thesis by blast
  qed
qed

lemma turns_returned: "turns dh pk u os resp k n (Returned ctx cn tr) sv = Some (Returned ctx cn tr, sv)"
  by (induction n arbitrary: k) simp_all

lemma turns_unique:
  assumes "turns dh pk u os resp k m th sv = Some (Returned c1 n1 t1, s1)" and "turns dh pk u os resp k n th sv = Some (Returned c2 n2 t2, s2)"
  shows "c1 = c2 \<and> n1 = n2 \<and> t1 = t2 \<and> s1 = s2"
proof -
  have "turns dh pk u os resp k (m + n) th sv = Some (Returned c1 n1 t1, s1)" unfolding turns_add [of _ _ _ _ _ _ m n] assms(1) by (simp add: turns_returned)
  moreover have "turns dh pk u os resp k (n + m) th sv = Some (Returned c2 n2 t2, s2)" unfolding turns_add [of _ _ _ _ _ _ n m] assms(2) by (simp add: turns_returned)
  ultimately show ?thesis by (simp add: add.commute)
qed

section \<open>Properties\<close>





text \<open>A process that has started on an empty directory and accepted one connection.\<close>

lemma demo_reachable:
  "\<exists>s. reachable toy_dh toy_pk s \<and> sy_threads s ! 0 = Accepted demo_conn"
proof -
  obtain priv pub ks' where k: "load_or_generate_keys toy_pk None fresh_env no_keys (replicate 32 0) (replicate 32 0) = (0, priv, pub, ks')"
    using toy_sizes generate_lengths [of toy_pk None "replicate 32 0"]
    by (cases "noise_ik_generate_keypair toy_pk None (replicate 32 0)")
       (simp add: load_or_generate_keys_def load_keys_def no_keys_def fresh_env_def write_keys_def noise_sizes Let_def curve_sizes_def)
  have p: "\<forall>a. length (toy_pk a) = 32" using toy_sizes by (simp add: curve_sizes_def)
  note kl = keys_length [OF k p]
  let ?sv = "\<lparr>sv_priv = priv, sv_pub = pub, sv_whitelist = zero_whitelist, sv_next_session_id = 1,
    sv_pool = replicate APDU_POOL_SIZE zero_parser, sv_daemon = initial_daemon 1 2\<rparr>"
  have wf: "wf_server ?sv" using kl wf_initial_daemon wf_zero_whitelist by (simp add: wf_server_def)
  obtain dm where d: "warm_turn quiet_os (replicate 256 0) ?sv = Some (?sv\<lparr>sv_daemon := dm\<rparr>)"
    by (rule warm_ok [OF wf quiet_os_ok, of "replicate 256 0"]) (simp_all add: DISP_RESP_MAX_def)
  obtain cfg s where s: "startup toy_pk None quiet_os [] 1 2 fresh_env no_keys None True (replicate 256 0) [] = Some (Inr (cfg, s))"
    and sl: "sy_slots s = replicate MAX_CLIENTS zero_slot" "sy_threads s = replicate MAX_CLIENTS Idle" "\<not> sy_stop s"
    using k d by (simp add: startup_def parse_args_def whitelist_load_def noise_sizes WL_OK_def)
  have r: "reachable toy_dh toy_pk s" by (rule reachable.start [OF s quiet_os_ok]) (simp add: DISP_RESP_MAX_def)
  have "slot_acquire (5, []) (sy_slots s) = (Some 0, (sy_slots s)[0 := \<lparr>sl_fd = 5, sl_peer = [], sl_in_use = 1\<rparr>])"
    by (simp add: slot_acquire_def sl(1) MAX_CLIENTS_def LISTEN_BACKLOG_def zero_slot_def numeral_eq_Suc)
  then have "sy_threads (accept_client True 5 [] demo_conn s) ! 0 = Accepted demo_conn"
    by (simp add: accept_client_def sl(2) MAX_CLIENTS_def LISTEN_BACKLOG_def numeral_eq_Suc)
  then show ?thesis using reachable.step [OF r step.accept [OF sl(3)]] by blast
qed



end
