(* ===== verification/KeyExchange.thy ===== *)
theory KeyExchange
  imports X25519 DaemonSafety
begin

text \<open>
  The key exchange the daemon is built with. The theories of the handshake and of the daemon take the two curve
  operations as arguments; here they are the modelled functions of the crypto library, and the theorems that only need
  32-byte results hold of the program without any hypothesis about the curve. That a shared secret is the same on both
  sides is a fact about the curve and stays the hypothesis \<open>key_exchange\<close> of the theorems about honest agents.
\<close>

text \<open>Calls with arrays of another length do not occur; they are given some 32 bytes.\<close>

definition x25519 :: "bytes \<Rightarrow> bytes \<Rightarrow> bytes" where
  "x25519 sk pk = (case crypto_x25519 sk pk of None \<Rightarrow> replicate 32 0 | Some q \<Rightarrow> q)"

definition x25519_public_key :: "bytes \<Rightarrow> bytes" where
  "x25519_public_key sk = (case crypto_x25519_public_key sk of None \<Rightarrow> replicate 32 0 | Some q \<Rightarrow> q)"

lemma tobytes_length: "fe_tobytes h = Some s \<Longrightarrow> length s = 32"
  by (auto simp: fe_tobytes_def Let_def bind_Some_iff)

lemma crypto_x25519_length: "crypto_x25519 sk pk = Some q \<Longrightarrow> length q = 32"
  by (auto simp: crypto_x25519_def scalarmult_def Let_def bind_Some_iff split_beta tobytes_length)

lemma x25519_defined:
  "length sk = 32 \<Longrightarrow> length pk = 32 \<Longrightarrow> crypto_x25519 sk pk = Some (x25519 sk pk)"
  "length sk = 32 \<Longrightarrow> crypto_x25519_public_key sk = Some (x25519_public_key sk)"
  using x25519_total [of sk pk] x25519_total [of sk base_point]
  by (auto simp: x25519_def x25519_public_key_def crypto_x25519_public_key_def base_point_def)

lemma curve25519_sizes: "curve_sizes x25519 x25519_public_key"
  by (auto simp: curve_sizes_def x25519_def x25519_public_key_def crypto_x25519_public_key_def
      dest: crypto_x25519_length split: option.split)

text \<open>The connection handler and the process with the key exchange of the source.\<close>

lemmas client_on_curve25519 = handle_client_good [OF _ curve25519_sizes]

lemmas daemon_on_curve25519 = reachable_ok [OF _ curve25519_sizes]

end
