(* ===== verification/Edwards.thy ===== *)
theory Edwards
  imports X25519
begin

unbundle bit_operations_syntax

text \<open>
  The points of the twisted Edwards curve (src/src/asyd/core/monocypher.c, "Ed25519"): extended projective coordinates,
  cached and precomputed operands, addition, subtraction, doubling, encoding and decoding. The reference is the affine
  addition law of the curve \<open>- x^2 + y^2 = 1 + d x^2 y^2\<close> over the integers modulo 2^255 - 19. The daemon does not
  sign messages with this curve, so nothing else depends on this theory.
\<close>

section \<open>The operations\<close>

definition edwards_d :: fe where
  "edwards_d = [- 10913610, 13857413, - 15372611, 6949391, 114729,
     - 8787816, - 6275908, - 3247719, - 18696448, - 12055116]"

definition D2 :: fe where
  "D2 = [- 21827239, - 5839606, - 30745221, 13898782, 229458,
     15978800, - 12551817, - 6495438, 29715968, 9444199]"

record ge =
  ge_X :: fe
  ge_Y :: fe
  ge_Z :: fe
  ge_T :: fe

record ge_cached =
  gc_Yp :: fe
  gc_Ym :: fe
  gc_Z :: fe
  gc_T2 :: fe

record ge_precomp =
  gp_Yp :: fe
  gp_Ym :: fe
  gp_T2 :: fe

definition fe_isodd :: "fe \<Rightarrow> u8 option" where
  "fe_isodd f = do {s \<leftarrow> fe_tobytes f; Some (s ! 0 AND 1)}"

definition ge_zero :: ge where
  "ge_zero = \<lparr>ge_X = fe_0, ge_Y = fe_1, ge_Z = fe_1, ge_T = fe_0\<rparr>"

definition ge_tobytes :: "ge \<Rightarrow> bytes option" where
  "ge_tobytes h =
     do {recip \<leftarrow> fe_invert (ge_Z h);
         x \<leftarrow> fe_mul (ge_X h) recip;
         y \<leftarrow> fe_mul (ge_Y h) recip;
         s \<leftarrow> fe_tobytes y;
         odd \<leftarrow> fe_isodd x;
         Some (s[31 := s ! 31 XOR push_bit 7 odd])}"

text \<open>The result code and the point, of which only the code is used after a failure.\<close>

definition ge_frombytes_neg_vartime :: "bytes \<Rightarrow> (int \<times> ge option) option" where
  "ge_frombytes_neg_vartime s =
     do {y \<leftarrow> fe_frombytes s;
         let z = fe_1;
         t \<leftarrow> fe_sq y;
         x \<leftarrow> fe_mul t edwards_d;
         t \<leftarrow> fe_sub t z;
         x \<leftarrow> fe_add x z;
         x \<leftarrow> fe_mul t x;
         (x, is_square) \<leftarrow> invsqrt x;
         if is_square = 0 then Some (- 1, None)
         else do {
           x \<leftarrow> fe_mul t x;
           odd \<leftarrow> fe_isodd x;
           x \<leftarrow> (if odd = drop_bit 7 (s ! 31) then fe_neg x else Some x);
           t \<leftarrow> fe_mul x y;
           Some (0, Some \<lparr>ge_X = x, ge_Y = y, ge_Z = z, ge_T = t\<rparr>)}}"

definition ge_cache :: "ge \<Rightarrow> ge_cached option" where
  "ge_cache p =
     do {yp \<leftarrow> fe_add (ge_Y p) (ge_X p);
         ym \<leftarrow> fe_sub (ge_Y p) (ge_X p);
         t2 \<leftarrow> fe_mul (ge_T p) D2;
         Some \<lparr>gc_Yp = yp, gc_Ym = ym, gc_Z = fe_copy (ge_Z p), gc_T2 = t2\<rparr>}"

definition ge_add :: "ge \<Rightarrow> ge_cached \<Rightarrow> ge option" where
  "ge_add p q =
     do {a \<leftarrow> fe_add (ge_Y p) (ge_X p);
         b \<leftarrow> fe_sub (ge_Y p) (ge_X p);
         a \<leftarrow> fe_mul a (gc_Yp q);
         b \<leftarrow> fe_mul b (gc_Ym q);
         sY \<leftarrow> fe_add a b;
         sX \<leftarrow> fe_sub a b;
         sZ \<leftarrow> fe_add (ge_Z p) (ge_Z p);
         sZ \<leftarrow> fe_mul sZ (gc_Z q);
         sT \<leftarrow> fe_mul (ge_T p) (gc_T2 q);
         a \<leftarrow> fe_add sZ sT;
         b \<leftarrow> fe_sub sZ sT;
         sT \<leftarrow> fe_mul sX sY;
         sX \<leftarrow> fe_mul sX b;
         sY \<leftarrow> fe_mul sY a;
         sZ \<leftarrow> fe_mul a b;
         Some \<lparr>ge_X = sX, ge_Y = sY, ge_Z = sZ, ge_T = sT\<rparr>}"

definition ge_sub :: "ge \<Rightarrow> ge_cached \<Rightarrow> ge option" where
  "ge_sub p q =
     do {t2 \<leftarrow> fe_neg (gc_T2 q);
         ge_add p \<lparr>gc_Yp = fe_copy (gc_Ym q), gc_Ym = fe_copy (gc_Yp q), gc_Z = fe_copy (gc_Z q), gc_T2 = t2\<rparr>}"

definition ge_madd :: "ge \<Rightarrow> ge_precomp \<Rightarrow> ge option" where
  "ge_madd p q =
     do {a \<leftarrow> fe_add (ge_Y p) (ge_X p);
         b \<leftarrow> fe_sub (ge_Y p) (ge_X p);
         a \<leftarrow> fe_mul a (gp_Yp q);
         b \<leftarrow> fe_mul b (gp_Ym q);
         sY \<leftarrow> fe_add a b;
         sX \<leftarrow> fe_sub a b;
         sZ \<leftarrow> fe_add (ge_Z p) (ge_Z p);
         sT \<leftarrow> fe_mul (ge_T p) (gp_T2 q);
         a \<leftarrow> fe_add sZ sT;
         b \<leftarrow> fe_sub sZ sT;
         sT \<leftarrow> fe_mul sX sY;
         sX \<leftarrow> fe_mul sX b;
         sY \<leftarrow> fe_mul sY a;
         sZ \<leftarrow> fe_mul a b;
         Some \<lparr>ge_X = sX, ge_Y = sY, ge_Z = sZ, ge_T = sT\<rparr>}"

definition ge_msub :: "ge \<Rightarrow> ge_precomp \<Rightarrow> ge option" where
  "ge_msub p q =
     do {t2 \<leftarrow> fe_neg (gp_T2 q);
         ge_madd p \<lparr>gp_Yp = fe_copy (gp_Ym q), gp_Ym = fe_copy (gp_Yp q), gp_T2 = t2\<rparr>}"

definition ge_double :: "ge \<Rightarrow> ge option" where
  "ge_double p =
     do {qX \<leftarrow> fe_sq (ge_X p);
         qY \<leftarrow> fe_sq (ge_Y p);
         qZ \<leftarrow> fe_sq (ge_Z p);
         qZ \<leftarrow> fe_mul_small qZ 2;
         qT \<leftarrow> fe_add (ge_X p) (ge_Y p);
         sT \<leftarrow> fe_sq qT;
         qT \<leftarrow> fe_add qY qX;
         qY \<leftarrow> fe_sub qY qX;
         qX \<leftarrow> fe_sub sT qT;
         qZ \<leftarrow> fe_sub qZ qY;
         sX \<leftarrow> fe_mul qX qZ;
         sY \<leftarrow> fe_mul qT qY;
         sZ \<leftarrow> fe_mul qY qZ;
         sT \<leftarrow> fe_mul qX qT;
         Some \<lparr>ge_X = sX, ge_Y = sY, ge_Z = sZ, ge_T = sT\<rparr>}"

section \<open>Elements and what they stand for\<close>

text \<open>
  \<open>is_fe k f v\<close>: the element stands for the number \<open>v\<close>, and its limbs are within \<open>k\<close> times the postcondition of
  the carry. A product wants at most 3; it and a square give 1, sums and differences add up.
\<close>

definition is_fe :: "int \<Rightarrow> fe \<Rightarrow> int \<Rightarrow> bool" where
  "is_fe k f v \<longleftrightarrow> length f = 10 \<and> within (k * 36909875) (k * 18454937) f \<and> fe_mod f = v mod p25519"

definition post :: "'a option \<Rightarrow> ('a \<Rightarrow> bool) \<Rightarrow> bool" where
  "post r Q \<longleftrightarrow> (\<exists>a. r = Some a \<and> Q a)"

named_theorems fe_steps

lemma post_Some [fe_steps]: "Q a \<Longrightarrow> post (Some a) Q"
  by (simp add: post_def)

lemma post_bind: "post r (\<lambda>a. post (c a) Q) \<Longrightarrow> post (Option.bind r c) Q"
  by (auto simp: post_def)

lemma postE: "post r Q \<Longrightarrow> (\<And>a. r = Some a \<Longrightarrow> Q a \<Longrightarrow> thesis) \<Longrightarrow> thesis"
  by (auto simp: post_def)

lemma post_mono: "post r P \<Longrightarrow> (\<And>a. P a \<Longrightarrow> Q a) \<Longrightarrow> post r Q"
  by (auto simp: post_def)

lemma is_fe_tight: "is_fe 1 f v \<longleftrightarrow> tight f \<and> fe_mod f = v mod p25519"
  by (simp add: is_fe_def tight_def)

lemma tight_is_fe: "tight f \<Longrightarrow> is_fe 1 f (fe_mod f)"
  by (simp add: is_fe_tight fe_mod_def)

lemma is_fe_loose: "is_fe k f v \<Longrightarrow> k \<le> 3 \<Longrightarrow> loose f"
proof -
  assume a: "is_fe k f v" "k \<le> 3"
  have "k * 36909875 \<le> 110729625" "k * 18454937 \<le> 55364812" using a(2) by simp_all
  moreover have w: "length f = 10" "within (k * 36909875) (k * 18454937) f" using a(1) by (simp_all only: is_fe_def)
  ultimately have "within 110729625 55364812 f" using within_mono [OF w(2)] by blast
  then show "loose f" using w(1) by (simp add: loose_def)
qed

lemma is_fe_cong: "is_fe k f u \<Longrightarrow> u mod p25519 = v mod p25519 \<Longrightarrow> is_fe k f v"
  by (simp add: is_fe_def)

lemma is_fe_mono: "is_fe k f v \<Longrightarrow> k \<le> l \<Longrightarrow> is_fe l f v"
proof -
  assume a: "is_fe k f v" "k \<le> l"
  have "k * 36909875 \<le> l * 36909875" "k * 18454937 \<le> l * 18454937" using a(2) by simp_all
  moreover have w: "length f = 10" "within (k * 36909875) (k * 18454937) f" "fe_mod f = v mod p25519"
    using a(1) by (simp_all only: is_fe_def)
  ultimately have "within (l * 36909875) (l * 18454937) f" using within_mono [OF w(2)] by blast
  then show ?thesis using w by (simp only: is_fe_def)
qed

lemma is_fe_copy: "is_fe k f v \<Longrightarrow> fe_copy f = f"
  by (simp add: is_fe_def fe_copy_def list_eq_iff_nth_eq)

lemma is_fe_constants: "is_fe 1 fe_0 0" "is_fe 1 fe_1 1" "is_fe 1 sqrtm1 (fe_mod sqrtm1)"
  by (simp_all add: is_fe_tight constants_tight constants_mod p25519_gt) (simp add: fe_mod_def)

lemma mul_step [fe_steps]:
  assumes "is_fe k f u" and "is_fe l g v" and "k \<le> 3" and "l \<le> 3" and "\<And>h. is_fe 1 h (u * v) \<Longrightarrow> post (c h) Q"
  shows "post (Option.bind (fe_mul f g) c) Q"
proof -
  obtain h where h: "fe_mul f g = Some h" "tight h" "fe_mod h = fe_mod f * fe_mod g mod p25519"
    using fe_mul_mod is_fe_loose assms(1-4) by blast
  then have "is_fe 1 h (u * v)" using assms(1,2) by (simp add: is_fe_tight) (simp add: is_fe_def mod_simps)
  then show ?thesis using assms(5) h(1) by simp
qed

lemma sq_step [fe_steps]:
  assumes "is_fe k f u" and "k \<le> 3" and "\<And>h. is_fe 1 h (u * u) \<Longrightarrow> post (c h) Q"
  shows "post (Option.bind (fe_sq f) c) Q"
  using mul_step [OF assms(1,1,2,2,3)] fe_sq_mul [OF is_fe_loose [OF assms(1,2)]] by simp

lemma small_step [fe_steps]:
  assumes "is_fe k f u" and "k \<le> 3" and "\<bar>n\<bar> \<le> 2 ^ 31" and "\<And>h. is_fe 1 h (u * n) \<Longrightarrow> post (c h) Q"
  shows "post (Option.bind (fe_mul_small f n) c) Q"
proof -
  obtain h where h: "fe_mul_small f n = Some h" "tight h" "fe_mod h = fe_mod f * n mod p25519"
    using fe_mul_small_mod is_fe_loose assms(1-3) by blast
  then have "is_fe 1 h (u * n)" using assms(1) by (simp add: is_fe_tight) (simp add: is_fe_def mod_simps)
  then show ?thesis using assms(4) h(1) by simp
qed

lemma add_step [fe_steps]:
  assumes "is_fe k f u" and "is_fe l g v" and "k + l \<le> 50" and "\<And>h. is_fe (k + l) h (u + v) \<Longrightarrow> post (c h) Q"
  shows "post (Option.bind (fe_add f g) c) Q"
proof -
  have s: "k * 36909875 + l * 36909875 \<le> 2147483647" "k * 18454937 + l * 18454937 \<le> 2147483647" using assms(3) by simp_all
  have fg: "length f = 10" "length g = 10" "within (k * 36909875) (k * 18454937) f" "within (l * 36909875) (l * 18454937) g"
    using assms(1,2) by (simp_all add: is_fe_def)
  obtain h where h: "fe_add f g = Some h" "length h = 10"
      "within (k * 36909875 + l * 36909875) (k * 18454937 + l * 18454937) h" "fe_val h = fe_val f + fe_val g"
    using fe_add_within [OF fg s] by blast
  then have "is_fe (k + l) h (u + v)"
    using assms(1,2) by (simp add: is_fe_def fe_mod_def distrib_right) (metis mod_add_eq)
  then show ?thesis using assms(4) h(1) by simp
qed

lemma sub_step [fe_steps]:
  assumes "is_fe k f u" and "is_fe l g v" and "k + l \<le> 50" and "\<And>h. is_fe (k + l) h (u - v) \<Longrightarrow> post (c h) Q"
  shows "post (Option.bind (fe_sub f g) c) Q"
proof -
  have s: "k * 36909875 + l * 36909875 \<le> 2147483647" "k * 18454937 + l * 18454937 \<le> 2147483647" using assms(3) by simp_all
  have fg: "length f = 10" "length g = 10" "within (k * 36909875) (k * 18454937) f" "within (l * 36909875) (l * 18454937) g"
    using assms(1,2) by (simp_all add: is_fe_def)
  obtain h where h: "fe_sub f g = Some h" "length h = 10"
      "within (k * 36909875 + l * 36909875) (k * 18454937 + l * 18454937) h" "fe_val h = fe_val f - fe_val g"
    using fe_sub_within [OF fg s] by blast
  then have "is_fe (k + l) h (u - v)"
    using assms(1,2) by (simp add: is_fe_def fe_mod_def distrib_right) (metis mod_diff_eq)
  then show ?thesis using assms(4) h(1) by simp
qed

lemma neg_step [fe_steps]:
  assumes "is_fe 1 f u" and "\<And>h. is_fe 1 h (- u) \<Longrightarrow> post (c h) Q"
  shows "post (Option.bind (fe_neg f) c) Q"
proof -
  obtain h where "fe_neg f = Some h" "is_fe 1 h (- u)"
    using fe_neg_mod [of f] assms(1) by (auto simp: is_fe_tight mod_minus_eq)
  then show ?thesis using assms(2) by simp
qed

lemma invert_step [fe_steps]:
  assumes "is_fe k f u" and "k \<le> 3" and "\<And>h. is_fe 1 h (field_inv (u mod p25519)) \<Longrightarrow> post (c h) Q"
  shows "post (Option.bind (fe_invert f) c) Q"
proof -
  obtain h where "fe_invert f = Some h" "tight h" "fe_mod h = field_inv (u mod p25519)"
    using fe_invert_ok [OF is_fe_loose [OF assms(1,2)]] assms(1) by (auto simp: is_fe_def)
  moreover from this have "is_fe 1 h (field_inv (u mod p25519))"
    using tight_is_fe [of h] by simp
  ultimately show ?thesis using assms(3) by simp
qed

section \<open>The curve\<close>

type_synonym epoint = "int \<times> int"

definition ed_d :: int where
  "ed_d = 37095705934669439343138083508754565189542113879843219016388785533085940283555"

text \<open>
  The affine addition law as a relation: \<open>R\<close> is the sum of \<open>P\<close> and \<open>Q\<close>. Its denominators never vanish on the curve,
  since d is not a square; that is a fact about the prime that is not proved here, and \<open>addable\<close> states it for the
  two points in question. A number is a unit modulo the prime when it is coprime to it.
\<close>

definition unit :: "int \<Rightarrow> bool" where
  "unit z \<longleftrightarrow> coprime z p25519"

definition ed_t :: "epoint \<Rightarrow> epoint \<Rightarrow> int" where
  "ed_t P Q = ed_d * fst P * fst Q * snd P * snd Q"

definition addable :: "epoint \<Rightarrow> epoint \<Rightarrow> bool" where
  "addable P Q \<longleftrightarrow> unit (1 + ed_t P Q) \<and> unit (1 - ed_t P Q)"

definition ed_sum :: "epoint \<Rightarrow> epoint \<Rightarrow> epoint \<Rightarrow> bool" where
  "ed_sum P Q R \<longleftrightarrow>
     fst R * (1 + ed_t P Q) mod p25519 = (fst P * snd Q + fst Q * snd P) mod p25519 \<and>
     snd R * (1 - ed_t P Q) mod p25519 = (snd P * snd Q + fst P * fst Q) mod p25519"

definition ed_neg :: "epoint \<Rightarrow> epoint" where
  "ed_neg P = (- fst P, snd P)"

definition on_curve :: "epoint \<Rightarrow> bool" where
  "on_curve P \<longleftrightarrow> ((snd P)\<^sup>2 - (fst P)\<^sup>2) mod p25519 = (1 + ed_d * (fst P)\<^sup>2 * (snd P)\<^sup>2) mod p25519"

text \<open>\<open>represents g P\<close>: the extended coordinates of \<open>g\<close> are those of \<open>P\<close>; likewise for the operands of additions, of which
  a precomputed one has the coordinate 1.\<close>

definition coords :: "int \<Rightarrow> ge \<Rightarrow> epoint \<Rightarrow> bool" where
  "coords z g P \<longleftrightarrow>
     unit z \<and> is_fe 1 (ge_X g) (fst P * z) \<and> is_fe 1 (ge_Y g) (snd P * z) \<and> is_fe 1 (ge_Z g) z \<and>
     is_fe 1 (ge_T g) (fst P * snd P * z)"

definition represents :: "ge \<Rightarrow> epoint \<Rightarrow> bool" where
  "represents g P \<longleftrightarrow> coords (fe_mod (ge_Z g)) g P"

definition coords_cached :: "int \<Rightarrow> ge_cached \<Rightarrow> epoint \<Rightarrow> bool" where
  "coords_cached z c P \<longleftrightarrow>
     unit z \<and> is_fe 2 (gc_Yp c) ((snd P + fst P) * z) \<and> is_fe 2 (gc_Ym c) ((snd P - fst P) * z) \<and>
     is_fe 1 (gc_Z c) z \<and> is_fe 1 (gc_T2 c) (2 * ed_d * (fst P * snd P * z))"

definition represents_cached :: "ge_cached \<Rightarrow> epoint \<Rightarrow> bool" where
  "represents_cached c P \<longleftrightarrow> coords_cached (fe_mod (gc_Z c)) c P"

definition represents_precomp :: "ge_precomp \<Rightarrow> epoint \<Rightarrow> bool" where
  "represents_precomp c P \<longleftrightarrow>
     is_fe 2 (gp_Yp c) (snd P + fst P) \<and> is_fe 2 (gp_Ym c) (snd P - fst P) \<and>
     is_fe 1 (gp_T2 c) (2 * ed_d * (fst P * snd P))"

lemma ed_tight: "tight edwards_d" "tight D2"
  by (simp_all add: tight_def edwards_d_def D2_def eval_nat_numeral)

lemma ed_mods: "fe_mod edwards_d = ed_d" "fe_mod D2 = 2 * ed_d mod p25519" "ed_d mod p25519 = ed_d"
    "(121666 * ed_d + 121665) mod p25519 = 0"
  by (simp_all add: fe_mod_def fe_val_def fe_sum_def edwards_d_def D2_def ed_d_def p25519_def)

lemma ed_constants: "is_fe 1 edwards_d ed_d" "is_fe 1 D2 (2 * ed_d)"
  using ed_tight ed_mods by (simp_all only: is_fe_tight)

lemma unit_mult: "unit u \<Longrightarrow> unit v \<Longrightarrow> unit (u * v)"
  by (simp add: unit_def coprime_mult_left_iff)

lemma unit_cong: "u mod p25519 = v mod p25519 \<Longrightarrow> unit u \<Longrightarrow> unit v"
  unfolding unit_def by (metis coprime_mod_left_iff p25519_gt(2) less_irrefl)

lemma coords_cong:
  assumes "coords z g P" and "z mod p25519 = w mod p25519"
  shows "coords w g P"
proof -
  have m: "a * z mod p25519 = a * w mod p25519" for a using assms(2) by (rule mod_mult_cong [OF refl])
  show ?thesis
    using assms unfolding coords_def by (auto intro: is_fe_cong m unit_cong)
qed

lemma represents_coords: "represents g P \<longleftrightarrow> (\<exists>z. coords z g P)"
proof
  assume "\<exists>z. coords z g P"
  then obtain z where z: "coords z g P" by blast
  then have "z mod p25519 = fe_mod (ge_Z g) mod p25519" by (simp add: coords_def is_fe_def)
  then show "represents g P" unfolding represents_def using z by (blast intro: coords_cong)
qed (auto simp: represents_def)

text \<open>Dividing a congruence by a unit is not needed: the coordinates of a sum are compared after multiplying out.\<close>

lemma sum_coords:
  assumes "ed_sum P Q R" and "addable P Q" and "unit w"
    and "is_fe 1 X ((fst P * snd Q + fst Q * snd P) * w * ((1 - ed_t P Q) * w))"
    and "is_fe 1 Y ((snd P * snd Q + fst P * fst Q) * w * ((1 + ed_t P Q) * w))"
    and "is_fe 1 Z ((1 + ed_t P Q) * w * ((1 - ed_t P Q) * w))"
    and "is_fe 1 T ((fst P * snd Q + fst Q * snd P) * w * ((snd P * snd Q + fst P * fst Q) * w))"
  shows "represents \<lparr>ge_X = X, ge_Y = Y, ge_Z = Z, ge_T = T\<rparr> R"
proof -
  define E H F G where "E = fst P * snd Q + fst Q * snd P" and "H = snd P * snd Q + fst P * fst Q"
    and "F = 1 - ed_t P Q" and "G = 1 + ed_t P Q"
  define z where "z = G * w * (F * w)"
  have s: "fst R * G mod p25519 = E mod p25519" "snd R * F mod p25519 = H mod p25519"
    using assms(1) by (simp_all add: ed_sum_def E_def H_def F_def G_def)
  have m: "a mod p25519 = b mod p25519 \<Longrightarrow> a * c mod p25519 = b * c mod p25519" for a b c
    by (rule mod_mult_cong) simp_all
  have e: "E * w * (F * w) mod p25519 = fst R * z mod p25519"
    using m [OF s(1) [symmetric], of "w * (F * w)"] by (simp add: z_def ac_simps)
  have h: "H * w * (G * w) mod p25519 = snd R * z mod p25519"
    using m [OF s(2) [symmetric], of "w * (G * w)"] by (simp add: z_def ac_simps)
  have t: "E * w * (H * w) mod p25519 = fst R * snd R * z mod p25519"
    using mod_mult_cong [OF s(1) s(2)] m [of "fst R * G * (snd R * F)" "E * H" "w * w"] by (simp add: z_def ac_simps)
  have "unit z" unfolding z_def using assms(2,3) by (auto simp: addable_def F_def G_def intro!: unit_mult)
  then have "coords z \<lparr>ge_X = X, ge_Y = Y, ge_Z = Z, ge_T = T\<rparr> R"
    using is_fe_cong [OF assms(4) [folded E_def F_def] e] is_fe_cong [OF assms(5) [folded H_def G_def] h]
      is_fe_cong [OF assms(7) [folded E_def H_def] t] assms(6) [folded F_def G_def]
    by (simp add: coords_def z_def)
  then show ?thesis unfolding represents_coords by blast
qed

lemma unit_inverse: "z * u mod p25519 = 1 \<Longrightarrow> unit z"
  unfolding unit_def by (metis coprime_mod_left_iff coprime_mult_left_iff coprime_1_left less_irrefl p25519_gt(2))

section \<open>The group operations\<close>

lemma ge_cache_ok:
  assumes "coords z p P"
  shows "post (ge_cache p) (\<lambda>c. coords_cached z c P)"
proof -
  have p: "is_fe 1 (ge_X p) (fst P * z)" "is_fe 1 (ge_Y p) (snd P * z)" "is_fe 1 (ge_Z p) z"
    "is_fe 1 (ge_T p) (fst P * snd P * z)" and z: "unit z"
    using assms by (simp_all add: coords_def)
  show ?thesis
    unfolding ge_cache_def
    apply (rule fe_steps p ed_constants | simp (no_asm); fail)+
    using p z by (simp add: coords_cached_def is_fe_copy algebra_simps)
qed

lemma unit_2: "unit 2"
  by (rule unit_inverse [of _ "(p25519 + 1) div 2"]) (simp add: p25519_def)

lemma is_fe_subst: "is_fe k f u \<Longrightarrow> u = v \<Longrightarrow> is_fe k f v"
  by simp

lemma ge_add_ok:
  assumes "coords z p P" and "coords_cached w c Q" and "addable P Q" and "ed_sum P Q R"
  shows "post (ge_add p c) (\<lambda>s. represents s R)"
proof -
  have p: "is_fe 1 (ge_X p) (fst P * z)" "is_fe 1 (ge_Y p) (snd P * z)" "is_fe 1 (ge_Z p) z"
    "is_fe 1 (ge_T p) (fst P * snd P * z)" and z: "unit z"
    using assms(1) by (simp_all add: coords_def)
  have c: "is_fe 2 (gc_Yp c) ((snd Q + fst Q) * w)" "is_fe 2 (gc_Ym c) ((snd Q - fst Q) * w)" "is_fe 1 (gc_Z c) w"
    "is_fe 1 (gc_T2 c) (2 * ed_d * (fst Q * snd Q * w))" and w: "unit w"
    using assms(2) by (simp_all add: coords_cached_def)
  have u: "unit (2 * (z * w))" by (intro unit_mult unit_2 z w)
  show ?thesis
    unfolding ge_add_def
    apply (rule fe_steps p c | assumption | simp (no_asm); fail)+
    apply (rule sum_coords [OF assms(4,3) u])
       apply (erule is_fe_subst, simp (no_asm) add: ed_t_def algebra_simps)+
    done
qed

lemma ge_madd_ok:
  assumes "coords z p P" and "represents_precomp c Q" and "addable P Q" and "ed_sum P Q R"
  shows "post (ge_madd p c) (\<lambda>s. represents s R)"
proof -
  have p: "is_fe 1 (ge_X p) (fst P * z)" "is_fe 1 (ge_Y p) (snd P * z)" "is_fe 1 (ge_Z p) z"
    "is_fe 1 (ge_T p) (fst P * snd P * z)" and z: "unit z"
    using assms(1) by (simp_all add: coords_def)
  have c: "is_fe 2 (gp_Yp c) (snd Q + fst Q)" "is_fe 2 (gp_Ym c) (snd Q - fst Q)"
    "is_fe 1 (gp_T2 c) (2 * ed_d * (fst Q * snd Q))"
    using assms(2) by (simp_all add: represents_precomp_def)
  have u: "unit (2 * z)" by (intro unit_mult unit_2 z)
  show ?thesis
    unfolding ge_madd_def
    apply (rule fe_steps p c | assumption | simp (no_asm); fail)+
    apply (rule sum_coords [OF assms(4,3) u])
       apply (erule is_fe_subst, simp (no_asm) add: ed_t_def algebra_simps)+
    done
qed

text \<open>The negative of an operand is the operand with its first two coordinates exchanged and the last one negated.\<close>

lemma ed_neg_t: "ed_t P (ed_neg Q) = - ed_t P Q" "ed_t (ed_neg P) Q = - ed_t P Q"
  by (simp_all add: ed_t_def ed_neg_def)

lemma addable_neg: "addable P (ed_neg Q) \<longleftrightarrow> addable P Q"
  unfolding addable_def ed_neg_t by auto

lemma ge_sub_ok:
  assumes "coords z p P" and "coords_cached w c Q" and "addable P Q" and "ed_sum P (ed_neg Q) R"
  shows "post (ge_sub p c) (\<lambda>s. represents s R)"
proof -
  have c: "is_fe 2 (gc_Yp c) ((snd Q + fst Q) * w)" "is_fe 2 (gc_Ym c) ((snd Q - fst Q) * w)" "is_fe 1 (gc_Z c) w"
    "is_fe 1 (gc_T2 c) (2 * ed_d * (fst Q * snd Q * w))" and w: "unit w"
    using assms(2) by (simp_all add: coords_cached_def)
  have n: "coords_cached w \<lparr>gc_Yp = gc_Ym c, gc_Ym = gc_Yp c, gc_Z = gc_Z c, gc_T2 = t\<rparr> (ed_neg Q)"
    if "is_fe 1 t (- (2 * ed_d * (fst Q * snd Q * w)))" for t
    using c w that by (simp add: coords_cached_def ed_neg_def algebra_simps)
  show ?thesis
    unfolding ge_sub_def is_fe_copy [OF c(1)] is_fe_copy [OF c(2)] is_fe_copy [OF c(3)]
    by (rule neg_step [OF c(4)]) (rule ge_add_ok [OF assms(1) n _ assms(4)], simp_all add: addable_neg assms(3))
qed

lemma ge_msub_ok:
  assumes "coords z p P" and "represents_precomp c Q" and "addable P Q" and "ed_sum P (ed_neg Q) R"
  shows "post (ge_msub p c) (\<lambda>s. represents s R)"
proof -
  have c: "is_fe 2 (gp_Yp c) (snd Q + fst Q)" "is_fe 2 (gp_Ym c) (snd Q - fst Q)"
    "is_fe 1 (gp_T2 c) (2 * ed_d * (fst Q * snd Q))"
    using assms(2) by (simp_all add: represents_precomp_def)
  have n: "represents_precomp \<lparr>gp_Yp = gp_Ym c, gp_Ym = gp_Yp c, gp_T2 = t\<rparr> (ed_neg Q)"
    if "is_fe 1 t (- (2 * ed_d * (fst Q * snd Q)))" for t
    using c that by (simp add: represents_precomp_def ed_neg_def algebra_simps)
  show ?thesis
    unfolding ge_msub_def is_fe_copy [OF c(1)] is_fe_copy [OF c(2)]
    by (rule neg_step [OF c(3)]) (rule ge_madd_ok [OF assms(1) n _ assms(4)], simp_all add: addable_neg assms(3))
qed

text \<open>Doubling uses the equation of the curve, so that d does not occur in it.\<close>

lemma ge_double_ok:
  assumes "coords z p P" and "on_curve P" and "addable P P" and "ed_sum P P R"
  shows "post (ge_double p) (\<lambda>s. represents s R)"
proof -
  let ?x = "fst P" and ?y = "snd P"
  have p: "is_fe 1 (ge_X p) (?x * z)" "is_fe 1 (ge_Y p) (?y * z)" "is_fe 1 (ge_Z p) z" and z: "unit z"
    using assms(1) by (simp_all add: coords_def)
  have g: "(?y * ?y - ?x * ?x) mod p25519 = (1 + ed_t P P) mod p25519"
    using assms(2) by (simp add: on_curve_def ed_t_def power2_eq_square ac_simps)
  then have f: "(2 - (?y * ?y - ?x * ?x)) mod p25519 = (1 - ed_t P P) mod p25519"
    using mod_diff_cong [OF refl g, of 2] by simp
  have u: "unit (z * z)" by (intro unit_mult z)
  have m: "a mod p25519 = b mod p25519 \<Longrightarrow> c * a mod p25519 = c * b mod p25519" for a b c
    by (rule mod_mult_cong) simp_all
  note gw = m [OF g, of "z * z"] and fw = m [OF f, of "z * z"]
  show ?thesis
    unfolding ge_double_def
    apply (rule fe_steps p | assumption | simp (no_asm); fail)+
    apply (rule sum_coords [OF assms(4,3) u])
       apply (erule is_fe_cong, rule trans [OF _ trans [OF m [OF fw, of "2 * ?x * ?y * (z * z)"]]];
        simp (no_asm) add: algebra_simps)
      apply (erule is_fe_cong, rule trans [OF _ trans [OF m [OF gw, of "(?x * ?x + ?y * ?y) * (z * z)"]]];
        simp (no_asm) add: algebra_simps)
     apply (erule is_fe_cong, rule trans [OF _ trans [OF mod_mult_cong [OF gw fw]]]; simp (no_asm) add: algebra_simps)
    apply (erule is_fe_subst, simp (no_asm) add: algebra_simps)
    done
qed

lemma unit_cancel: "unit u \<Longrightarrow> a * u mod p25519 = b * u mod p25519 \<Longrightarrow> a mod p25519 = b mod p25519"
  unfolding unit_def mod_eq_dvd_iff left_diff_distrib [symmetric]
  by (simp add: coprime_commute coprime_dvd_mult_left_iff)

lemma ed_sum_exists:
  assumes "addable P Q"
  shows "\<exists>R. ed_sum P Q R"
proof -
  have i: "\<exists>x. x * u mod p25519 = v mod p25519" if "unit u" for u v
  proof -
    have "gcd u p25519 = 1" using that by (simp only: unit_def coprime_iff_gcd_eq_1)
    then obtain a b where ab: "a * u + b * p25519 = 1" using bezout_int [of u p25519] by metis
    have "v * a * u = v + p25519 * (- (v * b))" using arg_cong [OF ab, of "\<lambda>s. v * s"] by (simp add: algebra_simps)
    then have "v * a * u mod p25519 = v mod p25519" by (simp only: mod_mult_self2)
    then show ?thesis by blast
  qed
  obtain x y where "x * (1 + ed_t P Q) mod p25519 = (fst P * snd Q + fst Q * snd P) mod p25519"
    "y * (1 - ed_t P Q) mod p25519 = (snd P * snd Q + fst P * fst Q) mod p25519"
    using i assms unfolding addable_def by meson
  then show ?thesis by (intro exI [of _ "(x, y)"]) (simp add: ed_sum_def)
qed

text \<open>Sums of points of the curve are on the curve.\<close>

lemma ed_closed:
  assumes "on_curve P" and "on_curve Q" and "addable P Q" and "ed_sum P Q R"
  shows "on_curve R"
proof -
  obtain x1 y1 x2 y2 x3 y3 where e: "P = (x1, y1)" "Q = (x2, y2)" "R = (x3, y3)" by (metis surj_pair)
  define t N M A B where "t = ed_d * x1 * x2 * y1 * y2" and "N = x1 * y2 + x2 * y1" and "M = y1 * y2 + x1 * x2"
    and "A = 1 + t" and "B = 1 - t"
  define s1 s2 d1 d2 where "s1 = y1 * y1 - x1 * x1" and "s2 = y2 * y2 - x2 * x2"
    and "d1 = ed_d * (x1 * x1) * (y1 * y1)" and "d2 = ed_d * (x2 * x2) * (y2 * y2)"
  note defs = t_def N_def M_def A_def B_def s1_def s2_def d1_def d2_def
  have c: "s1 mod p25519 = (1 + d1) mod p25519" "s2 mod p25519 = (1 + d2) mod p25519"
    using assms(1,2) by (simp_all add: on_curve_def e defs power2_eq_square)
  have r: "x3 * A mod p25519 = N mod p25519" "y3 * B mod p25519 = M mod p25519"
    using assms(4) by (simp_all add: ed_sum_def ed_t_def e defs)
  have u: "unit (A * A * (B * B))"
    using assms(3) by (auto simp: addable_def ed_t_def e defs intro!: unit_mult)
  have i: "M * M * (A * A) - N * N * (B * B) = (s1 - s2 * d1) * (s2 - s1 * d2) + ed_d * (N * N) * (M * M)"
    unfolding defs by algebra
  have f: "(s1 - s2 * d1) mod p25519 = (1 - t * t) mod p25519" "(s2 - s1 * d2) mod p25519 = (1 - t * t) mod p25519"
  proof -
    have "(s1 - s2 * d1) mod p25519 = (1 + d1 - (1 + d2) * d1) mod p25519"
      by (intro mod_diff_cong mod_mult_cong c refl)
    also have "1 + d1 - (1 + d2) * d1 = 1 - t * t" unfolding defs by algebra
    finally show "(s1 - s2 * d1) mod p25519 = (1 - t * t) mod p25519" .
    have "(s2 - s1 * d2) mod p25519 = (1 + d2 - (1 + d1) * d2) mod p25519"
      by (intro mod_diff_cong mod_mult_cong c refl)
    also have "1 + d2 - (1 + d1) * d2 = 1 - t * t" unfolding defs by algebra
    finally show "(s2 - s1 * d2) mod p25519 = (1 - t * t) mod p25519" .
  qed
  have xx: "x3 * A * (x3 * A) mod p25519 = N * N mod p25519" and yy: "y3 * B * (y3 * B) mod p25519 = M * M mod p25519"
    by (intro mod_mult_cong r)+
  have "(y3 * y3 - x3 * x3) * (A * A * (B * B)) = y3 * B * (y3 * B) * (A * A) - x3 * A * (x3 * A) * (B * B)"
    by algebra
  also have "\<dots> mod p25519 = (M * M * (A * A) - N * N * (B * B)) mod p25519"
    by (intro mod_diff_cong mod_mult_cong xx yy refl)
  also have "\<dots> = ((1 - t * t) * (1 - t * t) + ed_d * (x3 * A * (x3 * A)) * (y3 * B * (y3 * B))) mod p25519"
    unfolding i by (intro mod_add_cong mod_mult_cong f xx [symmetric] yy [symmetric] refl)
  also have "(1 - t * t) * (1 - t * t) + ed_d * (x3 * A * (x3 * A)) * (y3 * B * (y3 * B)) =
      (1 + ed_d * (x3 * x3) * (y3 * y3)) * (A * A * (B * B))"
    unfolding A_def B_def by algebra
  finally have "(y3 * y3 - x3 * x3) mod p25519 = (1 + ed_d * (x3 * x3) * (y3 * y3)) mod p25519" by (rule unit_cancel [OF u])
  then show ?thesis by (simp only: on_curve_def e power2_eq_square fst_conv snd_conv)
qed

lemma on_curve_neg: "on_curve (ed_neg P) \<longleftrightarrow> on_curve P"
  by (simp add: on_curve_def ed_neg_def)

text \<open>C18. The operations on points. For points in extended coordinates on the twisted Edwards curve, whose two additions have no
  vanishing denominator, none of ge_cache, ge_add, ge_sub and ge_double overflows (sums of up to three reduced elements
  are multiplied without a carry), and the extended coordinates they return are those of the sum, the difference and
  the double of the affine addition law, which are again points of the curve.\<close>

theorem edwards_operations:
  assumes "represents p P" and "represents q Q" and "on_curve P" and "on_curve Q" and "addable P Q" and "addable P P"
  shows "\<exists>c s d b R S D. ge_cache q = Some c \<and>
    ge_add p c = Some s \<and> represents s R \<and> ed_sum P Q R \<and> on_curve R \<and>
    ge_sub p c = Some d \<and> represents d S \<and> ed_sum P (ed_neg Q) S \<and> on_curve S \<and>
    ge_double p = Some b \<and> represents b D \<and> ed_sum P P D \<and> on_curve D"
proof -
  obtain z w where z: "coords z p P" "coords w q Q" using assms(1,2) unfolding represents_coords by blast
  have a: "addable P (ed_neg Q)" using assms(5) by (simp only: addable_neg)
  obtain R S D where r: "ed_sum P Q R" "ed_sum P (ed_neg Q) S" "ed_sum P P D"
    using ed_sum_exists [OF assms(5)] ed_sum_exists [OF assms(6)] ed_sum_exists [OF a] by blast
  obtain c where c: "ge_cache q = Some c" "coords_cached w c Q" using ge_cache_ok [OF z(2)] by (rule postE)
  obtain s where s: "ge_add p c = Some s" "represents s R" using ge_add_ok [OF z(1) c(2) assms(5) r(1)] by (rule postE)
  obtain d where d: "ge_sub p c = Some d" "represents d S" using ge_sub_ok [OF z(1) c(2) assms(5) r(2)] by (rule postE)
  obtain b where b: "ge_double p = Some b" "represents b D" using ge_double_ok [OF z(1) assms(3,6) r(3)] by (rule postE)
  have "on_curve R" "on_curve S" "on_curve D"
    using ed_closed [OF assms(3,4,5) r(1)] ed_closed [OF assms(3) _ a r(2)] ed_closed [OF assms(3,3,6) r(3)] assms(4)
    by (simp_all only: on_curve_neg)
  then show ?thesis using c(1) s d b r by blast
qed

text \<open>The points of order 4 and 2: a root of -1 and 0, and 0 and -1.\<close>

definition order4_ge :: ge where
  "order4_ge = \<lparr>ge_X = sqrtm1, ge_Y = fe_0, ge_Z = fe_1, ge_T = fe_0\<rparr>"

definition order2_ge :: ge where
  "order2_ge = \<lparr>ge_X = fe_0, ge_Y = - 1 # replicate 9 0, ge_Z = fe_1, ge_T = fe_0\<rparr>"

lemma unit_1: "unit 1"
  by (simp add: unit_def)

lemma order4: "represents order4_ge (fe_mod sqrtm1, 0)" "on_curve (fe_mod sqrtm1, 0)"
proof -
  show "represents order4_ge (fe_mod sqrtm1, 0)"
    unfolding represents_coords by (rule exI [of _ 1]) (simp add: coords_def unit_1 order4_ge_def is_fe_constants)
  have "(- (fe_mod sqrtm1)\<^sup>2) mod p25519 = (- ((- 1) mod p25519)) mod p25519"
    unfolding sqrtm1_square [symmetric] by (simp only: mod_minus_eq)
  then show "on_curve (fe_mod sqrtm1, 0)" by (simp add: on_curve_def mod_minus_eq)
qed

lemma order2: "represents order2_ge (0, - 1)" "on_curve (0, - 1)"
proof -
  have "is_fe 1 (- 1 # replicate 9 0) (- 1)"
    by (simp add: is_fe_tight tight_def eval_nat_numeral, simp add: fe_mod_def fe_val_def fe_sum_def nth_Cons')
  then show "represents order2_ge (0, - 1)"
    unfolding represents_coords by (intro exI [of _ 1]) (simp add: coords_def unit_1 order2_ge_def is_fe_constants)
  show "on_curve (0, - 1)" by (simp add: on_curve_def)
qed

theorem edwards_operations_witness:
  "\<exists>c s b. ge_cache order2_ge = Some c \<and> ge_add order4_ge c = Some s \<and> ge_double order4_ge = Some b \<and>
    (\<exists>R. represents s R \<and> ed_sum (fe_mod sqrtm1, 0) (0, - 1) R \<and> on_curve R)"
proof -
  have "addable (fe_mod sqrtm1, 0) Q" for Q by (simp add: addable_def ed_t_def unit_1)
  then show ?thesis using edwards_operations [OF order4(1) order2(1) order4(2) order2(2)] by blast
qed

section \<open>Encoding and decoding\<close>

lemma fe_isodd_ok:
  assumes "is_fe 1 f v"
  shows "fe_isodd f = Some (of_bool (odd (v mod p25519)))"
proof -
  obtain s where s: "fe_tobytes f = Some s" "length s = 32" "int (le_num s) = v mod p25519"
    using fe_tobytes_ok [of f] assms by (auto simp: is_fe_tight fe_mod_def)
  have "bit (le_num s) 0 \<longleftrightarrow> bit (s ! 0) 0" using bit_le_num [of s 0] s(2) by simp
  then have "odd (v mod p25519) \<longleftrightarrow> odd (s ! 0)" unfolding s(3) [symmetric] by (simp add: bit_0)
  then show ?thesis using s(1) by (simp add: fe_isodd_def and_one_eq odd_iff_mod_2_eq_one)
qed

lemma isodd_step [fe_steps]:
  assumes "is_fe 1 f v" and "post (c (of_bool (odd (v mod p25519)))) Q"
  shows "post (Option.bind (fe_isodd f) c) Q"
  using assms by (simp add: fe_isodd_ok)

lemma tobytes_step [fe_steps]:
  assumes "is_fe 1 f v" and "\<And>s. length s = 32 \<Longrightarrow> int (le_num s) = v mod p25519 \<Longrightarrow> post (c s) Q"
  shows "post (Option.bind (fe_tobytes f) c) Q"
proof -
  obtain s where "fe_tobytes f = Some s" "length s = 32" "int (le_num s) = v mod p25519"
    using fe_tobytes_ok [of f] assms(1) by (auto simp: is_fe_tight fe_mod_def)
  then show ?thesis using assms(2) by simp
qed

lemma frombytes_step [fe_steps]:
  assumes "length s = 32" and "\<And>f. is_fe 1 f (int (le_num s mod 2 ^ 255)) \<Longrightarrow> post (c f) Q"
  shows "post (Option.bind (fe_frombytes s) c) Q"
proof -
  have "computes (fe_frombytes s) (int (le_num s mod 2 ^ 255))"
    using fe_frombytes_mask_ok [OF assms(1), of 1] by (simp add: fe_frombytes_def)
  then show ?thesis using assms(2) by (auto simp: computes_mod is_fe_tight)
qed

text \<open>Flipping the highest bit of a number below 2^255 adds it.\<close>

lemma top_bit_num:
  assumes "length s = 32" and "le_num s < 2 ^ 255"
  shows "le_num (s[31 := s ! 31 XOR push_bit 7 (of_bool b)]) = le_num s + 2 ^ 255 * of_bool b"
proof -
  have s: "s = take 31 s @ [s ! 31]" using take_Suc_conv_app_nth [of 31 s] assms(1) by simp
  then have n: "le_num s = le_num (take 31 s) + 256 ^ 31 * unat (s ! 31)"
    using le_num_append [of "take 31 s" "[s ! 31]"] assms(1) by simp
  have u: "le_num (s[31 := w]) = le_num (take 31 s) + 256 ^ 31 * unat w" for w
  proof -
    have "s[31 := w] = take 31 s @ [w]" using upd_conv_take_nth_drop [of 31 s w] assms(1) by simp
    then show ?thesis using le_num_append [of "take 31 s" "[w]"] assms(1) by simp
  qed
  have l: "unat (s ! 31) < 128" using n assms(2) by simp
  have "unat (s ! 31 XOR 128) = unat (s ! 31) + 128"
  proof -
    have "unat (s ! 31 XOR 128) = unat (s ! 31) XOR 128" by (simp add: unsigned_xor_eq)
    also have "\<dots> = unat (s ! 31) + 128"
    proof -
      have t: "take_bit 7 (unat (s ! 31)) = unat (s ! 31)" using l by (simp add: take_bit_nat_eq_self)
      have "take_bit 7 x AND push_bit 7 y = 0" for x y :: nat by (rule bit_eqI) (auto simp: bit_simps)
      from this [of "unat (s ! 31)" 1] have "unat (s ! 31) AND 128 = 0" unfolding t by simp
      then show ?thesis by (rule disjunctive_add_eq_xor [symmetric])
    qed
    finally show ?thesis .
  qed
  then show ?thesis using n u by (cases b) simp_all
qed

lemma field_inv_cancel:
  assumes "character z = 1 \<or> character z = p25519 - 1"
  shows "a * z * field_inv (z mod p25519) mod p25519 = a mod p25519"
proof -
  have "character (z mod p25519) = character z" by (simp only: character_def mod_power_eq power_mod)
  then have "(z mod p25519) * field_inv (z mod p25519) mod p25519 = 1"
    using assms by (intro field_inv_mult) (simp only:)
  then have "z * field_inv (z mod p25519) mod p25519 = 1" by (simp only: mod_mult_left_eq)
  then have "a * (z * field_inv (z mod p25519)) mod p25519 = a mod p25519"
    by (metis mod_mult_right_eq mult.right_neutral)
  then show ?thesis by (simp only: mult.assoc)
qed

lemma ge_tobytes_ok:
  assumes "coords z g P" and "character z = 1 \<or> character z = p25519 - 1"
  shows "post (ge_tobytes g) (\<lambda>s. length s = 32 \<and>
    int (le_num s) = snd P mod p25519 + 2 ^ 255 * of_bool (odd (fst P mod p25519)))"
proof -
  have g: "is_fe 1 (ge_X g) (fst P * z)" "is_fe 1 (ge_Y g) (snd P * z)" "is_fe 1 (ge_Z g) z"
    using assms(1) by (simp_all add: coords_def)
  note i = field_inv_cancel [OF assms(2)]
  show ?thesis
    unfolding ge_tobytes_def
    apply (rule fe_steps g | assumption | simp (no_asm); fail)+
    subgoal premises s for r x y s
    proof -
      have l: "length s = 32" and e: "int (le_num s) = snd P mod p25519" using s(4,5) by (simp_all only: i)
      have "snd P mod p25519 < p25519" "p25519 < int (2 ^ 255)" by (simp_all add: p25519_def)
      then have "int (le_num s) < int (2 ^ 255)" unfolding e by (rule less_trans)
      then have "le_num s < 2 ^ 255" by (simp only: of_nat_less_iff)
      note t = top_bit_num [OF l this]
      show ?thesis unfolding i t of_nat_add of_nat_mult e using l by simp
    qed
    done
qed

lemma mod_one: "u mod p25519 = 1 \<Longrightarrow> v * u mod p25519 = v mod p25519"
  by (metis mod_mult_right_eq mult.right_neutral)

text \<open>What the inverse square root gives: a zero of zero, a root of the inverse, or the answer that there is none.\<close>

lemma invsqrt_cases:
  assumes "is_fe 1 f v"
  obtains h r w where "invsqrt f = Some (h, r)" and "is_fe 1 h w"
    and "r = 1 \<and> v mod p25519 = 0 \<and> w mod p25519 = 0 \<or> r = 1 \<and> w * w * v mod p25519 = 1 \<or>
      r = 0 \<and> v mod p25519 \<noteq> 0 \<and> v ^ (2 ^ 253 - 5) mod p25519 \<notin> {1, p25519 - 1}"
proof -
  have t: "tight f" and v: "fe_mod f = v mod p25519" using assms by (simp_all add: is_fe_tight)
  define q where "q = v ^ (2 ^ 253 - 5) mod p25519"
  define w where "w = v ^ (2 ^ 252 - 3) * (if root_case q then fe_val sqrtm1 else 1)"
  have q: "fe_mod f ^ (2 ^ 253 - 5) mod p25519 = q" by (simp only: v q_def power_mod)
  have e: "fe_mod f ^ (2 ^ 252 - 3) * c mod p25519 = v ^ (2 ^ 252 - 3) * c mod p25519" for c
    unfolding v by (metis mod_mult_left_eq power_mod)
  obtain h r where h: "invsqrt f = Some (h, r)" "is_fe 1 h w"
    "r = (if q = 1 \<or> q = p25519 - 1 \<or> v mod p25519 = 0 then 1 else 0)"
    using invsqrt_ok [OF t] unfolding q e by (auto simp: is_fe_tight w_def v)
  have n: "\<not> root_case 1" "root_case (p25519 - 1)"
    by (simp_all add: root_case_def fe_val_def fe_sum_def sqrtm1_def p25519_def)
  have s: "fe_val sqrtm1 * fe_val sqrtm1 mod p25519 = (- 1) mod p25519"
    using sqrtm1_square by (simp only: fe_mod_def power2_eq_square mod_simps)
  have p: "v ^ (2 ^ 252 - 3) * v ^ (2 ^ 252 - 3) * v = v ^ (2 ^ 253 - 5)"
    by (simp only: power_add [symmetric] power_Suc2 [symmetric]) (rule arg_cong [where f = "power v"], simp)
  have one: "w * w * v mod p25519 = 1" if "q = 1 \<or> q = p25519 - 1"
  proof (cases "q = 1")
    case True
    then show ?thesis using n(1) p by (simp add: w_def q_def)
  next
    case False
    then have q1: "q = p25519 - 1" using that by blast
    then have "w * w * v = v ^ (2 ^ 253 - 5) * (fe_val sqrtm1 * fe_val sqrtm1)"
      unfolding p [symmetric] w_def using n(2) by (simp only: if_True ac_simps)
    also have "\<dots> mod p25519 = q * ((- 1) mod p25519) mod p25519" unfolding s [symmetric] q_def by (simp only: mod_simps)
    finally have "w * w * v mod p25519 = (p25519 - 1) * ((- 1) mod p25519) mod p25519" by (simp only: q1)
    also have "\<dots> = (1 + p25519 * (- 1)) mod p25519" unfolding mod_mult_right_eq by (simp add: algebra_simps)
    also have "\<dots> = 1" unfolding mod_mult_self2 using p25519_gt by simp
    finally show ?thesis .
  qed
  have zero: "w mod p25519 = 0" if "v mod p25519 = 0"
  proof -
    have "v ^ (2 ^ 252 - 3) mod p25519 = (v mod p25519) ^ (2 ^ 252 - 3) mod p25519" by (simp only: power_mod)
    also have "\<dots> = 0" unfolding that by (simp add: power_0_left)
    finally show ?thesis unfolding w_def by (metis mod_mult_left_eq mult_zero_left mod_0)
  qed
  show thesis
    using that [OF h(1,2)] one zero h(3) unfolding q_def [symmetric] by auto
qed

lemma top_bit_drop:
  assumes "length s = 32"
  shows "drop_bit 7 (s ! 31) = of_bool (2 ^ 255 \<le> le_num s)"
proof -
  have "le_num s = le_num (take 31 s) + 256 ^ 31 * unat (s ! 31)"
    using le_num_split [of 31 s] Cons_nth_drop_Suc [of 31 s, symmetric] assms by simp
  moreover have "le_num (take 31 s) < 256 ^ 31" using le_num_bound [of "take 31 s"] assms by simp
  moreover have "unat (s ! 31) < 256" using unsigned_less [of "s ! 31", where 'a = nat] by simp
  moreover have d: "unat (drop_bit 7 (s ! 31)) = unat (s ! 31) div 2 ^ 7" by (rule trans [OF unat_drop_bit_eq drop_bit_eq_div])
  ultimately have "unat (drop_bit 7 (s ! 31)) = (if 2 ^ 255 \<le> le_num s then 1 else 0)" by (cases "unat (s ! 31) < 128") auto
  then show ?thesis by (simp add: word_unat_eq_iff)
qed

text \<open>The choice between the two roots.\<close>

lemma sign_step:
  assumes "is_fe 1 f v"
    and "\<And>h u. is_fe 1 h u \<Longrightarrow> u = v \<or> u = - v \<Longrightarrow> (v mod p25519 \<noteq> 0 \<longrightarrow> (odd (u mod p25519) \<longleftrightarrow> \<not> b)) \<Longrightarrow> post (c h) Q"
  shows "post (Option.bind (fe_isodd f) (\<lambda>o'. Option.bind (if o' = of_bool b then fe_neg f else Some f) c)) Q"
proof (rule isodd_step [OF assms(1)], cases "odd (v mod p25519) = b")
  case True
  have "odd p25519" by (simp add: p25519_def)
  then have "v mod p25519 \<noteq> 0 \<longrightarrow> (odd ((- v) mod p25519) \<longleftrightarrow> \<not> b)" using True by (simp add: zmod_zminus1_eq_if)
  then show "post (Option.bind (if of_bool (odd (v mod p25519)) = (of_bool b :: u8) then fe_neg f else Some f) c) Q"
    unfolding True by (simp only: refl if_True) (rule neg_step [OF assms(1)], rule assms(2), simp_all)
next
  case False
  then have "(of_bool (odd (v mod p25519)) :: u8) \<noteq> of_bool b" by (simp add: of_bool_def)
  then show "post (Option.bind (if of_bool (odd (v mod p25519)) = (of_bool b :: u8) then fe_neg f else Some f) c) Q"
    using False assms by auto
qed

lemma ge_frombytes_ok:
  assumes "length s = 32"
  defines "y \<equiv> int (le_num s mod 2 ^ 255)"
  defines "n \<equiv> y * y - 1" and "d \<equiv> y * y * ed_d + 1"
  shows "post (ge_frombytes_neg_vartime s) (\<lambda>(r, g). r = - 1 \<and> g = None \<or> r = 0 \<and> (\<exists>h x. g = Some h \<and> coords 1 h (x, y) \<and>
      (x * x * d mod p25519 = n mod p25519 \<or> x mod p25519 = 0 \<and> n * d mod p25519 = 0) \<and>
      (x mod p25519 \<noteq> 0 \<longrightarrow> (odd (x mod p25519) \<longleftrightarrow> le_num s < 2 ^ 255))))"
  unfolding ge_frombytes_neg_vartime_def Let_def top_bit_drop [OF assms(1)]
  apply (rule fe_steps assms(1) is_fe_constants ed_constants | (assumption; fail) | simp (no_asm); fail)+
  subgoal premises p for f _ _ hn _ hv
  proof -
    have f: "is_fe 1 f y" "is_fe 2 hn n" "is_fe 1 hv (n * d)" using p(1,4,6) by (simp_all add: y_def n_def d_def)
    obtain i r w where i: "invsqrt hv = Some (i, r)" "is_fe 1 i w"
      and c: "r = 1 \<and> n * d mod p25519 = 0 \<and> w mod p25519 = 0 \<or> r = 1 \<and> w * w * (n * d) mod p25519 = 1 \<or> r = 0"
      using invsqrt_cases [OF f(3)] by metis
    have x: "u * u * d mod p25519 = n mod p25519 \<or> u mod p25519 = 0 \<and> n * d mod p25519 = 0"
      if u: "u = n * w \<or> u = - (n * w)" and r: "r = 1" for u
    proof -
      consider "n * d mod p25519 = 0" "w mod p25519 = 0" | "w * w * (n * d) mod p25519 = 1" using c r by auto
      then show ?thesis
      proof cases
        case 1
        then have "n * w mod p25519 = 0" by (simp add: mod_eq_0_iff_dvd)
        then show ?thesis using 1 u by (auto simp: mod_eq_0_iff_dvd)
      next
        case 2
        have "u * u * d = n * (w * w * (n * d))" using u by (auto simp: ac_simps)
        then show ?thesis using mod_one [OF 2, of n] by (simp only: simp_thms)
      qed
    qed
    show ?thesis
    proof (cases "r = 0")
      case True
      then show ?thesis by (simp add: i post_Some)
    next
      case False
      then have r: "r = 1" using c by blast
      show ?thesis
        unfolding i Option.bind.simps prod.case r
        apply (simp only: one_neq_zero if_False)
        apply (rule sign_step | rule fe_steps f i(2) | (assumption; fail) | simp (no_asm); fail)+
        subgoal premises q for _ h u t
        proof -
          have "coords 1 \<lparr>ge_X = h, ge_Y = f, ge_Z = fe_1, ge_T = t\<rparr> (u, y)"
            using q(2,5) f(1) is_fe_constants(2) by (simp add: coords_def unit_1)
          moreover have "u mod p25519 \<noteq> 0 \<longrightarrow> n * w mod p25519 \<noteq> 0"
            using q(3) by (auto simp: mod_eq_0_iff_dvd)
          ultimately show ?thesis using q(4) x [OF q(3) r] by (auto simp: not_le)
        qed
        done
    qed
  qed
  done

text \<open>Decoding and encoding points. Any 32 bytes are rejected or decoded, without overflow, to extended coordinates of
  a point whose y coordinate is the number in the lower 255 bits and whose x coordinate has the parity opposite to the
  highest bit (the negative of the encoded point), except that x = 0 has no opposite; the point is on the curve, if the
  denominator of the curve's equation for x squared does not vanish. A point whose Z coordinate has quadratic character
  1 or -1 (any that is not 0, by Euler's criterion) is encoded to its reduced y coordinate with the parity of its x
  coordinate in the highest bit.\<close>

theorem point_codec:
  assumes "length s = 32" and "represents g P"
    and "character (fe_mod (ge_Z g)) = 1 \<or> character (fe_mod (ge_Z g)) = p25519 - 1"
  defines "y \<equiv> int (le_num s mod 2 ^ 255)"
  shows "(ge_frombytes_neg_vartime s = Some (- 1, None) \<or>
      (\<exists>h x. ge_frombytes_neg_vartime s = Some (0, Some h) \<and> represents h (x, y) \<and>
        (unit (1 + ed_d * y\<^sup>2) \<longrightarrow> on_curve (x, y)) \<and>
        (x mod p25519 = 0 \<or> odd (x mod p25519) = (le_num s < 2 ^ 255)))) \<and>
    (\<exists>t. ge_tobytes g = Some t \<and> length t = 32 \<and>
      int (le_num t) = snd P mod p25519 + 2 ^ 255 * of_bool (odd (fst P mod p25519)))"
proof
  let ?n = "y * y - 1" and ?d = "y * y * ed_d + 1"
  have c: "on_curve (x, y)" if "x * x * ?d mod p25519 = ?n mod p25519 \<or> x mod p25519 = 0 \<and> ?n * ?d mod p25519 = 0"
    and u: "unit (1 + ed_d * y\<^sup>2)" for x
  proof -
    have u: "unit ?d" using u by (simp add: power2_eq_square ac_simps)
    have "x * x * ?d mod p25519 = ?n mod p25519"
      using that(1)
    proof
      assume a: "x mod p25519 = 0 \<and> ?n * ?d mod p25519 = 0"
      then have "?n mod p25519 = 0" using unit_cancel [OF u, of ?n 0] by simp
      moreover have "x * x * ?d mod p25519 = 0" using a by (auto simp: mod_eq_0_iff_dvd)
      ultimately show ?thesis by simp
    qed
    from mod_add_cong [OF refl this, of "1 + ed_d * (x * x) * (y * y) - x * x * ?d"]
    have "(1 + ed_d * (x * x) * (y * y)) mod p25519 = (y * y - x * x) mod p25519" by (simp add: algebra_simps)
    then show ?thesis by (simp add: on_curve_def power2_eq_square)
  qed
  obtain r h where f: "ge_frombytes_neg_vartime s = Some (r, h)"
    "r = - 1 \<and> h = None \<or> r = 0 \<and> (\<exists>k x. h = Some k \<and> coords 1 k (x, y) \<and>
      (x * x * ?d mod p25519 = ?n mod p25519 \<or> x mod p25519 = 0 \<and> ?n * ?d mod p25519 = 0) \<and>
      (x mod p25519 \<noteq> 0 \<longrightarrow> (odd (x mod p25519) \<longleftrightarrow> le_num s < 2 ^ 255)))"
    using ge_frombytes_ok [OF assms(1)] unfolding y_def [symmetric] post_def split_paired_Ex prod.case by metis
  show "ge_frombytes_neg_vartime s = Some (- 1, None) \<or>
      (\<exists>h x. ge_frombytes_neg_vartime s = Some (0, Some h) \<and> represents h (x, y) \<and>
        (unit (1 + ed_d * y\<^sup>2) \<longrightarrow> on_curve (x, y)) \<and>
        (x mod p25519 = 0 \<or> odd (x mod p25519) = (le_num s < 2 ^ 255)))"
    using f c represents_coords by meson
  show "\<exists>t. ge_tobytes g = Some t \<and> length t = 32 \<and>
      int (le_num t) = snd P mod p25519 + 2 ^ 255 * of_bool (odd (fst P mod p25519))"
    using ge_tobytes_ok [OF _ assms(3)] assms(2) unfolding represents_def post_def by blast
qed

text \<open>The encoding of the neutral element, and the point of order 4, with Z = 1.\<close>

theorem point_codec_witness:
  "(ge_frombytes_neg_vartime (1 # replicate 31 0) = Some (- 1, None) \<or>
      (\<exists>h x. ge_frombytes_neg_vartime (1 # replicate 31 0) = Some (0, Some h) \<and> represents h (x, 1))) \<and>
   (\<exists>t. ge_tobytes order4_ge = Some t \<and> int (le_num t) = 2 ^ 255 * of_bool (odd (fe_mod sqrtm1)))"
proof -
  have "fe_mod (ge_Z order4_ge) = 1" by (simp add: order4_ge_def constants_mod)
  moreover have "character 1 = 1" using p25519_gt by (simp add: character_def mod_power_eq)
  ultimately show ?thesis
    using point_codec [OF _ order4(1), of "1 # replicate 31 0"] by (auto simp: fe_mod_def)
qed

end
