(* ===== verification/ModL.thy ===== *)
theory ModL
  imports Poly1305
begin

unbundle bit_operations_syntax

text \<open>
  Arithmetic modulo the order of the curve's base point (src/src/asyd/core/monocypher.c, "Arithmetic modulo L"): numbers of
  32-bit words, least significant first, multiplied word by word and reduced after Barrett. The bytes that come out are
  the remainder of the number or of the product and sum that went in, for all inputs.
\<close>

definition L_words :: "u32 list" where
  "L_words = [0x5cf5d3ed, 0x5812631a, 0xa2f79cd6, 0x14def9de, 0x00000000, 0x00000000, 0x00000000, 0x10000000]"

definition mod_l_r :: "u32 list" where
  "mod_l_r = [0x0a2c131b, 0xed9ce5a3, 0x086329a7, 0x2106215d, 0xffffffeb, 0xffffffff, 0xffffffff, 0xffffffff, 0xf]"

text \<open>
  The inner loops: words times a word added to words, and words added to words, each with the carry of the loop; the
  result is the words stored and the last carry.
\<close>

fun mac_words :: "u32 \<Rightarrow> (u32 \<times> u32) list \<Rightarrow> u64 \<Rightarrow> u32 list \<times> u64" where
  "mac_words a [] carry = ([], carry)"
| "mac_words a ((p, b) # pbs) carry =
     (let carry = carry + (ucast p + ucast a * ucast b);
          (ws, c) = mac_words a pbs (drop_bit 32 carry)
      in (ucast carry # ws, c))"

fun add_words :: "(u32 \<times> u32) list \<Rightarrow> u64 \<Rightarrow> u32 list \<times> u64" where
  "add_words [] carry = ([], carry)"
| "add_words ((x, y) # xys) carry =
     (let carry = carry + (ucast x + ucast y);
          (ws, c) = add_words xys (drop_bit 32 carry)
      in (ucast carry # ws, c))"

text \<open>One turn of the outer loop of a product: \<open>p[i..]\<close> becomes \<open>p[i..] + a * b\<close>, the carry its next word.\<close>

definition mul_row :: "u32 list \<Rightarrow> u32 \<Rightarrow> nat \<Rightarrow> u32 list \<Rightarrow> u32 list" where
  "mul_row b a i p =
     (let n = length b; (ws, carry) = mac_words a (zip (take n (drop i p)) b) 0
      in take i p @ ws @ [ucast carry] @ drop (i + n + 1) p)"

definition multiply :: "u32 list \<Rightarrow> u32 list \<Rightarrow> u32 list \<Rightarrow> u32 list" where
  "multiply p a b = fold (\<lambda>i p. mul_row b (a ! i) i p) [0..<8] p"

definition is_above_l :: "u32 list \<Rightarrow> u64" where
  "is_above_l x = snd (add_words (zip x (map (\<lambda>l. NOT l AND 0xffffffff) L_words)) 1)"

definition remove_l :: "u32 list \<Rightarrow> u32 list" where
  "remove_l x =
     (let carry = is_above_l x;
          mask = NOT (ucast carry) + 1
      in fst (add_words (zip x (map (\<lambda>l. NOT l AND mask) L_words)) carry))"

text \<open>The second product only needs its first 256 bits: turn \<open>i\<close> stops at word 8 and drops the carry.\<close>

definition low_row :: "u32 \<Rightarrow> nat \<Rightarrow> u32 list \<Rightarrow> u32 list" where
  "low_row a i p =
     take i p @ fst (mac_words a (zip (take (8 - i) (drop i p)) (take (8 - i) L_words)) 0) @ drop 8 p"

definition mod_l :: "u32 list \<Rightarrow> bytes" where
  "mod_l x =
     (let xr = fold (\<lambda>i xr. mul_row x (mod_l_r ! i) i xr) [0..<9] (replicate 25 0);
          xr = replicate 8 0 @ drop 8 xr;
          xr = fold (\<lambda>i xr. low_row (xr ! (i + 16)) i xr) [0..<8] xr;
          d = fst (add_words (zip (take 8 x) (map (\<lambda>w. NOT w AND 0xffffffff) (take 8 xr))) 1)
      in store32_le_buf (remove_l d) 8)"

definition crypto_eddsa_reduce :: "bytes \<Rightarrow> bytes" where
  "crypto_eddsa_reduce expanded = mod_l (load32_le_buf expanded 16)"

definition crypto_eddsa_mul_add :: "bytes \<Rightarrow> bytes \<Rightarrow> bytes \<Rightarrow> bytes" where
  "crypto_eddsa_mul_add a b c =
     (let A = load32_le_buf a 8;
          B = load32_le_buf b 8;
          p = load32_le_buf c 8 @ replicate 8 0
      in mod_l (multiply p A B))"

section \<open>Words and numbers\<close>

definition order_L :: nat where
  "order_L = 2 ^ 252 + 27742317777372353535851937790883648493"

lemma L_words_num: "limbs L_words = order_L"
  by (simp add: L_words_def order_L_def)

text \<open>The constant of the reduction is the quotient of 2^512 by the order.\<close>

lemma mod_l_r_num: "limbs mod_l_r * order_L \<le> 2 ^ 512" "2 ^ 512 < (limbs mod_l_r + 1) * order_L"
  by (simp_all add: mod_l_r_def order_L_def)

lemma limbs_append: "limbs (xs @ ys) = limbs xs + 2 ^ (32 * length xs) * limbs ys"
  by (induction xs) (simp_all add: power_add algebra_simps)

lemma not_masked: "NOT w AND 0xffffffff = NOT (w :: u32)" "unat (NOT w) + unat w + 1 = 2 ^ 32"
proof -
  have m: "(0xffffffff :: u32) = - 1" by simp
  show "NOT w AND 0xffffffff = NOT w" unfolding m by simp
  have "NOT w = 0xffffffff - w" unfolding m by (simp add: not_eq_complement)
  moreover have "w \<le> 0xffffffff" unfolding m by simp
  ultimately have "unat (NOT w) = unat (0xffffffff :: u32) - unat w" by (simp add: unat_sub)
  moreover have "unat w < 2 ^ 32" using unsigned_less [of w, where 'a = nat] by simp
  ultimately show "unat (NOT w) + unat w + 1 = 2 ^ 32" by simp
qed

lemma limbs_not: "limbs (map (\<lambda>w. NOT w AND 0xffffffff) ws) + limbs ws + 1 = 2 ^ (32 * length ws)"
proof (induction ws)
  case (Cons w ws)
  have "limbs (map (\<lambda>w. NOT w AND 0xffffffff) (w # ws)) + limbs (w # ws) + 1 =
      (unat (NOT w) + unat w + 1) + 2 ^ 32 * (limbs (map (\<lambda>w. NOT w AND 0xffffffff) ws) + limbs ws)"
    by (simp add: not_masked(1))
  also have "\<dots> = 2 ^ 32 * (limbs (map (\<lambda>w. NOT w AND 0xffffffff) ws) + limbs ws + 1)"
    unfolding not_masked(2) by simp
  also have "\<dots> = 2 ^ (32 * length (w # ws))" unfolding Cons by (simp add: power_add)
  finally show ?case .
qed simp

section \<open>The loops\<close>

lemma carry_split: "unat (ucast c :: u32) + 2 ^ 32 * unat (drop_bit 32 c) = unat (c :: u64)"
proof -
  have "unat (drop_bit 32 c) = unat c div 2 ^ 32" by (rule trans [OF unat_drop_bit_eq drop_bit_eq_div])
  moreover have "unat (ucast c :: u32) = unat c mod 2 ^ 32" by (simp add: unsigned_ucast_eq take_bit_eq_mod)
  ultimately show ?thesis by simp
qed

lemma mac_carry:
  fixes a b p :: u32 and c :: u64
  assumes "unat c < 2 ^ 32"
  defines "s \<equiv> c + (ucast p + ucast a * ucast b)"
  shows "unat s = unat c + (unat p + unat a * unat b)" and "unat (drop_bit 32 s) < 2 ^ 32"
proof -
  have f: "fits (ucast w :: u64) (unat w) 0xffffffff" for w :: u32
    by (rule fits_ucast [OF fits_u32]) simp
  have "fits c (unat c) 0xffffffff" using assms(1) by (simp add: fits_def)
  then have "fits s (unat c + (unat p + unat a * unat b)) (0xffffffff + (0xffffffff + 0xffffffff * 0xffffffff))"
    unfolding s_def by (intro fits_add fits_mult f) simp_all
  then show s: "unat s = unat c + (unat p + unat a * unat b)" by (rule fitsD)
  have "unat s < 2 ^ 64" using unsigned_less [of s, where 'a = nat] by simp
  then have "2 ^ 32 * unat (drop_bit 32 s) < 2 ^ 64" using carry_split [of s] by linarith
  then show "unat (drop_bit 32 s) < 2 ^ 32" by simp
qed

lemma mac_words_num:
  "unat c < 2 ^ 32 \<Longrightarrow> mac_words a pbs c = (ws, c') \<Longrightarrow>
   length ws = length pbs \<and> unat c' < 2 ^ 32 \<and>
   limbs ws + 2 ^ (32 * length pbs) * unat c' = limbs (map fst pbs) + unat a * limbs (map snd pbs) + unat c"
proof (induction pbs arbitrary: c ws)
  case (Cons pb pbs)
  obtain p b where pb: "pb = (p, b)" by (cases pb)
  let ?s = "c + (ucast p + ucast a * ucast b)"
  obtain vs where v: "mac_words a pbs (drop_bit 32 ?s) = (vs, c')" "ws = ucast ?s # vs"
    using Cons.prems(2) by (auto simp: pb Let_def split: prod.splits)
  note m = mac_carry [OF Cons.prems(1), of p a b]
  note IH = Cons.IH [OF m(2) v(1)]
  have "limbs ws + 2 ^ (32 * length (pb # pbs)) * unat c' =
      unat (ucast ?s :: u32) + 2 ^ 32 * (limbs vs + 2 ^ (32 * length pbs) * unat c')"
    using v by (simp add: power_add algebra_simps)
  also have "\<dots> = unat (ucast ?s :: u32) + 2 ^ 32 * unat (drop_bit 32 ?s) + 2 ^ 32 * (limbs (map fst pbs) + unat a * limbs (map snd pbs))"
    using IH by (simp add: algebra_simps)
  also have "\<dots> = limbs (map fst (pb # pbs)) + unat a * limbs (map snd (pb # pbs)) + unat c"
    unfolding carry_split m(1) pb by (simp add: algebra_simps)
  finally show ?case using IH v by simp
qed simp

lemma add_words_num:
  assumes "unat c < 2 ^ 32" and "add_words xys c = (ws, c')"
  shows "length ws = length xys \<and> unat c' < 2 ^ 32 \<and>
    limbs ws + 2 ^ (32 * length xys) * unat c' = limbs (map fst xys) + limbs (map snd xys) + unat c"
proof -
  have e: "add_words xys c = mac_words 1 xys c" for c
    by (induction xys c rule: add_words.induct) (simp_all add: Let_def)
  show ?thesis using mac_words_num [OF assms(1), of 1 xys ws c'] assms(2) unfolding e by simp
qed

lemma mul_row_num:
  assumes "i + length b < length p" and "p ! (i + length b) = 0"
  shows "length (mul_row b a i p) = length p" and "drop (i + length b + 1) (mul_row b a i p) = drop (i + length b + 1) p"
    and "limbs (mul_row b a i p) = limbs p + 2 ^ (32 * i) * (unat a * limbs b)"
proof -
  let ?n = "length b" and ?m = "take (length b) (drop i p)"
  obtain ws c where w: "mac_words a (zip ?m b) 0 = (ws, c)" by (cases "mac_words a (zip ?m b) 0")
  have l: "length ?m = ?n" using assms(1) by simp
  have n: "length ws = ?n" "unat c < 2 ^ 32" "limbs ws + 2 ^ (32 * ?n) * unat c = limbs ?m + unat a * limbs b"
    using mac_words_num [OF _ w] l by simp_all
  have r: "mul_row b a i p = take i p @ ws @ [ucast c] @ drop (i + ?n + 1) p" by (simp add: mul_row_def w)
  show "length (mul_row b a i p) = length p" "drop (i + ?n + 1) (mul_row b a i p) = drop (i + ?n + 1) p"
    using assms(1) n(1) by (simp_all add: r)
  have c: "unat (ucast c :: u32) = unat c" using n(2) by (simp add: unsigned_ucast_eq take_bit_nat_eq_self)
  have "p = take i p @ ?m @ [p ! (i + ?n)] @ drop (i + ?n + 1) p"
  proof -
    have "drop i p = ?m @ drop (i + ?n) p" by (metis append_take_drop_id drop_drop add.commute)
    moreover have "drop (i + ?n) p = p ! (i + ?n) # drop (i + ?n + 1) p" using Cons_nth_drop_Suc [OF assms(1)] by simp
    ultimately show ?thesis by (metis append_Cons append_Nil append_take_drop_id)
  qed
  then have "limbs p = limbs (take i p @ ?m @ [p ! (i + ?n)] @ drop (i + ?n + 1) p)" by (rule arg_cong)
  then have p: "limbs p = limbs (take i p) + 2 ^ (32 * i) * (limbs ?m + 2 ^ (32 * ?n) * (2 ^ 32 * limbs (drop (i + ?n + 1) p)))"
    using assms l by (simp add: limbs_append min_absorb2)
  have "limbs (mul_row b a i p) =
      limbs (take i p) + 2 ^ (32 * i) * (limbs ws + 2 ^ (32 * ?n) * unat c + 2 ^ (32 * ?n) * (2 ^ 32 * limbs (drop (i + ?n + 1) p)))"
    using assms(1) n(1) unfolding r by (simp add: limbs_append min_absorb2 c algebra_simps)
  then show "limbs (mul_row b a i p) = limbs p + 2 ^ (32 * i) * (unat a * limbs b)"
    unfolding n(3) p by (simp add: algebra_simps)
qed

text \<open>A whole product: the words above the first operand must be zero, since each row overwrites one of them.\<close>

lemma mul_rows_num:
  assumes "drop (length b) p = replicate (length p - length b) 0"
  shows "m \<le> length a \<Longrightarrow> m + length b \<le> length p \<Longrightarrow>
    length (fold (\<lambda>i p. mul_row b (a ! i) i p) [0..<m] p) = length p \<and>
    drop (m + length b) (fold (\<lambda>i p. mul_row b (a ! i) i p) [0..<m] p) = replicate (length p - (m + length b)) 0 \<and>
    limbs (fold (\<lambda>i p. mul_row b (a ! i) i p) [0..<m] p) = limbs p + limbs (take m a) * limbs b"
proof (induction m)
  case 0
  then show ?case using assms by simp
next
  case (Suc m)
  let ?p = "fold (\<lambda>i p. mul_row b (a ! i) i p) [0..<m] p" and ?k = "m + length b"
  have IH: "length ?p = length p" "drop ?k ?p = replicate (length p - ?k) 0" "limbs ?p = limbs p + limbs (take m a) * limbs b"
    using Suc by simp_all
  have k: "?k < length ?p" using Suc.prems IH(1) by simp
  have "drop ?k ?p ! 0 = 0" unfolding IH(2) using k IH(1) by simp
  then have z: "?p ! ?k = 0" using k by simp
  note r = mul_row_num [OF k z, of "a ! m"]
  have "drop (?k + 1) ?p = drop 1 (drop ?k ?p)" by (simp add: add.commute)
  then have d: "drop (?k + 1) ?p = replicate (length p - (?k + 1)) 0" unfolding IH(2) by (simp add: drop_replicate)
  have t: "limbs (take (Suc m) a) = limbs (take m a) + 2 ^ (32 * m) * unat (a ! m)"
    using Suc.prems(1) by (simp add: take_Suc_conv_app_nth limbs_append min_absorb2)
  show ?case using r IH d by (simp add: t algebra_simps)
qed

lemma low_row_num:
  assumes "i < 8" and "16 \<le> length p"
  shows "length (low_row a i p) = length p" and "drop 8 (low_row a i p) = drop 8 p"
    and "limbs (take 8 (low_row a i p)) mod 2 ^ 256 = (limbs (take 8 p) + 2 ^ (32 * i) * (unat a * order_L)) mod 2 ^ 256"
proof -
  let ?n = "8 - i" and ?m = "take (8 - i) (drop i p)"
  obtain ws c where w: "mac_words a (zip ?m (take ?n L_words)) 0 = (ws, c)" by (cases "mac_words a (zip ?m (take ?n L_words)) 0")
  have l: "length ?m = ?n" "length (take ?n L_words) = ?n" using assms by (simp_all add: L_words_def)
  have n: "length ws = ?n" "limbs ws + 2 ^ (32 * ?n) * unat c = limbs ?m + unat a * limbs (take ?n L_words)"
    using mac_words_num [OF _ w] l by simp_all
  have r: "low_row a i p = take i p @ ws @ drop 8 p" by (simp add: low_row_def w)
  show "length (low_row a i p) = length p" "drop 8 (low_row a i p) = drop 8 p" using assms n(1) by (simp_all add: r)
  have t: "take 8 (low_row a i p) = take i p @ ws" using assms n(1) by (simp add: r)
  have "take 8 p = take i p @ ?m" using assms(1) by (metis le_add_diff_inverse less_imp_le take_add)
  then have p: "limbs (take 8 p) = limbs (take i p) + 2 ^ (32 * i) * limbs ?m" using assms by (simp add: limbs_append min_absorb2)
  have e: "2 ^ (32 * i) * 2 ^ (32 * ?n) = (2 :: nat) ^ 256"
  proof -
    have "32 * i + 32 * ?n = 256" using assms(1) by simp
    then show ?thesis by (simp only: power_add [symmetric])
  qed
  have "L_words = take ?n L_words @ drop ?n L_words" by simp
  then have "limbs L_words = limbs (take ?n L_words @ drop ?n L_words)" by (rule arg_cong)
  then have L: "order_L = limbs (take ?n L_words) + 2 ^ (32 * ?n) * limbs (drop ?n L_words)"
    using l(2) by (simp only: L_words_num limbs_append)
  have "limbs (take 8 (low_row a i p)) + 2 ^ 256 * unat c = limbs (take i p) + 2 ^ (32 * i) * (limbs ws + 2 ^ (32 * ?n) * unat c)"
    unfolding t e [symmetric] using assms by (simp add: limbs_append min_absorb2 algebra_simps)
  also have "\<dots> = limbs (take 8 p) + 2 ^ (32 * i) * (unat a * limbs (take ?n L_words))"
    unfolding n(2) p by (simp add: algebra_simps)
  finally have "limbs (take 8 (low_row a i p)) mod 2 ^ 256 = (limbs (take 8 p) + 2 ^ (32 * i) * (unat a * limbs (take ?n L_words))) mod 2 ^ 256"
    by (metis mod_mult_self2)
  moreover have "limbs (take 8 p) + 2 ^ (32 * i) * (unat a * order_L) =
      limbs (take 8 p) + 2 ^ (32 * i) * (unat a * limbs (take ?n L_words)) + 2 ^ 256 * (unat a * limbs (drop ?n L_words))"
    unfolding e [symmetric] by (subst L) (simp add: algebra_simps)
  ultimately show "limbs (take 8 (low_row a i p)) mod 2 ^ 256 = (limbs (take 8 p) + 2 ^ (32 * i) * (unat a * order_L)) mod 2 ^ 256"
    by (metis mod_mult_self2)
qed

section \<open>Reduction\<close>

lemma last_carry:
  fixes w M c l v :: nat
  assumes "w + M * c + l = v + M" and "w < M" and "v < M"
  shows "c = (if l \<le> v then 1 else 0)" and "l \<le> v \<Longrightarrow> w = v - l"
proof -
  have c: "c = 0 \<or> c = 1"
  proof (rule ccontr)
    assume "\<not> (c = 0 \<or> c = 1)"
    then have "M * 2 \<le> M * c" by simp
    then show False using assms by linarith
  qed
  then show "c = (if l \<le> v then 1 else 0)" using assms by auto
  then show "l \<le> v \<Longrightarrow> w = v - l" using assms(1) by simp
qed

lemma is_above_l_num:
  assumes "length x = 8"
  shows "is_above_l x = (if order_L \<le> limbs x then 1 else 0)"
proof -
  let ?N = "map (\<lambda>l. NOT l AND 0xffffffff) L_words"
  obtain ws c where w: "add_words (zip x ?N) 1 = (ws, c)" by (cases "add_words (zip x ?N) 1")
  have len: "length ?N = 8" by (simp add: L_words_def)
  have n: "length ws = 8" "limbs ws + 2 ^ 256 * unat c = limbs x + limbs ?N + 1"
    using add_words_num [OF _ w] assms len by simp_all
  have L: "limbs ?N + order_L + 1 = 2 ^ 256" using limbs_not [of L_words] by (simp add: L_words_num) (simp add: L_words_def)
  have b: "limbs ws < 2 ^ 256" "limbs x < 2 ^ 256" using limbs_bound [of ws] limbs_bound [of x] n(1) assms by simp_all
  have e: "limbs ws + 2 ^ 256 * unat c + order_L = limbs x + 2 ^ 256" using n(2) L by linarith
  have "unat c = (if order_L \<le> limbs x then 1 else 0)" by (rule last_carry(1) [OF e b])
  then show ?thesis by (simp add: is_above_l_def w word_unat_eq_iff)
qed

lemma remove_l_num:
  assumes "length x = 8" and "limbs x < 2 * order_L"
  shows "length (remove_l x) = 8" and "limbs (remove_l x) = limbs x mod order_L"
proof -
  let ?c = "is_above_l x" and ?mask = "NOT (ucast (is_above_l x)) + 1 :: u32"
  let ?N = "map (\<lambda>l. NOT l AND ?mask) L_words"
  obtain ws c where w: "add_words (zip x ?N) ?c = (ws, c)" by (cases "add_words (zip x ?N) ?c")
  have len: "length ?N = 8" by (simp add: L_words_def)
  have c1: "unat ?c < 2 ^ 32" by (simp add: is_above_l_num [OF assms(1)])
  have n: "length ws = 8" "limbs ws + 2 ^ 256 * unat c = limbs x + limbs ?N + unat ?c"
    using add_words_num [OF c1 w] assms(1) len by simp_all
  have b: "limbs ws < 2 ^ 256" "limbs x < 2 ^ 256" using limbs_bound [of ws] limbs_bound [of x] n(1) assms(1) by simp_all
  have "limbs ws = limbs x mod order_L"
  proof (cases "order_L \<le> limbs x")
    case True
    then have "?mask = 0xffffffff" "unat ?c = 1" by (simp_all add: is_above_l_num [OF assms(1)])
    then have "limbs ?N + order_L + 1 = 2 ^ 256" using limbs_not [of L_words] by (simp add: L_words_num) (simp add: L_words_def)
    then have "limbs ws + 2 ^ 256 * unat c + order_L = limbs x + 2 ^ 256" using n(2) \<open>unat ?c = 1\<close> by linarith
    then have "limbs ws = limbs x - order_L" by (rule last_carry(2) [OF _ b True])
    then show ?thesis using True assms(2) by (simp add: le_mod_geq)
  next
    case False
    then have "?mask = 0" "unat ?c = 0" by (simp_all add: is_above_l_num [OF assms(1)])
    then have "limbs ?N = 0" by (simp add: L_words_def)
    then have "limbs ws + 2 ^ 256 * unat c = limbs x" using n(2) \<open>unat ?c = 0\<close> by linarith
    then have "limbs ws = limbs x" using b(2) by (cases "unat c") simp_all
    then show ?thesis using False by simp
  qed
  then show "length (remove_l x) = 8" "limbs (remove_l x) = limbs x mod order_L"
    using n(1) w by (simp_all add: remove_l_def Let_def)
qed

lemma barrett:
  fixes x r L B :: nat
  assumes "r * L \<le> B" and "B < (r + 1) * L" and "x < B"
  shows "x * r div B * L \<le> x" and "x < x * r div B * L + 2 * L"
proof -
  let ?q = "x * r div B"
  have B: "0 < B" using assms(3) by simp
  have q: "B * ?q \<le> x * r" "x * r < B * ?q + B" using dividend_less_times_div [OF B, of "x * r"] by (simp, linarith)
  have "B * (?q * L) \<le> x * (r * L)" using mult_right_mono [OF q(1), of L] by (simp add: algebra_simps)
  also have "\<dots> \<le> x * B" using assms(1) by simp
  finally show "?q * L \<le> x" using B by (simp add: mult.commute)
  have "L \<noteq> 0" using assms(2) by (cases L) simp_all
  have "x * B \<le> x * ((r + 1) * L)" using assms(2) by simp
  also have "\<dots> = x * r * L + x * L" by (simp add: algebra_simps)
  also have "\<dots> < (B * ?q + B) * L + B * L"
  proof (rule add_less_le_mono)
    show "x * r * L < (B * ?q + B) * L" using q(2) \<open>L \<noteq> 0\<close> by simp
    show "x * L \<le> B * L" using assms(3) by simp
  qed
  also have "\<dots> = (?q * L + 2 * L) * B" by (simp add: algebra_simps)
  finally show "x < ?q * L + 2 * L" by simp
qed

lemma limbs_take: "limbs ws = limbs (take k ws) + 2 ^ (32 * k) * limbs (drop k ws)" if "k \<le> length ws"
proof -
  have "limbs ws = limbs (take k ws @ drop k ws)" by simp
  then show ?thesis using that by (simp only: limbs_append length_take min_absorb2)
qed

lemma limbs_take_mod: "k \<le> length ws \<Longrightarrow> limbs (take k ws) = limbs ws mod 2 ^ (32 * k)"
  and limbs_drop_div: "k \<le> length ws \<Longrightarrow> limbs (drop k ws) = limbs ws div 2 ^ (32 * k)"
proof -
  assume k: "k \<le> length ws"
  have b: "limbs (take k ws) < 2 ^ (32 * k)" using limbs_bound [of "take k ws"] k by (simp add: min_absorb2)
  show "limbs (take k ws) = limbs ws mod 2 ^ (32 * k)" "limbs (drop k ws) = limbs ws div 2 ^ (32 * k)"
    using b unfolding limbs_take [OF k] by simp_all
qed

lemma low_rows_num:
  assumes "length p = 25" and "take 8 p = replicate 8 0"
  shows "m \<le> 8 \<Longrightarrow> length (fold (\<lambda>i p. low_row (p ! (i + 16)) i p) [0..<m] p) = 25 \<and>
    drop 8 (fold (\<lambda>i p. low_row (p ! (i + 16)) i p) [0..<m] p) = drop 8 p \<and>
    limbs (take 8 (fold (\<lambda>i p. low_row (p ! (i + 16)) i p) [0..<m] p)) mod 2 ^ 256 =
      limbs (take m (drop 16 p)) * order_L mod 2 ^ 256"
proof (induction m)
  case 0
  then show ?case using assms by simp
next
  case (Suc m)
  let ?p = "fold (\<lambda>i p. low_row (p ! (i + 16)) i p) [0..<m] p"
  have IH: "length ?p = 25" "drop 8 ?p = drop 8 p"
      "limbs (take 8 ?p) mod 2 ^ 256 = limbs (take m (drop 16 p)) * order_L mod 2 ^ 256"
    using Suc by simp_all
  have a: "?p ! (m + 16) = drop 16 p ! m"
  proof -
    have "?p ! (m + 16) = drop 8 ?p ! (m + 8)" using IH(1) Suc.prems by (simp add: add.commute)
    then show ?thesis using assms(1) Suc.prems unfolding IH(2) by (simp add: add.commute)
  qed
  have m: "m < 8" "16 \<le> length ?p" using Suc.prems IH(1) by simp_all
  note r = low_row_num [OF m, of "?p ! (m + 16)"]
  have t: "limbs (take (Suc m) (drop 16 p)) = limbs (take m (drop 16 p)) + 2 ^ (32 * m) * unat (drop 16 p ! m)"
    using Suc.prems assms(1) by (simp add: take_Suc_conv_app_nth limbs_append min_absorb2 del: drop_drop nth_drop)
  have "(limbs (take 8 ?p) + 2 ^ (32 * m) * (unat (drop 16 p ! m) * order_L)) mod 2 ^ 256 =
      (limbs (take m (drop 16 p)) * order_L + 2 ^ (32 * m) * (unat (drop 16 p ! m) * order_L)) mod 2 ^ 256"
    using IH(3) refl by (rule mod_add_cong)
  also have "\<dots> = limbs (take (Suc m) (drop 16 p)) * order_L mod 2 ^ 256"
    unfolding t by (simp only: distrib_right mult.assoc)
  finally have lm: "limbs (take 8 (low_row (?p ! (m + 16)) m ?p)) mod 2 ^ 256 = limbs (take (Suc m) (drop 16 p)) * order_L mod 2 ^ 256"
    unfolding r(3) unfolding a .
  have f: "fold (\<lambda>i p. low_row (p ! (i + 16)) i p) [0..<Suc m] p = low_row (?p ! (m + 16)) m ?p" by simp
  show ?case unfolding f r(1,2) IH(1,2) by (intro conjI refl lm)
qed

lemma mod_cancel:
  fixes d s t M :: nat
  assumes "(d + s) mod M = (t + s) mod M" and "d < M" and "t < M"
  shows "d = t"
proof -
  have "(int d + int s) mod int M = (int t + int s) mod int M"
    using arg_cong [OF assms(1), of int] by (simp add: zmod_int)
  then have "((int d + int s) - int s) mod int M = ((int t + int s) - int s) mod int M" by (metis mod_diff_left_eq)
  then show ?thesis using assms(2,3) by simp
qed

lemma store_num: "length ws = n \<Longrightarrow> length (store32_le_buf ws n) = 4 * n \<and> le_num (store32_le_buf ws n) = limbs ws"
proof -
  assume n: "length ws = n"
  have s: "le_num (store32_le w) = unat w" for w using load32_num [of "store32_le w"] by simp
  have "le_num (concat (map store32_le us)) = limbs us" for us
    by (induction us) (simp_all add: le_num_append s)
  moreover have "map (\<lambda>i. store32_le (ws ! i)) [0..<n] = map store32_le ws"
    using n by (auto intro: nth_equalityI)
  ultimately have "le_num (store32_le_buf ws n) = limbs ws" by (simp add: store32_le_buf_def)
  then show ?thesis by simp
qed

lemma load_num: "4 * n \<le> length s \<Longrightarrow> limbs (load32_le_buf s n) = le_num (take (4 * n) s)"
proof (induction n)
  case (Suc n)
  have l: "load32_le_buf s (Suc n) = load32_le_buf s n @ [load32_le (drop (4 * n) s)]"
    by (simp add: load32_le_buf_def mult.commute)
  have "take (4 * Suc n) s = take (4 * n) s @ take 4 (drop (4 * n) s)"
    using take_add [of "4 * n" 4 s] by (simp add: add.commute)
  moreover have "unat (load32_le (drop (4 * n) s)) = le_num (take 4 (drop (4 * n) s))"
    using Suc.prems by (intro load32_num) simp
  moreover have "(256 :: nat) ^ (4 * n) = 2 ^ (32 * n)" by (simp add: power_mult)
  ultimately show ?case using Suc by (simp add: l limbs_append le_num_append min_absorb2)
qed (simp add: load32_le_buf_def)

lemma mod_l_num:
  assumes "length x = 16"
  shows "length (mod_l x) = 32" and "le_num (mod_l x) = limbs x mod order_L"
proof -
  let ?xr1 = "fold (\<lambda>i xr. mul_row x (mod_l_r ! i) i xr) [0..<9] (replicate 25 0)"
  let ?xr2 = "replicate 8 0 @ drop 8 ?xr1"
  let ?xr3 = "fold (\<lambda>i xr. low_row (xr ! (i + 16)) i xr) [0..<8] ?xr2"
  define q where "q = limbs x * limbs mod_l_r div 2 ^ 512"
  have r: "length mod_l_r = 9" by (simp add: mod_l_r_def)
  have x1: "length ?xr1 = 25" "limbs ?xr1 = limbs x * limbs mod_l_r"
    using mul_rows_num [of x "replicate 25 0" 9 mod_l_r] assms r by (simp_all add: mult.commute)
  have q: "limbs (drop 16 ?xr1) = q" unfolding q_def x1(2) [symmetric] using limbs_drop_div [of 16 ?xr1] x1(1) by simp
  have x2: "length ?xr2 = 25" "take 8 ?xr2 = replicate 8 0" "drop 16 ?xr2 = drop 16 ?xr1" using x1(1) by simp_all
  have x3: "length ?xr3 = 25" "limbs (take 8 ?xr3) mod 2 ^ 256 = limbs (take 8 (drop 16 ?xr1)) * order_L mod 2 ^ 256"
    using low_rows_num [OF x2(1,2), of 8] unfolding x2(3) by blast+
  have x3': "limbs (take 8 ?xr3) mod 2 ^ 256 = q * order_L mod 2 ^ 256"
  proof -
    have "limbs (take 8 (drop 16 ?xr1)) = q mod 2 ^ 256" using limbs_take_mod [of 8 "drop 16 ?xr1"] x1(1) unfolding q by simp
    then show ?thesis unfolding x3(2) by (simp only: mod_mult_left_eq)
  qed
  let ?N = "map (\<lambda>w. NOT w AND 0xffffffff) (take 8 ?xr3)"
  obtain d c where d: "add_words (zip (take 8 x) ?N) 1 = (d, c)" by (cases "add_words (zip (take 8 x) ?N) 1")
  have l: "length (take 8 x) = 8" "length ?N = 8" using assms x3(1) by simp_all
  have n: "length d = 8" "limbs d + 2 ^ 256 * unat c = limbs (take 8 x) + limbs ?N + 1"
    using add_words_num [OF _ d] l by simp_all
  have neg: "limbs ?N + limbs (take 8 ?xr3) + 1 = 2 ^ 256" using limbs_not [of "take 8 ?xr3"] x3(1) by simp
  have x: "limbs x < 2 ^ 512" using limbs_bound [of x] assms by simp
  have b: "q * order_L \<le> limbs x" "limbs x < q * order_L + 2 * order_L"
    unfolding q_def by (rule barrett [OF mod_l_r_num x])+
  let ?t = "limbs x - q * order_L"
  have t: "?t < 2 * order_L" "?t + q * order_L = limbs x" using b by simp_all
  have ds: "limbs d = ?t"
  proof (rule mod_cancel)
    have "(limbs d + q * order_L) mod 2 ^ 256 = (limbs d + limbs (take 8 ?xr3)) mod 2 ^ 256"
      using refl x3'[symmetric] by (rule mod_add_cong)
    also have "\<dots> = limbs (take 8 x) mod 2 ^ 256"
    proof -
      have "limbs d + limbs (take 8 ?xr3) + 2 ^ 256 * unat c = limbs (take 8 x) + 2 ^ 256 * 1" using n(2) neg by linarith
      from arg_cong [OF this, of "\<lambda>v. v mod 2 ^ 256"] show ?thesis by (simp only: mod_mult_self2)
    qed
    also have "\<dots> = (?t + q * order_L) mod 2 ^ 256"
      unfolding t(2) using limbs_take_mod [of 8 x] assms by simp
    finally show "(limbs d + q * order_L) mod 2 ^ 256 = (?t + q * order_L) mod 2 ^ 256" .
    show "limbs d < 2 ^ 256" using limbs_bound [of d] n(1) by simp
    have "2 * order_L < 2 ^ 256" by (simp add: order_L_def)
    then show "?t < 2 ^ 256" using t(1) by linarith
  qed
  have e: "mod_l x = store32_le_buf (remove_l d) 8" by (simp only: mod_l_def Let_def d fst_conv)
  note rl = remove_l_num [OF n(1), unfolded ds, OF t(1)]
  show "length (mod_l x) = 32" using store_num [OF rl(1)] by (simp add: e)
  have "le_num (mod_l x) = ?t mod order_L" using store_num [OF rl(1)] rl(2) by (simp add: e)
  also have "\<dots> = (?t + q * order_L) mod order_L" by (rule mod_mult_self1 [symmetric])
  finally show "le_num (mod_l x) = limbs x mod order_L" unfolding t(2) .
qed

lemma reduce_num:
  assumes "length e = 64"
  shows "length (crypto_eddsa_reduce e) = 32" and "le_num (crypto_eddsa_reduce e) = le_num e mod order_L"
  using mod_l_num [of "load32_le_buf e 16"] load_num [of 16 e] assms by (simp_all add: crypto_eddsa_reduce_def)

lemma mul_add_num:
  assumes "length a = 32" and "length b = 32" and "length c = 32"
  shows "length (crypto_eddsa_mul_add a b c) = 32"
    and "le_num (crypto_eddsa_mul_add a b c) = (le_num a * le_num b + le_num c) mod order_L"
proof -
  have l: "limbs (load32_le_buf a 8) = le_num a" "limbs (load32_le_buf b 8) = le_num b" "limbs (load32_le_buf c 8) = le_num c"
    using load_num [of 8 a] load_num [of 8 b] load_num [of 8 c] assms by simp_all
  let ?p = "load32_le_buf c 8 @ replicate 8 0"
  have m: "length (multiply ?p (load32_le_buf a 8) (load32_le_buf b 8)) = 16"
      "limbs (multiply ?p (load32_le_buf a 8) (load32_le_buf b 8)) = le_num a * le_num b + le_num c"
    using mul_rows_num [of "load32_le_buf b 8" ?p 8 "load32_le_buf a 8"] by (simp_all add: multiply_def limbs_append l)
  show "length (crypto_eddsa_mul_add a b c) = 32"
    "le_num (crypto_eddsa_mul_add a b c) = (le_num a * le_num b + le_num c) mod order_L"
    using mod_l_num [OF m(1)] unfolding m(2) by (simp_all add: crypto_eddsa_mul_add_def)
qed

text \<open>Scalars of the signature scheme. For any inputs of the declared sizes, crypto_eddsa_reduce gives the 64-byte
  number's remainder modulo the order of the base point, and crypto_eddsa_mul_add that of a product and a sum of 32-byte
  numbers; both results are 32 bytes and canonical. So the estimate of the quotient with 33 words, the product of which only
  the low 256 bits are computed, and the single final subtraction are enough for every 512-bit number.\<close>

theorem eddsa_scalars:
  assumes "length e = 64" and "length a = 32" and "length b = 32" and "length c = 32"
  shows "(length (crypto_eddsa_reduce e) = 32 \<and> le_num (crypto_eddsa_reduce e) = le_num e mod order_L) \<and>
    (length (crypto_eddsa_mul_add a b c) = 32 \<and>
     le_num (crypto_eddsa_mul_add a b c) = (le_num a * le_num b + le_num c) mod order_L)"
  using reduce_num [OF assms(1)] mul_add_num [OF assms(2-4)] by blast

theorem eddsa_scalars_witness:
  "le_num (crypto_eddsa_mul_add (2 # replicate 31 0) (3 # replicate 31 0) (4 # replicate 31 0)) = 10 \<and>
   le_num (crypto_eddsa_reduce (replicate 64 0)) = 0"
  using eddsa_scalars [of "replicate 64 0" "2 # replicate 31 0" "3 # replicate 31 0" "4 # replicate 31 0"]
  by (simp add: order_L_def)

end
