(* ===== verification/Windows.thy ===== *)
theory Windows
  imports X25519
begin

unbundle bit_operations_syntax

text \<open>
  Sliding windows (src/src/asyd/core/monocypher.c, slide_init and slide_step): the signed digits of a scalar, found from
  the highest bit down while the loop that uses them runs. The reference is the signed reading of the bits (\<open>booth\<close>).
\<close>

section \<open>The operations\<close>

text \<open>The windows. The fields of the context are 16, 8 and 8 bits wide.\<close>

record slide_ctx =
  sl_next_index :: int
  sl_next_digit :: int
  sl_next_check :: int

primrec slide_top :: "bytes \<Rightarrow> nat \<Rightarrow> nat" where
  "slide_top scalar 0 = 0"
| "slide_top scalar (Suc i) = (if scalar_bit scalar (int (Suc i)) = 0 then slide_top scalar i else Suc i)"

definition slide_init :: "bytes \<Rightarrow> slide_ctx" where
  "slide_init scalar =
     \<lparr>sl_next_index = - 1, sl_next_digit = - 1, sl_next_check = take_bit 8 (int (slide_top scalar 252) + 1)\<rparr>"

definition slide_value :: "int \<Rightarrow> int \<Rightarrow> bytes \<Rightarrow> int" where
  "slide_value w i scalar =
     - push_bit (nat (w - 1)) (scalar_bit scalar i) +
     sum_list (map (\<lambda>j. push_bit j (scalar_bit scalar (i - (w - 1) + int j))) [0..<nat (w - 1)]) +
     scalar_bit scalar (i - w)"

definition slide_shift :: "int \<Rightarrow> nat" where
  "slide_shift v =
     (let lsb = v AND (NOT v + 1)
      in (if lsb AND 0xAA \<noteq> 0 then 1 else 0) OR (if lsb AND 0xCC \<noteq> 0 then 2 else 0) OR (if lsb AND 0xF0 \<noteq> 0 then 4 else 0))"

definition slide_step :: "slide_ctx \<Rightarrow> int \<Rightarrow> int \<Rightarrow> bytes \<Rightarrow> slide_ctx \<times> int" where
  "slide_step ctx width i scalar =
     (let ctx =
        (if i = sl_next_check ctx then
           if scalar_bit scalar i = scalar_bit scalar (i - 1)
           then ctx\<lparr>sl_next_check := take_bit 8 (sl_next_check ctx - 1)\<rparr>
           else let w = min width (i + 1);
                    v = slide_value w i scalar;
                    s = slide_shift v
                in ctx\<lparr>sl_next_index := signed_take_bit 15 (i - (w - 1) + int s),
                       sl_next_digit := signed_take_bit 7 (drop_bit s v),
                       sl_next_check := take_bit 8 (sl_next_check ctx - w)\<rparr>
         else ctx)
      in (ctx, if i = sl_next_index ctx then sl_next_digit ctx else 0))"

section \<open>The sliding windows\<close>

text \<open>
  Bits, and the signed reading of the lowest \<open>n\<close> of them: the sum of the differences of neighbours. A window takes
  the next differences at once.
\<close>

definition sbit :: "nat \<Rightarrow> int \<Rightarrow> int" where
  "sbit k i = (if 0 \<le> i \<and> odd (k div 2 ^ nat i) then 1 else 0)"

primrec booth :: "nat \<Rightarrow> nat \<Rightarrow> int" where
  "booth k 0 = 0"
| "booth k (Suc n) = booth k n + (sbit k (int n - 1) - sbit k (int n)) * 2 ^ n"

lemma scalar_sbit:
  assumes "length s = 32" and "i < 256"
  shows "scalar_bit s i = sbit (le_num s) i"
proof (cases "i < 0")
  case True
  then show ?thesis by (simp add: scalar_bit_def sbit_def)
next
  case False
  then show ?thesis using scalar_bit_num [of "nat i" s] assms by (simp add: sbit_def)
qed

lemma sbit_nonneg: "0 \<le> sbit k i" "sbit k i \<le> 1"
  by (simp_all add: sbit_def)

lemma booth_closed: "booth k (Suc n) = int (k mod 2 ^ n) - sbit k (int n) * 2 ^ n"
proof (induction n)
  case (Suc n)
  have "int (k mod 2 ^ Suc n) = int (k mod 2 ^ n) + sbit k (int n) * 2 ^ n"
  proof -
    have "k mod 2 ^ Suc n = k mod 2 ^ n + 2 ^ n * (k div 2 ^ n mod 2)"
      by (simp add: mod_mult2_eq mult.commute [of 2] del: power_Suc add: power_Suc2)
    then show ?thesis by (simp add: sbit_def odd_iff_mod_2_eq_one split: if_splits)
  qed
  then show ?case using Suc by (simp add: algebra_simps)
qed (simp add: sbit_def)

lemma booth_all:
  assumes "k < 2 ^ n"
  shows "booth k (Suc n) = int k"
  unfolding booth_closed using assms by (simp add: sbit_def)

text \<open>The value of a window of \<open>n + 1\<close> bits above position \<open>a\<close>.\<close>

definition window :: "nat \<Rightarrow> nat \<Rightarrow> nat \<Rightarrow> int" where
  "window k a n = - (sbit k (int (a + n)) * 2 ^ n) + (\<Sum>j<n. sbit k (int (a + j)) * 2 ^ j) + sbit k (int a - 1)"

lemma window_booth: "booth k (a + Suc n) = booth k a + 2 ^ a * window k a n"
proof (induction n)
  case (Suc n)
  have "booth k (a + Suc (Suc n)) = booth k (a + Suc n) + (sbit k (int (a + n)) - sbit k (int (a + Suc n))) * 2 ^ (a + Suc n)"
    by simp
  also have "\<dots> = booth k a + 2 ^ a * window k a (Suc n)"
    unfolding Suc by (simp add: window_def power_add algebra_simps)
  finally show ?case .
qed (simp add: window_def algebra_simps)

lemma slide_value_window:
  assumes "length s = 32" and "i = int (a + n)" and "a + n < 256"
  shows "slide_value (int n + 1) i s = window (le_num s) a n"
proof -
  have "sum_list (map (\<lambda>j. push_bit j (scalar_bit s (int a + int j))) [0..<n]) = (\<Sum>j<n. sbit (le_num s) (int (a + j)) * 2 ^ j)"
    unfolding interv_sum_list_conv_sum_set_nat
    using assms by (intro sum.cong) (auto simp: push_bit_eq_mult scalar_sbit)
  then show ?thesis
    using assms by (simp add: slide_value_def window_def push_bit_eq_mult scalar_sbit algebra_simps)
qed

text \<open>The size of a window whose two highest bits differ.\<close>

lemma window_rest: "0 \<le> (\<Sum>j<n. sbit k (int (a + j)) * 2 ^ j)" "(\<Sum>j<n. sbit k (int (a + j)) * 2 ^ j) \<le> 2 ^ n - (1 :: int)"
proof (induction n)
  case (Suc n)
  have b: "0 \<le> sbit k (int (a + n)) * 2 ^ n" "sbit k (int (a + n)) * 2 ^ n \<le> 2 ^ n" by (simp_all add: sbit_def)
  { case 1 show ?case using Suc(1) b(1) by simp }
  { case 2 show ?case using Suc(2) b(2) unfolding sum.lessThan_Suc power_Suc by linarith }
qed simp_all

lemma window_bounds:
  assumes "sbit k (int (a + n)) \<noteq> sbit k (int (a + n) - 1)"
  shows "window k a n \<noteq> 0" and "\<bar>window k a n\<bar> \<le> 2 ^ n"
proof -
  have b: "sbit k i = 0 \<or> sbit k i = 1" for i by (simp add: sbit_def)
  have "window k a n \<noteq> 0 \<and> \<bar>window k a n\<bar> \<le> 2 ^ n"
  proof (cases n)
    case 0
    then show ?thesis using assms b [of "int a"] b [of "int a - 1"] by (auto simp: window_def)
  next
    case (Suc m)
    let ?S = "\<Sum>j<m. sbit k (int (a + j)) * 2 ^ j" and ?l = "sbit k (int a - 1)"
    have s: "0 \<le> ?S" "?S \<le> 2 ^ m - 1" "0 \<le> ?l" "?l \<le> 1" using window_rest sbit_nonneg by blast+
    have w: "window k a n = - (sbit k (int (a + n)) * (2 * 2 ^ m)) + sbit k (int (a + n) - 1) * 2 ^ m + ?S + ?l"
      by (simp add: window_def Suc)
    have p: "(1 :: int) \<le> 2 ^ m" "(2 :: int) ^ n = 2 * 2 ^ m" by (simp_all add: Suc)
    consider "sbit k (int (a + n)) = 1" "sbit k (int (a + n) - 1) = 0" | "sbit k (int (a + n)) = 0"
    "sbit k (int (a + n) - 1) = 1"
      using assms b by metis
    then show ?thesis unfolding p(2) w using s p(1) by cases (simp_all add: abs_le_iff, linarith?)
  qed
  then show "window k a n \<noteq> 0" "\<bar>window k a n\<bar> \<le> 2 ^ n" by simp_all
qed

text \<open>The number of low zero bits of a window, which the source reads off its lowest set bit.\<close>

lemma slide_shift_ok:
  assumes "v \<noteq> 0" and "\<bar>v\<bar> \<le> 16"
  shows "v = 2 ^ slide_shift v * drop_bit (slide_shift v) v" and "odd (drop_bit (slide_shift v) v)"
proof -
  have "list_all (\<lambda>v. v = 0 \<or> v = 2 ^ slide_shift v * drop_bit (slide_shift v) v \<and> odd (drop_bit (slide_shift v) v)) [- 16..16]"
    by code_simp
  moreover have "v \<in> set [- 16..16]" unfolding set_upto atLeastAtMost_iff using assms(2) by linarith
  ultimately show "v = 2 ^ slide_shift v * drop_bit (slide_shift v) v" "odd (drop_bit (slide_shift v) v)"
    using assms(1) by (simp_all only: list_all_iff) blast+
qed

text \<open>The digits of the steps for the bits below \<open>n\<close>, highest first, and the number that digits stand for.\<close>

primrec slide_digits :: "int \<Rightarrow> bytes \<Rightarrow> nat \<Rightarrow> slide_ctx \<Rightarrow> int list" where
  "slide_digits width s 0 ctx = []"
| "slide_digits width s (Suc i) ctx = (let (ctx, d) = slide_step ctx width (int i) s in d # slide_digits width s i ctx)"

definition horner :: "int \<Rightarrow> int list \<Rightarrow> int" where
  "horner a ds = foldl (\<lambda>a d. 2 * a + d) a ds"

definition good_digit :: "int \<Rightarrow> int \<Rightarrow> bool" where
  "good_digit width d \<longleftrightarrow> odd d \<and> \<bar>d\<bar> < 2 ^ nat (width - 1)"

text \<open>
  Between two steps: the position up to which windows are read (the field wraps to 255 when that is everything), and a
  digit that waits for its position. \<open>slide_rest\<close> is the value of the steps below \<open>n\<close>.
\<close>

definition slide_done :: "slide_ctx \<Rightarrow> int" where
  "slide_done ctx = (if sl_next_check ctx = 255 then - 1 else sl_next_check ctx)"

definition slide_inv :: "int \<Rightarrow> nat \<Rightarrow> slide_ctx \<Rightarrow> bool" where
  "slide_inv width n ctx \<longleftrightarrow>
     n \<le> 254 \<and> - 1 \<le> slide_done ctx \<and> slide_done ctx < int n \<and>
     (sl_next_index ctx = - 1 \<or> slide_done ctx < sl_next_index ctx \<and> good_digit width (sl_next_digit ctx))"

definition slide_rest :: "nat \<Rightarrow> nat \<Rightarrow> slide_ctx \<Rightarrow> int" where
  "slide_rest k n ctx =
     booth k (nat (slide_done ctx + 1)) +
     (if slide_done ctx < sl_next_index ctx \<and> sl_next_index ctx < int n then sl_next_digit ctx * 2 ^ nat (sl_next_index ctx) else 0)"

text \<open>A new window: its digit, its position, and what is left.\<close>

lemma window_digit:
  assumes "sbit k i \<noteq> sbit k (i - 1)" and "i = int (a + n)" and "n \<le> 4"
  defines "v \<equiv> window k a n"
  defines "z \<equiv> slide_shift v"
  shows "odd (drop_bit z v)" and "\<bar>drop_bit z v\<bar> \<le> 2 ^ n" and "z \<le> n" and "booth k (a + Suc n) = booth k a + drop_bit z v * 2 ^ (a + z)"
proof -
  have "\<bar>v\<bar> \<le> 2 ^ n" and v0: "v \<noteq> 0" unfolding v_def using window_bounds [of k a n] assms(1) by (simp_all add: assms(2))
  have "(2 :: int) ^ n \<le> 2 ^ 4" using assms(3) by (intro power_increasing) simp_all
  then have v16: "\<bar>v\<bar> \<le> 16" using \<open>\<bar>v\<bar> \<le> 2 ^ n\<close> by simp
  note s = slide_shift_ok [OF v0 v16, folded z_def]
  show "odd (drop_bit z v)" by (rule s(2))
  have a: "\<bar>v\<bar> = 2 ^ z * \<bar>drop_bit z v\<bar>" using arg_cong [OF s(1), of abs] by (simp add: abs_mult)
  have "\<bar>drop_bit z v\<bar> \<noteq> 0" using s(2) by auto
  then have d1: "1 \<le> \<bar>drop_bit z v\<bar>" by linarith
  have "1 * \<bar>drop_bit z v\<bar> \<le> 2 ^ z * \<bar>drop_bit z v\<bar>" by (rule mult_right_mono) simp_all
  then show "\<bar>drop_bit z v\<bar> \<le> 2 ^ n" using \<open>\<bar>v\<bar> \<le> 2 ^ n\<close> a by simp
  have "(2 :: int) ^ z * 1 \<le> 2 ^ z * \<bar>drop_bit z v\<bar>" using d1 by (intro mult_left_mono) simp_all
  then have "(2 :: int) ^ z \<le> 2 ^ n" using \<open>\<bar>v\<bar> \<le> 2 ^ n\<close> a by linarith
  then show "z \<le> n" by simp
  have "2 ^ a * v = drop_bit z v * 2 ^ (a + z)" by (subst s(1)) (simp only: power_add ac_simps)
  then show "booth k (a + Suc n) = booth k a + drop_bit z v * 2 ^ (a + z)" unfolding window_booth v_def by simp
qed

lemma next_check:
  assumes "0 \<le> c" and "c \<le> 253" and "1 \<le> w" and "w \<le> c + 1"
  shows "slide_done (ctx\<lparr>sl_next_check := take_bit 8 (c - w)\<rparr>) = c - w"
proof (cases "c - w = - 1")
  case True
  then show ?thesis by (simp add: slide_done_def mask_eq_exp_minus_1)
next
  case False
  then have "take_bit 8 (c - w) = c - w" using assms by (intro take_bit_int_eq_self) simp_all
  then show ?thesis using assms by (simp add: slide_done_def)
qed

lemma slide_step_ok:
  assumes "length s = 32" and "2 \<le> width" and "width \<le> 5" and "slide_inv width (Suc i) ctx" and "slide_step ctx width (int i) s = (ctx', d)"
  shows "slide_inv width i ctx' \<and> (d = 0 \<or> good_digit width d) \<and>
    slide_rest (le_num s) (Suc i) ctx = d * 2 ^ i + slide_rest (le_num s) i ctx'"
proof -
  let ?k = "le_num s" and ?x = "sl_next_index ctx" and ?g = "sl_next_digit ctx"
  have i: "i \<le> 253" "int i < 256" "int i - 1 < 256" and D: "- 1 \<le> slide_done ctx" "slide_done ctx < int (Suc i)"
    and x: "?x = - 1 \<or> slide_done ctx < ?x \<and> good_digit width ?g"
    using assms(4) by (simp_all add: slide_inv_def)
  note bits = scalar_sbit [OF assms(1) i(2)] scalar_sbit [OF assms(1) i(3)]
  consider (idle) "int i \<noteq> sl_next_check ctx"
    | (skip) "int i = sl_next_check ctx" "sbit ?k (int i) = sbit ?k (int i - 1)"
    | (window) "int i = sl_next_check ctx" "sbit ?k (int i) \<noteq> sbit ?k (int i - 1)" by blast
  then show ?thesis
  proof cases
    case idle
    then have e: "ctx' = ctx" "d = (if int i = ?x then ?g else 0)" using assms(5) by (auto simp: slide_step_def)
    have "slide_done ctx < int i" using D i idle by (auto simp: slide_done_def split: if_splits)
    then show ?thesis using D i x unfolding e by (auto simp: slide_inv_def slide_rest_def)
  next
    case skip
    have D: "slide_done ctx = int i" using skip i by (simp add: slide_done_def)
    have "?x \<noteq> int i" using x unfolding D by auto
    then have "slide_step ctx width (int i) s = (ctx\<lparr>sl_next_check := take_bit 8 (int i - 1)\<rparr>, 0)"
      by (simp add: slide_step_def bits skip(1) [symmetric] skip(2))
    then have e: "ctx' = ctx\<lparr>sl_next_check := take_bit 8 (int i - 1)\<rparr>" "d = 0" using assms(5) by simp_all
    have D': "slide_done ctx' = int i - 1" unfolding e by (rule next_check) (use i in simp_all)
    have "booth ?k (Suc i) = booth ?k i" using skip by simp
    moreover have "sl_next_index ctx' = ?x" "sl_next_digit ctx' = ?g" "nat (int i + 1) = Suc i" by (simp_all add: e)
    ultimately show ?thesis using i x unfolding D by (auto simp del: booth.simps simp: slide_inv_def slide_rest_def D D' e(2))
  next
    case window
    define n where "n = min (nat (width - 1)) i"
    define a where "a = i - n"
    define v where "v = window ?k a n"
    define z where "z = slide_shift v"
    have an: "int i = int (a + n)" "i = a + n" "n \<le> 4" "a + n < 256" "int n \<le> width - 1"
      using assms(2,3) i by (simp_all add: a_def n_def)
    have w: "min width (int i + 1) = int n + 1" using assms(2,3) by (simp add: n_def)
    have D: "slide_done ctx = int i" using window i by (simp add: slide_done_def)
    note dg = window_digit [OF window(2) an(1,3), folded v_def, folded z_def]
    have p: "(2 :: int) ^ n \<le> 2 ^ nat (width - 1)" "(2 :: int) ^ nat (width - 1) \<le> 2 ^ 4"
      using assms(2,3) by (intro power_increasing; simp add: n_def)+
    have "\<bar>drop_bit z v\<bar> \<le> 16" using order_trans [OF dg(2) order_trans [OF p]] by simp
    then have small: "signed_take_bit 7 (drop_bit z v) = drop_bit z v" "signed_take_bit 15 (int a + int z) = int a + int z"
      using dg(3) an i by (auto intro!: signed_take_bit_int_eq_self simp: abs_le_iff)
    have good: "good_digit width (drop_bit z v)"
    proof -
      have "\<bar>drop_bit z v\<bar> \<noteq> 2 ^ nat (width - 1)"
      proof
        assume "\<bar>drop_bit z v\<bar> = 2 ^ nat (width - 1)"
        moreover have "even ((2 :: int) ^ nat (width - 1))" using assms(2) by simp
        ultimately show False using dg(1) by (metis dvd_abs_iff)
      qed
      then show ?thesis using dg(1) order_trans [OF dg(2) p(1)] by (simp add: good_digit_def)
    qed
    have "slide_step ctx width (int i) s =
        (ctx\<lparr>sl_next_index := int a + int z, sl_next_digit := drop_bit z v, sl_next_check := take_bit 8 (int i - (int n + 1))\<rparr>,
         if n = z then drop_bit z v else 0)"
    proof -
      have "slide_value (int n + 1) (int i) s = v" unfolding v_def by (rule slide_value_window [OF assms(1) an(1,4)])
      moreover have "int i - int n + int z = int a + int z" "int i = int a + int z \<longleftrightarrow> n = z" using an(2) by auto
      ultimately show ?thesis
        using window(2) small by (simp add: slide_step_def bits window(1) [symmetric] w Let_def z_def [symmetric])
    qed
    then have e: "ctx' = ctx\<lparr>sl_next_index := int a + int z, sl_next_digit := drop_bit z v, sl_next_check := take_bit 8 (int i - (int n + 1))\<rparr>"
      "d = (if n = z then drop_bit z v else 0)" using assms(5) by simp_all
    have D': "slide_done ctx' = int a - 1"
      unfolding e using next_check [of "int i" "int n + 1"] i an(1) by simp
    have "nat (int i + 1) = a + Suc n" unfolding an(1) by simp
    then have r: "slide_rest ?k (Suc i) ctx = booth ?k (a + Suc n)" using x unfolding D by (auto simp: slide_rest_def D)
    have f: "sl_next_index ctx' = int a + int z" "sl_next_digit ctx' = drop_bit z v"
      "nat (int a + int z) = a + z" by (simp_all add: e nat_add_distrib)
    have "slide_inv width i ctx'" using i good dg(3) an(1) by (auto simp: slide_inv_def D' f)
    moreover have "d = 0 \<or> good_digit width d" using good by (simp add: e(2))
    moreover have "slide_rest ?k (Suc i) ctx = d * 2 ^ i + slide_rest ?k i ctx'"
      unfolding r dg(4) using dg(3) an(2) by (auto simp: slide_rest_def D' f e(2))
    ultimately show ?thesis by blast
  qed
qed

lemma slide_digits_ok:
  assumes "length s = 32" and "2 \<le> width" and "width \<le> 5"
  shows "slide_inv width n ctx \<Longrightarrow>
    length (slide_digits width s n ctx) = n \<and> (\<forall>d \<in> set (slide_digits width s n ctx). d = 0 \<or> good_digit width d) \<and>
    horner a (slide_digits width s n ctx) = a * 2 ^ n + slide_rest (le_num s) n ctx"
proof (induction n arbitrary: ctx a)
  case 0
  then have "slide_done ctx = - 1" by (simp add: slide_inv_def)
  then show ?case by (simp add: horner_def slide_rest_def)
next
  case (Suc i)
  obtain ctx' d where e: "slide_step ctx width (int i) s = (ctx', d)" by (cases "slide_step ctx width (int i) s")
  note st = slide_step_ok [OF assms Suc.prems e]
  show ?case using Suc.IH [OF conjunct1 [OF st], of "2 * a + d"] st by (simp add: e horner_def algebra_simps)
qed

lemma slide_top_bound: "slide_top s n \<le> n"
  by (induction n) simp_all

lemma slide_top_above: "slide_top s n < i \<Longrightarrow> i \<le> n \<Longrightarrow> scalar_bit s (int i) = 0"
  by (induction n) (auto simp: le_Suc_eq split: if_splits)

lemma slide_init_ok:
  assumes "length s = 32" and "le_num s < 2 ^ 253" and "int (slide_top s 252) + 1 < int n" and "n \<le> 254"
  shows "slide_inv width n (slide_init s)" and "slide_rest (le_num s) n (slide_init s) = int (le_num s)"
proof -
  let ?t = "slide_top s 252"
  have t: "?t \<le> 252" by (rule slide_top_bound)
  have c: "sl_next_check (slide_init s) = int ?t + 1" using t by (simp add: slide_init_def take_bit_int_eq_self)
  then have d: "slide_done (slide_init s) = int ?t + 1" using t by (simp add: slide_done_def)
  then show "slide_inv width n (slide_init s)" using assms(3,4) by (simp add: slide_inv_def) (simp add: slide_init_def)
  have "le_num s < 2 ^ (253 - j)" if "j \<le> 252 - ?t" for j
    using that
  proof (induction j)
    case (Suc j)
    define m where "m = 252 - j"
    have m: "253 - j = Suc m" "253 - Suc j = m" "?t < m" "m \<le> 252" using Suc.prems by (simp_all add: m_def)
    have "le_num s div 2 ^ m < 2" using Suc unfolding m by (simp add: less_mult_imp_div_less)
    moreover have "even (le_num s div 2 ^ m)"
      using slide_top_above [OF m(3,4)] scalar_bit_num [of m s] assms(1) m(4) by (simp split: if_splits)
    ultimately have "le_num s div 2 ^ m = 0" by (metis less_2_cases odd_one One_nat_def)
    then show ?case unfolding m by (simp add: div_eq_0_iff)
  qed (use assms(2) in simp)
  from this [of "252 - ?t"] have "le_num s < 2 ^ (?t + 1)" using t by (simp add: algebra_simps)
  then have "booth (le_num s) (Suc (?t + 1)) = int (le_num s)" by (rule booth_all)
  then show "slide_rest (le_num s) n (slide_init s) = int (le_num s)"
    unfolding slide_rest_def d by (simp add: slide_init_def nat_add_distrib)
qed

lemma slide_init_inv:
  assumes "sl_next_check (slide_init s) < int n" and "n \<le> 254"
  shows "slide_inv width n (slide_init s)"
proof -
  have "slide_top s 252 \<le> 252" by (rule slide_top_bound)
  then have c: "sl_next_check (slide_init s) = int (slide_top s 252) + 1" "slide_top s 252 \<le> 252"
    by (simp_all add: slide_init_def take_bit_int_eq_self)
  then have "slide_done (slide_init s) = int (slide_top s 252) + 1" by (simp add: slide_done_def)
  then show ?thesis using assms c(1) by (simp add: slide_inv_def) (simp add: slide_init_def)
qed

text \<open>C19. The signed windows of the signature check. For every 32-byte scalar below 2^253 (both scalars are: one was reduced, the
  other was checked to be below the order) and window width from 2 to 5, the digits that slide_init and slide_step give
  for the bits from 253 downwards are 0 or odd and smaller than 2^(width - 1), so that the half of one is an index
  of its table, and together they stand for the scalar, whichever position above its highest bit the loop starts
  from. None of the narrow fields of the context loses a bit, although next_check passes below 0.\<close>

theorem window_recoding:
  assumes "length s = 32" and "le_num s < 2 ^ 253" and "2 \<le> width" and "width \<le> 5"
    and "sl_next_check (slide_init s) < int n" and "n \<le> 254"
  defines "ds \<equiv> slide_digits width s n (slide_init s)"
  shows "horner 0 ds = int (le_num s) \<and> length ds = n \<and> (\<forall>d \<in> set ds. d = 0 \<or> odd d \<and> \<bar>d\<bar> < 2 ^ nat (width - 1))"
proof -
  have t: "slide_top s 252 \<le> 252" by (rule slide_top_bound)
  then have "sl_next_check (slide_init s) = int (slide_top s 252) + 1" by (simp add: slide_init_def take_bit_int_eq_self)
  then have "int (slide_top s 252) + 1 < int n" using assms(5) by simp
  note i = slide_init_ok [OF assms(1,2) this assms(6)]
  show ?thesis
    using slide_digits_ok [OF assms(1,3,4) i(1), of 0] unfolding i(2) ds_def good_digit_def by simp
qed

theorem window_recoding_witness:
  "horner 0 (slide_digits 5 (100 # replicate 31 0) 10 (slide_init (100 # replicate 31 0))) = 100 \<and>
   length (slide_digits 5 (100 # replicate 31 0) 10 (slide_init (100 # replicate 31 0))) = 10"
proof -
  have "slide_top (100 # replicate 31 0) 252 = 6"
    by code_simp
  then show ?thesis
    using window_recoding [of "100 # replicate 31 0" 5 10] by (simp add: slide_init_def take_bit_int_eq_self)
qed

end
