(* ===== verification/Eddsa.thy ===== *)
theory Eddsa
  imports Edwards ModL Blake2b Windows
begin

unbundle bit_operations_syntax

text \<open>
  Signatures on the Edwards curve (src/src/asyd/core/monocypher.c, "Ed25519"): the comb and the tables, the check of the
  equation, key pairs, signing and checking, and the conversions of public keys to and from the key exchange. The hash
  is the modelled BLAKE2b. A table that is read outside its bounds is \<open>None\<close>, as is an overflow of a limb. The daemon
  does not sign messages, so nothing else depends on this theory.
\<close>

section \<open>The operations\<close>

definition look :: "'a list \<Rightarrow> int \<Rightarrow> 'a option" where
  "look xs i = (if 0 \<le> i \<and> i < int (length xs) then Some (xs ! nat i) else None)"

definition b_window :: "ge_precomp list" where
  "b_window =
    [\<lparr>gp_Yp = [25967493, - 14356035, 29566456, 3660896, - 12694345, 4014787, 27544626, - 11754271, - 6079156, 2047605],
        gp_Ym = [- 12545711, 934262, - 2722910, 3049990, - 727428, 9406986, 12720692, 5043384, 19500929, - 15469378],
        gp_T2 = [- 8738181, 4489570, 9688441, - 14785194, 10184609, - 12363380, 29287919, 11864899, - 24514362, - 4438546]\<rparr>,
     \<lparr>gp_Yp = [15636291, - 9688557, 24204773, - 7912398, 616977, - 16685262, 27787600, - 14772189, 28944400, - 1550024],
        gp_Ym = [16568933, 4717097, - 11556148, - 1102322, 15682896, - 11807043, 16354577, - 11775962, 7689662, 11199574],
        gp_T2 = [30464156, - 5976125, - 11779434, - 15670865, 23220365, 15915852, 7512774, 10017326, - 17749093, - 9920357]\<rparr>,
     \<lparr>gp_Yp = [10861363, 11473154, 27284546, 1981175, - 30064349, 12577861, 32867885, 14515107, - 15438304, 10819380],
        gp_Ym = [4708026, 6336745, 20377586, 9066809, - 11272109, 6594696, - 25653668, 12483688, - 12668491, 5581306],
        gp_T2 = [19563160, 16186464, - 29386857, 4097519, 10237984, - 4348115, 28542350, 13850243, - 23678021, - 15815942]\<rparr>,
     \<lparr>gp_Yp = [5153746, 9909285, 1723747, - 2777874, 30523605, 5516873, 19480852, 5230134, - 23952439, - 15175766],
        gp_Ym = [- 30269007, - 3463509, 7665486, 10083793, 28475525, 1649722, 20654025, 16520125, 30598449, 7715701],
        gp_T2 = [28881845, 14381568, 9657904, 3680757, - 20181635, 7843316, - 31400660, 1370708, 29794553, - 1409300]\<rparr>,
     \<lparr>gp_Yp = [- 22518993, - 6692182, 14201702, - 8745502, - 23510406, 8844726, 18474211, - 1361450, - 13062696, 13821877],
        gp_Ym = [- 6455177, - 7839871, 3374702, - 4740862, - 27098617, - 10571707, 31655028, - 7212327, 18853322, - 14220951],
        gp_T2 = [4566830, - 12963868, - 28974889, - 12240689, - 7602672, - 2830569, - 8514358, - 10431137, 2207753, - 3209784]\<rparr>,
     \<lparr>gp_Yp = [- 25154831, - 4185821, 29681144, 7868801, - 6854661, - 9423865, - 12437364, - 663000, - 31111463, - 16132436],
        gp_Ym = [25576264, - 2703214, 7349804, - 11814844, 16472782, 9300885, 3844789, 15725684, 171356, 6466918],
        gp_T2 = [23103977, 13316479, 9739013, - 16149481, 817875, - 15038942, 8965339, - 14088058, - 30714912, 16193877]\<rparr>,
     \<lparr>gp_Yp = [- 33521811, 3180713, - 2394130, 14003687, - 16903474, - 16270840, 17238398, 4729455, - 18074513, 9256800],
        gp_Ym = [- 25182317, - 4174131, 32336398, 5036987, - 21236817, 11360617, 22616405, 9761698, - 19827198, 630305],
        gp_T2 = [- 13720693, 2639453, - 24237460, - 7406481, 9494427, - 5774029, - 6554551, - 15960994, - 2449256, - 14291300]\<rparr>,
     \<lparr>gp_Yp = [- 3151181, - 5046075, 9282714, 6866145, - 31907062, - 863023, - 18940575, 15033784, 25105118, - 7894876],
        gp_Ym = [- 24326370, 15950226, - 31801215, - 14592823, - 11662737, - 5090925, 1573892, - 2625887, 2198790, - 15804619],
        gp_T2 = [- 3099351, 10324967, - 2241613, 7453183, - 5446979, - 2735503, - 13812022, - 16236442, - 32461234, - 12290683]\<rparr>]"

definition b_comb_low :: "ge_precomp list" where
  "b_comb_low =
    [\<lparr>gp_Yp = [- 6816601, - 2324159, - 22559413, 124364, 18015490, 8373481, 19993724, 1979872, - 18549925, 9085059],
        gp_Ym = [10306321, 403248, 14839893, 9633706, 8463310, - 8354981, - 14305673, 14668847, 26301366, 2818560],
        gp_T2 = [- 22701500, - 3210264, - 13831292, - 2927732, - 16326337, - 14016360, 12940910, 177905, 12165515, - 2397893]\<rparr>,
     \<lparr>gp_Yp = [- 12282262, - 7022066, 9920413, - 3064358, - 32147467, 2927790, 22392436, - 14852487, 2719975, 16402117],
        gp_Ym = [- 7236961, - 4729776, 2685954, - 6525055, - 24242706, - 15940211, - 6238521, 14082855, 10047669, 12228189],
        gp_T2 = [- 30495588, - 12893761, - 11161261, 3539405, - 11502464, 16491580, - 27286798, - 15030530, - 7272871, - 15934455]\<rparr>,
     \<lparr>gp_Yp = [17650926, 582297, - 860412, - 187745, - 12072900, - 10683391, - 20352381, 15557840, - 31072141, - 5019061],
        gp_Ym = [- 6283632, - 2259834, - 4674247, - 4598977, - 4089240, 12435688, - 31278303, 1060251, 6256175, 10480726],
        gp_T2 = [- 13871026, 2026300, - 21928428, - 2741605, - 2406664, - 8034988, 7355518, 15733500, - 23379862, 7489131]\<rparr>,
     \<lparr>gp_Yp = [6883359, 695140, 23196907, 9644202, - 33430614, 11354760, - 20134606, 6388313, - 8263585, - 8491918],
        gp_Ym = [- 7716174, - 13605463, - 13646110, 14757414, - 19430591, - 14967316, 10359532, - 11059670, - 21935259, 12082603],
        gp_T2 = [- 11253345, - 15943946, 10046784, 5414629, 24840771, 8086951, - 6694742, 9868723, 15842692, - 16224787]\<rparr>,
     \<lparr>gp_Yp = [9639399, 11810955, - 24007778, - 9320054, 3912937, - 9856959, 996125, - 8727907, - 8919186, - 14097242],
        gp_Ym = [7248867, 14468564, 25228636, - 8795035, 14346339, 8224790, 6388427, - 7181107, 6468218, - 8720783],
        gp_T2 = [15513115, 15439095, 7342322, - 10157390, 18005294, - 7265713, 2186239, 4884640, 10826567, 7135781]\<rparr>,
     \<lparr>gp_Yp = [- 14204238, 5297536, - 5862318, - 6004934, 28095835, 4236101, - 14203318, 1958636, - 16816875, 3837147],
        gp_Ym = [- 5511166, - 13176782, - 29588215, 12339465, 15325758, - 15945770, - 8813185, 11075932, - 19608050, - 3776283],
        gp_T2 = [11728032, 9603156, - 4637821, - 5304487, - 7827751, 2724948, 31236191, - 16760175, - 7268616, 14799772]\<rparr>,
     \<lparr>gp_Yp = [- 28842672, 4840636, - 12047946, - 9101456, - 1445464, 381905, - 30977094, - 16523389, 1290540, 12798615],
        gp_Ym = [27246947, - 10320914, 14792098, - 14518944, 5302070, - 8746152, - 3403974, - 4149637, - 27061213, 10749585],
        gp_T2 = [25572375, - 6270368, - 15353037, 16037944, 1146292, 32198, 23487090, 9585613, 24714571, - 1418265]\<rparr>,
     \<lparr>gp_Yp = [19844825, 282124, - 17583147, 11004019, - 32004269, - 2716035, 6105106, - 1711007, - 21010044, 14338445],
        gp_Ym = [8027505, 8191102, - 18504907, - 12335737, 25173494, - 5923905, 15446145, 7483684, - 30440441, 10009108],
        gp_T2 = [- 14134701, - 4174411, 10246585, - 14677495, 33553567, - 14012935, 23366126, 15080531, - 7969992, 7663473]\<rparr>]"

definition b_comb_high :: "ge_precomp list" where
  "b_comb_high =
    [\<lparr>gp_Yp = [33055887, - 4431773, - 521787, 6654165, 951411, - 6266464, - 5158124, 6995613, - 5397442, - 6985227],
        gp_Ym = [4014062, 6967095, - 11977872, 3960002, 8001989, 5130302, - 2154812, - 1899602, - 31954493, - 16173976],
        gp_T2 = [16271757, - 9212948, 23792794, 731486, - 25808309, - 3546396, 6964344, - 4767590, 10976593, 10050757]\<rparr>,
     \<lparr>gp_Yp = [2533007, - 4288439, - 24467768, - 12387405, - 13450051, 14542280, 12876301, 13893535, 15067764, 8594792],
        gp_Ym = [20073501, - 11623621, 3165391, - 13119866, 13188608, - 11540496, - 10751437, - 13482671, 29588810, 2197295],
        gp_T2 = [- 1084082, 11831693, 6031797, 14062724, 14748428, - 8159962, - 20721760, 11742548, 31368706, 13161200]\<rparr>,
     \<lparr>gp_Yp = [2050412, - 6457589, 15321215, 5273360, 25484180, 124590, - 18187548, - 7097255, - 6691621, - 14604792],
        gp_Ym = [9938196, 2162889, - 6158074, - 1711248, 4278932, - 2598531, - 22865792, - 7168500, - 24323168, 11746309],
        gp_T2 = [- 22691768, - 14268164, 5965485, 9383325, 20443693, 5854192, 28250679, - 1381811, - 10837134, 13717818]\<rparr>,
     \<lparr>gp_Yp = [- 8495530, 16382250, 9548884, - 4971523, - 4491811, - 3902147, 6182256, - 12832479, 26628081, 10395408],
        gp_Ym = [27329048, - 15853735, 7715764, 8717446, - 9215518, - 14633480, 28982250, - 5668414, 4227628, 242148],
        gp_T2 = [- 13279943, - 7986904, - 7100016, 8764468, - 27276630, 3096719, 29678419, - 9141299, 3906709, 11265498]\<rparr>,
     \<lparr>gp_Yp = [11918285, 15686328, - 17757323, - 11217300, - 27548967, 4853165, - 27168827, 6807359, 6871949, - 1075745],
        gp_Ym = [- 29002610, 13984323, - 27111812, - 2713442, 28107359, - 13266203, 6155126, 15104658, 3538727, - 7513788],
        gp_T2 = [14103158, 11233913, - 33165269, 9279850, 31014152, 4335090, - 1827936, 4590951, 13960841, 12787712]\<rparr>,
     \<lparr>gp_Yp = [1469134, - 16738009, 33411928, 13942824, 8092558, - 8778224, - 11165065, 1437842, 22521552, - 2792954],
        gp_Ym = [31352705, - 4807352, - 25327300, 3962447, 12541566, - 9399651, - 27425693, 7964818, - 23829869, 5541287],
        gp_T2 = [- 25732021, - 6864887, 23848984, 3039395, - 9147354, 6022816, - 27421653, 10590137, 25309915, - 1584678]\<rparr>,
     \<lparr>gp_Yp = [- 22951376, 5048948, 31139401, - 190316, - 19542447, - 626310, - 17486305, - 16511925, - 18851313, - 12985140],
        gp_Ym = [- 9684890, 14681754, 30487568, 7717771, - 10829709, 9630497, 30290549, - 10531496, - 27798994, - 13812825],
        gp_T2 = [5827835, 16097107, - 24501327, 12094619, 7413972, 11447087, 28057551, - 1793987, - 14056981, 4359312]\<rparr>,
     \<lparr>gp_Yp = [26323183, 2342588, - 21887793, - 1623758, - 6062284, 2107090, - 28724907, 9036464, - 19618351, - 13055189],
        gp_Ym = [- 29697200, 14829398, - 4596333, 14220089, - 30022969, 2955645, 12094100, - 13693652, - 5941445, 7047569],
        gp_T2 = [- 3201977, 14413268, - 12058324, - 16417589, - 9035655, - 7224648, 9258160, 1399236, 30397584, - 5684634]\<rparr>]"

definition P_W_WIDTH :: int where "P_W_WIDTH = 3"

definition B_W_WIDTH :: int where "B_W_WIDTH = 5"

definition P_W_SIZE :: nat where "P_W_SIZE = 2 ^ nat (P_W_WIDTH - 2)"

text \<open>The table of odd multiples: each entry is the one before plus the double.\<close>

primrec lut_fill :: "nat \<Rightarrow> ge \<Rightarrow> ge_cached list \<Rightarrow> ge_cached list option" where
  "lut_fill 0 a2 lut = Some lut"
| "lut_fill (Suc n) a2 lut = do {tmp \<leftarrow> ge_add a2 (last lut); c \<leftarrow> ge_cache tmp; lut_fill n a2 (lut @ [c])}"

text \<open>One turn of the merged loop, for bit \<open>i\<close>, and the loop from bit \<open>n - 1\<close> to 0.\<close>

definition add_digit :: "ge \<Rightarrow> ge_cached list \<Rightarrow> int \<Rightarrow> ge option" where
  "add_digit acc lut h_digit = do {
     acc \<leftarrow> (if h_digit > 0 then do {q \<leftarrow> look lut (h_digit div 2); ge_add acc q} else Some acc);
     (if h_digit < 0 then do {q \<leftarrow> look lut (- h_digit div 2); ge_sub acc q} else Some acc)}"

definition add_base_digit :: "ge \<Rightarrow> int \<Rightarrow> ge option" where
  "add_base_digit acc s_digit = do {
     acc \<leftarrow> (if s_digit > 0 then do {q \<leftarrow> look b_window (s_digit div 2); ge_madd acc q} else Some acc);
     (if s_digit < 0 then do {q \<leftarrow> look b_window (- s_digit div 2); ge_msub acc q} else Some acc)}"

primrec equation_loop :: "ge_cached list \<Rightarrow> bytes \<Rightarrow> bytes \<Rightarrow> nat \<Rightarrow> slide_ctx \<Rightarrow> slide_ctx \<Rightarrow> ge \<Rightarrow> ge option" where
  "equation_loop lut h s 0 h_slide s_slide acc = Some acc"
| "equation_loop lut h s (Suc i) h_slide s_slide acc = do {
     acc \<leftarrow> ge_double acc;
     let (h_slide, h_digit) = slide_step h_slide P_W_WIDTH (int i) h;
     let (s_slide, s_digit) = slide_step s_slide B_W_WIDTH (int i) s;
     acc \<leftarrow> add_digit acc lut h_digit;
     acc \<leftarrow> add_base_digit acc s_digit;
     equation_loop lut h s i h_slide s_slide acc}"

definition check_points :: "ge \<Rightarrow> ge \<Rightarrow> bytes \<Rightarrow> bytes \<Rightarrow> int option" where
  "check_points minus_A minus_R s h = do {
     minus_A2 \<leftarrow> ge_double minus_A;
     c \<leftarrow> ge_cache minus_A;
     lutA \<leftarrow> lut_fill (P_W_SIZE - 1) minus_A2 [c];
     let h_slide = slide_init h;
     let s_slide = slide_init s;
     let i = max (sl_next_check h_slide) (sl_next_check s_slide);
     acc \<leftarrow> equation_loop lutA h s (nat (i + 1)) h_slide s_slide ge_zero;
     cached \<leftarrow> ge_cache minus_R;
     acc \<leftarrow> ge_add acc cached;
     acc \<leftarrow> ge_double acc;
     acc \<leftarrow> ge_double acc;
     acc \<leftarrow> ge_double acc;
     check \<leftarrow> ge_tobytes acc;
     Some (crypto_verify32 check (1 # replicate 31 0))}"

definition crypto_eddsa_check_equation :: "bytes \<Rightarrow> bytes \<Rightarrow> bytes \<Rightarrow> int option" where
  "crypto_eddsa_check_equation signature public_key h =
     (let s = drop 32 signature; s32 = load32_le_buf s 8
      in do {
        (ra, minus_A) \<leftarrow> ge_frombytes_neg_vartime public_key;
        if ra \<noteq> 0 then Some (- 1)
        else do {
          (rr, minus_R) \<leftarrow> ge_frombytes_neg_vartime (take 32 signature);
          if rr \<noteq> 0 then Some (- 1)
          else if is_above_l s32 \<noteq> 0 then Some (- 1)
          else do {minus_A \<leftarrow> minus_A; minus_R \<leftarrow> minus_R; check_points minus_A minus_R s h}}})"

text \<open>
  The comb. The choice of the entry reads all eight and keeps the one that is meant, the sign swaps two coordinates and
  takes the negated third; the last choice stays in \<open>tmp_c\<close>.
\<close>

definition comb_select :: "ge_precomp list \<Rightarrow> int \<Rightarrow> ge_precomp \<Rightarrow> ge_precomp" where
  "comb_select comb index tmp_c =
     fold (\<lambda>j c.
       (let select = 1 AND drop_bit 8 ((int j XOR index) - 1)
        in \<lparr>gp_Yp = fe_ccopy (gp_Yp c) (gp_Yp (comb ! j)) select, gp_Ym = fe_ccopy (gp_Ym c) (gp_Ym (comb ! j)) select,
            gp_T2 = fe_ccopy (gp_T2 c) (gp_T2 (comb ! j)) select\<rparr>)) [0..<8] tmp_c"

definition comb_teeth :: "bytes \<Rightarrow> int \<Rightarrow> int" where
  "comb_teeth scalar i =
     scalar_bit scalar i + push_bit 1 (scalar_bit scalar (i + 32)) +
     push_bit 2 (scalar_bit scalar (i + 64)) + push_bit 3 (scalar_bit scalar (i + 96))"

definition lookup_add :: "ge \<Rightarrow> ge_precomp \<Rightarrow> ge_precomp list \<Rightarrow> bytes \<Rightarrow> int \<Rightarrow> (ge \<times> ge_precomp) option" where
  "lookup_add p tmp_c comb scalar i =
     (let teeth = comb_teeth scalar i;
          high = drop_bit 3 teeth;
          index = (teeth XOR (high - 1)) AND 7;
          tmp_c = comb_select comb index tmp_c
      in do {
        tmp_a \<leftarrow> fe_neg (gp_T2 tmp_c);
        let (t2, tmp_a) = fe_cswap (gp_T2 tmp_c) tmp_a (high XOR 1);
        let (yp, ym) = fe_cswap (gp_Yp tmp_c) (gp_Ym tmp_c) (high XOR 1);
        let tmp_c = \<lparr>gp_Yp = yp, gp_Ym = ym, gp_T2 = t2\<rparr>;
        p \<leftarrow> ge_madd p tmp_c;
        Some (p, tmp_c)})"

definition half_mod_L :: bytes where
  "half_mod_L = [247,233,122,46,141,49,9,44,107,206,123,81,239,124,111,10,0,0,0,0,0,0,0,0,0,0,0,0,0,0,0,8]"

definition half_ones :: bytes where
  "half_ones =
     [142,74,204,70,186,24,118,107,184,231,190,57,250,173,119,99,255,255,255,255,255,255,255,255,255,255,255,255,255,255,255,7]"

primrec comb_loop :: "bytes \<Rightarrow> nat \<Rightarrow> ge \<Rightarrow> ge_precomp \<Rightarrow> ge option" where
  "comb_loop s_scalar 0 p tmp_c = Some p"
| "comb_loop s_scalar (Suc i) p tmp_c = do {
     p \<leftarrow> ge_double p;
     (p, tmp_c) \<leftarrow> lookup_add p tmp_c b_comb_low s_scalar (int i);
     (p, tmp_c) \<leftarrow> lookup_add p tmp_c b_comb_high s_scalar (int i + 128);
     comb_loop s_scalar i p tmp_c}"

definition ge_scalarmult_base :: "bytes \<Rightarrow> ge option" where
  "ge_scalarmult_base scalar =
     (let s_scalar = crypto_eddsa_mul_add scalar half_mod_L half_ones;
          tmp_c = \<lparr>gp_Yp = fe_1, gp_Ym = fe_1, gp_T2 = fe_0\<rparr>
      in do {
        (p, tmp_c) \<leftarrow> lookup_add ge_zero tmp_c b_comb_low s_scalar 31;
        (p, tmp_c) \<leftarrow> lookup_add p tmp_c b_comb_high s_scalar (31 + 128);
        comb_loop s_scalar 31 p tmp_c})"

definition crypto_eddsa_scalarbase :: "bytes \<Rightarrow> bytes option" where
  "crypto_eddsa_scalarbase scalar = do {P \<leftarrow> ge_scalarmult_base scalar; ge_tobytes P}"

text \<open>The secret key, the public key, and the seed, which is erased.\<close>

definition crypto_eddsa_key_pair :: "bytes \<Rightarrow> (bytes \<times> bytes \<times> bytes) option" where
  "crypto_eddsa_key_pair seed =
     (let a = take 32 seed;
          h = crypto_blake2b 64 a 32;
          a' = crypto_eddsa_trim_scalar h
      in do {
        pk \<leftarrow> crypto_eddsa_scalarbase a';
        Some (a @ pk, pk, crypto_wipe seed 32)})"

definition hash_reduce :: "bytes \<Rightarrow> nat \<Rightarrow> bytes \<Rightarrow> nat \<Rightarrow> bytes \<Rightarrow> nat \<Rightarrow> bytes" where
  "hash_reduce a a_size b b_size c c_size =
     (let ctx = crypto_blake2b_init 64;
          ctx = crypto_blake2b_update ctx a a_size;
          ctx = crypto_blake2b_update ctx b b_size;
          ctx = crypto_blake2b_update ctx c c_size
      in crypto_eddsa_reduce (crypto_blake2b_final ctx))"

text \<open>Trimming in place changes the first 32 bytes of the hash only; the rest is the prefix of the nonce.\<close>

definition crypto_eddsa_sign :: "bytes \<Rightarrow> bytes \<Rightarrow> nat \<Rightarrow> bytes option" where
  "crypto_eddsa_sign secret_key message message_size =
     (let a = crypto_blake2b 64 secret_key 32;
          a = crypto_eddsa_trim_scalar a @ drop 32 a;
          r = hash_reduce (drop 32 a) 32 message message_size [] 0
      in do {
        R \<leftarrow> crypto_eddsa_scalarbase r;
        let h = hash_reduce R 32 (drop 32 secret_key) 32 message message_size;
        Some (R @ crypto_eddsa_mul_add h (take 32 a) r)})"

definition crypto_eddsa_check :: "bytes \<Rightarrow> bytes \<Rightarrow> bytes \<Rightarrow> nat \<Rightarrow> int option" where
  "crypto_eddsa_check signature public_key message message_size =
     crypto_eddsa_check_equation signature public_key
       (hash_reduce signature 32 public_key 32 message message_size)"

definition crypto_eddsa_to_x25519 :: "bytes \<Rightarrow> bytes option" where
  "crypto_eddsa_to_x25519 eddsa = do {
     t2 \<leftarrow> fe_frombytes eddsa;
     t1 \<leftarrow> fe_add fe_1 t2;
     t2 \<leftarrow> fe_sub fe_1 t2;
     t2 \<leftarrow> fe_invert t2;
     t1 \<leftarrow> fe_mul t1 t2;
     fe_tobytes t1}"

definition crypto_x25519_to_eddsa :: "bytes \<Rightarrow> bytes option" where
  "crypto_x25519_to_eddsa x25519 = do {
     t2 \<leftarrow> fe_frombytes x25519;
     t1 \<leftarrow> fe_sub t2 fe_1;
     t2 \<leftarrow> fe_add t2 fe_1;
     t2 \<leftarrow> fe_invert t2;
     t1 \<leftarrow> fe_mul t1 t2;
     fe_tobytes t1}"

section \<open>No overflow\<close>

text \<open>Elements of points within the bound of the carry; operands of additions may be sums of two.\<close>

definition ge_ok :: "ge \<Rightarrow> bool" where
  "ge_ok g \<longleftrightarrow> tight (ge_X g) \<and> tight (ge_Y g) \<and> tight (ge_Z g) \<and> tight (ge_T g)"

definition bounded :: "int \<Rightarrow> fe \<Rightarrow> bool" where
  "bounded k f \<longleftrightarrow> (\<exists>v. is_fe k f v)"

definition cached_ok :: "ge_cached \<Rightarrow> bool" where
  "cached_ok c \<longleftrightarrow> bounded 2 (gc_Yp c) \<and> bounded 2 (gc_Ym c) \<and> bounded 1 (gc_Z c) \<and> bounded 1 (gc_T2 c)"

definition precomp_ok :: "ge_precomp \<Rightarrow> bool" where
  "precomp_ok c \<longleftrightarrow> bounded 2 (gp_Yp c) \<and> bounded 2 (gp_Ym c) \<and> bounded 1 (gp_T2 c)"

lemma ge_ok_elements: "ge_ok g \<longleftrightarrow> bounded 1 (ge_X g) \<and> bounded 1 (ge_Y g) \<and> bounded 1 (ge_Z g) \<and> bounded 1 (ge_T g)"
  unfolding ge_ok_def bounded_def by (metis tight_is_fe is_fe_tight)

lemma ge_okE:
  assumes "ge_ok p"
  obtains x y z t where "is_fe 1 (ge_X p) x" and "is_fe 1 (ge_Y p) y" and "is_fe 1 (ge_Z p) z" and "is_fe 1 (ge_T p) t"
  using assms unfolding ge_ok_elements bounded_def by blast

lemma ge_okI:
  "is_fe 1 X x \<Longrightarrow> is_fe 1 Y y \<Longrightarrow> is_fe 1 Z z \<Longrightarrow> is_fe 1 T t \<Longrightarrow> ge_ok \<lparr>ge_X = X, ge_Y = Y, ge_Z = Z, ge_T = T\<rparr>"
  by (simp add: ge_ok_def is_fe_tight)

lemma ge_zero_ok: "ge_ok ge_zero"
  by (simp add: ge_ok_def ge_zero_def constants_tight)

lemma coords_ok: "coords z g P \<Longrightarrow> ge_ok g"
  by (simp add: coords_def ge_ok_def is_fe_tight)

lemma ge_double_total: "ge_ok p \<Longrightarrow> post (ge_double p) ge_ok"
proof (elim ge_okE)
  fix x y z t assume p: "is_fe 1 (ge_X p) x" "is_fe 1 (ge_Y p) y" "is_fe 1 (ge_Z p) z" "is_fe 1 (ge_T p) t"
  show ?thesis
    unfolding ge_double_def by (rule fe_steps ge_okI p | assumption | simp (no_asm); fail)+
qed

lemma ge_cache_total: "ge_ok p \<Longrightarrow> post (ge_cache p) cached_ok"
proof (elim ge_okE)
  fix x y z t assume p: "is_fe 1 (ge_X p) x" "is_fe 1 (ge_Y p) y" "is_fe 1 (ge_Z p) z" "is_fe 1 (ge_T p) t"
  show ?thesis
    unfolding ge_cache_def is_fe_copy [OF p(3)]
    apply (rule fe_steps p ed_constants | assumption | simp (no_asm); fail)+
    using p(3) by (auto simp: cached_ok_def bounded_def)
qed

lemma ge_add_total:
  assumes "ge_ok p" and "cached_ok c"
  shows "post (ge_add p c) ge_ok"
proof -
  obtain x y z t where p: "is_fe 1 (ge_X p) x" "is_fe 1 (ge_Y p) y" "is_fe 1 (ge_Z p) z" "is_fe 1 (ge_T p) t"
    using assms(1) by (rule ge_okE)
  obtain u v w s where c: "is_fe 2 (gc_Yp c) u" "is_fe 2 (gc_Ym c) v" "is_fe 1 (gc_Z c) w" "is_fe 1 (gc_T2 c) s"
    using assms(2) unfolding cached_ok_def bounded_def by blast
  show ?thesis
    unfolding ge_add_def by (rule fe_steps ge_okI p c | assumption | simp (no_asm); fail)+
qed

lemma ge_madd_total:
  assumes "ge_ok p" and "precomp_ok c"
  shows "post (ge_madd p c) ge_ok"
proof -
  obtain x y z t where p: "is_fe 1 (ge_X p) x" "is_fe 1 (ge_Y p) y" "is_fe 1 (ge_Z p) z" "is_fe 1 (ge_T p) t"
    using assms(1) by (rule ge_okE)
  obtain u v s where c: "is_fe 2 (gp_Yp c) u" "is_fe 2 (gp_Ym c) v" "is_fe 1 (gp_T2 c) s"
    using assms(2) unfolding precomp_ok_def bounded_def by blast
  show ?thesis
    unfolding ge_madd_def by (rule fe_steps ge_okI p c | assumption | simp (no_asm); fail)+
qed

lemma bounded_copy: "bounded k f \<Longrightarrow> fe_copy f = f"
  unfolding bounded_def by (blast intro: is_fe_copy)

lemma neg_total: "bounded 1 f \<Longrightarrow> (\<And>h. bounded 1 h \<Longrightarrow> post (c h) Q) \<Longrightarrow> post (Option.bind (fe_neg f) c) Q"
  unfolding bounded_def by (blast intro: neg_step)

lemma ge_sub_total:
  assumes "ge_ok p" and "cached_ok c"
  shows "post (ge_sub p c) ge_ok"
proof -
  have c: "bounded 2 (gc_Yp c)" "bounded 2 (gc_Ym c)" "bounded 1 (gc_Z c)" "bounded 1 (gc_T2 c)"
    using assms(2) by (simp_all add: cached_ok_def)
  show ?thesis
    unfolding ge_sub_def c [THEN bounded_copy]
    by (rule neg_total [OF c(4)]) (rule ge_add_total [OF assms(1)], simp add: cached_ok_def c)
qed

lemma ge_msub_total:
  assumes "ge_ok p" and "precomp_ok c"
  shows "post (ge_msub p c) ge_ok"
proof -
  have c: "bounded 2 (gp_Yp c)" "bounded 2 (gp_Ym c)" "bounded 1 (gp_T2 c)"
    using assms(2) by (simp_all add: precomp_ok_def)
  show ?thesis
    unfolding ge_msub_def c [THEN bounded_copy]
    by (rule neg_total [OF c(3)]) (rule ge_madd_total [OF assms(1)], simp add: precomp_ok_def c)
qed

lemma ge_tobytes_total: "ge_ok g \<Longrightarrow> post (ge_tobytes g) (\<lambda>s. length s = 32)"
proof (elim ge_okE)
  fix x y z t assume p: "is_fe 1 (ge_X g) x" "is_fe 1 (ge_Y g) y" "is_fe 1 (ge_Z g) z"
  show ?thesis
    unfolding ge_tobytes_def
    by (rule fe_steps p | assumption | simp; fail)+
qed

lemma ge_frombytes_total:
  "length s = 32 \<Longrightarrow> post (ge_frombytes_neg_vartime s) (\<lambda>(r, g). r = - 1 \<or> r = 0 \<and> (\<exists>h. g = Some h \<and> ge_ok h))"
  by (rule post_mono, rule ge_frombytes_ok, assumption) (auto intro: coords_ok)

text \<open>The entries of the tables.\<close>

lemma tight_bounded: "tight f \<Longrightarrow> bounded 1 f \<and> bounded 2 f"
proof -
  assume "tight f"
  then have a: "is_fe 1 f (fe_mod f)" by (rule tight_is_fe)
  have "is_fe 2 f (fe_mod f)" by (rule is_fe_mono [OF a]) simp
  then show ?thesis unfolding bounded_def using a by blast
qed

lemma tight_precomp: "tight (gp_Yp c) \<and> tight (gp_Ym c) \<and> tight (gp_T2 c) \<Longrightarrow> precomp_ok c"
  by (simp add: precomp_ok_def tight_bounded)

definition precomp_tight :: "ge_precomp \<Rightarrow> bool" where
  "precomp_tight c \<longleftrightarrow> tight (gp_Yp c) \<and> tight (gp_Ym c) \<and> tight (gp_T2 c)"

lemma tight_code [code]: "tight h \<longleftrightarrow> length h = 10 \<and> within 36909875 18454937 h"
  by (simp add: tight_def)

lemma tables_tight: "list_all precomp_tight b_window" "list_all precomp_tight b_comb_low"
  "list_all precomp_tight b_comb_high"
  by code_simp+

lemma tables_ok:
  "c \<in> set b_window \<Longrightarrow> precomp_ok c" "c \<in> set b_comb_low \<Longrightarrow> precomp_ok c" "c \<in> set b_comb_high \<Longrightarrow> precomp_ok c"
  using tables_tight by (auto simp: list_all_iff precomp_tight_def intro!: tight_precomp)

section \<open>The check never goes wrong\<close>

lemma post_step: "post r P \<Longrightarrow> (\<And>a. P a \<Longrightarrow> post (c a) Q) \<Longrightarrow> post (Option.bind r c) Q"
  by (rule post_bind) (rule post_mono)

lemma look_ok: "0 \<le> i \<Longrightarrow> i < int (length xs) \<Longrightarrow> \<exists>x \<in> set xs. look xs i = Some x"
  by (simp add: look_def)

lemma good_index: "good_digit width d \<Longrightarrow> 2 \<le> width \<Longrightarrow> 0 < d \<Longrightarrow> 0 \<le> d div 2 \<and> d div 2 < 2 ^ nat (width - 2)"
proof -
  assume a: "good_digit width d" "2 \<le> width" "0 < d"
  have "nat (width - 1) = Suc (nat (width - 2))" using a(2) by simp
  then have "d < 2 * 2 ^ nat (width - 2)" using a by (simp add: good_digit_def)
  then show ?thesis using a(3) by simp
qed

lemma good_digit_neg: "good_digit width (- d) \<longleftrightarrow> good_digit width d"
  by (simp add: good_digit_def)

lemma add_digit_total:
  assumes "ge_ok p" and "length lut = 2" and "\<forall>c \<in> set lut. cached_ok c" and "d = 0 \<or> good_digit P_W_WIDTH d"
  shows "post (add_digit p lut d) ge_ok"
proof -
  consider "d = 0" | "0 < d" | "d < 0" by linarith
  then show ?thesis
  proof cases
    case 2
    then obtain c where "c \<in> set lut" "look lut (d div 2) = Some c"
      using look_ok [of "d div 2" lut] good_index [of P_W_WIDTH d] assms(2,4) by (auto simp: P_W_WIDTH_def)
    then show ?thesis using 2 ge_add_total [OF assms(1)] assms(3) by (auto simp: add_digit_def)
  next
    case 3
    then obtain c where "c \<in> set lut" "look lut (- d div 2) = Some c"
      using look_ok [of "- d div 2" lut] good_index [of P_W_WIDTH "- d"] assms(2,4) by (auto simp: P_W_WIDTH_def good_digit_neg)
    then show ?thesis using 3 ge_sub_total [OF assms(1)] assms(3) by (auto simp: add_digit_def)
  qed (simp add: add_digit_def post_Some assms(1))
qed

lemma add_base_digit_total:
  assumes "ge_ok p" and "d = 0 \<or> good_digit B_W_WIDTH d"
  shows "post (add_base_digit p d) ge_ok"
proof -
  have l: "length b_window = 8" by (simp add: b_window_def)
  consider "d = 0" | "0 < d" | "d < 0" by linarith
  then show ?thesis
  proof cases
    case 2
    then obtain c where "c \<in> set b_window" "look b_window (d div 2) = Some c"
      using look_ok [of "d div 2" b_window] good_index [of B_W_WIDTH d] assms(2) l by (auto simp: B_W_WIDTH_def)
    then show ?thesis using 2 ge_madd_total [OF assms(1)] tables_ok(1) by (auto simp: add_base_digit_def)
  next
    case 3
    then obtain c where "c \<in> set b_window" "look b_window (- d div 2) = Some c"
      using look_ok [of "- d div 2" b_window] good_index [of B_W_WIDTH "- d"] assms(2) l by (auto simp: B_W_WIDTH_def good_digit_neg)
    then show ?thesis using 3 ge_msub_total [OF assms(1)] tables_ok(1) by (auto simp: add_base_digit_def)
  qed (simp add: add_base_digit_def post_Some assms(1))
qed

lemma equation_loop_total:
  assumes "length h = 32" and "length s = 32" and "length lut = 2" and "\<forall>c \<in> set lut. cached_ok c"
  shows "ge_ok p \<Longrightarrow> slide_inv P_W_WIDTH n hs \<Longrightarrow> slide_inv B_W_WIDTH n ss \<Longrightarrow> post (equation_loop lut h s n hs ss p) ge_ok"
proof (induction n arbitrary: hs ss p)
  case 0
  then show ?case by (simp add: post_Some)
next
  case (Suc i)
  obtain hs' hd where h: "slide_step hs P_W_WIDTH (int i) h = (hs', hd)" by (cases "slide_step hs P_W_WIDTH (int i) h")
  obtain ss' sd where s: "slide_step ss B_W_WIDTH (int i) s = (ss', sd)" by (cases "slide_step ss B_W_WIDTH (int i) s")
  have w: "2 \<le> P_W_WIDTH" "P_W_WIDTH \<le> 5" "2 \<le> B_W_WIDTH" "B_W_WIDTH \<le> 5" by (simp_all add: P_W_WIDTH_def B_W_WIDTH_def)
  note hi = slide_step_ok [OF assms(1) w(1,2) Suc.prems(2) h] and si = slide_step_ok [OF assms(2) w(3,4) Suc.prems(3) s]
  show ?case
    unfolding equation_loop.simps h s Let_def prod.case
    by (intro post_step [OF ge_double_total [OF Suc.prems(1)]] post_step [OF add_digit_total]
        post_step [OF add_base_digit_total] Suc.IH assms) (use hi si in blast)+
qed

lemma lut_total:
  assumes "ge_ok a2" and "cached_ok c"
  shows "post (lut_fill (P_W_SIZE - 1) a2 [c]) (\<lambda>lut. length lut = 2 \<and> (\<forall>c \<in> set lut. cached_ok c))"
proof -
  have "P_W_SIZE - 1 = Suc 0" by (simp add: P_W_SIZE_def P_W_WIDTH_def)
  then show ?thesis
    by (simp del: One_nat_def) (intro post_bind post_mono [OF ge_add_total [OF assms]] post_mono [OF ge_cache_total];
    simp add: post_Some assms(2))
qed

lemma check_points_total:
  assumes "ge_ok A" and "ge_ok R" and "length s = 32" and "length h = 32"
  shows "post (check_points A R s h) (\<lambda>r. r = 0 \<or> r = - 1)"
proof -
  let ?i = "max (sl_next_check (slide_init h)) (sl_next_check (slide_init s))"
  have t: "slide_top x 252 \<le> 252" for x by (rule slide_top_bound)
  have "sl_next_check (slide_init x) = int (slide_top x 252) + 1" for x using t [of x] by (simp add: slide_init_def take_bit_int_eq_self)
  then have b: "sl_next_check (slide_init x) < int (nat (?i + 1))" "nat (?i + 1) \<le> 254" if "x = h \<or> x = s" for x
    using t [of h] t [of s] that by auto
  have i: "slide_inv w (nat (?i + 1)) (slide_init h)" "slide_inv w (nat (?i + 1)) (slide_init s)" for w
    using b by (intro slide_init_inv; blast)+
  show ?thesis
    unfolding check_points_def Let_def
    apply (rule post_step [OF ge_double_total [OF assms(1)]])
    apply (rule post_step [OF ge_cache_total [OF assms(1)]])
    apply (rule post_step [OF lut_total], assumption+)
    apply (rule post_step [OF equation_loop_total [OF assms(4,3) _ _ ge_zero_ok i]], blast, blast)
    apply (rule post_step [OF ge_cache_total [OF assms(2)]])
    apply (rule post_step [OF ge_add_total], assumption+)
    apply (rule post_step [OF ge_double_total], assumption)+
    apply (rule post_step [OF ge_tobytes_total], assumption)
    by (simp add: post_Some verify32)
qed

section \<open>The comb\<close>

definition entry_ok :: "ge_precomp \<Rightarrow> bool" where
  "entry_ok c \<longleftrightarrow> length (gp_Yp c) = 10 \<and> length (gp_Ym c) = 10 \<and> length (gp_T2 c) = 10"

lemma precomp_tight_entry: "precomp_tight c \<Longrightarrow> entry_ok c"
  by (simp add: precomp_tight_def entry_ok_def tight_def)

lemma select_flag:
  assumes "j < 8" and "0 \<le> k" and "k < 8"
  shows "1 AND drop_bit 8 ((int j XOR k) - 1) = (if int j = k then 1 else 0)"
proof -
  have "list_all (\<lambda>j. list_all (\<lambda>k. 1 AND drop_bit 8 ((j XOR k) - 1) = (if j = k then 1 else 0)) [0..7]) [0..7 :: int]"
    by code_simp
  moreover have "int j \<in> set [0..7]" "k \<in> set [0..7]" using assms by simp_all
  ultimately show ?thesis unfolding list_all_iff by blast
qed

lemma comb_select_entry:
  assumes "length comb = 8" and "\<forall>c \<in> set comb. entry_ok c" and "entry_ok tmp" and "0 \<le> index" and "index < 8"
  shows "comb_select comb index tmp = comb ! nat index"
proof -
  let ?f = "\<lambda>j c. (let select = 1 AND drop_bit 8 ((int j XOR index) - 1)
        in \<lparr>gp_Yp = fe_ccopy (gp_Yp c) (gp_Yp (comb ! j)) select, gp_Ym = fe_ccopy (gp_Ym c) (gp_Ym (comb ! j)) select,
            gp_T2 = fe_ccopy (gp_T2 c) (gp_T2 (comb ! j)) select\<rparr>)"
  have "entry_ok (fold ?f [0..<n] tmp) \<and> fold ?f [0..<n] tmp = (if index < int n then comb ! nat index else tmp)" if "n \<le> 8" for n
    using that
  proof (induction n)
    case (Suc n)
    let ?c = "fold ?f [0..<n] tmp"
    have c: "entry_ok ?c" "?c = (if index < int n then comb ! nat index else tmp)" "entry_ok (comb ! n)"
      using Suc assms(1,2,3) by simp_all
    have "?f n ?c = (if int n = index then comb ! n else ?c)"
      using c(1,3) Suc.prems by (simp add: Let_def select_flag assms(4,5) fe_ccopy_ok entry_ok_def)
    then have "fold ?f [0..<Suc n] tmp = (if int n = index then comb ! n else ?c)" by simp
    then show ?case using c by auto
  qed (use assms in simp)
  from this [of 8] show ?thesis using assms(5) by (simp add: comb_select_def)
qed

text \<open>What the four bits at the teeth choose.\<close>

lemma teeth_cases:
  assumes "length s = 32" and "0 \<le> i" and "i + 96 < 256"
  defines "t \<equiv> comb_teeth s i" and "b \<equiv> sbit (le_num s)"
  shows "t = b i + 2 * b (i + 32) + 4 * b (i + 64) + 8 * b (i + 96)"
    and "drop_bit 3 t = b (i + 96)"
    and "(t XOR (drop_bit 3 t - 1)) AND 7 =
      (if b (i + 96) = 1 then b i + 2 * b (i + 32) + 4 * b (i + 64) else 7 - (b i + 2 * b (i + 32) + 4 * b (i + 64)))"
proof -
  have s: "scalar_bit s i = b i" "scalar_bit s (i + 32) = b (i + 32)" "scalar_bit s (i + 64) = b (i + 64)"
    "scalar_bit s (i + 96) = b (i + 96)"
    using assms(2,3) by (simp_all add: b_def scalar_sbit [OF assms(1)])
  show t: "t = b i + 2 * b (i + 32) + 4 * b (i + 64) + 8 * b (i + 96)" by (simp add: t_def comb_teeth_def s push_bit_eq_mult)
  have "list_all (\<lambda>b0. list_all (\<lambda>b1. list_all (\<lambda>b2. list_all (\<lambda>b3.
      drop_bit 3 (b0 + 2 * b1 + 4 * b2 + 8 * b3) = b3 \<and>
      ((b0 + 2 * b1 + 4 * b2 + 8 * b3) XOR (b3 - 1)) AND 7 = (if b3 = 1 then b0 + 2 * b1 + 4 * b2 else 7 - (b0 + 2 * b1 + 4 * b2)))
      [0, 1]) [0, 1]) [0, 1]) [0, 1 :: int]"
    by code_simp
  moreover have "b j \<in> set [0, 1]" for j by (simp add: b_def sbit_def)
  ultimately have "drop_bit 3 t = b (i + 96) \<and> (t XOR (b (i + 96) - 1)) AND 7 =
      (if b (i + 96) = 1 then b i + 2 * b (i + 32) + 4 * b (i + 64) else 7 - (b i + 2 * b (i + 32) + 4 * b (i + 64)))"
    unfolding t list_all_iff by blast
  then show "drop_bit 3 t = b (i + 96)" "(t XOR (drop_bit 3 t - 1)) AND 7 =
      (if b (i + 96) = 1 then b i + 2 * b (i + 32) + 4 * b (i + 64) else 7 - (b i + 2 * b (i + 32) + 4 * b (i + 64)))"
    by simp_all
qed

text \<open>The entry that is added: the one of the three lower teeth as they are, or the opposite of that of their complement.\<close>

definition mirrored :: "ge_precomp \<Rightarrow> ge_precomp \<Rightarrow> bool" where
  "mirrored e c \<longleftrightarrow> gp_Yp c = gp_Ym e \<and> gp_Ym c = gp_Yp e \<and> fe_neg (gp_T2 e) = Some (gp_T2 c)"

lemma lookup_add_entry:
  assumes "length s = 32" and "0 \<le> i" and "i + 96 < 256" and "length comb = 8" and "\<forall>c \<in> set comb. precomp_tight c" and "entry_ok tmp"
  defines "b \<equiv> sbit (le_num s)"
  defines "low \<equiv> b i + 2 * b (i + 32) + 4 * b (i + 64)"
  shows "\<exists>c. precomp_ok c \<and> entry_ok c \<and>
    (if b (i + 96) = 1 then c = comb ! nat low else mirrored (comb ! nat (7 - low)) c) \<and>
    lookup_add p tmp comb s i = do {p \<leftarrow> ge_madd p c; Some (p, c)}"
proof -
  let ?t = "comb_teeth s i" and ?high = "b (i + 96)"
  define k where "k = (if ?high = 1 then low else 7 - low)"
  note t = teeth_cases [OF assms(1-3), folded b_def, folded low_def, folded k_def]
  have b01: "b j = 0 \<or> b j = 1" for j by (simp add: b_def sbit_def)
  have low: "0 \<le> low" "low < 8" using b01 [of i] b01 [of "i + 32"] b01 [of "i + 64"] by (auto simp: low_def)
  then have k: "0 \<le> k" "k < 8" by (simp_all add: k_def)
  define e where "e = comb ! nat k"
  have "e \<in> set comb" using k assms(4) by (simp add: e_def)
  then have e: "precomp_tight e" "entry_ok e" using assms(5) precomp_tight_entry by blast+
  obtain n where n: "fe_neg (gp_T2 e) = Some n"
    "tight n" using fe_neg_ok [of "gp_T2 e"] e(1) by (auto simp: precomp_tight_def)
  have sel: "comb_select comb k tmp = e"
    unfolding e_def using assms(4-6) k precomp_tight_entry by (intro comb_select_entry) auto
  have len: "length (gp_T2 e) = length n"
    "length (gp_Yp e) = length (gp_Ym e)" using e(2) n(2) by (simp_all add: entry_ok_def tight_def)
  define c where "c = (if ?high = 1 then e else \<lparr>gp_Yp = gp_Ym e, gp_Ym = gp_Yp e, gp_T2 = n\<rparr>)"
  have eta: "\<lparr>gp_Yp = gp_Yp e, gp_Ym = gp_Ym e, gp_T2 = gp_T2 e\<rparr> = e" by (cases e) simp
  have x: "?high XOR 1 = (if ?high = 1 then 0 else 1)" using b01 [of "i + 96"] by auto
  have "lookup_add p tmp comb s i = do {p \<leftarrow> ge_madd p c; Some (p, c)}"
    unfolding lookup_add_def Let_def t(3) unfolding t(2) sel n(1) Option.bind.simps x
    by (simp add: fe_cswap_ok len c_def eta)
  moreover have "precomp_ok c \<and> entry_ok c"
  proof -
    have "precomp_tight c" using e(1) n(2) by (auto simp: c_def precomp_tight_def)
    then show ?thesis by (intro conjI precomp_tight_entry tight_precomp) (simp_all add: precomp_tight_def)
  qed
  moreover have "if ?high = 1 then c = comb ! nat low else mirrored (comb ! nat (7 - low)) c"
    using n(1) by (auto simp: c_def e_def k_def mirrored_def)
  ultimately show ?thesis by blast
qed

lemma comb_tables: "length b_comb_low = 8" "length b_comb_high = 8" "\<forall>c \<in> set b_comb_low. precomp_tight c"
  "\<forall>c \<in> set b_comb_high. precomp_tight c"
proof -
  show "length b_comb_low = 8" "length b_comb_high = 8" by (simp_all add: b_comb_low_def b_comb_high_def)
  show "\<forall>c \<in> set b_comb_low. precomp_tight c" "\<forall>c \<in> set b_comb_high. precomp_tight c"
    using tables_tight(2,3) by (simp_all only: list_all_iff)
qed

lemma lookup_add_total:
  assumes "length s = 32" and "0 \<le> i" and "i + 96 < 256" and "length comb = 8" and "\<forall>c \<in> set comb. precomp_tight c"
    and "entry_ok tmp" and "ge_ok p"
  shows "post (lookup_add p tmp comb s i) (\<lambda>(p, tmp). ge_ok p \<and> entry_ok tmp)"
proof -
  obtain c where c: "precomp_ok c" "entry_ok c" "lookup_add p tmp comb s i = do {p \<leftarrow> ge_madd p c; Some (p, c)}"
    using lookup_add_entry [OF assms(1-6)] by blast
  show ?thesis unfolding c(3) by (rule post_step [OF ge_madd_total [OF assms(7) c(1)]]) (simp add: post_Some c(2))
qed

lemma comb_loop_total:
  "length s = 32 \<Longrightarrow> n \<le> 32 \<Longrightarrow> ge_ok p \<Longrightarrow> entry_ok tmp \<Longrightarrow> post (comb_loop s n p tmp) ge_ok"
proof (induction n arbitrary: p tmp)
  case (Suc i)
  have i: "0 \<le> int i" "int i + 96 < 256" "0 \<le> int i + 128" "int i + 128 + 96 < 256" using Suc.prems(2) by simp_all
  show ?case
    unfolding comb_loop.simps
    apply (rule post_step [OF ge_double_total [OF Suc.prems(3)]])
    apply (rule post_step [OF lookup_add_total [OF Suc.prems(1) i(1,2) comb_tables(1,3) Suc.prems(4)]], assumption)
    apply (clarsimp)
    apply (rule post_step [OF lookup_add_total [OF Suc.prems(1) i(3,4) comb_tables(2,4)]], assumption, assumption)
    using Suc by clarsimp
qed (simp add: post_Some)

lemma scalarbase_total:
  assumes "length scalar = 32"
  shows "post (crypto_eddsa_scalarbase scalar) (\<lambda>s. length s = 32)"
proof -
  let ?s = "crypto_eddsa_mul_add scalar half_mod_L half_ones" and ?t = "\<lparr>gp_Yp = fe_1, gp_Ym = fe_1, gp_T2 = fe_0\<rparr>"
  have s: "length ?s = 32"
    using mul_add_num [of scalar half_mod_L half_ones] assms by (simp add: half_mod_L_def half_ones_def)
  have t: "entry_ok ?t" by (simp add: entry_ok_def fe_0_def fe_1_def)
  have "post (ge_scalarmult_base scalar) ge_ok"
    unfolding ge_scalarmult_base_def Let_def
    apply (rule post_step [OF lookup_add_total [OF s _ _ comb_tables(1,3) t ge_zero_ok]], simp, simp)
    apply clarsimp
    apply (rule post_step [OF lookup_add_total [OF s _ _ comb_tables(2,4)]], simp, simp, assumption, assumption)
    using comb_loop_total [OF s] by clarsimp
  then show ?thesis unfolding crypto_eddsa_scalarbase_def by (rule post_step) (rule ge_tobytes_total)
qed

text \<open>
  The multiple of the base point that entry \<open>j\<close> of the lower table stands for: 2^96 and, for each of the three lower teeth,
  its power of two with the sign of the bit. \<open>tooth\<close> is the multiple that is added for position \<open>i\<close>.
\<close>

definition comb_multiple :: "int \<Rightarrow> int" where
  "comb_multiple j = 2 ^ 96 + (\<Sum>k<3. (if odd (j div 2 ^ k) then 1 else - 1) * 2 ^ (32 * k))"

definition tooth :: "nat \<Rightarrow> int \<Rightarrow> int" where
  "tooth n i =
     (let low = sbit n i + 2 * sbit n (i + 32) + 4 * sbit n (i + 64)
      in if sbit n (i + 96) = 1 then comb_multiple low else - comb_multiple (7 - low))"

lemma tooth_bits:
  "tooth n i = (2 * sbit n i - 1) + (2 * sbit n (i + 32) - 1) * 2 ^ 32 + (2 * sbit n (i + 64) - 1) * 2 ^ 64 +
     (2 * sbit n (i + 96) - 1) * 2 ^ 96"
proof -
  have b: "sbit n j = 0 \<or> sbit n j = 1" for j by (simp add: sbit_def)
  have m: "comb_multiple 0 = 2 ^ 96 - 2 ^ 64 - 2 ^ 32 - 1" "comb_multiple 1 = 2 ^ 96 - 2 ^ 64 - 2 ^ 32 + 1"
    "comb_multiple 2 = 2 ^ 96 - 2 ^ 64 + 2 ^ 32 - 1" "comb_multiple 3 = 2 ^ 96 - 2 ^ 64 + 2 ^ 32 + 1"
    "comb_multiple 4 = 2 ^ 96 + 2 ^ 64 - 2 ^ 32 - 1" "comb_multiple 5 = 2 ^ 96 + 2 ^ 64 - 2 ^ 32 + 1"
    "comb_multiple 6 = 2 ^ 96 + 2 ^ 64 + 2 ^ 32 - 1" "comb_multiple 7 = 2 ^ 96 + 2 ^ 64 + 2 ^ 32 + 1"
    by (simp_all add: comb_multiple_def eval_nat_numeral)
  show ?thesis
    using b [of i] b [of "i + 32"] b [of "i + 64"] b [of "i + 96"] by (elim disjE) (simp_all add: tooth_def m)
qed

lemma sbit_sum: "(\<Sum>j<n. sbit k (int j) * 2 ^ j) = int (k mod 2 ^ n)"
proof (induction n)
  case (Suc n)
  show ?case using booth_closed [of k n] booth_closed [of k "Suc n"] Suc by (simp add: algebra_simps)
qed simp

lemma ones_sum: "(\<Sum>j<n. 2 ^ j) = (2 :: int) ^ n - 1"
  by (induction n) simp_all

lemma sum_columns: "(\<Sum>j<256. f j) = (\<Sum>i<32. \<Sum>m<8. f (i + 32 * m))" for f :: "nat \<Rightarrow> int"
proof -
  have "(\<Sum>j<256. f j) = (\<Sum>m<8. sum f {m * 32..<m * 32 + 32})" using sum.nat_group [of f 32 8] by simp
  also have "\<dots> = (\<Sum>m<8. \<Sum>i<32. f (i + 32 * m))"
  proof (rule sum.cong [OF refl])
    fix m
    show "sum f {m * 32..<m * 32 + 32} = (\<Sum>i<32. f (i + 32 * m))"
      using sum.shift_bounds_nat_ivl [of f 0 "m * 32" 32] by (simp add: atLeast0LessThan ac_simps)
  qed
  also have "\<dots> = (\<Sum>i<32. \<Sum>m<8. f (i + 32 * m))" by (rule sum.swap)
  finally show ?thesis .
qed

lemma teeth_sum:
  assumes "n < 2 ^ 256"
  shows "(\<Sum>i<32. 2 ^ i * (tooth n (int i) + 2 ^ 128 * tooth n (int i + 128))) = 2 * int n - (2 ^ 256 - 1)"
proof -
  let ?f = "\<lambda>j. (2 * sbit n (int j) - 1) * 2 ^ j"
  have "2 ^ i * (tooth n (int i) + 2 ^ 128 * tooth n (int i + 128)) = (\<Sum>m<8. ?f (i + 32 * m))" for i
    by (simp add: tooth_bits eval_nat_numeral(2-) lessThan_Suc power_add algebra_simps)
  then have "(\<Sum>i<32. 2 ^ i * (tooth n (int i) + 2 ^ 128 * tooth n (int i + 128))) = (\<Sum>j<256. ?f j)"
    unfolding sum_columns by simp
  also have "\<dots> = 2 * (\<Sum>j<256. sbit n (int j) * 2 ^ j) - (\<Sum>j<256. 2 ^ j)"
    by (simp add: sum_distrib_left sum_subtractf [symmetric] algebra_simps)
  also have "\<dots> = 2 * int n - (2 ^ 256 - 1)" unfolding sbit_sum ones_sum using assms by simp
  finally show ?thesis .
qed

lemma half_nums: "2 * le_num half_mod_L = order_L + 1"
  "(2 * int (le_num half_ones)) mod int order_L = (2 ^ 256 - 1) mod int order_L"
    "length half_mod_L = 32" "length half_ones = 32"
  by (simp_all add: half_mod_L_def half_ones_def order_L_def)

text \<open>The comb of the scalar multiplication. For every 32-byte scalar, ge_scalarmult_base turns the scalar into a number whose 256 bits,
  read as 1 and -1, stand for the scalar modulo the order; the multiples of the base point that the two tables give for
  the 32 positions, each doubled as often as its position says and the upper ones 2^128 times, add up to it. What one
  lookup adds, reading all eight entries and swapping without a branch, is the entry its three lower teeth name when
  the highest is set, and else the opposite of the entry of their complement.\<close>

theorem comb_recoding:
  assumes "length scalar = 32" and "0 \<le> i" and "i + 96 < 256" and "entry_ok tmp" and "comb \<in> {b_comb_low, b_comb_high}"
  defines "t \<equiv> crypto_eddsa_mul_add scalar half_mod_L half_ones"
  shows "(\<Sum>i<32. 2 ^ i * (tooth (le_num t) (int i) + 2 ^ 128 * tooth (le_num t) (int i + 128))) mod int order_L =
      int (le_num scalar) mod int order_L \<and>
    (\<exists>c j. lookup_add p tmp comb t i = do {p \<leftarrow> ge_madd p c; Some (p, c)} \<and> 0 \<le> j \<and> j < 8 \<and>
      (c = comb ! nat j \<and> tooth (le_num t) i = comb_multiple j \<or>
       mirrored (comb ! nat j) c \<and> tooth (le_num t) i = - comb_multiple j))"
proof
  note n = mul_add_num [OF assms(1) half_nums(3,4), folded t_def]
  have "le_num t < 2 ^ 256" using n(2) by (simp add: order_L_def)
  note s = teeth_sum [OF this]
  have "(2 * int (le_num t) - (2 ^ 256 - 1)) mod int order_L =
      (2 * (int (le_num scalar) * int (le_num half_mod_L) + int (le_num half_ones)) - (2 ^ 256 - 1)) mod int order_L"
    unfolding n(2) zmod_int of_nat_add of_nat_mult by (intro mod_diff_cong mod_mult_right_eq refl)
  also have "2 * (int (le_num scalar) * int (le_num half_mod_L) + int (le_num half_ones)) - (2 ^ 256 - 1) =
      int (le_num scalar) * int (2 * le_num half_mod_L) + (2 * int (le_num half_ones) - (2 ^ 256 - 1))"
    by (simp add: algebra_simps)
  also have "\<dots> mod int order_L = (int (le_num scalar) * (int order_L + 1) + 0) mod int order_L"
  proof (rule mod_add_cong)
    show "(2 * int (le_num half_ones) - (2 ^ 256 - 1)) mod int order_L = 0 mod int order_L"
      using mod_diff_cong [OF half_nums(2) refl, of "2 ^ 256 - 1"] by simp
  qed (simp add: half_nums(1) add.commute)
  also have "\<dots> = int (le_num scalar) mod int order_L" by (simp add: distrib_left)
  finally show "(\<Sum>i<32. 2 ^ i * (tooth (le_num t) (int i) + 2 ^ 128 * tooth (le_num t) (int i + 128))) mod int order_L =
      int (le_num scalar) mod int order_L" unfolding s .
  have comb: "length comb = 8" "\<forall>c \<in> set comb. precomp_tight c" using assms(5) comb_tables by auto
  let ?b = "sbit (le_num t)"
  let ?l = "?b i + 2 * ?b (i + 32) + 4 * ?b (i + 64)"
  have l: "0 \<le> ?l" "?l < 8" by (simp_all add: sbit_def)
  obtain c where c: "if ?b (i + 96) = 1 then c = comb ! nat ?l else mirrored (comb ! nat (7 - ?l)) c"
    "lookup_add p tmp comb t i = do {p \<leftarrow> ge_madd p c; Some (p, c)}"
    using lookup_add_entry [OF n(1) assms(2,3) comb assms(4)] by blast
  show "\<exists>c j. lookup_add p tmp comb t i = do {p \<leftarrow> ge_madd p c; Some (p, c)} \<and> 0 \<le> j \<and> j < 8 \<and>
      (c = comb ! nat j \<and> tooth (le_num t) i = comb_multiple j \<or>
       mirrored (comb ! nat j) c \<and> tooth (le_num t) i = - comb_multiple j)"
  proof (cases "?b (i + 96) = 1")
    case True
    then show ?thesis using c l by (intro exI [of _ c] exI [of _ ?l]) (simp add: tooth_def Let_def)
  next
    case False
    then show ?thesis using c l by (intro exI [of _ c] exI [of _ "7 - ?l"]) (simp add: tooth_def Let_def)
  qed
qed

theorem comb_recoding_witness:
  "(\<Sum>i<32. 2 ^ i * (tooth (le_num (crypto_eddsa_mul_add (9 # replicate 31 0) half_mod_L half_ones)) (int i) +
      2 ^ 128 * tooth (le_num (crypto_eddsa_mul_add (9 # replicate 31 0) half_mod_L half_ones)) (int i + 128))) mod int order_L = 9"
proof -
  have "entry_ok \<lparr>gp_Yp = fe_1, gp_Ym = fe_1, gp_T2 = fe_0\<rparr>" by (simp add: entry_ok_def fe_0_def fe_1_def)
  from comb_recoding [OF _ _ _ this, of "9 # replicate 31 0" 31 b_comb_low] show ?thesis by (simp add: order_L_def)
qed

section \<open>Keys, signatures, checks\<close>

text \<open>The scalar of a hash: the parts of the message hashed as one, reduced modulo the order.\<close>

definition hash_scalar :: "bytes \<Rightarrow> nat" where
  "hash_scalar m = le_num (blake2b_spec 64 [] m) mod order_L"

lemma update_take: "crypto_blake2b_update ctx m n = crypto_blake2b_update ctx (take n m) n"
  by (simp add: crypto_blake2b_update_def)

lemma blake2b_take: "n \<le> length m \<Longrightarrow> crypto_blake2b 64 m n = blake2b_spec 64 [] (take n m)"
  using blake2b_parts [of "[]" 64 "[take n m]"] update_take [of _ m n]
  by (simp add: crypto_blake2b_def crypto_blake2b_keyed_def min_absorb2)

lemma hash_reduce_ok:
  assumes "la \<le> length a" and "lb \<le> length b" and "lc \<le> length c"
  shows "length (hash_reduce a la b lb c lc) = 32"
    and "le_num (hash_reduce a la b lb c lc) = hash_scalar (take la a @ take lb b @ take lc c)"
proof -
  have "crypto_blake2b_final (crypto_blake2b_update (crypto_blake2b_update (crypto_blake2b_update (crypto_blake2b_init 64) a la) b lb) c lc) =
      blake2b_spec 64 [] (take la a @ take lb b @ take lc c)"
    using blake2b_parts [of "[]" 64 "[take la a, take lb b, take lc c]"] assms
      update_take [of _ a la] update_take [of _ b lb] update_take [of _ c lc]
    by (simp add: crypto_blake2b_init_def min_absorb2)
  then have "hash_reduce a la b lb c lc = crypto_eddsa_reduce (blake2b_spec 64 [] (take la a @ take lb b @ take lc c))"
    by (simp add: hash_reduce_def)
  then show "length (hash_reduce a la b lb c lc) = 32"
    "le_num (hash_reduce a la b lb c lc) = hash_scalar (take la a @ take lb b @ take lc c)"
    using reduce_num [of "blake2b_spec 64 [] (take la a @ take lb b @ take lc c)"]
    by (simp_all add: blake2b_spec_length hash_scalar_def)
qed

lemma check_equation_total:
  assumes "length signature = 64" and "length pk = 32" and "length h = 32"
  shows "post (crypto_eddsa_check_equation signature pk h) (\<lambda>r. (r = 0 \<or> r = - 1) \<and> (order_L \<le> le_num (drop 32 signature) \<longrightarrow> r = - 1))"
proof -
  have l: "length (load32_le_buf (drop 32 signature) 8) = 8"
    "limbs (load32_le_buf (drop 32 signature) 8) = le_num (drop 32 signature)"
    using load_num [of 8 "drop 32 signature"] assms(1) by (simp_all add: load32_le_buf_def)
  obtain ra A where A: "ge_frombytes_neg_vartime pk = Some (ra, A)" "ra = - 1 \<or> ra = 0 \<and> (\<exists>g. A = Some g \<and> ge_ok g)"
    using ge_frombytes_total [OF assms(2)] unfolding post_def split_paired_Ex prod.case by blast
  obtain rr B where B: "ge_frombytes_neg_vartime (take 32 signature) = Some (rr, B)"
    "rr = - 1 \<or> rr = 0 \<and> (\<exists>g. B = Some g \<and> ge_ok g)"
    using ge_frombytes_total [of "take 32 signature"] assms(1) unfolding post_def split_paired_Ex prod.case by auto
  have s: "length (drop 32 signature) = 32" using assms(1) by simp
  show ?thesis
    using A(2) B(2) check_points_total [OF _ _ s assms(3)]
    by (auto simp: crypto_eddsa_check_equation_def Let_def A(1) B(1) is_above_l_num [OF l(1)] l(2) post_Some intro: post_mono)
qed

lemma trim_take: "crypto_eddsa_trim_scalar (take 32 s) = crypto_eddsa_trim_scalar s"
  by (simp add: crypto_eddsa_trim_scalar_def)



section \<open>Conversions\<close>

text \<open>Public keys of the two schemes: the map between the coordinates of the two forms of the curve, and its inverse.\<close>

lemma tobytes_last:
  assumes "is_fe 1 f v" and "v mod p25519 = w mod p25519"
  shows "post (fe_tobytes f) (\<lambda>s. length s = 32 \<and> int (le_num s) = w mod p25519)"
  using tobytes_step [OF assms(1), of Some] assms(2) by (simp add: post_Some)

lemma to_x25519_ok:
  assumes "length e = 32"
  defines "y \<equiv> int (le_num e mod 2 ^ 255)"
  shows "post (crypto_eddsa_to_x25519 e) (\<lambda>u. length u = 32 \<and> int (le_num u) = (1 + y) * field_inv ((1 - y) mod p25519) mod p25519)"
  unfolding crypto_eddsa_to_x25519_def y_def
  by (rule fe_steps tobytes_last assms(1) is_fe_constants refl | assumption | simp (no_asm); fail)+

lemma to_eddsa_ok:
  assumes "length x = 32"
  defines "u \<equiv> int (le_num x mod 2 ^ 255)"
  shows "post (crypto_x25519_to_eddsa x) (\<lambda>y. length y = 32 \<and> int (le_num y) = (u - 1) * field_inv ((u + 1) mod p25519) mod p25519)"
  unfolding crypto_x25519_to_eddsa_def u_def
  by (rule fe_steps tobytes_last assms(1) is_fe_constants refl | assumption | simp (no_asm); fail)+

text \<open>Conversion of public keys. For any 32 bytes both conversions return without overflow;
going to the key exchange and back
  gives the canonical y coordinate of the key with the sign bit cleared, if the two denominators have quadratic
  character 1 or -1 (that is, y is not 1 and u is not -1).\<close>

theorem key_conversion:
  assumes "length e = 32" and "length x = 32"
  defines "y \<equiv> int (le_num e mod 2 ^ 255)"
  defines "u \<equiv> (1 + y) * field_inv ((1 - y) mod p25519) mod p25519"
  shows "(\<exists>t. crypto_x25519_to_eddsa x = Some t \<and> length t = 32) \<and>
    (\<exists>v. crypto_eddsa_to_x25519 e = Some v \<and> length v = 32 \<and> int (le_num v) = u \<and>
      ((character (1 - y) = 1 \<or> character (1 - y) = p25519 - 1) \<and> (character (u + 1) = 1 \<or> character (u + 1) = p25519 - 1) \<longrightarrow>
        (\<exists>t. crypto_x25519_to_eddsa v = Some t \<and> length t = 32 \<and> int (le_num t) = y mod p25519)))"
proof
  show "\<exists>t. crypto_x25519_to_eddsa x = Some t \<and> length t = 32" using to_eddsa_ok [OF assms(2)] by (auto simp: post_def)
  obtain v where v: "crypto_eddsa_to_x25519 e = Some v" "length v = 32" "int (le_num v) = u"
    using to_x25519_ok [OF assms(1), folded y_def, folded u_def] by (auto simp: post_def)
  have "int (le_num v) < int (2 ^ 255)"
  proof -
    have "u < p25519" "p25519 < int (2 ^ 255)" by (simp_all add: u_def p25519_def)
    then show ?thesis unfolding v(3) by (rule less_trans)
  qed
  then have l: "le_num v mod 2 ^ 255 = le_num v" by (simp only: of_nat_less_iff mod_less)
  obtain t where t: "crypto_x25519_to_eddsa v = Some t" "length t = 32"
    "int (le_num t) = (u - 1) * field_inv ((u + 1) mod p25519) mod p25519"
    using to_eddsa_ok [OF v(2)] unfolding l v(3) by (auto simp: post_def)
  have "int (le_num t) = y mod p25519"
    if a: "character (1 - y) = 1 \<or> character (1 - y) = p25519 - 1" and b: "character (u + 1) = 1 \<or> character (u + 1) = p25519 - 1"
  proof -
    have "u * (1 - y) mod p25519 = (1 + y) * (1 - y) * field_inv ((1 - y) mod p25519) mod p25519"
      unfolding u_def by (simp only: mod_mult_left_eq) (simp only: ac_simps)
    then have "u * (1 - y) mod p25519 = (1 + y) mod p25519" unfolding field_inv_cancel [OF a] .
    from mod_add_cong [OF this refl, of "y * u - 1"]
    have "(u - 1) mod p25519 = y * (u + 1) mod p25519" by (simp add: algebra_simps)
    then have "(u - 1) * field_inv ((u + 1) mod p25519) mod p25519 = y * (u + 1) * field_inv ((u + 1) mod p25519) mod p25519"
      by (rule mod_mult_cong [OF _ refl])
    then show ?thesis unfolding t(3) field_inv_cancel [OF b] .
  qed
  then show "\<exists>v. crypto_eddsa_to_x25519 e = Some v \<and> length v = 32 \<and> int (le_num v) = u \<and>
      ((character (1 - y) = 1 \<or> character (1 - y) = p25519 - 1) \<and> (character (u + 1) = 1 \<or> character (u + 1) = p25519 - 1) \<longrightarrow>
        (\<exists>t. crypto_x25519_to_eddsa v = Some t \<and> length t = 32 \<and> int (le_num t) = y mod p25519))"
    using v t by blast
qed

theorem key_conversion_witness:
  "(\<exists>t. crypto_x25519_to_eddsa (9 # replicate 31 0) = Some t \<and> length t = 32) \<and>
   (\<exists>v t. crypto_eddsa_to_x25519 (replicate 32 0) = Some v \<and> crypto_x25519_to_eddsa (replicate 32 0) = Some t)"
  using key_conversion [of "replicate 32 0" "9 # replicate 31 0"] key_conversion [of "replicate 32 0"
  "replicate 32 0"] by auto

end
